(* ===== verification/Prelude.thy ===== *)
theory Prelude
  imports Main "HOL-Library.Char_ord" "HOL-Library.List_Lexorder" "HOL-Library.Product_Lexorder"
begin

text \<open>
  What the component theories share: the names of the model's basic types, the error values that
  stand for the sentinel errors of the Go packages, the sum-typed results with their sequencing
  operators (a Go function that returns \<open>(T, error)\<close> is a function into \<open>'a res\<close>), and the
  generic facts on lists and association lists that the component proofs rest on.  Facts that
  belong to one group of proofs are gathered in the named collections below.
\<close>

named_theorems res_simps \<open>rewrite rules for the sequencing of fallible steps\<close>
named_theorems entry_simps \<open>rewrite rules for the envelope of an entry\<close>
named_theorems session_simps \<open>rewrite rules for the fields of a session after an update\<close>

section \<open>Names of the basic types\<close>

type_synonym eid = string        \<comment> \<open>an entry ID: the hash of an envelope, or the empty string\<close>
type_synonym json = string       \<comment> \<open>raw JSON text, as \<open>json.RawMessage\<close> holds it\<close>
type_synonym timestamp = nat     \<comment> \<open>an instant; 0 is Go's zero time\<close>

section \<open>Errors as values\<close>

text \<open>
  One constructor per sentinel error of the packages; \<open>EInvalid\<close> is an error a function builds on
  the spot with \<open>errors.New\<close> or \<open>fmt.Errorf\<close> around no sentinel.
\<close>

datatype error =
    EInvalid string
  | ENoEntry | EBadConvergence | EBadID | EBaseRule | EReservedMember | ENoRaise
  | EUnsupportedFormat | ERedactedFrom | ESuperseded | ECalleeLink | ESpawnLink | ESpawnIDRepeated
  | EBadTarget | ECallIDEmpty | ECallIDRepeated | EBadCopiedFrom | ECopiedCall | EResultMismatch
  | ECallReturned | ECallAnswered | ECallRejected | EBadWithdrawal | ERejectDispatched
  | ECallCompleted | EAnswerNotDispatched | EBadResult | EHeadMoved | EHeadTarget | EMediaDiffers
  | EUnresolvedMigration | EOmitOverlap | EReasonMismatch | ESourceMismatch | EBadFromLink
  | EDrainMismatch | ERecordMissing | ELinkMismatch
  | ECopyMismatch | EStale | EBadRedacted | EScanMigrated | ETruncatedLine nat string
  | ENoSession | ESessionExists | ENotRedacted | ENoRef | ERefName | ERefMoved string string | ENoBlob
  | EOriginChain | ESyntheticMarker | EStaleLog | EChildNotFound | EChildElsewhere

type_synonym 'a res = "error + 'a"

text \<open>\<open>errors.Is(err, ErrNoEntry)\<close>: the base rule's error unwraps to \<open>ErrNoEntry\<close> too.\<close>

definition is_no_entry :: "error \<Rightarrow> bool" where
  "is_no_entry e \<longleftrightarrow> e = ENoEntry \<or> e = EBaseRule"

section \<open>Sequencing fallible steps\<close>

definition bind_res :: "'e + 'a \<Rightarrow> ('a \<Rightarrow> 'e + 'b) \<Rightarrow> 'e + 'b" where
  "bind_res m f = (case m of Inl e \<Rightarrow> Inl e | Inr x \<Rightarrow> f x)"

definition then_res :: "'e + unit \<Rightarrow> 'e + 'b \<Rightarrow> 'e + 'b" where
  "then_res m k = bind_res m (\<lambda>_. k)"

text \<open>\<open>refuse b e\<close> is the early return \<open>if b { return e }\<close>.\<close>

definition refuse :: "bool \<Rightarrow> 'e \<Rightarrow> 'e + unit" where
  "refuse b e = (if b then Inl e else Inr ())"

lemma bind_res_simps [simp, res_simps]:
  "bind_res (Inl e) f = Inl e" "bind_res (Inr x) f = f x"
  by (simp_all add: bind_res_def)

lemma then_res_simps [simp, res_simps]:
  "then_res (Inl e) k = Inl e" "then_res (Inr u) k = k"
  by (simp_all add: then_res_def)

lemma bind_res_Inr [res_simps]:
  "bind_res m f = Inr y \<longleftrightarrow> (\<exists>x. m = Inr x \<and> f x = Inr y)"
  by (cases m) auto

lemma then_res_Inr [res_simps]:
  "then_res m k = Inr y \<longleftrightarrow> m = Inr () \<and> k = Inr y"
  by (cases m) auto

lemma then_res_Inl [res_simps]:
  "then_res m k = Inl x \<longleftrightarrow> m = Inl x \<or> m = Inr () \<and> k = Inl x"
  by (cases m) auto

lemma refuse_Inr [simp, res_simps]: "refuse b e = Inr u \<longleftrightarrow> \<not> b"
  by (simp add: refuse_def)

lemma refuse_Inl [simp, res_simps]: "refuse b e = Inl e' \<longleftrightarrow> b \<and> e' = e"
  by (auto simp: refuse_def)

lemma refuse_cases [simp]: "refuse True e = Inl e" "refuse False e = Inr ()"
  by (simp_all add: refuse_def)

text \<open>A loop that returns the first error its body meets.\<close>

fun each_res :: "('a \<Rightarrow> 'e + unit) \<Rightarrow> 'a list \<Rightarrow> 'e + unit" where
  "each_res f [] = Inr ()"
| "each_res f (x # xs) = then_res (f x) (each_res f xs)"

lemma each_res_Inr [res_simps]:
  "each_res f xs = Inr u \<longleftrightarrow> (\<forall>x\<in>set xs. f x = Inr ())"
  by (induction xs) (auto simp: then_res_Inr)

lemma each_res_Inl: "each_res f xs = Inl e \<Longrightarrow> \<exists>x\<in>set xs. f x = Inl e"
  by (induction xs) (auto simp: then_res_Inl)

lemma each_res_cong [cong]:
  "xs = ys \<Longrightarrow> (\<And>x. x \<in> set ys \<Longrightarrow> f x = g x) \<Longrightarrow> each_res f xs = each_res g ys"
  by (induction xs arbitrary: ys) auto

section \<open>Lists\<close>

text \<open>The last element of a list with a property, as a Go loop that keeps overwriting finds it.\<close>

definition find_last :: "('a \<Rightarrow> bool) \<Rightarrow> 'a list \<Rightarrow> 'a option" where
  "find_last P xs = find P (rev xs)"

lemma find_append: "find P (xs @ ys) = (case find P xs of None \<Rightarrow> find P ys | Some x \<Rightarrow> Some x)"
  by (induction xs) auto

lemma find_last_Nil [simp]: "find_last P [] = None"
  by (simp add: find_last_def)

lemma find_last_snoc [simp]:
  "find_last P (xs @ [x]) = (if P x then Some x else find_last P xs)"
  by (simp add: find_last_def)

lemma find_Some_set: "find P xs = Some x \<Longrightarrow> x \<in> set xs \<and> P x"
  by (auto simp: find_Some_iff)

lemma find_last_Some_set: "find_last P xs = Some x \<Longrightarrow> x \<in> set xs \<and> P x"
  unfolding find_last_def by (drule find_Some_set) simp

lemma find_last_None: "find_last P xs = None \<longleftrightarrow> (\<forall>x\<in>set xs. \<not> P x)"
  by (auto simp: find_last_def find_None_iff)

lemma map_of_snoc:
  "k \<notin> fst ` set xs \<Longrightarrow> map_of (xs @ [(k, v)]) = (map_of xs)(k \<mapsto> v)"
  by (induction xs) (auto simp: fun_eq_iff)

text \<open>An in-place update that keeps a projection of the element keeps it at every index.\<close>

lemma nth_update_proj:
  "(\<And>x. g (f x) = g x) \<Longrightarrow> g ((xs[i := f (xs ! i)]) ! j) = g (xs ! j)"
  by (cases "i < length xs"; cases "i = j") (auto simp: list_update_beyond not_less)

lemma map_update_proj:
  "(\<And>x. g (f x) = g x) \<Longrightarrow> map g (xs[i := f (xs ! i)]) = map g xs"
  by (rule nth_equalityI) (auto simp: nth_update_proj)

section \<open>Decimal numerals\<close>

text \<open>The digits \<open>strconv\<close> reads, and \<open>strconv.FormatUint\<close> and \<open>Itoa\<close> in base ten.\<close>

definition digit :: "char \<Rightarrow> nat option" where
  "digit c = (let n = (of_char c :: nat) in if 48 \<le> n \<and> n \<le> 57 then Some (n - 48) else None)"

fun digits_val :: "string \<Rightarrow> nat \<Rightarrow> nat option" where
  "digits_val [] acc = Some acc"
| "digits_val (c # cs) acc = (case digit c of None \<Rightarrow> None | Some d \<Rightarrow> digits_val cs (acc * 10 + d))"

fun decimal :: "nat \<Rightarrow> string" where
  "decimal n = (if n < 10 then [char_of (48 + n)] else decimal (n div 10) @ [char_of (48 + n mod 10)])"

declare decimal.simps [simp del]

lemma digits_val_append: "digits_val (xs @ ys) acc = (case digits_val xs acc of None \<Rightarrow> None | Some a \<Rightarrow> digits_val ys a)"
  by (induction xs arbitrary: acc) (auto split: option.split)

lemma digit_char: "n < 10 \<Longrightarrow> digit (char_of (48 + n)) = Some n"
  by (simp add: digit_def Let_def of_char_of)

lemma decimal_back: "digits_val (decimal n) 0 = Some n"
proof (induction n rule: decimal.induct)
  case (1 n)
  show ?case
  proof (cases "n < 10")
    case True
    then show ?thesis by (subst decimal.simps) (simp add: digit_char)
  next
    case False
    with 1 have "digits_val (decimal (n div 10)) 0 = Some (n div 10)" by simp
    then show ?thesis
      using False digit_char [of "n mod 10"] by (subst decimal.simps) (simp add: digits_val_append)
  qed
qed

lemma decimal_digits: "c \<in> set (decimal n) \<Longrightarrow> 48 \<le> (of_char c :: nat) \<and> (of_char c :: nat) \<le> 57"
proof (induction n rule: decimal.induct)
  case (1 n)
  then show ?case by (subst (asm) (2) decimal.simps) (auto simp: of_char_of split: if_splits)
qed

lemma decimal_ne [simp]: "decimal n \<noteq> []"
  by (subst decimal.simps) simp

lemma decimal_plain: "c \<in> set (decimal n) \<Longrightarrow> c \<noteq> CHR '':'' \<and> c \<noteq> CHR ''-'' \<and> c \<noteq> CHR ''+''"
  using decimal_digits [of c n] by auto

text \<open>A numeral other than that of zero starts with no zero, and its length is that of its number.\<close>

lemma decimal_rec: "10 \<le> n \<Longrightarrow> decimal n = decimal (n div 10) @ [char_of (48 + n mod 10)]"
  by (subst decimal.simps) simp

lemma decimal_small: "n < 10 \<Longrightarrow> decimal n = [char_of (48 + n)]"
  by (subst decimal.simps) simp

lemma decimal_hd: "0 < n \<Longrightarrow> hd (decimal n) \<noteq> CHR ''0''"
proof (induction n rule: decimal.induct)
  case (1 n)
  show ?case
  proof (cases "n < 10")
    case True
    with 1(2) have "(of_char (char_of (48 + n)) :: nat) \<noteq> of_char (CHR ''0'')" by simp
    then have "char_of (48 + n) \<noteq> CHR ''0''" by metis
    then show ?thesis using True by (simp add: decimal_small)
  qed (use 1 in \<open>simp add: decimal_rec\<close>)
qed

lemma decimal_append_zeros: "0 < d \<Longrightarrow> decimal (d * 10 ^ z) = decimal d @ replicate z (CHR ''0'')"
proof (induction z)
  case (Suc z)
  have "d * 10 ^ Suc z div 10 = d * 10 ^ z" "d * 10 ^ Suc z mod 10 = 0" by simp_all
  moreover from Suc.prems have "10 \<le> d * 10 ^ Suc z" by simp
  moreover have "char_of (48 + 0 :: nat) = CHR ''0''" by (simp add: char_of_def bit_iff_odd)
  ultimately show ?case using Suc decimal_rec [of "d * 10 ^ Suc z"] replicate_append_same [of z "CHR ''0''"]
    by simp
qed simp

lemma decimal_length: "0 < n \<Longrightarrow> 10 ^ (length (decimal n) - 1) \<le> n \<and> n < 10 ^ length (decimal n)"
proof (induction n rule: decimal.induct)
  case (1 n)
  show ?case
  proof (cases "n < 10")
    case False
    with 1 have "10 ^ (length (decimal (n div 10)) - 1) \<le> n div 10 \<and> n div 10 < 10 ^ length (decimal (n div 10))" by simp
    moreover have "0 < length (decimal (n div 10))" by simp
    then obtain k where "length (decimal (n div 10)) = Suc k" by (metis Suc_pred)
    ultimately show ?thesis using False by (simp add: decimal_rec) linarith
  qed (use 1 in \<open>simp add: decimal_small\<close>)
qed

end
