(* ===== verification/Entries.thy ===== *)
theory Entries
  imports Prelude
begin

text \<open>
  The data of \<open>entry.go\<close> and \<open>lifecycle.go\<close>: the envelope every entry carries, the seventeen entry
  types, and the builders and member-level rules that do not depend on a session.  A Go struct is a
  record with the same members (a pointer member is an \<open>option\<close>, a map member an association
  list, an opaque third-party struct its JSON text, a slice the code compares with nil an option); the interface \<open>Entry\<close> is a datatype with one
  constructor per concrete type.  The items of the payload profile come from the third-party package
  \<open>openresponses\<close>; the datatype \<open>item\<close> has the cases the code distinguishes by a type
  switch, with the members it reads, and the rest of an item as opaque JSON.
\<close>

section \<open>Items of the payload profile\<close>

datatype content =
    InputImage json
  | InputText string
  | OtherContent json

record output_data =
  od_Text :: string
  od_Parts :: "content list"

datatype item =
    FunctionCall (fc_CallID: string) (fc_Arguments: string) (fc_rest: json)
  | FunctionCallOutput (fco_CallID: string) (fco_Output: output_data) (fco_rest: json)
  | Message (msg_Role: string) (msg_Content: "content list") (msg_rest: json)
  | ReasoningItem (ri_rest: json)
  | ItemReference (ir_rest: json)
  | OtherItem (oi_rest: json)

section \<open>The envelope\<close>

record entry_ref =
  r_Session :: string
  r_Entry :: string
  r_extra :: string

record normalisation =
  n_At :: string
  n_Was :: string
  n_Raw :: string

type_synonym span = "int \<times> int"

record entry_base =
  b_ID :: eid
  b_Parent :: eid
  b_Parents :: "entry_ref list"
  b_Timestamp :: timestamp
  b_LegacyID :: string
  b_Normalised :: "normalisation list"
  b_redacted :: "span list"
  b_isRedacted :: bool
  b_redactedRaw :: "json option"
  b_gated :: bool
  b_Unknown :: "(string \<times> json) list"
  b_content :: string
  b_tsRaw :: string

definition new_base :: entry_base where
  "new_base = \<lparr>b_ID = [], b_Parent = [], b_Parents = [], b_Timestamp = 0, b_LegacyID = [],
     b_Normalised = [], b_redacted = [], b_isRedacted = False, b_redactedRaw = None, b_gated = False, b_Unknown = [],
     b_content = [], b_tsRaw = []\<rparr>"

section \<open>Members shared by several entry types\<close>

record layer_ref =
  lr_ID :: string
  lr_Source :: string

record trust =
  t_Reads :: "string list"

record copied_from =
  cf_Session :: string
  cf_Entry :: string

record trigger =
  tr_Kind :: string
  tr_Ref :: string
  tr_Source :: string
  tr_Unknown :: "(string \<times> json) list"

record instruction_part =
  ip_ID :: string
  ip_Text :: string
  ip_Source :: string
  ip_Trust :: "trust option"
  ip_Hash :: string
  ip_Keep :: int
  ip_unresolved :: bool

record omitted_part =
  om_ID :: string
  om_Reason :: string
  om_Size :: int
  om_Source :: string
  om_Keep :: int
  om_Of :: string

record omit_output_group =
  og_Text :: string
  og_Items :: "string list"

record omit_outputs =
  oo_Text :: string
  oo_Items :: "string list"
  oo_Groups :: "omit_output_group list"
  oo_textSet :: bool

record omit_images =
  oi_Keep :: int
  oi_Before :: string
  oi_Placeholder :: string

record omit =
  o_Reasoning :: string
  o_Items :: "string list"
  o_Outputs :: "omit_outputs option"
  o_Images :: "omit_images option"
  o_undefined :: bool

text \<open>A tool: its name as \<open>ToolName\<close> reads it, empty when it has none, and the tool itself.\<close>

record tool =
  tl_Name :: string
  tl_raw :: json

text \<open>
  The settings a model call runs under (\<open>context.go\<close>).  The two histories are linked lists of
  immutable nodes in the code, newest first: lists of nodes here.
\<close>

record settings =
  s_Model :: string
  s_Instructions :: string
  s_Reasoning :: json
  s_Text :: json
  s_InstructionsParts :: "instruction_part list"
  s_InstructionsOmitted :: "omitted_part list"
  s_Omit :: omit
  s_Tools :: "tool list"
  s_Extra :: "(string \<times> json) list"
  s_left :: "instruction_part list list"
  s_lists :: "(string \<times> omitted_part list) list"

section \<open>The entry types\<close>

record item_entry =
  it_base :: entry_base
  it_Item :: "item option"
  it_ResponseID :: string
  it_Visible :: "bool option"
  it_Source :: "trigger option"
  it_QueuedFrom :: string
  it_Failed :: bool
  it_FromLink :: string
  it_CopiedFrom :: "copied_from option"
  it_Trust :: "trust option"
  it_InstructionsPart :: "layer_ref option"
  it_InstructionsLayers :: "layer_ref list option"

record response_entry =
  rp_base :: entry_base
  rp_ResponseID :: string
  rp_Model :: string
  rp_Status :: string
  rp_Usage :: "json option"
  rp_Incomplete :: "json option"
  rp_Error :: "json option"
  rp_RequestHash :: string
  rp_LatencyMS :: int
  rp_Attempts :: int

record config_entry =
  c_base :: entry_base
  c_Model :: string
  c_Instructions :: "string option"
  c_Reasoning :: "json option"
  c_Text :: "json option"
  c_InstructionsParts :: "instruction_part list"
  c_InstructionsOmitted :: "omitted_part list option"
  c_ToolsAdded :: "tool list"
  c_ToolsRemoved :: "string list"
  c_Extra :: "(string \<times> json) list"
  c_Replace :: bool
  c_Omit :: "omit option"

record compaction_entry =
  cp_base :: entry_base
  cp_FirstKept :: eid
  cp_Summary :: "item option"
  cp_Pinned :: "item list"
  cp_Config :: settings
  cp_TokensBefore :: int
  cp_Usage :: "json option"
  cp_Trust :: "trust option"
  cp_Requested :: bool
  cp_Instructions :: string

record branch_summary_entry =
  bs_base :: entry_base
  bs_From :: eid
  bs_Summary :: "item option"
  bs_Usage :: "json option"
  bs_Trust :: "trust option"

record run_entry =
  rn_base :: entry_base
  rn_RunID :: string
  rn_Phase :: string
  rn_Source :: string
  rn_Reason :: string
  rn_Ref :: string
  rn_Trigger :: "trigger option"
  rn_Pending :: "string list"

record dispatch_entry =
  dp_base :: entry_base
  dp_CallID :: string
  dp_Target :: eid
  dp_IdempotencyKey :: string

record decision_entry =
  dc_base :: entry_base
  dc_CallID :: string
  dc_Target :: eid
  dc_Verdict :: string
  dc_By :: string
  dc_Reason :: string
  dc_Args :: json
  dc_Withdrawn :: bool

record queued_entry =
  q_base :: entry_base
  q_Item :: "item option"
  q_Mode :: string
  q_Trigger :: "trigger option"
  q_Ref :: string
  q_Deliver :: bool
  q_Visible :: "bool option"
  q_Trust :: "trust option"
  q_InstructionsPart :: "layer_ref option"
  q_InstructionsLayers :: "layer_ref list option"

record result_entry =
  rs_base :: entry_base
  rs_CallID :: string
  rs_Target :: eid
  rs_Item :: "item option"
  rs_Failed :: bool
  rs_Trust :: "trust option"

record label_entry =
  lb_base :: entry_base
  lb_Target :: eid
  lb_Label :: "string option"

record info_entry =
  in_base :: entry_base
  in_Name :: string

record env_entry =
  ev_base :: entry_base
  ev_body :: json

record outcome_entry =
  oc_base :: entry_base
  oc_Kind :: string
  oc_Target :: eid
  oc_body :: json

record link_entry =
  ln_base :: entry_base
  ln_Rel :: string
  ln_Session :: string
  ln_CallID :: string
  ln_SpawnID :: string
  ln_Target :: eid
  ln_URL :: string
  ln_Task :: string
  ln_Context :: string
  ln_Cancel :: string

record custom_entry =
  cu_base :: entry_base
  cu_NS :: string
  cu_Data :: json
  cu_CallID :: string

record unknown_entry =
  un_base :: entry_base
  un_Type :: string
  un_Raw :: json

datatype entry =
    ItemEntry item_entry
  | ResponseEntry response_entry
  | ConfigEntry config_entry
  | CompactionEntry compaction_entry
  | BranchSummaryEntry branch_summary_entry
  | RunEntry run_entry
  | DispatchEntry dispatch_entry
  | DecisionEntry decision_entry
  | QueuedEntry queued_entry
  | ResultEntry result_entry
  | LabelEntry label_entry
  | InfoEntry info_entry
  | EnvEntry env_entry
  | OutcomeEntry outcome_entry
  | LinkEntry link_entry
  | CustomEntry custom_entry
  | UnknownEntry unknown_entry

text \<open>\<open>Entry.Base\<close>, and the update through the pointer it returns.\<close>

fun base_of :: "entry \<Rightarrow> entry_base" where
  "base_of (ItemEntry v) = it_base v"
| "base_of (ResponseEntry v) = rp_base v"
| "base_of (ConfigEntry v) = c_base v"
| "base_of (CompactionEntry v) = cp_base v"
| "base_of (BranchSummaryEntry v) = bs_base v"
| "base_of (RunEntry v) = rn_base v"
| "base_of (DispatchEntry v) = dp_base v"
| "base_of (DecisionEntry v) = dc_base v"
| "base_of (QueuedEntry v) = q_base v"
| "base_of (ResultEntry v) = rs_base v"
| "base_of (LabelEntry v) = lb_base v"
| "base_of (InfoEntry v) = in_base v"
| "base_of (EnvEntry v) = ev_base v"
| "base_of (OutcomeEntry v) = oc_base v"
| "base_of (LinkEntry v) = ln_base v"
| "base_of (CustomEntry v) = cu_base v"
| "base_of (UnknownEntry v) = un_base v"

fun upd_base :: "(entry_base \<Rightarrow> entry_base) \<Rightarrow> entry \<Rightarrow> entry" where
  "upd_base f (ItemEntry v) = ItemEntry (v\<lparr>it_base := f (it_base v)\<rparr>)"
| "upd_base f (ResponseEntry v) = ResponseEntry (v\<lparr>rp_base := f (rp_base v)\<rparr>)"
| "upd_base f (ConfigEntry v) = ConfigEntry (v\<lparr>c_base := f (c_base v)\<rparr>)"
| "upd_base f (CompactionEntry v) = CompactionEntry (v\<lparr>cp_base := f (cp_base v)\<rparr>)"
| "upd_base f (BranchSummaryEntry v) = BranchSummaryEntry (v\<lparr>bs_base := f (bs_base v)\<rparr>)"
| "upd_base f (RunEntry v) = RunEntry (v\<lparr>rn_base := f (rn_base v)\<rparr>)"
| "upd_base f (DispatchEntry v) = DispatchEntry (v\<lparr>dp_base := f (dp_base v)\<rparr>)"
| "upd_base f (DecisionEntry v) = DecisionEntry (v\<lparr>dc_base := f (dc_base v)\<rparr>)"
| "upd_base f (QueuedEntry v) = QueuedEntry (v\<lparr>q_base := f (q_base v)\<rparr>)"
| "upd_base f (ResultEntry v) = ResultEntry (v\<lparr>rs_base := f (rs_base v)\<rparr>)"
| "upd_base f (LabelEntry v) = LabelEntry (v\<lparr>lb_base := f (lb_base v)\<rparr>)"
| "upd_base f (InfoEntry v) = InfoEntry (v\<lparr>in_base := f (in_base v)\<rparr>)"
| "upd_base f (EnvEntry v) = EnvEntry (v\<lparr>ev_base := f (ev_base v)\<rparr>)"
| "upd_base f (OutcomeEntry v) = OutcomeEntry (v\<lparr>oc_base := f (oc_base v)\<rparr>)"
| "upd_base f (LinkEntry v) = LinkEntry (v\<lparr>ln_base := f (ln_base v)\<rparr>)"
| "upd_base f (CustomEntry v) = CustomEntry (v\<lparr>cu_base := f (cu_base v)\<rparr>)"
| "upd_base f (UnknownEntry v) = UnknownEntry (v\<lparr>un_base := f (un_base v)\<rparr>)"

abbreviation e_id :: "entry \<Rightarrow> eid" where
  "e_id e \<equiv> b_ID (base_of e)"

abbreviation e_parent :: "entry \<Rightarrow> eid" where
  "e_parent e \<equiv> b_Parent (base_of e)"

lemma base_of_upd_base [simp, entry_simps]: "base_of (upd_base f e) = f (base_of e)"
  by (cases e) simp_all

lemma upd_base_upd_base [simp, entry_simps]: "upd_base f (upd_base g e) = upd_base (f \<circ> g) e"
  by (cases e) simp_all

lemma upd_base_id [simp, entry_simps]: "upd_base (\<lambda>b. b) e = e"
  by (cases e) simp_all

section \<open>Leaf labels and the tool-call items of an entry\<close>

definition LeafLabel :: string where
  "LeafLabel = ''leaf''"

text \<open>The test \<open>l.Label != nil && *l.Label == LeafLabel\<close> the session makes in several places.\<close>

definition is_leaf_label :: "entry \<Rightarrow> bool" where
  "is_leaf_label e = (case e of LabelEntry l \<Rightarrow> lb_Label l = Some LeafLabel | _ \<Rightarrow> False)"

lemma is_leaf_label_upd_base [simp, entry_simps]: "is_leaf_label (upd_base f e) = is_leaf_label e"
  by (cases e) (simp_all add: is_leaf_label_def)

text \<open>The function call an item entry holds, and the function call output.\<close>

fun call_of :: "entry \<Rightarrow> string option" where
  "call_of (ItemEntry v) =
     (case it_Item v of Some (FunctionCall c a r) \<Rightarrow> Some c | _ \<Rightarrow> None)"
| "call_of _ = None"

fun output_of :: "entry \<Rightarrow> string option" where
  "output_of (ItemEntry v) =
     (case it_Item v of Some (FunctionCallOutput c out r) \<Rightarrow> Some c | _ \<Rightarrow> None)"
| "output_of _ = None"

lemma call_of_upd_base [simp, entry_simps]: "call_of (upd_base f e) = call_of e"
  by (cases e) simp_all

lemma output_of_upd_base [simp, entry_simps]: "output_of (upd_base f e) = output_of e"
  by (cases e) simp_all

section \<open>Builders (lifecycle.go, env.go)\<close>

definition RunStart :: string where "RunStart = ''start''"
definition RunEnd :: string where "RunEnd = ''end''"
definition SourceInput :: string where "SourceInput = ''input''"
definition SourceResume :: string where "SourceResume = ''resume''"
definition ReasonDone :: string where "ReasonDone = ''done''"
definition ReasonStopped :: string where "ReasonStopped = ''stopped''"
definition ReasonInterrupted :: string where "ReasonInterrupted = ''interrupted''"
definition ReasonInputRequired :: string where "ReasonInputRequired = ''input_required''"
definition ReasonAborted :: string where "ReasonAborted = ''aborted''"
definition ReasonError :: string where "ReasonError = ''error''"
definition VerdictProceed :: string where "VerdictProceed = ''proceed''"
definition VerdictReject :: string where "VerdictReject = ''reject''"
definition VerdictHold :: string where "VerdictHold = ''hold''"
definition VerdictAnswer :: string where "VerdictAnswer = ''answer''"
definition ModeSteer :: string where "ModeSteer = ''steer''"
definition RelSubsession :: string where "RelSubsession = ''subsession''"
definition RelContinuedIn :: string where "RelContinuedIn = ''continued_in''"
definition RelJudgedBy :: string where "RelJudgedBy = ''judged_by''"
definition RelPeer :: string where "RelPeer = ''peer''"
definition CancelSent :: string where "CancelSent = ''sent''"
definition TypeDispatch :: string where "TypeDispatch = ''dispatch''"
definition TriggerHuman :: string where "TriggerHuman = ''human''"
definition LayerAgentsMD :: string where "LayerAgentsMD = ''agentsmd''"
definition TrustPrivate :: string where "TrustPrivate = ''private''"
definition RoleUser :: string where "RoleUser = ''user''"

lemmas const_defs = RunStart_def RunEnd_def SourceInput_def SourceResume_def ReasonDone_def
  ReasonStopped_def ReasonInterrupted_def ReasonInputRequired_def ReasonAborted_def ReasonError_def
  VerdictProceed_def VerdictReject_def VerdictHold_def VerdictAnswer_def ModeSteer_def
  RelSubsession_def RelContinuedIn_def RelJudgedBy_def RelPeer_def CancelSent_def TypeDispatch_def
  TriggerHuman_def LayerAgentsMD_def TrustPrivate_def RoleUser_def LeafLabel_def

lemma verdicts_distinct [simp]:
  "VerdictReject \<noteq> VerdictAnswer" "VerdictAnswer \<noteq> VerdictReject"
  "VerdictHold \<noteq> VerdictReject" "VerdictReject \<noteq> VerdictHold"
  "VerdictHold \<noteq> VerdictAnswer" "VerdictAnswer \<noteq> VerdictHold"
  by (simp_all add: const_defs)

definition NewItemEntry :: "item \<Rightarrow> item_entry" where
  "NewItemEntry item = \<lparr>it_base = new_base, it_Item = Some item, it_ResponseID = [],
     it_Visible = None, it_Source = None, it_QueuedFrom = [], it_Failed = False, it_FromLink = [],
     it_CopiedFrom = None, it_Trust = None, it_InstructionsPart = None, it_InstructionsLayers = None\<rparr>"

definition NewLabelEntry :: "eid \<Rightarrow> string \<Rightarrow> label_entry" where
  "NewLabelEntry target label = \<lparr>lb_base = new_base, lb_Target = target, lb_Label = Some label\<rparr>"

definition NewRunStart :: "string \<Rightarrow> string \<Rightarrow> string \<Rightarrow> run_entry" where
  "NewRunStart runID source ref = \<lparr>rn_base = new_base, rn_RunID = runID, rn_Phase = RunStart,
     rn_Source = source, rn_Reason = [], rn_Ref = ref, rn_Trigger = None, rn_Pending = []\<rparr>"

definition NewRunEnd :: "string \<Rightarrow> string \<Rightarrow> string \<Rightarrow> string list \<Rightarrow> run_entry" where
  "NewRunEnd runID reason ref pending = \<lparr>rn_base = new_base, rn_RunID = runID, rn_Phase = RunEnd,
     rn_Source = [], rn_Reason = reason, rn_Ref = ref, rn_Trigger = None, rn_Pending = pending\<rparr>"

definition NewDispatch :: "string \<Rightarrow> eid \<Rightarrow> dispatch_entry" where
  "NewDispatch callID target =
     \<lparr>dp_base = new_base, dp_CallID = callID, dp_Target = target, dp_IdempotencyKey = []\<rparr>"

definition NewDecision :: "string \<Rightarrow> eid \<Rightarrow> string \<Rightarrow> string \<Rightarrow> decision_entry" where
  "NewDecision callID target verdict by = \<lparr>dc_base = new_base, dc_CallID = callID,
     dc_Target = target, dc_Verdict = verdict, dc_By = by, dc_Reason = [], dc_Args = [],
     dc_Withdrawn = False\<rparr>"

definition NewWithdrawal :: "string \<Rightarrow> eid \<Rightarrow> string \<Rightarrow> string \<Rightarrow> decision_entry" where
  "NewWithdrawal callID target by reason = \<lparr>dc_base = new_base, dc_CallID = callID,
     dc_Target = target, dc_Verdict = VerdictReject, dc_By = by, dc_Reason = reason, dc_Args = [],
     dc_Withdrawn = True\<rparr>"

definition NewResult :: "string \<Rightarrow> eid \<Rightarrow> item \<Rightarrow> result_entry" where
  "NewResult callID target out = \<lparr>rs_base = new_base, rs_CallID = callID, rs_Target = target,
     rs_Item = Some out, rs_Failed = False, rs_Trust = None\<rparr>"

text \<open>\<open>ResultEntry.Output\<close>: the entry that appends the result as the output of the call.\<close>

definition result_Output :: "result_entry \<Rightarrow> item_entry" where
  "result_Output r = \<lparr>it_base = new_base, it_Item = rs_Item r, it_ResponseID = [],
     it_Visible = None, it_Source = None, it_QueuedFrom = [], it_Failed = rs_Failed r,
     it_FromLink = [], it_CopiedFrom = None, it_Trust = rs_Trust r, it_InstructionsPart = None,
     it_InstructionsLayers = None\<rparr>"

definition IsStart :: "run_entry \<Rightarrow> bool" where
  "IsStart r \<longleftrightarrow> rn_Phase r = RunStart"

definition IsEnd :: "run_entry \<Rightarrow> bool" where
  "IsEnd r \<longleftrightarrow> rn_Phase r = RunEnd"

definition callee :: "link_entry \<Rightarrow> bool" where
  "callee l \<longleftrightarrow> ln_Rel l = RelSubsession \<or> ln_Rel l = RelPeer"

text \<open>
  \<open>Layers\<close> of an item and of a queued input: the single layer as a list of one, else the list;
  a nil list is \<open>None\<close>, since the code tells it from an empty one.
\<close>

definition item_Layers :: "item_entry \<Rightarrow> layer_ref list option" where
  "item_Layers e = (case it_InstructionsPart e of Some p \<Rightarrow> Some [p] | None \<Rightarrow> it_InstructionsLayers e)"

definition queued_Layers :: "queued_entry \<Rightarrow> layer_ref list option" where
  "queued_Layers e = (case q_InstructionsPart e of Some p \<Rightarrow> Some [p] | None \<Rightarrow> q_InstructionsLayers e)"

definition Requeue :: "queued_entry \<Rightarrow> queued_entry" where
  "Requeue e = \<lparr>q_base = new_base\<lparr>b_Unknown := b_Unknown (q_base e)\<rparr>, q_Item = q_Item e,
     q_Mode = q_Mode e, q_Trigger = q_Trigger e, q_Ref = q_Ref e, q_Deliver = q_Deliver e,
     q_Visible = q_Visible e, q_Trust = q_Trust e, q_InstructionsPart = q_InstructionsPart e,
     q_InstructionsLayers = q_InstructionsLayers e\<rparr>"

definition Drain :: "queued_entry \<Rightarrow> item_entry" where
  "Drain e = \<lparr>it_base = new_base, it_Item = q_Item e, it_ResponseID = [],
     it_Visible = q_Visible e, it_Source = q_Trigger e, it_QueuedFrom = b_ID (q_base e),
     it_Failed = False, it_FromLink = [], it_CopiedFrom = None, it_Trust = q_Trust e,
     it_InstructionsPart = q_InstructionsPart e, it_InstructionsLayers = q_InstructionsLayers e\<rparr>"

end
