(* ===== verification/Headers.thy ===== *)
theory Headers
  imports Entries
begin

text \<open>
  The header line of a session file (\<open>header.go\<close>): its fields, the parsing of its format version,
  the checks a reader makes of it, and the rule that decides whether a writer may raise it to a
  later minor.  Format 0.13 gave the member \<open>redacted_from\<close> a meaning, so a header of an earlier
  minor that happens to hold the member is never raised past 0.12.
\<close>

section \<open>The header\<close>

record redacted_from =
  rf_Session :: string
  rf_Profile :: string
  rf_Extra :: "(string \<times> json) list"

record header =
  h_Format :: string
  h_ID :: string
  h_CreatedAt :: timestamp
  h_Payload :: string
  h_Harness :: "json option"
  h_Records :: "string list"
  h_CWD :: string
  h_ParentSession :: string
  h_SpawnedBy :: string
  h_Base :: eid
  h_Media :: string
  h_Redacted :: bool
  h_RedactedFrom :: "redacted_from option"
  h_Extra :: "(string \<times> json) list"

definition Format :: string where "Format = ''agentsession/0.21''"
definition FormatMajor :: int where "FormatMajor = 0"
definition FormatMinor :: int where "FormatMinor = 21"
definition hashedMinor :: int where "hashedMinor = 5"
definition redactedFromMinor :: int where "redactedFromMinor = 13"
definition MediaInline :: string where "MediaInline = ''inline''"

definition mediaForm :: "string \<Rightarrow> string" where
  "mediaForm m = (if m = [] then MediaInline else m)"

definition HasRecord :: "header \<Rightarrow> string \<Rightarrow> bool" where
  "HasRecord h typ = list_ex (\<lambda>t. t = typ) (h_Records h)"

section \<open>Format versions\<close>

text \<open>\<open>strings.Cut\<close> at a one-character separator.\<close>

fun cut :: "char \<Rightarrow> string \<Rightarrow> (string \<times> string) option" where
  "cut c [] = None"
| "cut c (x # xs) = (if x = c then Some ([], xs) else map_option (\<lambda>(a, b). (x # a, b)) (cut c xs))"

text \<open>\<open>strconv.Atoi\<close>: an optional sign, then decimal digits only, in the range of a 64-bit integer.\<close>

definition Atoi :: "string \<Rightarrow> int option" where
  "Atoi s =
     (let neg = (s \<noteq> [] \<and> hd s = CHR ''-'');
          ds = (if s \<noteq> [] \<and> (hd s = CHR ''-'' \<or> hd s = CHR ''+'') then tl s else s)
      in if ds = [] then None
         else case digits_val ds 0 of
             None \<Rightarrow> None
           | Some n \<Rightarrow>
               if neg then (if int n \<le> 2 ^ 63 then Some (- int n) else None)
               else (if int n < 2 ^ 63 then Some (int n) else None))"

definition ParseFormat :: "string \<Rightarrow> (int \<times> int) res" where
  "ParseFormat format =
     (case cut (CHR ''/'') format of
        None \<Rightarrow> Inl EUnsupportedFormat
      | Some (name, version) \<Rightarrow>
          if name \<noteq> ''agentsession'' then Inl EUnsupportedFormat
          else case cut (CHR ''.'') version of
              None \<Rightarrow> Inl EUnsupportedFormat
            | Some (maj, mnr) \<Rightarrow>
                (case Atoi maj of
                   None \<Rightarrow> Inl EUnsupportedFormat
                 | Some major \<Rightarrow>
                     (case Atoi mnr of
                        None \<Rightarrow> Inl EUnsupportedFormat
                      | Some minor \<Rightarrow> Inr (major, minor))))"

text \<open>The minor a caller reads after discarding the error: 0 when the format does not parse.\<close>

definition minor_of :: "string \<Rightarrow> int" where
  "minor_of format = (case ParseFormat format of Inr (_, minor) \<Rightarrow> minor | Inl _ \<Rightarrow> 0)"

definition definesRedactedFrom :: "string \<Rightarrow> bool" where
  "definesRedactedFrom format =
     (case ParseFormat format of
        Inl _ \<Rightarrow> False
      | Inr (major, minor) \<Rightarrow> major > 0 \<or> minor \<ge> redactedFromMinor)"

section \<open>Checks and defaults\<close>

definition has_prefix :: "string \<Rightarrow> string \<Rightarrow> bool" where
  "has_prefix p s \<longleftrightarrow> take (length p) s = p"

definition Validate :: "header \<Rightarrow> unit res" where
  "Validate h =
     bind_res (ParseFormat (h_Format h)) (\<lambda>(major, minor).
     then_res (refuse (major \<noteq> FormatMajor) EUnsupportedFormat) (
     then_res (refuse (major = 0 \<and> minor > FormatMinor) EUnsupportedFormat) (
     then_res (refuse (h_ID h = []) (EInvalid ''header id is required'')) (
     then_res (refuse (h_CreatedAt h = 0) (EInvalid ''header created_at is required'')) (
     then_res (refuse (h_Payload h = []) (EInvalid ''header payload is required'')) (
     then_res (refuse (\<not> has_prefix ''openresponses/'' (h_Payload h))
                      (EInvalid ''unsupported payload profile'')) (
       case h_RedactedFrom h of
         None \<Rightarrow> Inr ()
       | Some r \<Rightarrow>
           if \<not> h_Redacted h then Inl ERedactedFrom
           else if rf_Session r = [] then Inl ERedactedFrom
           else if rf_Session r = h_ID h then Inl ERedactedFrom
           else Inr ())))))))"

text \<open>
  \<open>Header.fill\<close>; the payload profile of this build, the fresh UUIDv7 and the clock are arguments.
\<close>

definition fill :: "string \<Rightarrow> string \<Rightarrow> timestamp \<Rightarrow> header \<Rightarrow> header" where
  "fill payload newID now h =
     h\<lparr>h_Format := (if h_Format h = [] then Format else h_Format h),
       h_Payload := (if h_Payload h = [] then payload else h_Payload h),
       h_ID := (if h_ID h = [] then newID else h_ID h),
       h_CreatedAt := (if h_CreatedAt h = 0 then now else h_CreatedAt h)\<rparr>"

section \<open>Raising a header\<close>

definition holds_redacted_from :: "header \<Rightarrow> bool" where
  "holds_redacted_from h \<longleftrightarrow> ''redacted_from'' \<in> fst ` set (h_Extra h) \<or> h_RedactedFrom h \<noteq> None"

definition header_raiseRefused :: "header \<Rightarrow> string \<Rightarrow> unit res" where
  "header_raiseRefused h format =
     (if definesRedactedFrom (h_Format h) \<or> \<not> definesRedactedFrom format then Inr ()
      else if \<not> holds_redacted_from h then Inr ()
      else Inl ENoRaise)"

definition Raise :: "header \<Rightarrow> string \<Rightarrow> header res" where
  "Raise h format = then_res (header_raiseRefused h format) (Inr (h\<lparr>h_Format := format\<rparr>))"

definition lastBeforeRedactedFrom :: string where
  "lastBeforeRedactedFrom = ''agentsession/0.12''"

definition heldFormat :: "string \<Rightarrow> string" where
  "heldFormat format = (if minor_of format < hashedMinor then lastBeforeRedactedFrom else format)"

text \<open>\<open>migrate\<close>: what \<open>Read\<close> does to the header it decoded.\<close>

definition migrate :: "header \<Rightarrow> header res" where
  "migrate h =
     bind_res (ParseFormat (h_Format h)) (\<lambda>(major, minor).
     then_res (refuse (major \<noteq> FormatMajor) EUnsupportedFormat) (
       if minor \<ge> FormatMinor then Inr h
       else case Raise h Format of
           Inr h' \<Rightarrow> Inr h'
         | Inl _ \<Rightarrow> Inr (h\<lparr>h_Format := heldFormat (h_Format h)\<rparr>)))"

section \<open>Facts\<close>

lemmas parse_defs = ParseFormat_def Atoi_def digit_def Let_def

lemma Format_parses [simp]: "ParseFormat Format = Inr (0, 21)"
  by (simp add: parse_defs Format_def)

lemma lastBeforeRedactedFrom_parses [simp]: "ParseFormat lastBeforeRedactedFrom = Inr (0, 12)"
  by (simp add: parse_defs lastBeforeRedactedFrom_def)

lemma definesRedactedFrom_Format [simp]: "definesRedactedFrom Format"
  by (simp add: definesRedactedFrom_def redactedFromMinor_def)

lemma not_definesRedactedFrom_held [simp]: "\<not> definesRedactedFrom lastBeforeRedactedFrom"
  by (simp add: definesRedactedFrom_def redactedFromMinor_def)

lemma header_raiseRefused_ok:
  "header_raiseRefused h f = Inr u \<longleftrightarrow>
     definesRedactedFrom (h_Format h) \<or> \<not> definesRedactedFrom f \<or> \<not> holds_redacted_from h"
  by (simp add: header_raiseRefused_def)

lemma Raise_ok_iff:
  "Raise h f = Inr h' \<longleftrightarrow>
     h' = h\<lparr>h_Format := f\<rparr> \<and>
     (definesRedactedFrom (h_Format h) \<or> \<not> definesRedactedFrom f \<or> \<not> holds_redacted_from h)"
  by (auto simp: Raise_def then_res_Inr header_raiseRefused_ok)

lemma Raise_refused: "Raise h f = Inl e \<Longrightarrow> e = ENoRaise"
  by (auto simp: Raise_def header_raiseRefused_def split: if_splits)

lemma heldFormat_undefined:
  "\<not> definesRedactedFrom f \<Longrightarrow> \<not> definesRedactedFrom (heldFormat f)"
  by (simp add: heldFormat_def)

lemma cut_append: "c \<notin> set a \<Longrightarrow> cut c (a @ c # b) = Some (a, b)"
  by (induction a) auto

lemma cut_Some: "cut c s = Some (a, b) \<Longrightarrow> s = a @ c # b \<and> c \<notin> set a"
  by (induction s arbitrary: a) (auto split: if_splits)

end
