(* ===== verification/Calls.thy ===== *)
theory Calls
  imports Headers
begin

text \<open>
  The function calls of a path and what happened to each (\<open>run.go\<close>, \<open>Call\<close> and
  \<open>Calls\<close>).  \<open>Calls\<close> is one pass over a root-first path that keeps a list of \<open>*Call\<close>
  pointers and two maps into it; here a pointer is the index of the call in that list, so the two
  maps hold indices and an update through a pointer is a list update.  The canonical JSON of an item,
  which \<open>sameItem\<close> compares, is the parameter \<open>canon\<close>: the encoder of the third-party item
  types followed by the canonicalisation, \<open>None\<close> where either fails.
\<close>

section \<open>A call\<close>

type_synonym canon = "item option \<Rightarrow> string option"

record call =
  ca_Entry :: item_entry
  ca_CallID :: string
  ca_Arguments :: string
  ca_Decisions :: "decision_entry list"
  ca_Dispatch :: "dispatch_entry option"
  ca_Dispatches :: "dispatch_entry list"
  ca_Output :: "item_entry option"
  ca_Withdrawn :: "(dispatch_entry \<times> decision_entry) list"
  ca_Result :: "result_entry option"
  ca_inPrefix :: bool
  ca_dispatchedElsewhere :: bool
  ca_ended :: "decision_entry option"
  ca_endedBy :: "dispatch_entry option"
  ca_sinceDecision :: bool
  ca_dispatchedArgs :: string
  ca_lastIsDispatch :: bool
  ca_beforeSince :: bool
  ca_beforeArgs :: string
  ca_dispatchAfterOutput :: "dispatch_entry option"
  ca_afterAnswer :: "decision_entry option"
  ca_afterReject :: "decision_entry option"
  ca_endAfterOutput :: "decision_entry option"
  ca_rejectAfterDispatch :: "decision_entry option"
  ca_resultAfterLast :: bool
  ca_answeredSinceResult :: bool
  ca_badResult :: "result_entry option"
  ca_afterResult :: "entry option"
  ca_outputMismatch :: "item_entry option"

definition new_call :: "item_entry \<Rightarrow> string \<Rightarrow> string \<Rightarrow> call" where
  "new_call v callID args = \<lparr>ca_Entry = v, ca_CallID = callID, ca_Arguments = args,
     ca_Decisions = [], ca_Dispatch = None, ca_Dispatches = [], ca_Output = None, ca_Withdrawn = [],
     ca_Result = None, ca_inPrefix = False, ca_dispatchedElsewhere = False, ca_ended = None,
     ca_endedBy = None, ca_sinceDecision = False, ca_dispatchedArgs = [], ca_lastIsDispatch = False,
     ca_beforeSince = False, ca_beforeArgs = [], ca_dispatchAfterOutput = None,
     ca_afterAnswer = None, ca_afterReject = None, ca_endAfterOutput = None,
     ca_rejectAfterDispatch = None, ca_resultAfterLast = False, ca_answeredSinceResult = False,
     ca_badResult = None, ca_afterResult = None, ca_outputMismatch = None\<rparr>"

abbreviation ca_EntryID :: "call \<Rightarrow> eid" where
  "ca_EntryID c \<equiv> b_ID (it_base (ca_Entry c))"

section \<open>What a call's entries say of it\<close>

definition hasVerdict :: "call \<Rightarrow> string \<Rightarrow> bool" where
  "hasVerdict c verdict = list_ex (\<lambda>d. dc_Verdict d = verdict) (ca_Decisions c)"

definition Rejected :: "call \<Rightarrow> bool" where
  "Rejected c = hasVerdict c VerdictReject"

definition Answered :: "call \<Rightarrow> bool" where
  "Answered c = hasVerdict c VerdictAnswer"

definition latestIs :: "call \<Rightarrow> string \<Rightarrow> bool" where
  "latestIs c verdict \<longleftrightarrow>
     \<not> ca_sinceDecision c \<and> ca_Decisions c \<noteq> [] \<and> dc_Verdict (last (ca_Decisions c)) = verdict"

definition call_Failed :: "call \<Rightarrow> bool" where
  "call_Failed c = (case ca_Output c of None \<Rightarrow> False | Some v \<Rightarrow> it_Failed v)"

definition Pending :: "call \<Rightarrow> bool" where
  "Pending c \<longleftrightarrow> ca_Output c = None"

definition Copied :: "call \<Rightarrow> bool" where
  "Copied c \<longleftrightarrow> it_CopiedFrom (ca_Entry c) \<noteq> None"

definition call_Held :: "call \<Rightarrow> bool" where
  "call_Held c = latestIs c VerdictHold"

definition Returned :: "call \<Rightarrow> bool" where
  "Returned c \<longleftrightarrow> ca_Output c = None \<and> ca_Result c \<noteq> None \<and> ca_resultAfterLast c"

definition InFlight :: "call \<Rightarrow> bool" where
  "InFlight c \<longleftrightarrow> ca_Output c = None \<and> ca_Dispatches c \<noteq> [] \<and> \<not> latestIs c VerdictHold \<and>
     \<not> latestIs c VerdictAnswer \<and> \<not> Returned c"

definition IdempotencyKey :: "call \<Rightarrow> string" where
  "IdempotencyKey c =
     (if ca_Dispatches c = [] then [] else dp_IdempotencyKey (last (ca_Dispatches c)))"

definition DispatchedArgs :: "call \<Rightarrow> string" where
  "DispatchedArgs c = (if ca_Dispatches c = [] then [] else ca_dispatchedArgs c)"

definition From :: "call \<Rightarrow> entry_ref list" where
  "From c = (case ca_Output c of None \<Rightarrow> [] | Some v \<Rightarrow> b_Parents (it_base v))"

definition Args :: "call \<Rightarrow> string" where
  "Args c = (case find_last (\<lambda>d. dc_Args d \<noteq> [] \<and> dc_Verdict d \<noteq> VerdictAnswer) (ca_Decisions c) of
               Some d \<Rightarrow> dc_Args d
             | None \<Rightarrow> ca_Arguments c)"

datatype call_state =
    CallCompleted | CallHeld | CallInFlight | CallNeverStarted | CallUnknown | CallAnswered
  | CallRejected | CallReturned

definition State :: "header \<Rightarrow> call \<Rightarrow> call_state" where
  "State h c =
     (if ca_Output c \<noteq> None then CallCompleted
      else if Answered c then CallAnswered
      else if Rejected c then CallRejected
      else if Returned c then CallReturned
      else if call_Held c then CallHeld
      else if ca_Dispatch c \<noteq> None then CallInFlight
      else if HasRecord h TypeDispatch \<and> \<not> ca_inPrefix c \<and> \<not> ca_dispatchedElsewhere c \<and> \<not> Copied c
      then CallNeverStarted
      else CallUnknown)"

definition withdraws :: "call \<Rightarrow> decision_entry \<Rightarrow> bool" where
  "withdraws c d \<longleftrightarrow> dc_Verdict d = VerdictReject \<and> dc_Withdrawn d \<and> ca_lastIsDispatch c \<and>
     ca_Output c = None \<and> ca_Dispatches c \<noteq> []"

definition endingDecision :: "call \<Rightarrow> decision_entry option" where
  "endingDecision c =
     find (\<lambda>d. dc_Verdict d = VerdictReject \<or> dc_Verdict d = VerdictAnswer) (ca_Decisions c)"

definition sameItem :: "canon \<Rightarrow> item option \<Rightarrow> item option \<Rightarrow> bool" where
  "sameItem canon a b =
     (case (canon a, canon b) of (Some x, Some y) \<Rightarrow> x = y | _ \<Rightarrow> False)"

section \<open>The effect of one entry on the call it is for\<close>

definition first_of :: "'a option \<Rightarrow> bool \<Rightarrow> 'a \<Rightarrow> 'a option" where
  "first_of old now x = (if old = None \<and> now then Some x else old)"

definition take_output :: "canon \<Rightarrow> item_entry \<Rightarrow> call \<Rightarrow> call" where
  "take_output canon v c =
     (if ca_Output c \<noteq> None then c
      else c\<lparr>ca_outputMismatch :=
               first_of (ca_outputMismatch c)
                 (Returned c \<and> \<not> ca_answeredSinceResult c \<and>
                  \<not> sameItem canon (Option.bind (ca_Result c) rs_Item) (it_Item v)) v,
             ca_Output := Some v,
             ca_lastIsDispatch := False\<rparr>)"

definition take_result :: "result_entry \<Rightarrow> call \<Rightarrow> call" where
  "take_result v c =
     c\<lparr>ca_badResult :=
         first_of (ca_badResult c)
           (ca_Dispatches c = [] \<or> ca_Output c \<noteq> None \<or> ca_resultAfterLast c \<or> Answered c \<or>
            Rejected c) v,
       ca_Result := Some v,
       ca_resultAfterLast := (ca_Dispatches c \<noteq> []),
       ca_answeredSinceResult := False,
       ca_lastIsDispatch := False\<rparr>"

definition take_withdrawal :: "decision_entry \<Rightarrow> call \<Rightarrow> call" where
  "take_withdrawal v c =
     (let ds = butlast (ca_Dispatches c)
      in c\<lparr>ca_Dispatches := ds,
           ca_Dispatch := (if ds = [] then None else ca_Dispatch c),
           ca_sinceDecision := ca_beforeSince c,
           ca_dispatchedArgs := ca_beforeArgs c,
           ca_Withdrawn := ca_Withdrawn c @ [(last (ca_Dispatches c), v)],
           ca_lastIsDispatch := False\<rparr>)"

definition take_decision :: "decision_entry \<Rightarrow> call \<Rightarrow> call" where
  "take_decision v c =
     (if withdraws c v then take_withdrawal v c
      else c\<lparr>ca_lastIsDispatch := False,
             ca_answeredSinceResult :=
               (if Returned c \<and> dc_Verdict v = VerdictAnswer then True
                else ca_answeredSinceResult c),
             ca_afterResult :=
               first_of (ca_afterResult c) (Returned c \<and> dc_Verdict v \<noteq> VerdictAnswer)
                 (DecisionEntry v),
             ca_afterAnswer := first_of (ca_afterAnswer c) (Answered c) v,
             ca_afterReject := first_of (ca_afterReject c) (Rejected c) v,
             ca_rejectAfterDispatch :=
               first_of (ca_rejectAfterDispatch c)
                 (dc_Verdict v = VerdictReject \<and> ca_Dispatch c \<noteq> None) v,
             ca_endAfterOutput :=
               first_of (ca_endAfterOutput c)
                 ((dc_Verdict v = VerdictAnswer \<or> dc_Verdict v = VerdictReject) \<and>
                  ca_Output c \<noteq> None) v,
             ca_Decisions := ca_Decisions c @ [v],
             ca_sinceDecision := False\<rparr>)"

definition take_dispatch :: "dispatch_entry \<Rightarrow> call \<Rightarrow> call" where
  "take_dispatch v c =
     c\<lparr>ca_dispatchAfterOutput := first_of (ca_dispatchAfterOutput c) (ca_Output c \<noteq> None) v,
       ca_afterResult := first_of (ca_afterResult c) (Returned c) (DispatchEntry v),
       ca_resultAfterLast := False,
       ca_Dispatch := (if ca_Dispatch c = None then Some v else ca_Dispatch c),
       ca_beforeSince := ca_sinceDecision c,
       ca_beforeArgs := ca_dispatchedArgs c,
       ca_Dispatches := ca_Dispatches c @ [v],
       ca_dispatchedArgs := Args c,
       ca_sinceDecision := True,
       ca_lastIsDispatch := (ca_Output c = None),
       ca_ended := (if ca_ended c = None then endingDecision c else ca_ended c),
       ca_endedBy :=
         (if ca_ended c = None \<and> endingDecision c \<noteq> None then Some v else ca_endedBy c)\<rparr>"

section \<open>The pass over a path\<close>

record calls_state =
  cs_out :: "call list"
  cs_byID :: "string \<rightharpoonup> nat"
  cs_byEntry :: "eid \<rightharpoonup> nat"

definition calls_init :: calls_state where
  "calls_init = \<lparr>cs_out = [], cs_byID = Map.empty, cs_byEntry = Map.empty\<rparr>"

definition bind_call :: "calls_state \<Rightarrow> string \<Rightarrow> eid \<Rightarrow> nat option" where
  "bind_call st callID target =
     (case cs_byEntry st target of Some i \<Rightarrow> Some i | None \<Rightarrow> cs_byID st callID)"

definition upd_call :: "nat \<Rightarrow> (call \<Rightarrow> call) \<Rightarrow> calls_state \<Rightarrow> calls_state" where
  "upd_call i f st = st\<lparr>cs_out := (cs_out st)[i := f (cs_out st ! i)]\<rparr>"

definition add_call :: "item_entry \<Rightarrow> string \<Rightarrow> string \<Rightarrow> calls_state \<Rightarrow> calls_state" where
  "add_call v callID args st =
     st\<lparr>cs_byID := (cs_byID st)(callID \<mapsto> length (cs_out st)),
        cs_byEntry := (cs_byEntry st)(b_ID (it_base v) \<mapsto> length (cs_out st)),
        cs_out := cs_out st @ [new_call v callID args]\<rparr>"

text \<open>The call an entry that adds none is for, and what it does to it.\<close>

fun entry_call :: "calls_state \<Rightarrow> entry \<Rightarrow> nat option" where
  "entry_call st (ItemEntry v) =
     (case it_Item v of Some (FunctionCallOutput callID out r) \<Rightarrow> cs_byID st callID | _ \<Rightarrow> None)"
| "entry_call st (ResultEntry v) = bind_call st (rs_CallID v) (rs_Target v)"
| "entry_call st (DecisionEntry v) = bind_call st (dc_CallID v) (dc_Target v)"
| "entry_call st (DispatchEntry v) = bind_call st (dp_CallID v) (dp_Target v)"
| "entry_call st _ = None"

fun take_entry :: "canon \<Rightarrow> entry \<Rightarrow> call \<Rightarrow> call" where
  "take_entry canon (ItemEntry v) = take_output canon v"
| "take_entry canon (ResultEntry v) = take_result v"
| "take_entry canon (DecisionEntry v) = take_decision v"
| "take_entry canon (DispatchEntry v) = take_dispatch v"
| "take_entry canon _ = (\<lambda>c. c)"

definition bound_step :: "canon \<Rightarrow> entry \<Rightarrow> calls_state \<Rightarrow> calls_state" where
  "bound_step canon e st =
     (case entry_call st e of None \<Rightarrow> st | Some i \<Rightarrow> upd_call i (take_entry canon e) st)"

definition calls_step :: "canon \<Rightarrow> entry \<Rightarrow> calls_state \<Rightarrow> calls_state" where
  "calls_step canon e st =
     (case e of
        ItemEntry v \<Rightarrow>
          (case it_Item v of
             Some (FunctionCall callID args r) \<Rightarrow> add_call v callID args st
           | _ \<Rightarrow> bound_step canon e st)
      | _ \<Rightarrow> bound_step canon e st)"

definition calls_run :: "canon \<Rightarrow> entry list \<Rightarrow> calls_state" where
  "calls_run canon path = fold (calls_step canon) path calls_init"

definition Calls :: "canon \<Rightarrow> entry list \<Rightarrow> call list" where
  "Calls canon path = cs_out (calls_run canon path)"

section \<open>Facts about the pass\<close>

lemmas take_defs = take_output_def take_result_def take_decision_def take_withdrawal_def
  take_dispatch_def Let_def

text \<open>No entry changes which call it is about.\<close>

lemma take_entry_static [simp]:
  "ca_Entry (take_entry canon e c) = ca_Entry c"
  "ca_CallID (take_entry canon e c) = ca_CallID c"
  "ca_Arguments (take_entry canon e c) = ca_Arguments c"
  by (cases e; simp add: take_defs)+

lemma new_call_static [simp]:
  "ca_Entry (new_call v cid args) = v"
  "ca_CallID (new_call v cid args) = cid"
  "ca_Arguments (new_call v cid args) = args"
  by (simp_all add: new_call_def)

lemma calls_run_Nil [simp]: "calls_run canon [] = calls_init"
  by (simp add: calls_run_def)

lemma calls_run_snoc [simp]:
  "calls_run canon (path @ [e]) = calls_step canon e (calls_run canon path)"
  by (simp add: calls_run_def)

text \<open>
  The step in two cases: an entry that holds a function call adds a call, any other entry changes
  the call it is for.
\<close>

lemma calls_step_call:
  "call_of e = Some cid \<Longrightarrow>
     \<exists>v args r. e = ItemEntry v \<and> it_Item v = Some (FunctionCall cid args r) \<and>
       calls_step canon e st = add_call v cid args st"
  by (cases e) (auto simp: calls_step_def split: option.splits item.splits)

lemma calls_step_bound:
  "call_of e = None \<Longrightarrow> calls_step canon e st = bound_step canon e st"
  by (cases e) (auto simp: calls_step_def split: option.splits item.splits)

text \<open>The two maps point at the calls they are named for.\<close>

definition calls_wf :: "calls_state \<Rightarrow> bool" where
  "calls_wf st \<longleftrightarrow>
     (\<forall>cid i. cs_byID st cid = Some i \<longrightarrow> i < length (cs_out st) \<and> ca_CallID (cs_out st ! i) = cid) \<and>
     (\<forall>t i. cs_byEntry st t = Some i \<longrightarrow> i < length (cs_out st) \<and> ca_EntryID (cs_out st ! i) = t)"

lemma calls_wf_init: "calls_wf calls_init"
  by (simp add: calls_wf_def calls_init_def)

lemma calls_wf_add: "calls_wf st \<Longrightarrow> calls_wf (add_call v cid args st)"
  by (auto simp: calls_wf_def add_call_def nth_append less_Suc_eq)

lemma calls_wf_upd:
  "calls_wf st \<Longrightarrow> (\<And>c. ca_Entry (f c) = ca_Entry c) \<Longrightarrow> (\<And>c. ca_CallID (f c) = ca_CallID c) \<Longrightarrow>
   calls_wf (upd_call i f st)"
  by (auto simp: calls_wf_def upd_call_def nth_update_proj [where g = ca_CallID]
      nth_update_proj [where g = ca_Entry])

lemma calls_wf_step: "calls_wf st \<Longrightarrow> calls_wf (calls_step canon e st)"
proof (cases "call_of e")
  case None
  assume "calls_wf st"
  then show ?thesis
    by (auto simp: calls_step_bound [OF None] bound_step_def calls_wf_upd split: option.splits)
next
  case (Some cid)
  assume "calls_wf st"
  then show ?thesis using calls_step_call [OF Some, of canon st] calls_wf_add by metis
qed

lemma calls_wf_run [simp]: "calls_wf (calls_run canon path)"
  by (induction path rule: rev_induct) (auto simp: calls_wf_init calls_wf_step)

lemma entry_call_bound:
  "calls_wf st \<Longrightarrow> entry_call st e = Some i \<Longrightarrow> i < length (cs_out st)"
  by (cases e) (auto simp: calls_wf_def bind_call_def split: option.splits item.splits)

text \<open>An invariant of a single call that the entries keep holds of every call of a path.\<close>

lemma calls_out_step:
  assumes wf: "calls_wf st" and c: "c \<in> set (cs_out (calls_step canon e st))"
  shows "c \<in> set (cs_out st) \<or> (\<exists>c0\<in>set (cs_out st). c = take_entry canon e c0) \<or>
    (\<exists>v cid args. e = ItemEntry v \<and> call_of e = Some cid \<and> c = new_call v cid args)"
proof (cases "call_of e")
  case None
  show ?thesis
  proof (cases "entry_call st e")
    case None
    with \<open>call_of e = None\<close> c show ?thesis by (simp add: calls_step_bound bound_step_def)
  next
    case (Some i)
    with wf have i: "i < length (cs_out st)" by (rule entry_call_bound)
    from Some \<open>call_of e = None\<close> c
    have "c \<in> set ((cs_out st)[i := take_entry canon e (cs_out st ! i)])"
      by (simp add: calls_step_bound bound_step_def upd_call_def)
    with set_update_subset_insert [of "cs_out st" i] i show ?thesis by fastforce
  qed
next
  case (Some cid)
  from calls_step_call [OF this, of canon st] c Some show ?thesis by (fastforce simp: add_call_def)
qed

lemma Calls_invariant:
  assumes new: "\<And>v cid args. call_of (ItemEntry v) = Some cid \<Longrightarrow> P (new_call v cid args)"
    and keep: "\<And>e c. P c \<Longrightarrow> P (take_entry canon e c)"
    and c: "c \<in> set (Calls canon path)"
  shows "P c"
  using c
proof (induction path arbitrary: c rule: rev_induct)
  case Nil
  then show ?case by (simp add: Calls_def calls_init_def)
next
  case (snoc e path)
  from snoc.prems have "c \<in> set (cs_out (calls_step canon e (calls_run canon path)))"
    by (simp add: Calls_def)
  from calls_out_step [OF calls_wf_run this] snoc.IH new keep show ?case
    unfolding Calls_def by blast
qed

lemma Calls_call_of: "c \<in> set (Calls canon path) \<Longrightarrow> call_of (ItemEntry (ca_Entry c)) = Some (ca_CallID c)"
  by (erule Calls_invariant [rotated 2]) simp_all

text \<open>The calls of a path are the function call items on it, in path order.\<close>

definition call_entries :: "entry list \<Rightarrow> item_entry list" where
  "call_entries path =
     concat (map (\<lambda>e. case e of ItemEntry v \<Rightarrow> (if call_of e \<noteq> None then [v] else []) | _ \<Rightarrow> []) path)"

lemma call_entries_snoc:
  "call_entries (path @ [e]) =
     call_entries path @ (case e of ItemEntry v \<Rightarrow> (if call_of e \<noteq> None then [v] else []) | _ \<Rightarrow> [])"
  by (simp add: call_entries_def)

lemma map_ca_Entry_bound: "map ca_Entry (cs_out (bound_step canon e st)) = map ca_Entry (cs_out st)"
  by (auto simp: bound_step_def upd_call_def map_update_proj split: option.splits)

lemma call_entries_eq: "map ca_Entry (Calls canon path) = call_entries path"
proof (induction path rule: rev_induct)
  case Nil
  then show ?case by (simp add: Calls_def calls_init_def call_entries_def)
next
  case (snoc e path)
  show ?case
  proof (cases "call_of e")
    case None
    with snoc show ?thesis
      by (auto simp: Calls_def calls_step_bound map_ca_Entry_bound call_entries_snoc split: entry.split)
  next
    case (Some cid)
    from calls_step_call [OF this, of canon "calls_run canon path"] snoc Some show ?thesis
      by (auto simp: Calls_def call_entries_snoc add_call_def)
  qed
qed

section \<open>What holds of every call of a path\<close>

definition call_ok :: "call \<Rightarrow> bool" where
  "call_ok c \<longleftrightarrow>
     ca_Dispatch c = (case ca_Dispatches c of [] \<Rightarrow> None | d # ds \<Rightarrow> Some d) \<and>
     (ca_resultAfterLast c \<longrightarrow> ca_Result c \<noteq> None \<and> ca_Dispatches c \<noteq> [] \<and> \<not> ca_lastIsDispatch c) \<and>
     (ca_sinceDecision c \<longrightarrow> ca_Dispatches c \<noteq> []) \<and>
     (ca_lastIsDispatch c \<longrightarrow>
        ca_Dispatches c \<noteq> [] \<and> ca_Output c = None \<and> ca_sinceDecision c \<and>
        (ca_beforeSince c \<longrightarrow> butlast (ca_Dispatches c) \<noteq> []) \<and>
        (Answered c \<or> Rejected c \<longrightarrow> ca_ended c \<noteq> None))"

text \<open>
  A call none of whose entries breaks the rules \<open>VerifyRecords\<close> reads off the call: every flag the
  pass raises for a misplaced entry is down.
\<close>

definition call_clean :: "call \<Rightarrow> bool" where
  "call_clean c \<longleftrightarrow>
     ca_ended c = None \<and> ca_afterAnswer c = None \<and> ca_afterReject c = None \<and>
     ca_badResult c = None \<and> ca_afterResult c = None \<and> ca_outputMismatch c = None \<and>
     ca_rejectAfterDispatch c = None \<and> ca_dispatchAfterOutput c = None \<and> ca_endAfterOutput c = None"

text \<open>What a clean call's decisions say: an answer is the last word, and a rejected call never ran.\<close>

definition call_ends :: "call \<Rightarrow> bool" where
  "call_ends c \<longleftrightarrow>
     (Answered c \<and> ca_ended c = None \<and> ca_afterAnswer c = None \<longrightarrow> latestIs c VerdictAnswer) \<and>
     (Rejected c \<and> ca_ended c = None \<and> ca_rejectAfterDispatch c = None \<longrightarrow> ca_Dispatches c = [])"

lemmas verdict_defs = Answered_def Rejected_def hasVerdict_def latestIs_def

lemma endingDecision_None: "endingDecision c = None \<longleftrightarrow> \<not> Answered c \<and> \<not> Rejected c"
  by (auto simp: endingDecision_def verdict_defs find_None_iff list_ex_iff)

lemma first_of_None [simp]: "first_of old now x = None \<longleftrightarrow> old = None \<and> \<not> now"
  by (auto simp: first_of_def)

lemma first_of_simps [simp]:
  "first_of (Some y) now x = Some y" "first_of None True x = Some x" "first_of old False x = old"
  by (simp_all add: first_of_def)

lemma call_ok_new [simp]: "call_ok (new_call v cid args)"
  by (simp add: call_ok_def new_call_def)

lemma call_ends_new [simp]: "call_ends (new_call v cid args)"
  by (simp add: call_ends_def new_call_def verdict_defs)

lemma call_ok_output: "call_ok c \<Longrightarrow> call_ok (take_output canon v c)"
  by (simp add: call_ok_def take_output_def verdict_defs)

lemma call_ok_result: "call_ok c \<Longrightarrow> call_ok (take_result v c)"
  by (simp add: call_ok_def take_result_def verdict_defs)

lemma call_ok_dispatch: "call_ok c \<Longrightarrow> call_ok (take_dispatch v c)"
  using endingDecision_None [of c]
  by (auto simp: call_ok_def take_dispatch_def verdict_defs split: list.splits)

lemma call_ok_decision: "call_ok c \<Longrightarrow> call_ok (take_decision v c)"
  by (auto simp: call_ok_def take_decision_def take_withdrawal_def withdraws_def verdict_defs Let_def
      split: list.splits if_splits)

lemma call_ok_take: "call_ok c \<Longrightarrow> call_ok (take_entry canon e c)"
  by (cases e) (simp_all add: call_ok_output call_ok_result call_ok_dispatch call_ok_decision)

lemma call_ends_output: "call_ends c \<Longrightarrow> call_ends (take_output canon v c)"
  by (simp add: call_ends_def take_output_def verdict_defs)

lemma call_ends_result: "call_ends c \<Longrightarrow> call_ends (take_result v c)"
  by (simp add: call_ends_def take_result_def verdict_defs)

lemma call_ends_dispatch: "call_ends c \<Longrightarrow> call_ends (take_dispatch v c)"
  using endingDecision_None [of c]
  by (auto simp: call_ends_def take_dispatch_def verdict_defs)

lemma call_ends_decision: "call_ok c \<Longrightarrow> call_ends c \<Longrightarrow> call_ends (take_decision v c)"
  by (auto simp: call_ok_def call_ends_def take_decision_def take_withdrawal_def withdraws_def
      verdict_defs Let_def split: list.splits if_splits)

lemma call_ends_take: "call_ok c \<Longrightarrow> call_ends c \<Longrightarrow> call_ends (take_entry canon e c)"
  by (cases e) (simp_all add: call_ends_output call_ends_result call_ends_dispatch call_ends_decision)

lemma Calls_ok: "c \<in> set (Calls canon path) \<Longrightarrow> call_ok c"
  by (erule Calls_invariant [rotated 2]) (simp_all add: call_ok_take)

lemma Calls_ends: "c \<in> set (Calls canon path) \<Longrightarrow> call_ends c"
  by (drule Calls_invariant [where P = "\<lambda>c. call_ok c \<and> call_ends c", rotated 2])
    (simp_all add: call_ok_take call_ends_take)

text \<open>What a withdrawal writes besides the dispatches shows in no reading of the call.\<close>

lemma views_withdrawn:
  fixes c ws x y z
  defines "c' \<equiv> c\<lparr>ca_Withdrawn := ws, ca_lastIsDispatch := x, ca_beforeSince := y, ca_beforeArgs := z\<rparr>"
  shows "State h c' = State h c" "IdempotencyKey c' = IdempotencyKey c"
    "DispatchedArgs c' = DispatchedArgs c" "Args c' = Args c"
proof -
  have "Answered c' = Answered c" "Rejected c' = Rejected c" "Returned c' = Returned c"
      "call_Held c' = call_Held c" "Copied c' = Copied c"
    by (simp_all add: c'_def verdict_defs Returned_def call_Held_def Copied_def)
  moreover have "ca_Output c' = ca_Output c" "ca_Dispatch c' = ca_Dispatch c" "ca_inPrefix c' = ca_inPrefix c"
      "ca_dispatchedElsewhere c' = ca_dispatchedElsewhere c"
    by (simp_all add: c'_def)
  ultimately show "State h c' = State h c" by (simp only: State_def)
qed (simp_all add: c'_def IdempotencyKey_def DispatchedArgs_def Args_def split: option.split)

end
