(* ===== verification/Call_Lookup.thy ===== *)
theory Call_Lookup
  imports Calls
begin

text \<open>
  How an append finds the call its entry is about (\<open>session.go\<close>, \<open>targetCall\<close> and
  \<open>callFor\<close>).  Both read only the entries of the path that bear on one call before they run
  \<open>Calls\<close>; the theorems here say that this shortcut finds the same call, with the same record,
  as reading every entry of the path.
\<close>

section \<open>The two lookups\<close>

text \<open>One entry of the scan of \<open>targetCall\<close>: the call entries met so far, and the entries kept.\<close>

definition mine :: "string \<Rightarrow> eid \<Rightarrow> eid set \<Rightarrow> string \<Rightarrow> eid \<Rightarrow> bool" where
  "mine callID target calls callID2 target2 \<longleftrightarrow>
     target2 = target \<or> (callID2 = callID \<and> target2 \<notin> calls)"

definition target_step ::
    "string \<Rightarrow> eid \<Rightarrow> entry \<Rightarrow> eid set \<times> entry list \<Rightarrow> eid set \<times> entry list" where
  "target_step callID target e s =
     (let (calls, about) = s;
          keep = (\<lambda>b. if b then about @ [e] else about)
      in case e of
          ItemEntry v \<Rightarrow>
            (case it_Item v of
               Some (FunctionCall cid args r) \<Rightarrow>
                 (insert (b_ID (it_base v)) calls,
                  keep (b_ID (it_base v) = target \<or> cid = callID))
             | Some (FunctionCallOutput cid out r) \<Rightarrow> (calls, keep (cid = callID))
             | _ \<Rightarrow> (calls, about))
        | DecisionEntry v \<Rightarrow> (calls, keep (mine callID target calls (dc_CallID v) (dc_Target v)))
        | DispatchEntry v \<Rightarrow> (calls, keep (mine callID target calls (dp_CallID v) (dp_Target v)))
        | ResultEntry v \<Rightarrow> (calls, keep (mine callID target calls (rs_CallID v) (rs_Target v)))
        | _ \<Rightarrow> (calls, about))"

definition target_about :: "string \<Rightarrow> eid \<Rightarrow> entry list \<Rightarrow> eid set \<times> entry list" where
  "target_about callID target path = fold (target_step callID target) path ({}, [])"

definition targetCall :: "canon \<Rightarrow> entry list \<Rightarrow> string \<Rightarrow> eid \<Rightarrow> call res" where
  "targetCall canon path callID target =
     (case find (\<lambda>c. ca_EntryID c = target) (Calls canon (snd (target_about callID target path))) of
        None \<Rightarrow> Inl EBadTarget
      | Some c \<Rightarrow> if ca_CallID c \<noteq> callID then Inl EBadTarget else Inr c)"

text \<open>The entries \<open>callFor\<close> keeps: those that carry the call ID.\<close>

fun names_call :: "string \<Rightarrow> entry \<Rightarrow> bool" where
  "names_call callID (ItemEntry v) =
     (case it_Item v of
        Some (FunctionCall cid args r) \<Rightarrow> cid = callID
      | Some (FunctionCallOutput cid out r) \<Rightarrow> cid = callID
      | _ \<Rightarrow> False)"
| "names_call callID (DecisionEntry v) = (dc_CallID v = callID)"
| "names_call callID (DispatchEntry v) = (dp_CallID v = callID)"
| "names_call callID (ResultEntry v) = (rs_CallID v = callID)"
| "names_call callID _ = False"

definition callFor :: "canon \<Rightarrow> entry list \<Rightarrow> string \<Rightarrow> call option" where
  "callFor canon path callID =
     find_last (\<lambda>c. ca_CallID c = callID) (Calls canon (filter (names_call callID) path))"

section \<open>The maps of the pass\<close>

text \<open>The entry map covers every call, and names one call per entry ID.\<close>

definition calls_full :: "calls_state \<Rightarrow> bool" where
  "calls_full st \<longleftrightarrow>
     calls_wf st \<and> distinct (map ca_EntryID (cs_out st)) \<and>
     set (map ca_EntryID (cs_out st)) \<subseteq> dom (cs_byEntry st)"

lemma ca_EntryID_upd:
  "(\<And>c. ca_Entry (f c) = ca_Entry c) \<Longrightarrow>
     map ca_EntryID (cs_out (upd_call i f st)) = map ca_EntryID (cs_out st)"
  by (simp add: upd_call_def map_update_proj)

lemma bound_step_maps [simp]:
  "cs_byID (bound_step canon e st) = cs_byID st"
  "cs_byEntry (bound_step canon e st) = cs_byEntry st"
  "length (cs_out (bound_step canon e st)) = length (cs_out st)"
  "map ca_EntryID (cs_out (bound_step canon e st)) = map ca_EntryID (cs_out st)"
  by (auto simp: bound_step_def upd_call_def map_update_proj split: option.splits)

lemma map_EntryID_calls: "map ca_EntryID (Calls canon path) = map (\<lambda>v. b_ID (it_base v)) (call_entries path)"
  using arg_cong [OF call_entries_eq [of canon path], of "map (\<lambda>v. b_ID (it_base v))"]
  by (simp add: comp_def)

lemma call_entries_ids: "set (map (\<lambda>v. b_ID (it_base v)) (call_entries path)) \<subseteq> set (map e_id path)"
proof (induction path rule: rev_induct)
  case Nil
  then show ?case by (simp add: call_entries_def)
next
  case (snoc e path)
  then show ?case by (cases e) (auto simp: call_entries_snoc)
qed

lemma call_entries_mem: "v \<in> set (call_entries path) \<Longrightarrow> ItemEntry v \<in> set path"
  by (fastforce simp: call_entries_def split: entry.splits if_splits)

lemma calls_full_run: "distinct (map e_id path) \<Longrightarrow> calls_full (calls_run canon path)"
proof (induction path rule: rev_induct)
  case Nil
  have "calls_wf calls_init" by (rule calls_wf_init)
  then show ?case by (simp add: calls_full_def) (simp add: calls_init_def)
next
  case (snoc e path)
  let ?st = "calls_run canon path"
  have wf: "calls_wf (calls_step canon e ?st)" by (simp add: calls_wf_step)
  from snoc have full: "calls_full ?st" and fresh: "e_id e \<notin> set (map e_id path)"
    by auto
  show ?case
  proof (cases "call_of e")
    case None
    have eq: "set (map ca_EntryID (cs_out (bound_step canon e ?st))) = set (map ca_EntryID (cs_out ?st))"
      by (simp only: bound_step_maps)
    from wf full eq show ?thesis
      by (simp add: calls_full_def calls_step_bound [OF None])
  next
    case (Some cid)
    from calls_step_call [OF this, of canon ?st] obtain v args r where
      v: "e = ItemEntry v" and st: "calls_step canon e ?st = add_call v cid args ?st" by blast
    from fresh have "b_ID (it_base v) \<notin> set (map ca_EntryID (cs_out ?st))"
      using call_entries_ids [of path] map_EntryID_calls [of canon path]
      by (auto simp: v Calls_def)
    with wf full show ?thesis
      by (auto simp: calls_full_def st add_call_def)
  qed
qed

lemma byEntry_ids: "dom (cs_byEntry (calls_run canon path)) \<subseteq> set (map e_id path)"
proof
  fix t assume "t \<in> dom (cs_byEntry (calls_run canon path))"
  with calls_wf_run [of canon path] have "t \<in> set (map ca_EntryID (Calls canon path))"
    by (force simp: calls_wf_def Calls_def)
  then show "t \<in> set (map e_id path)"
    using call_entries_ids [of path] by (auto simp: map_EntryID_calls)
qed

text \<open>Looking a call up by its entry ID and following the entry map are the same.\<close>

lemma find_byEntry:
  assumes full: "calls_full st"
  shows "find (\<lambda>c. ca_EntryID c = t) (cs_out st) = map_option ((!) (cs_out st)) (cs_byEntry st t)"
proof (cases "cs_byEntry st t")
  case None
  with full have "\<forall>c\<in>set (cs_out st). ca_EntryID c \<noteq> t" by (fastforce simp: calls_full_def)
  with None show ?thesis by (auto simp: find_None_iff)
next
  case (Some i)
  with full have i: "i < length (cs_out st)" "ca_EntryID (cs_out st ! i) = t"
    and d: "distinct (map ca_EntryID (cs_out st))"
    by (auto simp: calls_full_def calls_wf_def)
  have "\<not> ca_EntryID (cs_out st ! j) = t" if "j < i" for j
    using d i that by (auto simp: distinct_conv_nth)
  with i Some show ?thesis by (auto simp: find_Some_iff)
qed


section \<open>The shortcut of targetCall\<close>

text \<open>
  What a pass knows of the call the lookup is after: its call ID, whether the call ID of the lookup
  is bound to it, and its record, when its call ID is the one looked for.
\<close>

definition view :: "string \<Rightarrow> eid \<Rightarrow> calls_state \<Rightarrow> (string \<times> bool \<times> call option) option" where
  "view k t st = map_option
     (\<lambda>i. (ca_CallID (cs_out st ! i), cs_byID st k = Some i,
           if ca_CallID (cs_out st ! i) = k then Some (cs_out st ! i) else None)) (cs_byEntry st t)"

definition hits :: "eid \<Rightarrow> calls_state \<Rightarrow> entry \<Rightarrow> bool" where
  "hits t st e \<longleftrightarrow> cs_byEntry st t \<noteq> None \<and> entry_call st e = cs_byEntry st t"

lemma view_bound:
  "calls_wf st \<Longrightarrow>
   view k t (bound_step canon e st) =
     (if hits t st e then map_option (\<lambda>(c, b, r). (c, b, map_option (take_entry canon e) r)) (view k t st)
      else view k t st)"
  by (auto simp: view_def hits_def bound_step_def upd_call_def calls_wf_def nth_list_update
      split: option.splits)

lemma view_add:
  "calls_wf st \<Longrightarrow>
   view k t (add_call v cid args st) =
     (if b_ID (it_base v) = t
      then Some (cid, cid = k, if cid = k then Some (new_call v cid args) else None)
      else map_option (\<lambda>(c, b, r). (c, b \<and> cid \<noteq> k, r)) (view k t st))"
  by (cases "cs_byEntry st t") (auto simp: view_def add_call_def calls_wf_def nth_append)

text \<open>The relation between the pass over the path and the pass over the entries kept.\<close>

definition lookup_rel :: "string \<Rightarrow> eid \<Rightarrow> eid set \<Rightarrow> calls_state \<Rightarrow> calls_state \<Rightarrow> bool" where
  "lookup_rel k t calls F A \<longleftrightarrow>
     calls_wf F \<and> calls_wf A \<and> view k t F = view k t A \<and> calls = dom (cs_byEntry F) \<and>
     dom (cs_byEntry A) \<subseteq> dom (cs_byEntry F) \<and>
     (\<forall>cid j. cid \<noteq> k \<longrightarrow> cs_byID A cid = Some j \<longrightarrow> cs_byEntry A t = Some j)"

lemma view_eq_dom: "view k t F = view k t A \<Longrightarrow> cs_byEntry F t = None \<longleftrightarrow> cs_byEntry A t = None"
  by (auto simp: view_def split: option.splits)

lemma hits_byID:
  assumes "view k t F = view k t A"
  shows "(cs_byEntry F t \<noteq> None \<and> cs_byID F k = cs_byEntry F t) \<longleftrightarrow>
         (cs_byEntry A t \<noteq> None \<and> cs_byID A k = cs_byEntry A t)"
  using assms by (cases "cs_byEntry F t"; cases "cs_byEntry A t") (auto simp: view_def)

text \<open>An entry of the call rules: the call it names by ID and by target.\<close>

fun call_names :: "entry \<Rightarrow> (string \<times> eid) option" where
  "call_names (DecisionEntry v) = Some (dc_CallID v, dc_Target v)"
| "call_names (DispatchEntry v) = Some (dp_CallID v, dp_Target v)"
| "call_names (ResultEntry v) = Some (rs_CallID v, rs_Target v)"
| "call_names _ = None"

lemma entry_call_names:
  "call_names e = Some (cid, tgt) \<Longrightarrow> entry_call st e = bind_call st cid tgt"
  by (cases e) auto

lemma entry_call_output: "output_of e = Some cid \<Longrightarrow> entry_call st e = cs_byID st cid"
  by (cases e) (auto split: option.splits item.splits)

lemma entry_call_other: "call_names e = None \<Longrightarrow> output_of e = None \<Longrightarrow> entry_call st e = None"
  by (cases e) (auto split: option.splits item.splits)

lemma target_step_simps:
  "call_of e = Some cid \<Longrightarrow>
     target_step k t e (calls, about) =
       (insert (e_id e) calls, if e_id e = t \<or> cid = k then about @ [e] else about)"
  "output_of e = Some cid \<Longrightarrow>
     target_step k t e (calls, about) = (calls, if cid = k then about @ [e] else about)"
  "call_names e = Some (cid, tgt) \<Longrightarrow>
     target_step k t e (calls, about) = (calls, if mine k t calls cid tgt then about @ [e] else about)"
  "call_of e = None \<Longrightarrow> output_of e = None \<Longrightarrow> call_names e = None \<Longrightarrow>
     target_step k t e (calls, about) = (calls, about)"
  by (cases e; auto simp: target_step_def Let_def split: option.splits item.splits)+

text \<open>An entry the scan keeps changes the call looked for in both passes or in neither.\<close>

lemma hits_kept:
  assumes R: "lookup_rel k t calls F A"
    and keep: "output_of e = Some k \<or>
      (\<exists>cid tgt. call_names e = Some (cid, tgt) \<and> mine k t calls cid tgt)"
  shows "hits t F e \<longleftrightarrow> hits t A e"
  using keep
proof
  assume "output_of e = Some k"
  then show ?thesis using R hits_byID
    unfolding hits_def lookup_rel_def by (metis entry_call_output)
next
  assume "\<exists>cid tgt. call_names e = Some (cid, tgt) \<and> mine k t calls cid tgt"
  then obtain cid tgt where e: "call_names e = Some (cid, tgt)" and m: "mine k t calls cid tgt" by blast
  note eq = entry_call_names [OF e] and V = R [unfolded lookup_rel_def]
  show ?thesis
  proof (cases "tgt = t")
    case True
    with V view_eq_dom [of k t F A] show ?thesis
      by (auto simp: hits_def eq bind_call_def split: option.splits)
  next
    case False
    with m have "cid = k" "tgt \<notin> calls" by (auto simp: mine_def)
    with V have "cs_byEntry F tgt = None" "cs_byEntry A tgt = None" by auto
    with \<open>cid = k\<close> V hits_byID [of k t F A] show ?thesis by (simp add: hits_def eq bind_call_def)
  qed
qed

text \<open>An entry the scan drops changes no call with the call ID looked for.\<close>

lemma hits_dropped:
  assumes R: "lookup_rel k t calls F A" and hit: "hits t F e"
    and drop: "(\<exists>cid. output_of e = Some cid \<and> cid \<noteq> k) \<or>
      (\<exists>cid tgt. call_names e = Some (cid, tgt) \<and> \<not> mine k t calls cid tgt)"
  shows "\<exists>c b. view k t F = Some (c, b, None)"
proof -
  from hit obtain i where i: "cs_byEntry F t = Some i" "entry_call F e = Some i"
    by (auto simp: hits_def)
  from R have wf: "calls_wf F" and calls: "calls = dom (cs_byEntry F)" by (auto simp: lookup_rel_def)
  from drop have "\<exists>cid. cid \<noteq> k \<and> cs_byID F cid = Some i"
  proof
    assume "\<exists>cid. output_of e = Some cid \<and> cid \<noteq> k"
    with i show ?thesis using entry_call_output by fastforce
  next
    assume "\<exists>cid tgt. call_names e = Some (cid, tgt) \<and> \<not> mine k t calls cid tgt"
    then obtain cid tgt where e: "call_names e = Some (cid, tgt)" and m: "\<not> mine k t calls cid tgt"
      by blast
    show ?thesis
    proof (cases "cs_byEntry F tgt")
      case None
      with m calls have "cid \<noteq> k" by (auto simp: mine_def)
      with i None show ?thesis by (auto simp: entry_call_names [OF e] bind_call_def)
    next
      case (Some j)
      with i have "cs_byEntry F tgt = Some i" by (simp add: entry_call_names [OF e] bind_call_def)
      with wf i(1) have "tgt = t" unfolding calls_wf_def by metis
      with m show ?thesis by (simp add: mine_def)
    qed
  qed
  with wf i show ?thesis by (auto simp: view_def calls_wf_def)
qed

lemma lookup_rel_kept:
  assumes R: "lookup_rel k t calls F A" and "call_of e = None" and "hits t F e \<longleftrightarrow> hits t A e"
  shows "lookup_rel k t calls (calls_step canon e F) (calls_step canon e A)"
  using assms view_bound [of F k t canon e] view_bound [of A k t canon e]
    calls_wf_step [of F canon e] calls_wf_step [of A canon e]
  by (simp add: lookup_rel_def calls_step_bound)

lemma lookup_rel_dropped:
  assumes R: "lookup_rel k t calls F A" and "call_of e = None"
    and "hits t F e \<Longrightarrow> \<exists>c b. view k t F = Some (c, b, None)"
  shows "lookup_rel k t calls (calls_step canon e F) A"
proof -
  from assms(3) R have "view k t (bound_step canon e F) = view k t F"
    by (auto simp: view_bound lookup_rel_def)
  with assms calls_wf_step [of F canon e] show ?thesis
    by (simp add: lookup_rel_def calls_step_bound)
qed

lemma lookup_rel_call:
  assumes R: "lookup_rel k t calls F A" and c: "call_of e = Some cid" and fresh: "e_id e \<notin> calls"
  shows "lookup_rel k t (insert (e_id e) calls) (calls_step canon e F)
    (if e_id e = t \<or> cid = k then calls_step canon e A else A)"
proof -
  from calls_step_call [OF c] obtain v args r where v: "e = ItemEntry v"
      "it_Item v = Some (FunctionCall cid args r)" and
      st: "\<And>st. calls_step canon e st = add_call v cid args st"
    by (metis calls_step_call [OF c] entry.inject(1) item.inject(1) option.inject)
  note V = R [unfolded lookup_rel_def]
  have id: "e_id e = b_ID (it_base v)" by (simp add: v(1))
  from V fresh have none: "cs_byEntry A t = None" if "b_ID (it_base v) = t"
    using that by (auto simp: id)
  have only: "cs_byEntry A t = Some j" if "cid' \<noteq> k" "cs_byID A cid' = Some j" for cid' j
    using V that by blast
  show ?thesis
  proof (cases "e_id e = t \<or> cid = k")
    case True
    have "cs_byEntry (add_call v cid args A) t = Some j"
      if "cid' \<noteq> k" "cs_byID (add_call v cid args A) cid' = Some j" for cid' j
      using that True only [of cid' j] none by (auto simp: add_call_def id split: if_splits)
    moreover have "view k t (add_call v cid args F) = view k t (add_call v cid args A)"
      using V by (simp add: view_add)
    ultimately show ?thesis using True V
      by (simp add: lookup_rel_def calls_wf_add st id) (auto simp: add_call_def)
  next
    case False
    with V have "view k t (add_call v cid args F) = view k t A"
      by (auto simp: view_add id option.map_ident_strong)
    with False V show ?thesis
      by (simp add: lookup_rel_def calls_wf_add st id) (auto simp: add_call_def)
  qed
qed

lemma lookup_rel_step:
  assumes R: "lookup_rel k t calls F (calls_run canon about)"
    and fresh: "call_of e \<noteq> None \<Longrightarrow> e_id e \<notin> calls"
    and s: "target_step k t e (calls, about) = (calls', about')"
  shows "lookup_rel k t calls' (calls_step canon e F) (calls_run canon about')"
proof -
  let ?A = "calls_run canon about"
  consider (call) cid where "call_of e = Some cid"
    | (out) cid where "output_of e = Some cid" "call_of e = None"
    | (named) cid tgt where "call_names e = Some (cid, tgt)" "call_of e = None"
    | (other) "call_of e = None" "output_of e = None" "call_names e = None"
    by (cases e) (auto split: option.splits item.splits)
  then show ?thesis
  proof cases
    case call
    from lookup_rel_call [OF R call] fresh call s show ?thesis
      by (auto simp: target_step_simps(1) [OF call] split: if_splits)
  next
    case out
    with s have about': "calls' = calls" "about' = (if cid = k then about @ [e] else about)"
      by (auto simp: target_step_simps(2) [OF out(1)])
    with lookup_rel_kept [OF R out(2)] lookup_rel_dropped [OF R out(2)] hits_kept [OF R, of e]
      hits_dropped [OF R, of e] out(1)
    show ?thesis by auto
  next
    case named
    with s have about': "calls' = calls"
        "about' = (if mine k t calls cid tgt then about @ [e] else about)"
      by (auto simp: target_step_simps(3) [OF named(1)])
    with lookup_rel_kept [OF R named(2)] lookup_rel_dropped [OF R named(2)] hits_kept [OF R, of e]
      hits_dropped [OF R, of e] named(1)
    show ?thesis by auto
  next
    case other
    then have "\<not> hits t F e" using entry_call_other [of e F] by (auto simp: hits_def)
    with lookup_rel_dropped [OF R other(1)] s show ?thesis
      by (simp add: target_step_simps(4) [OF other])
  qed
qed

lemma lookup_rel_run:
  "distinct (map e_id path) \<Longrightarrow>
   lookup_rel k t (fst (target_about k t path)) (calls_run canon path)
     (calls_run canon (snd (target_about k t path)))"
proof (induction path rule: rev_induct)
  case Nil
  then show ?case
    using calls_wf_run [of canon "[]"]
    by (simp add: target_about_def lookup_rel_def) (simp add: calls_init_def)
next
  case (snoc e path)
  obtain calls about where ta: "target_about k t path = (calls, about)" by fastforce
  obtain calls' about' where ts: "target_step k t e (calls, about) = (calls', about')" by fastforce
  from snoc ta have R: "lookup_rel k t calls (calls_run canon path) (calls_run canon about)" by simp
  then have "calls = dom (cs_byEntry (calls_run canon path))" by (simp add: lookup_rel_def)
  with byEntry_ids [of canon path] snoc.prems have "e_id e \<notin> calls" by auto
  from lookup_rel_step [OF R _ ts] this show ?case
    using ta ts by (simp add: target_about_def)
qed

lemma find_view:
  assumes "calls_full st"
  shows "(case find (\<lambda>c. ca_EntryID c = t) (cs_out st) of
       None \<Rightarrow> Inl EBadTarget | Some c \<Rightarrow> if ca_CallID c \<noteq> k then Inl EBadTarget else Inr c) =
     (case view k t st of Some (_, _, Some c) \<Rightarrow> Inr c | _ \<Rightarrow> Inl EBadTarget)"
  by (auto simp: find_byEntry [OF assms] view_def split: option.splits)

lemma target_about_kept:
  "set (snd (target_about k t path)) \<subseteq> set path \<and>
   (distinct (map e_id path) \<longrightarrow> distinct (map e_id (snd (target_about k t path))))"
proof (induction path rule: rev_induct)
  case Nil
  then show ?case by (simp add: target_about_def)
next
  case (snoc e path)
  obtain calls about where ta: "target_about k t path = (calls, about)" by fastforce
  have "snd (target_step k t e (calls, about)) \<in> {about, about @ [e]}"
    by (cases e) (auto simp: target_step_def split: option.splits item.splits)
  with snoc ta show ?case
    by (auto simp: target_about_def) (metis image_eqI subsetD)
qed

lemma targetCall_full:
  assumes d: "distinct (map e_id path)"
  shows "targetCall canon path k t =
    (case find (\<lambda>c. ca_EntryID c = t) (Calls canon path) of
       None \<Rightarrow> Inl EBadTarget | Some c \<Rightarrow> if ca_CallID c \<noteq> k then Inl EBadTarget else Inr c)"
proof -
  let ?about = "snd (target_about k t path)"
  from target_about_kept [of k t path] d have "distinct (map e_id ?about)" by blast
  from calls_full_run [OF this] calls_full_run [OF d] lookup_rel_run [OF d]
  show ?thesis unfolding targetCall_def Calls_def
    by (simp add: find_view lookup_rel_def)
qed


section \<open>The shortcut of callFor\<close>

text \<open>
  A path whose decisions, dispatches and results each name, by target and by call ID, a function
  call before them, and on which no call ID names two calls: what the append rules keep.
\<close>

definition named_before :: "entry list \<Rightarrow> entry \<Rightarrow> bool" where
  "named_before p e =
     (case call_names e of
        None \<Rightarrow> True
      | Some (cid, tgt) \<Rightarrow> list_ex (\<lambda>x. e_id x = tgt \<and> call_of x = Some cid) p)"

definition well_named :: "entry list \<Rightarrow> bool" where
  "well_named path = list_all (\<lambda>i. named_before (take i path) (path ! i)) [0..<length path]"

definition call_ids :: "entry list \<Rightarrow> string list" where
  "call_ids path = List.map_filter call_of path"

lemma well_named_Nil [simp]: "well_named []"
  by (simp add: well_named_def)

lemma well_named_snoc [simp]: "well_named (p @ [e]) \<longleftrightarrow> well_named p \<and> named_before p e"
  by (auto simp: well_named_def list_all_iff nth_append)

lemma call_ids_Nil [simp]: "call_ids [] = []"
  by (simp add: call_ids_def List.map_filter_def)

lemma call_ids_snoc [simp]:
  "call_ids (p @ [e]) = call_ids p @ (case call_of e of None \<Rightarrow> [] | Some c \<Rightarrow> [c])"
  by (auto simp: call_ids_def List.map_filter_def split: option.splits)

lemma call_ids_iff: "c \<in> set (call_ids p) \<longleftrightarrow> (\<exists>e\<in>set p. call_of e = Some c)"
  by (force simp: call_ids_def List.map_filter_def)

lemma map_CallID_bound: "map ca_CallID (cs_out (bound_step canon e st)) = map ca_CallID (cs_out st)"
  by (auto simp: bound_step_def upd_call_def map_update_proj split: option.splits)

lemma map_CallID_calls: "map ca_CallID (Calls canon path) = call_ids path"
proof (induction path rule: rev_induct)
  case Nil
  then show ?case by (simp add: Calls_def calls_init_def)
next
  case (snoc e path)
  show ?case
  proof (cases "call_of e")
    case None
    with snoc show ?thesis by (simp add: Calls_def calls_step_bound map_CallID_bound)
  next
    case (Some cid)
    from calls_step_call [OF this, of canon "calls_run canon path"] snoc Some show ?thesis
      by (auto simp: Calls_def add_call_def)
  qed
qed

text \<open>When no call ID is repeated, the ID map covers every call.\<close>

lemma byID_unique:
  "distinct (call_ids path) \<Longrightarrow> i < length (Calls canon path) \<Longrightarrow>
   cs_byID (calls_run canon path) (ca_CallID (Calls canon path ! i)) = Some i"
proof (induction path arbitrary: i rule: rev_induct)
  case Nil
  then show ?case by (simp add: Calls_def calls_init_def)
next
  case (snoc e path)
  let ?st = "calls_run canon path"
  show ?case
  proof (cases "call_of e")
    case None
    have "map ca_CallID (cs_out (bound_step canon e ?st)) = map ca_CallID (cs_out ?st)"
      by (rule map_CallID_bound)
    then have "ca_CallID (cs_out (bound_step canon e ?st) ! i) = ca_CallID (cs_out ?st ! i)"
      using snoc.prems None by (metis Calls_def bound_step_maps(3) calls_run_snoc calls_step_bound nth_map)
    with snoc None show ?thesis by (simp add: Calls_def calls_step_bound)
  next
    case (Some cid)
    from calls_step_call [OF this, of canon ?st] obtain v args where
      st: "calls_step canon e ?st = add_call v cid args ?st" by blast
    have "ca_CallID (cs_out ?st ! j) \<noteq> cid" if "j < length (cs_out ?st)" for j
      using snoc.prems(1) Some that map_CallID_calls [of canon path]
      by (auto simp: Calls_def) (metis nth_map nth_mem length_map)
    with snoc Some show ?thesis
      by (auto simp: Calls_def st add_call_def nth_append less_Suc_eq)
  qed
qed

lemma find_CallID:
  assumes "distinct (call_ids path)"
  shows "find_last (\<lambda>c. ca_CallID c = k) (Calls canon path) =
    map_option ((!) (Calls canon path)) (cs_byID (calls_run canon path) k)"
proof (cases "cs_byID (calls_run canon path) k")
  case None
  have "\<forall>c\<in>set (Calls canon path). ca_CallID c \<noteq> k"
    using None byID_unique [OF assms, of _ canon] by (auto simp: in_set_conv_nth)
  with None show ?thesis by (simp add: find_last_None)
next
  case (Some i)
  with calls_wf_run [of canon path] have i: "i < length (Calls canon path)"
      "ca_CallID (Calls canon path ! i) = k"
    by (auto simp: calls_wf_def Calls_def)
  then have "find_last (\<lambda>c. ca_CallID c = k) (Calls canon path) \<noteq> None"
    by (auto simp: find_last_None)
  then obtain c where c: "find_last (\<lambda>c. ca_CallID c = k) (Calls canon path) = Some c" by blast
  from find_last_Some_set [OF this] obtain j where "j < length (Calls canon path)"
      "c = Calls canon path ! j" "ca_CallID c = k"
    by (auto simp: in_set_conv_nth)
  with byID_unique [OF assms, of j canon] Some c show ?thesis by simp
qed

text \<open>On a well-named path an entry that names a call is for the call its call ID is bound to.\<close>

lemma bind_call_ID:
  assumes d: "distinct (call_ids path)" and ids: "distinct (map e_id path)"
    and x: "x \<in> set path" "e_id x = tgt" "call_of x = Some cid"
  shows "bind_call (calls_run canon path) cid tgt = cs_byID (calls_run canon path) cid"
proof -
  from x(3) obtain v where v: "x = ItemEntry v" by (cases x) auto
  have "v \<in> set (call_entries path)"
    using x v by (force simp: call_entries_def)
  then have "tgt \<in> set (map ca_EntryID (Calls canon path))"
    using x(2) v by (auto simp: map_EntryID_calls)
  with calls_full_run [OF ids, of canon] obtain i where
    i: "cs_byEntry (calls_run canon path) tgt = Some i"
    by (auto simp: calls_full_def Calls_def)
  with calls_wf_run [of canon path] have l: "i < length (Calls canon path)"
      and e: "ca_EntryID (Calls canon path ! i) = tgt"
    by (auto simp: calls_wf_def Calls_def)
  have "ca_Entry (Calls canon path ! i) \<in> set (call_entries path)"
    using l by (metis call_entries_eq nth_mem length_map nth_map)
  then have "ItemEntry (ca_Entry (Calls canon path ! i)) \<in> set path"
    by (rule call_entries_mem)
  with ids x v e have "ItemEntry (ca_Entry (Calls canon path ! i)) = x"
    by (metis base_of.simps(1) distinct_map inj_on_def)
  with v have "ca_Entry (Calls canon path ! i) = v" by simp
  with Calls_call_of [OF nth_mem [OF l]] x v have "ca_CallID (Calls canon path ! i) = cid" by simp
  with byID_unique [OF d l] i show ?thesis by (simp add: bind_call_def)
qed


lemma entry_call_ID:
  assumes "distinct (call_ids path)" "distinct (map e_id path)" "named_before path e" "call_of e = None"
  shows "entry_call (calls_run canon path) e =
    Option.bind (case call_names e of Some (cid, _) \<Rightarrow> Some cid | None \<Rightarrow> output_of e)
      (cs_byID (calls_run canon path))"
proof (cases "call_names e")
  case None
  then show ?thesis
    using entry_call_output [of e _ "calls_run canon path"] entry_call_other [of e "calls_run canon path"]
    by (cases "output_of e") auto
next
  case (Some a)
  obtain cid tgt where a: "a = (cid, tgt)" by fastforce
  with Some assms(3) obtain x where "x \<in> set path" "e_id x = tgt" "call_of x = Some cid"
    by (auto simp: named_before_def list_ex_iff)
  from bind_call_ID [OF assms(1,2) this, of canon] Some a entry_call_names [of e cid tgt]
  show ?thesis by simp
qed

lemma names_call_iff:
  "names_call k e \<longleftrightarrow> call_of e = Some k \<or> output_of e = Some k \<or> (\<exists>t. call_names e = Some (k, t))"
  by (cases e) (auto split: option.splits item.splits)

text \<open>On a well-named path the pass over the entries that name a call keeps a well-named path.\<close>

lemma named_filter:
  "named_before path e \<Longrightarrow> names_call k e \<Longrightarrow> call_of e = None \<Longrightarrow>
   named_before (filter (names_call k) path) e"
  by (cases e) (auto simp: named_before_def list_ex_iff names_call_iff split: option.splits)

lemma call_ids_filter: "distinct (call_ids path) \<Longrightarrow> distinct (call_ids (filter P path))"
proof (induction path rule: rev_induct)
  case (snoc e path)
  then show ?case by (auto simp: call_ids_iff split: option.splits)
qed simp

text \<open>What a pass holds of the call its ID map has for \<open>k\<close>.\<close>

definition by_id :: "string \<Rightarrow> calls_state \<Rightarrow> call option" where
  "by_id k st = map_option ((!) (cs_out st)) (cs_byID st k)"

lemma by_id_add:
  "calls_wf st \<Longrightarrow> by_id k (add_call v cid args st) = (if cid = k then Some (new_call v cid args) else by_id k st)"
  by (cases "cs_byID st k") (auto simp: by_id_def add_call_def calls_wf_def nth_append)

lemma by_id_bound:
  "calls_wf st \<Longrightarrow> entry_call st e = Option.bind t (cs_byID st) \<Longrightarrow>
   by_id k (bound_step canon e st) =
     (if t = Some k then map_option (take_entry canon e) (by_id k st) else by_id k st)"
  by (cases t; cases "cs_byID st k";
      auto simp: by_id_def bound_step_def upd_call_def calls_wf_def nth_list_update split: option.splits;
      metis)

lemma callFor_sim:
  "well_named path \<Longrightarrow> distinct (call_ids path) \<Longrightarrow> distinct (map e_id path) \<Longrightarrow>
   by_id k (calls_run canon path) = by_id k (calls_run canon (filter (names_call k) path))"
proof (induction path rule: rev_induct)
  case Nil
  then show ?case by simp
next
  case (snoc e path)
  let ?fp = "filter (names_call k) path"
  let ?F = "calls_run canon path" and ?A = "calls_run canon ?fp"
  have d: "distinct (call_ids path)" "distinct (map e_id path)" "named_before path e"
      "distinct (call_ids ?fp)" "distinct (map e_id ?fp)"
    using snoc.prems call_ids_filter [of path] by (auto simp: distinct_map_filter)
  have IH: "by_id k ?F = by_id k ?A" using snoc by simp
  show ?case
  proof (cases "call_of e")
    case (Some cid)
    from calls_step_call [OF this, of canon] obtain v args where
      st: "\<And>st. calls_step canon e st = add_call v cid args st"
      by (metis calls_step_call [OF Some] entry.inject(1) item.inject(1) option.inject)
    have "names_call k e \<longleftrightarrow> cid = k"
      using Some by (cases e) (auto split: option.splits item.splits)
    with IH show ?thesis by (simp add: st by_id_add)
  next
    case None
    let ?t = "case call_names e of Some (cid, _) \<Rightarrow> Some cid | None \<Rightarrow> output_of e"
    have nc: "names_call k e \<longleftrightarrow> ?t = Some k"
      using None by (cases e) (auto split: option.splits item.splits)
    note F = by_id_bound [OF calls_wf_run entry_call_ID [OF d(1,2,3) None], of k canon]
    show ?thesis
    proof (cases "names_call k e")
      case True
      from by_id_bound [OF calls_wf_run entry_call_ID [OF d(4,5) named_filter [OF d(3) True None] None],
          of k canon] True F nc IH
      show ?thesis by (simp add: calls_step_bound [OF None])
    next
      case False
      with F nc IH show ?thesis by (simp add: calls_step_bound [OF None])
    qed
  qed
qed

lemma callFor_full:
  assumes "well_named path" "distinct (call_ids path)" "distinct (map e_id path)"
  shows "callFor canon path k = find_last (\<lambda>c. ca_CallID c = k) (Calls canon path)"
  using callFor_sim [OF assms] find_CallID [OF assms(2)] find_CallID [OF call_ids_filter [OF assms(2)]]
  by (simp add: callFor_def by_id_def Calls_def)

end
