(* ===== verification/Validation.thy ===== *)
theory Validation
  imports Headers
begin

text \<open>
  What a writer is held to before an entry reaches the tree (\<open>validateEntry\<close> of
  \<open>session.go\<close>, \<open>validateLifecycle\<close> of \<open>lifecycle.go\<close> and the member forms of
  \<open>entry.go\<close> and \<open>redacted.go\<close>): trust labels, instruction layers, the groups of an omit,
  redaction spans, config deltas, and whose words an input message is.
\<close>

section \<open>Trust\<close>

definition Untrusted :: "trust option \<Rightarrow> bool" where
  "Untrusted t = (case t of None \<Rightarrow> False | Some u \<Rightarrow> list_ex (\<lambda>r. r \<noteq> TrustPrivate) (t_Reads u))"

text \<open>The labels of every trust given, each once, in the order they are met.\<close>

fun add_labels :: "string list \<Rightarrow> string list \<Rightarrow> string list" where
  "add_labels out [] = out"
| "add_labels out (r # rs) = add_labels (if r \<in> set out then out else out @ [r]) rs"

fun union_loop :: "trust option list \<Rightarrow> string list option \<Rightarrow> string list option" where
  "union_loop [] out = out"
| "union_loop (None # ts) out = union_loop ts out"
| "union_loop (Some t # ts) out =
     union_loop ts (Some (add_labels (case out of None \<Rightarrow> [] | Some rs \<Rightarrow> rs) (t_Reads t)))"

definition UnionTrust :: "trust option list \<Rightarrow> trust option" where
  "UnionTrust ts = map_option (\<lambda>rs. \<lparr>t_Reads = sort rs\<rparr>) (union_loop ts None)"

definition sameTrust :: "trust option \<Rightarrow> trust option \<Rightarrow> bool" where
  "sameTrust a b =
     (case (a, b) of
        (Some x, Some y) \<Rightarrow> UnionTrust [Some x] = UnionTrust [Some y]
      | (None, None) \<Rightarrow> True
      | _ \<Rightarrow> False)"

definition holdsTrust :: "trust option \<Rightarrow> trust option \<Rightarrow> bool" where
  "holdsTrust copy source =
     (case source of
        None \<Rightarrow> True
      | Some s \<Rightarrow>
          (case copy of
             None \<Rightarrow> False
           | Some c \<Rightarrow> list_all (\<lambda>r. r \<in> set (t_Reads c)) (t_Reads s)))"

fun entry_trusts :: "entry \<Rightarrow> trust option list" where
  "entry_trusts (ItemEntry v) = [it_Trust v]"
| "entry_trusts (ConfigEntry v) = map ip_Trust (c_InstructionsParts v)"
| "entry_trusts (CompactionEntry v) = cp_Trust v # map ip_Trust (s_InstructionsParts (cp_Config v))"
| "entry_trusts (BranchSummaryEntry v) = [bs_Trust v]"
| "entry_trusts _ = []"

definition PathTrust :: "entry list \<Rightarrow> trust option" where
  "PathTrust path = UnionTrust (concat (map entry_trusts path))"

section \<open>Instruction layers\<close>

definition layer_valid :: "layer_ref \<Rightarrow> bool" where
  "layer_valid r \<longleftrightarrow> lr_Source r \<noteq> [] \<and> (lr_ID r \<noteq> [] \<or> lr_Source r \<noteq> LayerAgentsMD)"

fun layers_loop :: "layer_ref list \<Rightarrow> string set \<Rightarrow> string set \<Rightarrow> bool" where
  "layers_loop [] ids sources = True"
| "layers_loop (r # rs) ids sources =
     (if \<not> layer_valid r then False
      else if lr_ID r = []
      then (if lr_Source r \<in> sources then False
            else layers_loop rs ids (insert (lr_Source r) sources))
      else (if lr_ID r \<in> ids then False else layers_loop rs (insert (lr_ID r) ids) sources))"

definition validLayers :: "layer_ref list \<Rightarrow> bool" where
  "validLayers refs \<longleftrightarrow> refs \<noteq> [] \<and> layers_loop refs {} {}"

section \<open>Whose words\<close>

datatype words = WordsUnclaimed | WordsPerson | WordsComposed

fun inputOf :: "entry \<Rightarrow> trigger option \<times> layer_ref list option" where
  "inputOf (ItemEntry v) = (it_Source v, item_Layers v)"
| "inputOf (QueuedEntry v) = (q_Trigger v, queued_Layers v)"
| "inputOf _ = (None, None)"

definition user_message :: "item option \<Rightarrow> bool" where
  "user_message i = (case i of Some (Message role c r) \<Rightarrow> role = RoleUser | _ \<Rightarrow> False)"

definition words_by_trigger :: "entry \<Rightarrow> words" where
  "words_by_trigger e =
     (case inputOf e of (trig, layers) \<Rightarrow>
        if layers \<noteq> None then WordsComposed
        else case trig of
            None \<Rightarrow> WordsUnclaimed
          | Some t \<Rightarrow> if tr_Kind t = TriggerHuman then WordsPerson else WordsComposed)"

definition WordsOf :: "entry \<Rightarrow> words" where
  "WordsOf e =
     (case e of
        ItemEntry v \<Rightarrow>
          if it_FromLink v \<noteq> [] \<and> user_message (it_Item v) then WordsComposed
          else if \<not> user_message (it_Item v) then WordsUnclaimed
          else words_by_trigger e
      | QueuedEntry v \<Rightarrow> if \<not> user_message (q_Item v) then WordsUnclaimed else words_by_trigger e
      | _ \<Rightarrow> WordsUnclaimed)"

section \<open>Redaction spans\<close>

fun spans_loop :: "span list \<Rightarrow> int \<Rightarrow> unit res" where
  "spans_loop [] prev = Inr ()"
| "spans_loop ((a, b) # ss) prev =
     (if a < 1 then Inl EBadRedacted
      else if b < a then Inl EBadRedacted
      else if a \<le> prev then Inl EBadRedacted
      else spans_loop ss b)"

definition checkSpans :: "span list \<Rightarrow> unit res" where
  "checkSpans spans = spans_loop spans 0"

section \<open>The groups of an omit\<close>

definition hasDefault :: "omit_outputs \<Rightarrow> bool" where
  "hasDefault m \<longleftrightarrow> oo_textSet m \<or> oo_Text m \<noteq> [] \<or> oo_Items m \<noteq> [] \<or> oo_Groups m = []"

definition TextFor :: "omit_outputs \<Rightarrow> string \<Rightarrow> string option" where
  "TextFor m x =
     (case find (\<lambda>g. x \<in> set (og_Items g)) (oo_Groups m) of
        Some g \<Rightarrow> Some (og_Text g)
      | None \<Rightarrow> if hasDefault m \<and> x \<in> set (oo_Items m) then Some (oo_Text m) else None)"

text \<open>
  \<open>owners\<close>: the map from each ID to the key of the group that lists it, as an association list
  with one pair per ID, \<open>None\<close> when the member lists an ID in two groups or a text twice.
\<close>

definition own_add :: "string \<Rightarrow> string \<Rightarrow> (string \<times> string) list \<Rightarrow> (string \<times> string) list option" where
  "own_add x key own =
     (if x = [] then Some own
      else case map_of own x of
          Some k \<Rightarrow> if k \<noteq> key then None else Some own
        | None \<Rightarrow> Some (own @ [(x, key)]))"

fun own_items :: "string list \<Rightarrow> string \<Rightarrow> (string \<times> string) list \<Rightarrow> (string \<times> string) list option" where
  "own_items [] key own = Some own"
| "own_items (x # xs) key own =
     (case own_add x key own of None \<Rightarrow> None | Some own' \<Rightarrow> own_items xs key own')"

fun own_groups ::
    "omit_output_group list \<Rightarrow> string set \<Rightarrow> (string \<times> string) list \<Rightarrow> (string \<times> string) list option" where
  "own_groups [] texts own = Some own"
| "own_groups (g # gs) texts own =
     (if og_Text g \<in> texts then None
      else case own_items (og_Items g) (''g'' @ og_Text g) own of
          None \<Rightarrow> None
        | Some own' \<Rightarrow> own_groups gs (insert (og_Text g) texts) own')"

definition owners :: "omit_outputs option \<Rightarrow> (string \<times> string) list option" where
  "owners oo =
     (case oo of
        None \<Rightarrow> Some []
      | Some m \<Rightarrow>
          (let own = (if hasDefault m
                      then (case own_items (oo_Items m) ''d'' [] of Some w \<Rightarrow> w | None \<Rightarrow> [])
                      else [])
           in own_groups (oo_Groups m) {} own))"

definition outputsWellFormed :: "omit_outputs option \<Rightarrow> bool" where
  "outputsWellFormed m \<longleftrightarrow> owners m \<noteq> None"

definition outputsOverlap :: "omit_outputs option \<Rightarrow> omit_outputs option \<Rightarrow> bool" where
  "outputsOverlap held d =
     (case owners d of
        None \<Rightarrow> True
      | Some dOwn \<Rightarrow>
          (let hOwn = (case owners held of None \<Rightarrow> [] | Some w \<Rightarrow> w)
           in list_ex (\<lambda>(id, k). case map_of hOwn id of None \<Rightarrow> False | Some hk \<Rightarrow> hk \<noteq> k) dOwn))"

definition omit_IsZero :: "omit \<Rightarrow> bool" where
  "omit_IsZero m \<longleftrightarrow>
     o_Reasoning m = [] \<and> o_Outputs m = None \<and> o_Images m = None \<and> \<not> o_undefined m \<and>
     list_all (\<lambda>id. id = []) (o_Items m)"

section \<open>Config deltas\<close>

definition PartSeparator :: string where
  "PartSeparator = [CHR 0x0A, CHR 0x0A]"

fun join :: "string \<Rightarrow> string list \<Rightarrow> string" where
  "join sep [] = []"
| "join sep [x] = x"
| "join sep (x # y # ys) = x @ sep @ join sep (y # ys)"

definition JoinInstructions :: "instruction_part list \<Rightarrow> string" where
  "JoinInstructions parts = join PartSeparator (map ip_Text parts)"

text \<open>The loop over the parts: the first error, else whether every part carries its text.\<close>

fun parts_loop :: "instruction_part list \<Rightarrow> string set \<Rightarrow> bool \<Rightarrow> bool res" where
  "parts_loop [] seen full = Inr full"
| "parts_loop (p # ps) seen full =
     (if ip_Keep p < 0 then Inl (EInvalid ''an instructions keep is negative'')
      else if ip_Keep p > 0
      then (if ip_ID p \<noteq> [] \<or> ip_Text p \<noteq> [] \<or> ip_Source p \<noteq> [] \<or> ip_Hash p \<noteq> []
            then Inl (EInvalid ''an instructions keep carries other members'')
            else parts_loop ps seen False)
      else if ip_ID p = [] then Inl (EInvalid ''an instructions part has no id'')
      else if ip_ID p \<in> seen then Inl (EInvalid ''instructions part is named twice'')
      else parts_loop ps (insert (ip_ID p) seen) (if ip_Text p = [] \<and> ip_Hash p \<noteq> [] then False else full))"

fun omitted_loop :: "omitted_part list \<Rightarrow> bool \<Rightarrow> bool res" where
  "omitted_loop [] keeps = Inr keeps"
| "omitted_loop (p # ps) keeps =
     (if om_Keep p < 0 then Inl (EInvalid ''an omitted instructions keep is negative'')
      else if om_Keep p > 0
      then (if om_ID p \<noteq> [] \<or> om_Reason p \<noteq> [] \<or> om_Size p \<noteq> 0 \<or> om_Source p \<noteq> []
            then Inl (EInvalid ''an omitted instructions keep carries other members'')
            else omitted_loop ps True)
      else if om_Of p \<noteq> [] then Inl (EInvalid ''an omitted instructions part carries of'')
      else if om_ID p = [] then Inl (EInvalid ''an omitted instructions part has no id'')
      else omitted_loop ps keeps)"

fun omitted_once :: "omitted_part list \<Rightarrow> string set \<Rightarrow> unit res" where
  "omitted_once [] seen = Inr ()"
| "omitted_once (p # ps) seen =
     (if om_ID p = [] then omitted_once ps seen
      else if om_ID p \<in> seen then Inl (EInvalid ''omitted instructions part is named twice beside a keep'')
      else omitted_once ps (insert (om_ID p) seen))"

definition validateOmitted :: "config_entry \<Rightarrow> unit res" where
  "validateOmitted c =
     (let omitted = (case c_InstructionsOmitted c of None \<Rightarrow> [] | Some l \<Rightarrow> l)
      in bind_res (omitted_loop omitted False) (\<lambda>keeps.
           if \<not> keeps then Inr ()
           else if c_Replace c
           then Inl (EInvalid ''a replacing config must write the omitted instructions parts whole'')
           else omitted_once omitted {}))"

definition validate_omit :: "omit \<Rightarrow> unit res" where
  "validate_omit m =
     then_res (refuse ([] \<in> set (o_Items m)) (EInvalid ''an omit items list names an empty id'')) (
     then_res (case o_Outputs m of
         None \<Rightarrow> Inr ()
       | Some oo \<Rightarrow>
           then_res (refuse ([] \<in> set (oo_Items oo) \<or> list_ex (\<lambda>g. [] \<in> set (og_Items g)) (oo_Groups oo))
                            (EInvalid ''an omit outputs list names an empty id''))
             (refuse (\<not> outputsWellFormed (Some oo)) EOmitOverlap)) (
       case o_Images m of
         None \<Rightarrow> Inr ()
       | Some i \<Rightarrow> refuse (oi_Keep i < 0) (EInvalid ''an omit images keep is negative'')))"

definition validateConfig :: "config_entry \<Rightarrow> unit res" where
  "validateConfig c =
     then_res (case c_Omit c of None \<Rightarrow> Inr () | Some m \<Rightarrow> validate_omit m) (
     bind_res (parts_loop (c_InstructionsParts c) {} True) (\<lambda>full.
     then_res (refuse (full \<and> c_InstructionsParts c \<noteq> [] \<and>
                       (case c_Instructions c of
                          None \<Rightarrow> False
                        | Some s \<Rightarrow> s \<noteq> JoinInstructions (c_InstructionsParts c)))
                      (EInvalid ''instructions and instructions_parts disagree'')) (
     then_res (refuse (\<not> full \<and> c_Replace c \<and> c_Instructions c = None)
                      (EInvalid ''a replacing config must carry the text of every instructions part'')) (
       validateOmitted c))))"

section \<open>Lifecycle entries and links\<close>

fun validateLifecycle :: "entry \<Rightarrow> unit res" where
  "validateLifecycle (RunEntry v) =
     (if rn_RunID v = [] then Inl (EInvalid ''run entry has no run_id'')
      else if rn_Phase v = RunStart
      then refuse (rn_Source v = []) (EInvalid ''run start has no source'')
      else if rn_Phase v = RunEnd
      then refuse (rn_Reason v = []) (EInvalid ''run end has no reason'')
      else Inl (EInvalid ''run entry phase''))"
| "validateLifecycle (DispatchEntry v) =
     refuse (dp_CallID v = [] \<or> dp_Target v = [])
            (EInvalid ''dispatch entry needs call_id and target'')"
| "validateLifecycle (DecisionEntry v) =
     (if dc_CallID v = [] \<or> dc_Target v = [] \<or> dc_Verdict v = []
      then Inl (EInvalid ''decision entry needs call_id, target and verdict'')
      else if dc_Verdict v = VerdictReject \<and> dc_Reason v = []
      then Inl (EInvalid ''a reject decision needs a reason'')
      else refuse (dc_Withdrawn v \<and> dc_Verdict v \<noteq> VerdictReject)
                  (EInvalid ''withdrawn is defined on a reject alone''))"
| "validateLifecycle (ResultEntry v) =
     (if rs_CallID v = [] \<or> rs_Target v = []
      then Inl (EInvalid ''result entry needs call_id and target'')
      else case rs_Item v of
          Some (FunctionCallOutput cid out r) \<Rightarrow>
            refuse (cid \<noteq> rs_CallID v) (EInvalid ''a result's item is the output of another call'')
        | _ \<Rightarrow> Inl (EInvalid ''a result's item is a function call output''))"
| "validateLifecycle (QueuedEntry v) =
     (if q_Item v = None then Inl (EInvalid ''queued entry has no item'')
      else if q_Mode v = [] then Inl (EInvalid ''queued entry has no mode'')
      else if q_Deliver v \<and> q_Mode v \<noteq> ModeSteer
      then Inl (EInvalid ''deliver is defined on a steer alone'')
      else if (q_InstructionsPart v \<noteq> None \<or> q_InstructionsLayers v \<noteq> None) \<and>
              \<not> (case q_Item v of Some (Message role c r) \<Rightarrow> True | _ \<Rightarrow> False)
      then Inl (EInvalid ''instructions_part is defined beside a message alone'')
      else if (case q_InstructionsPart v of None \<Rightarrow> False | Some p \<Rightarrow> \<not> layer_valid p)
      then Inl (EInvalid ''instructions_part names no source, or an agentsmd layer with no id'')
      else case q_InstructionsLayers v of
          None \<Rightarrow> Inr ()
        | Some l \<Rightarrow>
            if q_InstructionsPart v \<noteq> None
            then Inl (EInvalid ''instructions_part is both a single layer and a list'')
            else refuse (\<not> validLayers l) (EInvalid ''instructions_part list is malformed''))"
| "validateLifecycle _ = Inr ()"

definition spawn_char :: "char \<Rightarrow> bool" where
  "spawn_char c =
     (let n = (of_char c :: nat)
      in 97 \<le> n \<and> n \<le> 122 \<or> 65 \<le> n \<and> n \<le> 90 \<or> 48 \<le> n \<and> n \<le> 57 \<or> n = 95 \<or> n = 45)"

definition validSpawnID :: "string \<Rightarrow> bool" where
  "validSpawnID x \<longleftrightarrow> x \<noteq> [] \<and> list_all spawn_char x"

definition validate_link :: "link_entry \<Rightarrow> unit res" where
  "validate_link v =
     then_res (refuse (ln_SpawnID v \<noteq> [] \<and> (ln_Rel v \<noteq> RelSubsession \<or> \<not> validSpawnID (ln_SpawnID v)))
                      (EInvalid ''a link's spawn_id'')) (
     then_res (refuse (ln_Target v \<noteq> [] \<and> ln_Rel v \<noteq> RelJudgedBy \<and> (\<not> callee v \<or> ln_Cancel v = []))
                      (EInvalid ''a link target'')) (
     then_res (refuse ((ln_URL v \<noteq> [] \<or> ln_Task v \<noteq> [] \<or> ln_Context v \<noteq> [] \<or> ln_Cancel v \<noteq> []) \<and>
                       \<not> callee v)
                      (EInvalid ''a link's url, task, context and cancel'')) (
     then_res (refuse (ln_Cancel v \<noteq> [] \<and> ln_Cancel v \<noteq> CancelSent) (EInvalid ''a link's cancel'')) (
     then_res (refuse (ln_Cancel v \<noteq> [] \<and> ln_Target v = [])
                      (EInvalid ''a cancel notice names the link it is about'')) (
       refuse ((ln_Task v \<noteq> [] \<or> ln_Context v \<noteq> []) \<and> ln_URL v = [])
              (EInvalid ''a link's task and context name a callee at a url''))))))"

text \<open>\<open>validateEntry\<close>; the nil entry is \<open>None\<close>.\<close>

definition validateEntry :: "entry option \<Rightarrow> unit res" where
  "validateEntry eo =
     (case eo of
        None \<Rightarrow> Inl (EInvalid ''nil entry'')
      | Some e \<Rightarrow>
          (case e of
             ResponseEntry v \<Rightarrow> refuse (rp_Attempts v < 0) (EInvalid ''response attempts is negative'')
           | ItemEntry v \<Rightarrow>
               (case it_Item v of
                  None \<Rightarrow> Inl (EInvalid ''item entry has no item'')
                | Some (ItemReference r) \<Rightarrow>
                    Inl (EInvalid ''an item entry cannot hold an item_reference'')
                | Some _ \<Rightarrow> Inr ())
           | CompactionEntry v \<Rightarrow>
               refuse (cp_Summary v = None) (EInvalid ''compaction entry has no summary'')
           | BranchSummaryEntry v \<Rightarrow>
               refuse (bs_Summary v = None) (EInvalid ''branch_summary entry has no summary'')
           | ConfigEntry v \<Rightarrow> validateConfig v
           | LinkEntry v \<Rightarrow> validate_link v
           | UnknownEntry v \<Rightarrow> refuse (un_Raw v = []) (EInvalid ''unknown entry has no raw bytes'')
           | RunEntry _ \<Rightarrow> validateLifecycle e
           | DispatchEntry _ \<Rightarrow> validateLifecycle e
           | DecisionEntry _ \<Rightarrow> validateLifecycle e
           | QueuedEntry _ \<Rightarrow> validateLifecycle e
           | ResultEntry _ \<Rightarrow> validateLifecycle e
           | _ \<Rightarrow> Inr ()))"

section \<open>Facts about trust\<close>

lemma set_add_labels: "set (add_labels out rs) = set out \<union> set rs"
  by (induction out rs rule: add_labels.induct) auto

lemma distinct_add_labels: "distinct out \<Longrightarrow> distinct (add_labels out rs)"
  by (induction out rs rule: add_labels.induct) auto

definition labels_of :: "trust option \<Rightarrow> string set" where
  "labels_of t = (case t of None \<Rightarrow> {} | Some u \<Rightarrow> set (t_Reads u))"

lemma union_loop_labels:
  "union_loop ts out = None \<longleftrightarrow> out = None \<and> (\<forall>t\<in>set ts. t = None)"
  "union_loop ts out = Some rs \<Longrightarrow>
     set rs = (case out of None \<Rightarrow> {} | Some r \<Rightarrow> set r) \<union> (\<Union>t\<in>set ts. labels_of t)"
  "union_loop ts out = Some rs \<Longrightarrow> (\<And>r. out = Some r \<Longrightarrow> distinct r) \<Longrightarrow> distinct rs"
proof (induction ts out arbitrary: rs rule: union_loop.induct)
  case (3 t ts out)
  {
    case 1
    show ?case using "3.IH"(1) by simp
  next
    case 2
    then show ?case using "3.IH"(2) by (auto simp: set_add_labels labels_of_def split: option.splits)
  next
    case 3
    then show ?case using "3.IH"(3) by (auto simp: distinct_add_labels split: option.splits)
  }
qed (auto simp: labels_of_def)

lemma UnionTrust_None: "UnionTrust ts = None \<longleftrightarrow> (\<forall>t\<in>set ts. t = None)"
  by (simp add: UnionTrust_def union_loop_labels(1))

lemma UnionTrust_Some:
  "UnionTrust ts = Some u \<Longrightarrow>
     set (t_Reads u) = (\<Union>t\<in>set ts. labels_of t) \<and> sorted (t_Reads u) \<and> distinct (t_Reads u)"
  using union_loop_labels(2,3) [of ts None] by (auto simp: UnionTrust_def)

text \<open>The union depends on the labels alone, not on the order the trusts are given in.\<close>

lemma UnionTrust_cong:
  assumes "set ts = set us"
  shows "UnionTrust ts = UnionTrust us"
proof (cases "UnionTrust ts")
  case None
  then have "UnionTrust us = None" using assms by (simp add: UnionTrust_None)
  with None show ?thesis by simp
next
  case (Some u)
  with assms obtain w where w: "UnionTrust us = Some w"
    by (metis UnionTrust_None not_Some_eq)
  have "t_Reads u = t_Reads w"
    using UnionTrust_Some [OF Some] UnionTrust_Some [OF w] assms
    by (metis sorted_distinct_set_unique)
  with Some w show ?thesis by simp
qed

lemma PathTrust_labels:
  "labels_of (PathTrust path) = (\<Union>e\<in>set path. \<Union>t\<in>set (entry_trusts e). labels_of t)"
proof (cases "PathTrust path")
  case None
  then have "\<forall>e\<in>set path. \<forall>t\<in>set (entry_trusts e). t = None"
    by (simp add: PathTrust_def UnionTrust_None)
  with None show ?thesis by (force simp: labels_of_def)
next
  case (Some u)
  then show ?thesis
    using UnionTrust_Some [of "concat (map entry_trusts path)" u] by (simp add: PathTrust_def labels_of_def)
qed

lemma holdsTrust_iff: "holdsTrust c s \<longleftrightarrow> s = None \<or> c \<noteq> None \<and> labels_of s \<subseteq> labels_of c"
  by (auto simp: holdsTrust_def labels_of_def list_all_iff split: option.splits)

section \<open>Facts about the forms\<close>

lemma spans_loop_ok:
  "spans_loop ss p = Inr u \<longleftrightarrow>
     (\<forall>s\<in>set ss. 1 \<le> fst s \<and> fst s \<le> snd s \<and> p < fst s) \<and>
     sorted_wrt (\<lambda>s t. snd s < fst t) ss"
proof (induction ss p rule: spans_loop.induct)
  case (2 a b ss p)
  show ?case
  proof (cases "1 \<le> a \<and> a \<le> b \<and> p < a")
    case True
    then have "spans_loop ((a, b) # ss) p = spans_loop ss b" by simp
    with 2 True show ?thesis by force
  next
    case False
    then show ?thesis by auto
  qed
qed simp

lemma layers_loop_ok:
  "layers_loop rs ids sources \<longleftrightarrow>
     (\<forall>r\<in>set rs. layer_valid r) \<and>
     distinct (filter (\<lambda>i. i \<noteq> []) (map lr_ID rs)) \<and> ids \<inter> (set (map lr_ID rs) - {[]}) = {} \<and>
     distinct (map lr_Source (filter (\<lambda>r. lr_ID r = []) rs)) \<and>
     sources \<inter> set (map lr_Source (filter (\<lambda>r. lr_ID r = []) rs)) = {}"
  by (induction rs ids sources rule: layers_loop.induct) auto

text \<open>The group an outputs member lists an entry in, by its key: the specification of \<open>owners\<close>.\<close>

definition lists_in :: "omit_outputs \<Rightarrow> string \<Rightarrow> string \<Rightarrow> bool" where
  "lists_in m x key \<longleftrightarrow> x \<noteq> [] \<and>
     (hasDefault m \<and> x \<in> set (oo_Items m) \<and> key = ''d'' \<or>
      (\<exists>g\<in>set (oo_Groups m). x \<in> set (og_Items g) \<and> key = ''g'' @ og_Text g))"

lemma own_add_cases:
  assumes "own_add x key own = Some own'"
  obtains "own' = own" "x = []"
    | "own' = own" "map_of own x = Some key"
    | "own' = own @ [(x, key)]" "x \<noteq> []" "map_of own x = None" "map_of own' = (map_of own)(x \<mapsto> key)"
  using assms map_of_snoc [of x own key]
  by (auto simp: own_add_def map_of_eq_None_iff split: if_splits option.splits)

lemma own_items_Some:
  "own_items xs key own = Some w \<Longrightarrow> distinct (map fst own) \<Longrightarrow>
   distinct (map fst w) \<and>
   map_of w = (\<lambda>x. if map_of own x = None \<and> x \<noteq> [] \<and> x \<in> set xs then Some key else map_of own x) \<and>
   (\<forall>x\<in>set xs. x \<noteq> [] \<longrightarrow> map_of w x = Some key)"
proof (induction xs key own rule: own_items.induct)
  case (2 x xs key own)
  from "2.prems"(1) obtain own' where a: "own_add x key own = Some own'" and r: "own_items xs key own' = Some w"
    by (auto split: option.splits)
  from a show ?case
  proof (cases rule: own_add_cases)
    case 1
    with "2.IH" [OF a r] "2.prems"(2) show ?thesis by (auto simp: fun_eq_iff)
  next
    case 2
    with "2.IH" [OF a r] "2.prems"(2) show ?thesis by (auto simp: fun_eq_iff)
  next
    case 3
    then have "distinct (map fst own')" using "2.prems"(2) by (auto simp: map_of_eq_None_iff)
    from "2.IH" [OF a r this] 3 show ?thesis by (auto simp: fun_eq_iff)
  qed
qed auto

lemma own_items_None:
  "own_items xs key own = None \<Longrightarrow> \<exists>x\<in>set xs. x \<noteq> [] \<and> (\<exists>k. map_of own x = Some k \<and> k \<noteq> key)"
proof (induction xs key own rule: own_items.induct)
  case (2 x xs key own)
  show ?case
  proof (cases "own_add x key own")
    case None
    then show ?thesis by (auto simp: own_add_def split: if_splits option.splits)
  next
    case (Some own')
    with "2.prems" have "own_items xs key own' = None" by simp
    from "2.IH" [OF Some this] Some show ?thesis
      by (elim own_add_cases) (auto split: if_splits)
  qed
qed simp

text \<open>
  The loop over the groups: from the pairs \<open>own\<close>, it fails exactly when a text is repeated or an
  ID is listed in two groups, and otherwise adds each listed ID under its group's key.
\<close>

definition group_lists :: "omit_output_group list \<Rightarrow> string \<Rightarrow> string \<Rightarrow> bool" where
  "group_lists gs x key \<longleftrightarrow> x \<noteq> [] \<and> (\<exists>g\<in>set gs. x \<in> set (og_Items g) \<and> key = ''g'' @ og_Text g)"

lemma group_lists_Cons:
  "group_lists (g # gs) x key \<longleftrightarrow>
     (x \<noteq> [] \<and> x \<in> set (og_Items g) \<and> key = ''g'' @ og_Text g) \<or> group_lists gs x key"
  by (auto simp: group_lists_def)

lemma own_groups_Some:
  "own_groups gs texts own = Some w \<Longrightarrow> distinct (map fst own) \<Longrightarrow>
   distinct (map fst w) \<and> distinct (map og_Text gs) \<and> set (map og_Text gs) \<inter> texts = {} \<and>
   (\<forall>x key. map_of w x = Some key \<longleftrightarrow> map_of own x = Some key \<or> group_lists gs x key)"
proof (induction gs texts own rule: own_groups.induct)
  case (1 texts own)
  then show ?case by (auto simp: group_lists_def)
next
  case (2 g gs texts own)
  from "2.prems"(1) obtain own' where t: "og_Text g \<notin> texts"
      and a: "own_items (og_Items g) (''g'' @ og_Text g) own = Some own'"
      and r: "own_groups gs (insert (og_Text g) texts) own' = Some w"
    by (auto split: option.splits if_splits)
  from own_items_Some [OF a "2.prems"(2)] have d: "distinct (map fst own')" and
    m: "map_of own' x = Some key \<longleftrightarrow> map_of own x = Some key \<or>
      (x \<noteq> [] \<and> x \<in> set (og_Items g) \<and> key = ''g'' @ og_Text g)" for x key
    by (auto split: if_splits)
  from "2.IH" [OF t a r d] t show ?case by (auto simp: m group_lists_Cons)
qed

lemma own_groups_None:
  "own_groups gs texts own = None \<Longrightarrow> distinct (map fst own) \<Longrightarrow>
   \<not> distinct (map og_Text gs) \<or> set (map og_Text gs) \<inter> texts \<noteq> {} \<or>
   (\<exists>x k1 k2. (map_of own x = Some k1 \<or> group_lists gs x k1) \<and> group_lists gs x k2 \<and> k1 \<noteq> k2)"
proof (induction gs texts own rule: own_groups.induct)
  case (2 g gs texts own)
  show ?case
  proof (cases "og_Text g \<in> texts")
    case False
    show ?thesis
    proof (cases "own_items (og_Items g) (''g'' @ og_Text g) own")
      case None
      from own_items_None [OF this] obtain x k where "x \<in> set (og_Items g)" "x \<noteq> []"
          "map_of own x = Some k" "k \<noteq> ''g'' @ og_Text g"
        by blast
      then show ?thesis unfolding group_lists_Cons by blast
    next
      case (Some own')
      with "2.prems" False have r: "own_groups gs (insert (og_Text g) texts) own' = None" by simp
      from own_items_Some [OF Some "2.prems"(2)] have d: "distinct (map fst own')" and
        m: "map_of own' x = Some key \<longleftrightarrow> map_of own x = Some key \<or>
          (x \<noteq> [] \<and> x \<in> set (og_Items g) \<and> key = ''g'' @ og_Text g)" for x key
        by (auto split: if_splits)
      from "2.IH" [OF False Some r d] show ?thesis
      proof (elim disjE)
        assume "set (map og_Text gs) \<inter> insert (og_Text g) texts \<noteq> {}"
        then show ?thesis by auto
      next
        assume "\<exists>x k1 k2. (map_of own' x = Some k1 \<or> group_lists gs x k1) \<and> group_lists gs x k2 \<and> k1 \<noteq> k2"
        then show ?thesis unfolding m group_lists_Cons by blast
      qed auto
    qed
  qed auto
qed simp

definition own_default :: "omit_outputs \<Rightarrow> (string \<times> string) list" where
  "own_default m =
     (if hasDefault m then (case own_items (oo_Items m) ''d'' [] of Some w \<Rightarrow> w | None \<Rightarrow> []) else [])"

lemma own_default_spec:
  "distinct (map fst (own_default m))"
  "map_of (own_default m) x = Some key \<longleftrightarrow>
     hasDefault m \<and> x \<noteq> [] \<and> x \<in> set (oo_Items m) \<and> key = ''d''"
proof -
  have "own_items (oo_Items m) ''d'' [] \<noteq> None" using own_items_None [of "oo_Items m" "''d''" "[]"] by auto
  then obtain w where w: "own_items (oo_Items m) ''d'' [] = Some w" by blast
  note s = own_items_Some [OF w]
  show "distinct (map fst (own_default m))" using s w by (simp add: own_default_def)
  show "map_of (own_default m) x = Some key \<longleftrightarrow>
       hasDefault m \<and> x \<noteq> [] \<and> x \<in> set (oo_Items m) \<and> key = ''d''"
    unfolding own_default_def w option.case using s by (cases "hasDefault m") (auto split: if_splits)
qed

lemma lists_in_alt: "lists_in m x key \<longleftrightarrow> map_of (own_default m) x = Some key \<or> group_lists (oo_Groups m) x key"
  by (auto simp: lists_in_def own_default_spec group_lists_def)

lemma owners_Some:
  assumes "owners (Some m) = Some w"
  shows "map_of w x = Some key \<longleftrightarrow> lists_in m x key" "distinct (map og_Text (oo_Groups m))" "distinct (map fst w)"
  using own_groups_Some [of "oo_Groups m" "{}" "own_default m" w] own_default_spec(1) assms
  by (auto simp: owners_def own_default_def [symmetric] Let_def lists_in_alt)

text \<open>The specification of a well-formed member: no text twice, no entry in two groups.\<close>

definition one_group :: "omit_outputs \<Rightarrow> bool" where
  "one_group m \<longleftrightarrow> distinct (map og_Text (oo_Groups m)) \<and>
     (\<forall>x k1 k2. lists_in m x k1 \<longrightarrow> lists_in m x k2 \<longrightarrow> k1 = k2)"

lemma outputsWellFormed_iff: "outputsWellFormed (Some m) \<longleftrightarrow> one_group m"
proof (cases "owners (Some m)")
  case None
  then have "own_groups (oo_Groups m) {} (own_default m) = None"
    by (simp add: owners_def own_default_def Let_def)
  from own_groups_None [OF this own_default_spec(1)] None show ?thesis
    by (auto simp: outputsWellFormed_def one_group_def lists_in_alt)
next
  case (Some w)
  from owners_Some [OF Some] Some show ?thesis
    unfolding outputsWellFormed_def one_group_def by (metis option.distinct(1) option.inject)
qed

end
