(* ===== verification/Contexts.thy ===== *)
theory Contexts
  imports Validation
begin

text \<open>
  The settings a model call runs under and the context it receives (\<open>context.go\<close>, with the
  \<open>Omit\<close> operations of \<open>entry.go\<close>): the replay of config deltas (\<open>Settings.Apply\<close>), the
  resolution of instruction parts and omitted parts against what is in force, the deltas a writer
  computes, and the context algorithm over a root-first path.  \<open>HashText\<close>, a SHA-256 of the text,
  is the parameter \<open>hash\<close>.  Go's \<open>map[string]bool\<close> sets are sets, and a slice of a Go slice
  between two bounds is a \<open>take\<close> of a \<open>drop\<close>; a keep is decoded from at most 32 bits, so no
  cursor reaches the width of an \<open>int\<close> and cursors are unbounded here.
\<close>

section \<open>Omit\<close>

definition OmitOtherModels :: string where "OmitOtherModels = ''other_models''"
definition OmitItems :: string where "OmitItems = ''items''"
definition OmitOutputsReason :: string where "OmitOutputsReason = ''outputs''"
definition OmitImagesReason :: string where "OmitImagesReason = ''images''"

definition zero_omit :: omit where
  "zero_omit = \<lparr>o_Reasoning = [], o_Items = [], o_Outputs = None, o_Images = None, o_undefined = False\<rparr>"

text \<open>\<open>clone\<close> leaves the mark of an undefined member behind.\<close>

definition omit_clone :: "omit \<Rightarrow> omit" where
  "omit_clone m = m\<lparr>o_undefined := False\<rparr>"

fun union_add :: "string list \<Rightarrow> string list \<Rightarrow> string list" where
  "union_add out [] = out"
| "union_add out (x # xs) = union_add (if x \<noteq> [] \<and> x \<notin> set out then out @ [x] else out) xs"

definition union :: "string list \<Rightarrow> string list \<Rightarrow> string list" where
  "union a b = union_add (union_add [] a) b"

definition no_outputs :: omit_outputs where
  "no_outputs = \<lparr>oo_Text = [], oo_Items = [], oo_Groups = [], oo_textSet = False\<rparr>"

fun merge_group :: "omit_output_group list \<Rightarrow> omit_output_group \<Rightarrow> omit_output_group list" where
  "merge_group [] g = [\<lparr>og_Text = og_Text g, og_Items = union [] (og_Items g)\<rparr>]"
| "merge_group (h # hs) g =
     (if og_Text h = og_Text g then h\<lparr>og_Items := union (og_Items h) (og_Items g)\<rparr> # hs
      else h # merge_group hs g)"

definition mergedOutputs :: "omit_outputs option \<Rightarrow> omit_outputs \<Rightarrow> omit_outputs" where
  "mergedOutputs held d =
     (let out = (case held of None \<Rightarrow> no_outputs | Some h \<Rightarrow> h);
          out = (if hasDefault d
                 then out\<lparr>oo_Text := oo_Text d, oo_Items := union (oo_Items out) (oo_Items d),
                          oo_textSet := True\<rparr>
                 else out)
      in out\<lparr>oo_Groups := foldl merge_group (oo_Groups out) (oo_Groups d)\<rparr>)"

definition omit_merged :: "omit \<Rightarrow> omit \<Rightarrow> omit" where
  "omit_merged m d =
     (if omit_IsZero d then zero_omit
      else (omit_clone m)\<lparr>
             o_Reasoning := (if o_Reasoning d = OmitOtherModels then o_Reasoning d else o_Reasoning m),
             o_Items := union (o_Items m) (o_Items d),
             o_Outputs :=
               (case o_Outputs d of
                  None \<Rightarrow> o_Outputs m
                | Some od \<Rightarrow>
                    if outputsOverlap (o_Outputs m) (Some od) then o_Outputs m
                    else Some (mergedOutputs (o_Outputs m) od)),
             o_Images := (case o_Images d of None \<Rightarrow> o_Images m | Some i \<Rightarrow> Some i)\<rparr>)"

section \<open>Instruction parts\<close>

definition part_Unresolved :: "instruction_part \<Rightarrow> bool" where
  "part_Unresolved p \<longleftrightarrow>
     ip_Text p = [] \<and> ip_Hash p \<noteq> [] \<or> ip_ID p = [] \<and> ip_Keep p > 0 \<or> ip_unresolved p"

definition unresolvedParts :: "instruction_part list \<Rightarrow> bool" where
  "unresolvedParts parts = list_ex part_Unresolved parts"

definition no_part :: instruction_part where
  "no_part = \<lparr>ip_ID = [], ip_Text = [], ip_Source = [], ip_Trust = None, ip_Hash = [], ip_Keep = 0,
     ip_unresolved = False\<rparr>"

text \<open>
  The parts that left force, one node per config entry that moved any, newest first.  The code keeps
  a set of the parts now in force under Go's struct equality, which compares the trust by pointer: a
  part with a trust is the same only where a keep took it over as it is.  A part in force therefore
  comes with a flag that says whether a keep took it over.
\<close>

definition leave ::
    "instruction_part list list \<Rightarrow> instruction_part list \<Rightarrow> (bool \<times> instruction_part) list \<Rightarrow>
     instruction_part list list" where
  "leave h prev now =
     (let gone = filter (\<lambda>p. \<not> (ip_ID p = [] \<or> part_Unresolved p \<or>
                   list_ex (\<lambda>(shared, q). q = p \<and> (shared \<or> ip_Trust p = None)) now)) prev
      in if gone = [] then h else gone # h)"

fun history_find ::
    "(string \<Rightarrow> string) \<Rightarrow> instruction_part list list \<Rightarrow> string \<Rightarrow> string \<Rightarrow> instruction_part option" where
  "history_find hash [] pid h = None"
| "history_find hash (node # hs) pid h =
     (case find (\<lambda>p. ip_ID p = pid \<and> hash (ip_Text p) = h) node of
        Some p \<Rightarrow> Some p
      | None \<Rightarrow> history_find hash hs pid h)"

definition history_has :: "(string \<Rightarrow> string) \<Rightarrow> instruction_part list list \<Rightarrow> instruction_part \<Rightarrow> bool" where
  "history_has hash h p =
     (case history_find hash h (ip_ID p) (hash (ip_Text p)) of
        None \<Rightarrow> False
      | Some q \<Rightarrow> ip_Source q = ip_Source p \<and> sameTrust (ip_Trust q) (ip_Trust p))"

text \<open>The index a map filled front to back holds for a key: the last one.\<close>

definition last_at :: "('a \<Rightarrow> string) \<Rightarrow> 'a list \<Rightarrow> string \<Rightarrow> nat option" where
  "last_at f xs k = find_last (\<lambda>i. f (xs ! i) = k) [0..<length xs]"

definition slice :: "'a list \<Rightarrow> nat \<Rightarrow> nat \<Rightarrow> 'a list" where
  "slice xs i n = take n (drop i xs)"

definition resolve_hash ::
    "(string \<Rightarrow> string) \<Rightarrow> instruction_part list \<Rightarrow> instruction_part list list \<Rightarrow> instruction_part \<Rightarrow>
     instruction_part" where
  "resolve_hash hash prev left p =
     (let next = no_part\<lparr>ip_ID := ip_ID p, ip_Text := ip_Text p, ip_Source := ip_Source p,
                         ip_Trust := ip_Trust p\<rparr>
      in if ip_Text p = [] \<and> ip_Hash p \<noteq> []
         then (let inforce = find_last (\<lambda>q. ip_ID q = ip_ID p) prev;
                   old = (if (case inforce of
                                None \<Rightarrow> True
                              | Some q \<Rightarrow> \<not> part_Unresolved q \<and> hash (ip_Text q) \<noteq> ip_Hash p)
                          then history_find hash left (ip_ID p) (ip_Hash p)
                          else inforce)
               in case old of
                    Some q \<Rightarrow>
                      if part_Unresolved q then next\<lparr>ip_Hash := ip_Hash p\<rparr>
                      else next\<lparr>ip_Text := ip_Text q,
                                ip_Source := (if ip_Source next = [] then ip_Source q else ip_Source next),
                                ip_Trust := (if ip_Trust next = None then ip_Trust q else ip_Trust next)\<rparr>
                  | None \<Rightarrow> next\<lparr>ip_Hash := ip_Hash p\<rparr>)
         else next)"

fun apply_parts ::
    "(string \<Rightarrow> string) \<Rightarrow> instruction_part list \<Rightarrow> string set \<Rightarrow> instruction_part list list \<Rightarrow>
     instruction_part list \<Rightarrow> nat \<Rightarrow> (bool \<times> instruction_part) list" where
  "apply_parts hash prev named left [] cursor = []"
| "apply_parts hash prev named left (p # ps) cursor =
     (if ip_ID p = [] \<and> ip_Keep p > 0
      then (let k = nat (ip_Keep p); run = slice prev cursor k;
                rest = apply_parts hash prev named left ps (cursor + k)
            in if length run = k \<and> list_all (\<lambda>q. ip_ID q \<notin> named) run
               then map (\<lambda>q. (True, q)) run @ rest
               else (False, no_part\<lparr>ip_Keep := ip_Keep p\<rparr>) # rest)
      else if ip_ID p = []
      then (False, no_part\<lparr>ip_Keep := ip_Keep p, ip_unresolved := True\<rparr>)
             # apply_parts hash prev named left ps cursor
      else (False, resolve_hash hash prev left p)
             # apply_parts hash prev named left ps
                 (case last_at ip_ID prev (ip_ID p) of None \<Rightarrow> cursor | Some i \<Rightarrow> i + 1))"

definition applyInstructionParts ::
    "(string \<Rightarrow> string) \<Rightarrow> instruction_part list \<Rightarrow> instruction_part list \<Rightarrow>
     instruction_part list list \<Rightarrow> (bool \<times> instruction_part) list" where
  "applyInstructionParts hash prev delta left =
     apply_parts hash prev (set (map ip_ID delta) - {[]}) left delta 0"

section \<open>Omitted parts\<close>

text \<open>The first index at which a list names an ID; an empty ID names nothing.\<close>

definition first_at :: "omitted_part list \<Rightarrow> string \<Rightarrow> nat option" where
  "first_at l k = (if k = [] then None else find (\<lambda>i. om_ID (l ! i) = k) [0..<length l])"

record cursor =
  cu_list :: "omitted_part list"
  cu_next :: nat

definition newCursor :: "omitted_part list \<Rightarrow> cursor" where
  "newCursor l = \<lparr>cu_list = l, cu_next = 0\<rparr>"

type_synonym cursors = "string \<rightharpoonup> cursor"

definition is_keep :: "omitted_part \<Rightarrow> bool" where
  "is_keep p \<longleftrightarrow> om_ID p = [] \<and> om_Keep p > 0"

fun find_cursors ::
    "(string \<times> omitted_part list) list \<Rightarrow> omitted_part list \<Rightarrow> cursors \<Rightarrow> cursors" where
  "find_cursors hist [] cs = cs"
| "find_cursors hist (p # ps) cs =
     find_cursors hist ps
       (if is_keep p \<and> om_Of p \<noteq> [] \<and> cs (om_Of p) = None
        then (case map_of hist (om_Of p) of None \<Rightarrow> cs | Some l \<Rightarrow> cs(om_Of p \<mapsto> newCursor l))
        else cs)"

definition keep_part :: "int \<Rightarrow> string \<Rightarrow> omitted_part" where
  "keep_part k src = \<lparr>om_ID = [], om_Reason = [], om_Size = 0, om_Source = [], om_Keep = k, om_Of = src\<rparr>"

fun resolve_parts ::
    "string set \<Rightarrow> omitted_part list \<Rightarrow> cursors \<Rightarrow> omitted_part list \<times> bool" where
  "resolve_parts named [] cs = ([], False)"
| "resolve_parts named (p # ps) cs =
     (if is_keep p
      then (case cs (om_Of p) of
              None \<Rightarrow>
                (let (out, bad) = resolve_parts named ps cs
                 in (keep_part (om_Keep p) (om_Of p) # out, True))
            | Some cur \<Rightarrow>
                (let k = nat (om_Keep p); run = slice (cu_list cur) (cu_next cur) k;
                     (out, bad) =
                       resolve_parts named ps (cs(om_Of p \<mapsto> cur\<lparr>cu_next := cu_next cur + k\<rparr>))
                 in if length run = k \<and> list_all (\<lambda>q. om_ID q \<notin> named) run
                    then (run @ out, bad)
                    else (keep_part (om_Keep p) (om_Of p) # out, om_Of p \<noteq> [] \<or> bad)))
      else if om_ID p = []
      then (let (out, bad) = resolve_parts named ps cs in (p # out, bad))
      else (let (out, bad) =
                  resolve_parts named ps
                    (\<lambda>k. map_option (\<lambda>cur. case first_at (cu_list cur) (om_ID p) of
                             None \<Rightarrow> cur
                           | Some i \<Rightarrow> cur\<lparr>cu_next := i + 1\<rparr>) (cs k))
            in (p\<lparr>om_Keep := 0, om_Of := []\<rparr> # out, bad)))"

definition resolveOmitted ::
    "omitted_part list \<Rightarrow> omitted_part list \<Rightarrow> (string \<times> omitted_part list) list \<Rightarrow>
     omitted_part list \<times> bool" where
  "resolveOmitted prev delta hist =
     resolve_parts (set (map om_ID delta) - {[]}) delta
       (find_cursors hist delta [[] \<mapsto> newCursor prev])"

definition applyOmitted ::
    "omitted_part list \<Rightarrow> omitted_part list \<Rightarrow> (string \<times> omitted_part list) list \<Rightarrow> omitted_part list" where
  "applyOmitted prev delta hist = fst (resolveOmitted prev delta hist)"

section \<open>The replay of config deltas\<close>

definition zero_settings :: settings where
  "zero_settings = \<lparr>s_Model = [], s_Instructions = [], s_Reasoning = [], s_Text = [],
     s_InstructionsParts = [], s_InstructionsOmitted = [], s_Omit = zero_omit, s_Tools = [],
     s_Extra = [], s_left = [], s_lists = []\<rparr>"

text \<open>\<open>bytes.TrimSpace\<close> on the ASCII white space a JSON text may hold, and \<open>isNull\<close>.\<close>

definition is_space :: "char \<Rightarrow> bool" where
  "is_space c = (let n = (of_char c :: nat) in n = 32 \<or> 9 \<le> n \<and> n \<le> 13)"

definition TrimSpace :: "string \<Rightarrow> string" where
  "TrimSpace s = rev (dropWhile is_space (rev (dropWhile is_space s)))"

definition isNull :: "json \<Rightarrow> bool" where
  "isNull raw \<longleftrightarrow> TrimSpace raw = [] \<or> TrimSpace raw = ''null''"

definition removeTool :: "tool list \<Rightarrow> string \<Rightarrow> tool list" where
  "removeTool tools name = filter (\<lambda>t. tl_Name t \<noteq> name) tools"

definition addTool :: "tool list \<Rightarrow> tool \<Rightarrow> tool list" where
  "addTool tools t = (if tl_Name t \<noteq> [] then removeTool tools (tl_Name t) else tools) @ [t]"

definition set_extra :: "(string \<times> json) list \<Rightarrow> string \<times> json \<Rightarrow> (string \<times> json) list" where
  "set_extra ex kv =
     (if isNull (snd kv) then filter (\<lambda>x. fst x \<noteq> fst kv) ex
      else filter (\<lambda>x. fst x \<noteq> fst kv) ex @ [kv])"

definition apply_omitted :: "settings \<Rightarrow> config_entry \<Rightarrow> settings \<Rightarrow> settings" where
  "apply_omitted s c out =
     (case c_InstructionsOmitted c of
        None \<Rightarrow> out
      | Some delta \<Rightarrow>
          (let now = applyOmitted (if c_Replace c then [] else s_InstructionsOmitted s) delta (s_lists out)
           in out\<lparr>s_InstructionsOmitted := now,
                  s_lists := (if b_ID (c_base c) \<noteq> [] then (b_ID (c_base c), now) # s_lists out
                              else s_lists out)\<rparr>))"

definition apply_instructions :: "(string \<Rightarrow> string) \<Rightarrow> settings \<Rightarrow> config_entry \<Rightarrow> settings \<Rightarrow> settings" where
  "apply_instructions hash s c out =
     (if c_InstructionsParts c \<noteq> []
      then (let prev = (if c_Replace c then [] else s_InstructionsParts s);
                now = applyInstructionParts hash prev (c_InstructionsParts c) (s_left out);
                parts = map snd now
            in out\<lparr>s_InstructionsParts := parts,
                   s_left := leave (s_left out) prev now,
                   s_Instructions :=
                     (case c_Instructions c of
                        Some i \<Rightarrow> if unresolvedParts parts then i else JoinInstructions parts
                      | None \<Rightarrow> JoinInstructions parts)\<rparr>)
      else case c_Instructions c of
          Some i \<Rightarrow> out\<lparr>s_Instructions := i, s_left := leave (s_left out) (s_InstructionsParts out) [],
                       s_InstructionsParts := []\<rparr>
        | None \<Rightarrow> out)"

definition Apply :: "(string \<Rightarrow> string) \<Rightarrow> settings \<Rightarrow> config_entry \<Rightarrow> settings" where
  "Apply hash s c =
     (let out = (if c_Replace c then zero_settings else s\<lparr>s_Omit := omit_clone (s_Omit s)\<rparr>);
          out = apply_omitted s c out;
          out = (case c_Omit c of None \<Rightarrow> out | Some d \<Rightarrow> out\<lparr>s_Omit := omit_merged (s_Omit out) d\<rparr>);
          out = (if c_Model c \<noteq> [] then out\<lparr>s_Model := c_Model c\<rparr> else out);
          out = apply_instructions hash s c out;
          out = (case c_Reasoning c of None \<Rightarrow> out | Some r \<Rightarrow> out\<lparr>s_Reasoning := r\<rparr>);
          out = (case c_Text c of None \<Rightarrow> out | Some r \<Rightarrow> out\<lparr>s_Text := r\<rparr>);
          out = out\<lparr>s_Tools := foldl removeTool (s_Tools out) (c_ToolsRemoved c)\<rparr>;
          out = out\<lparr>s_Tools := foldl addTool (s_Tools out) (c_ToolsAdded c)\<rparr>
      in out\<lparr>s_Extra := foldl set_extra (s_Extra out) (c_Extra c)\<rparr>)"

definition checkpointSettings :: "compaction_entry \<Rightarrow> settings" where
  "checkpointSettings c =
     (cp_Config c)\<lparr>s_Omit := omit_clone (s_Omit (cp_Config c)), s_left := [], s_lists := []\<rparr>"

text \<open>\<open>checkpoint\<close>: the settings a compaction carries.\<close>

definition checkpoint :: "settings \<Rightarrow> settings" where
  "checkpoint s =
     s\<lparr>s_InstructionsParts :=
         (if unresolvedParts (s_InstructionsParts s) then [] else s_InstructionsParts s),
       s_left := [], s_lists := []\<rparr>"

section \<open>The deltas a writer computes\<close>

definition run_flush ::
    "string \<Rightarrow> omitted_part list \<times> nat \<times> nat \<Rightarrow> omitted_part list \<times> nat \<times> nat" where
  "run_flush src s =
     (let (out, cursor, run) = s
      in if run > 0 then (out @ [keep_part (int run) src], cursor + run, 0) else s)"

definition run_step ::
    "omitted_part list \<Rightarrow> string \<Rightarrow> omitted_part \<Rightarrow> omitted_part list \<times> nat \<times> nat \<Rightarrow>
     omitted_part list \<times> nat \<times> nat" where
  "run_step l src p s =
     (let (out, cursor, run) = s
      in case first_at l (om_ID p) of
          Some j \<Rightarrow>
            if l ! j = p \<and> j = cursor + run then (out, cursor, run + 1)
            else (let (out', cursor', run') = run_flush src s in (out' @ [p], j + 1, run'))
        | None \<Rightarrow> (let (out', cursor', run') = run_flush src s in (out' @ [p], cursor', run')))"

definition omittedRuns ::
    "omitted_part list \<Rightarrow> string \<Rightarrow> omitted_part list \<Rightarrow> omitted_part list option" where
  "omittedRuns l src omitted =
     (let ids = filter (\<lambda>x. x \<noteq> []) (map om_ID l)
      in if \<not> distinct ids \<or> ids = [] then None
         else Some (fst (run_flush src (fold (run_step l src) omitted ([], 0, 0)))))"

definition maxOmittedLists :: nat where
  "maxOmittedLists = 16"

text \<open>
  The lists earlier entries put in force, newest first; \<open>front\<close> says the node is the newest of all.
  \<open>encodedSize\<close>, the length of a list's JSON, is the parameter \<open>sz\<close>.
\<close>

fun try_lists ::
    "(omitted_part list \<Rightarrow> nat) \<Rightarrow> omitted_part list \<Rightarrow> omitted_part list \<Rightarrow>
     (string \<times> omitted_part list) list \<Rightarrow> bool \<Rightarrow> nat \<Rightarrow> omitted_part list \<times> nat \<Rightarrow> omitted_part list" where
  "try_lists sz prev omitted [] front tried best = fst best"
| "try_lists sz prev omitted ((ent, l) # hs) front tried best =
     (if \<not> tried < maxOmittedLists then fst best
      else if front \<and> l = prev then try_lists sz prev omitted hs False tried best
      else try_lists sz prev omitted hs False (tried + 1)
             (case omittedRuns l ent omitted of
                None \<Rightarrow> best
              | Some d \<Rightarrow> if sz d < snd best then (d, sz d) else best))"

definition OmittedDelta ::
    "(omitted_part list \<Rightarrow> nat) \<Rightarrow> settings \<Rightarrow> omitted_part list \<Rightarrow> omitted_part list option" where
  "OmittedDelta sz s omitted =
     (let prev = s_InstructionsOmitted s
      in if prev = omitted then None
         else if omitted = [] then Some []
         else if list_ex (\<lambda>p. om_ID p = [] \<or> om_Keep p \<noteq> 0 \<or> om_Of p \<noteq> []) omitted \<or>
                 \<not> distinct (map om_ID omitted)
         then Some omitted
         else (let best = (case omittedRuns prev [] omitted of None \<Rightarrow> omitted | Some d \<Rightarrow> d);
                   best = (if sz omitted < sz best then omitted else best)
               in Some (try_lists sz prev omitted (s_lists s) True 0 (best, sz best))))"

definition idSet :: "string list \<Rightarrow> string set" where
  "idSet ids = set ids - {[]}"

definition sameOutputsInForce :: "omit_outputs option \<Rightarrow> omit_outputs option \<Rightarrow> bool" where
  "sameOutputsInForce oa ob =
     (case (oa, ob) of
        (None, None) \<Rightarrow> True
      | (Some a, Some b) \<Rightarrow>
          hasDefault a = hasDefault b \<and>
          (hasDefault a \<longrightarrow> oo_Text a = oo_Text b \<and> idSet (oo_Items a) = idSet (oo_Items b)) \<and>
          length (oo_Groups a) = length (oo_Groups b) \<and>
          list_all (\<lambda>g. case find (\<lambda>h. og_Text h = og_Text g) (oo_Groups b) of
                          None \<Rightarrow> False
                        | Some h \<Rightarrow> idSet (og_Items g) = idSet (og_Items h)) (oo_Groups a)
      | _ \<Rightarrow> False)"

text \<open>The IDs of a list not yet held, each once: the loop both deltas of an outputs member run.\<close>

fun ids_added :: "string set \<Rightarrow> string list \<Rightarrow> string list" where
  "ids_added held [] = []"
| "ids_added held (x # xs) =
     (if x \<noteq> [] \<and> x \<notin> held then x # ids_added (insert x held) xs else ids_added held xs)"

definition group_held :: "omit_output_group list \<Rightarrow> string \<Rightarrow> omit_output_group option" where
  "group_held gs text = find (\<lambda>h. og_Text h = text) gs"

definition outputsDelta ::
    "omit_outputs option \<Rightarrow> omit_outputs option \<Rightarrow> (omit_outputs option) option" where
  "outputsDelta have want =
     (case want of
        None \<Rightarrow> if have = None then Some None else None
      | Some w \<Rightarrow>
          if \<not> outputsWellFormed want then None
          else (let listed = (case have of
                                Some h \<Rightarrow> if hasDefault h then idSet (oo_Items h) else {}
                              | None \<Rightarrow> {});
                    haveGroups = (case have of None \<Rightarrow> [] | Some h \<Rightarrow> oo_Groups h);
                    items = ids_added listed (oo_Items w);
                    setText = (case have of
                                 None \<Rightarrow> True
                               | Some h \<Rightarrow> \<not> hasDefault h \<or> oo_Text h \<noteq> oo_Text w \<or> items \<noteq> []);
                    d = (if hasDefault w \<and> setText
                         then no_outputs\<lparr>oo_Text := oo_Text w, oo_Items := items, oo_textSet := True\<rparr>
                         else no_outputs);
                    groups = concat (map (\<lambda>g.
                        case group_held haveGroups (og_Text g) of
                          None \<Rightarrow> [\<lparr>og_Text = og_Text g, og_Items = ids_added {} (og_Items g)\<rparr>]
                        | Some h \<Rightarrow>
                            (let added = ids_added (idSet (og_Items h)) (og_Items g)
                             in if added = [] then [] else [\<lparr>og_Text = og_Text g, og_Items = added\<rparr>]))
                      (oo_Groups w))
                in if hasDefault w \<and> \<not> listed \<subseteq> idSet (oo_Items w) then None
                   else if \<not> hasDefault w \<and> listed \<noteq> {} then None
                   else if list_ex (\<lambda>g. case group_held (oo_Groups w) (og_Text g) of
                             None \<Rightarrow> True
                           | Some h \<Rightarrow> \<not> idSet (og_Items g) \<subseteq> idSet (og_Items h)) haveGroups
                   then None
                   else if outputsOverlap have (Some (d\<lparr>oo_Groups := groups\<rparr>)) then None
                   else Some (Some (d\<lparr>oo_Groups := groups\<rparr>))))"

text \<open>\<open>OmitDelta\<close>: \<open>None\<close> when no single member does it, else the member, if any, that does.\<close>

definition OmitDelta :: "settings \<Rightarrow> omit \<Rightarrow> (omit option) option" where
  "OmitDelta s want =
     (let have = s_Omit s;
          listed = idSet (o_Items have); wanted = idSet (o_Items want);
          sameOutputs = sameOutputsInForce (o_Outputs have) (o_Outputs want);
          sameImages = (o_Images have = o_Images want)
      in if o_Reasoning have = o_Reasoning want \<and> listed = wanted \<and> sameOutputs \<and> sameImages
         then Some None
         else if omit_IsZero want then Some (Some zero_omit)
         else if o_Reasoning want \<noteq> [] \<and> o_Reasoning want \<noteq> OmitOtherModels \<or>
                 o_Reasoning have \<noteq> [] \<and> o_Reasoning want = []
         then None
         else case outputsDelta (o_Outputs have) (o_Outputs want) of
             None \<Rightarrow> None
           | Some outputs \<Rightarrow>
               if \<not> listed \<subseteq> wanted \<or> o_Images have \<noteq> None \<and> o_Images want = None then None
               else Some (Some (zero_omit\<lparr>
                      o_Reasoning := (if o_Reasoning want \<noteq> o_Reasoning have then o_Reasoning want else []),
                      o_Items := ids_added listed (o_Items want),
                      o_Outputs := (if sameOutputs then None else outputs),
                      o_Images := (if sameImages then None else o_Images want)\<rparr>)))"

section \<open>The context algorithm\<close>

record omitted_item =
  oit_Entry :: item_entry
  oit_Reason :: string

record replaced_item =
  rit_Entry :: item_entry
  rit_Reason :: string
  rit_Parts :: nat

record session_context =
  x_Settings :: settings
  x_Items :: "item option list"
  x_Entries :: "entry list"
  x_ItemEntries :: "entry list"
  x_OmittedItems :: "omitted_item list"
  x_ReplacedItems :: "replaced_item list"
  x_Trust :: "trust option"

definition zero_context :: session_context where
  "zero_context = \<lparr>x_Settings = zero_settings, x_Items = [], x_Entries = [], x_ItemEntries = [],
     x_OmittedItems = [], x_ReplacedItems = [], x_Trust = None\<rparr>"

fun contextItem :: "entry \<Rightarrow> item option" where
  "contextItem (ItemEntry v) = it_Item v"
| "contextItem (BranchSummaryEntry v) = bs_Summary v"
| "contextItem _ = None"

definition ctx_entry :: "entry \<Rightarrow> session_context \<Rightarrow> session_context" where
  "ctx_entry e ctx =
     (let ctx = ctx\<lparr>x_Entries := x_Entries ctx @ [e]\<rparr>
      in case contextItem e of
          None \<Rightarrow> ctx
        | Some i \<Rightarrow> ctx\<lparr>x_Items := x_Items ctx @ [Some i], x_ItemEntries := x_ItemEntries ctx @ [e]\<rparr>)"

definition ctx_step :: "(string \<Rightarrow> string) \<Rightarrow> entry \<Rightarrow> session_context \<Rightarrow> session_context" where
  "ctx_step hash e ctx =
     ctx_entry e
       (case e of
          ConfigEntry c \<Rightarrow> ctx\<lparr>x_Settings := Apply hash (x_Settings ctx) c\<rparr>
        | _ \<Rightarrow> ctx)"

fun modelsOfOutput :: "entry list \<Rightarrow> string \<Rightarrow> (string \<rightharpoonup> string) \<Rightarrow> (string \<rightharpoonup> string)" where
  "modelsOfOutput [] model models = models"
| "modelsOfOutput (e # es) model models =
     (case e of
        ConfigEntry v \<Rightarrow>
          (let model = (if c_Replace v then [] else model)
           in modelsOfOutput es (if c_Model v \<noteq> [] then c_Model v else model) models)
      | CompactionEntry v \<Rightarrow> modelsOfOutput es (s_Model (cp_Config v)) models
      | ItemEntry v \<Rightarrow>
          modelsOfOutput es model
            (case it_Item v of
               Some (ReasoningItem r) \<Rightarrow>
                 if it_ResponseID v \<noteq> [] \<and> model \<noteq> [] then models(b_ID (it_base v) \<mapsto> model) else models
             | _ \<Rightarrow> models)
      | _ \<Rightarrow> modelsOfOutput es model models)"

definition omit_reason :: "settings \<Rightarrow> (string \<rightharpoonup> string) \<Rightarrow> item_entry \<Rightarrow> string" where
  "omit_reason s models ie =
     (if b_ID (it_base ie) \<in> set (o_Items (s_Omit s)) then OmitItems
      else case models (b_ID (it_base ie)) of
          Some m \<Rightarrow> if s_Model s \<noteq> [] \<and> m \<noteq> s_Model s then OmitOtherModels else []
        | None \<Rightarrow> [])"

fun leave_out ::
    "settings \<Rightarrow> (string \<rightharpoonup> string) \<Rightarrow> (item option \<times> entry) list \<Rightarrow>
     (item option \<times> entry) list \<times> omitted_item list" where
  "leave_out s models [] = ([], [])"
| "leave_out s models ((i, e) # ies) =
     (let (kept, om) = leave_out s models ies
      in case e of
          ItemEntry ie \<Rightarrow>
            (let reason = omit_reason s models ie
             in if reason \<noteq> [] then (kept, \<lparr>oit_Entry = ie, oit_Reason = reason\<rparr> # om)
                else ((i, e) # kept, om))
        | _ \<Rightarrow> ((i, e) # kept, om))"

definition leaveOut :: "entry list \<Rightarrow> session_context \<Rightarrow> session_context" where
  "leaveOut path ctx =
     (let s = x_Settings ctx;
          models = (if o_Reasoning (s_Omit s) = OmitOtherModels
                    then modelsOfOutput path [] Map.empty else Map.empty);
          (kept, om) = leave_out s models (zip (x_Items ctx) (x_ItemEntries ctx))
      in ctx\<lparr>x_Items := map fst kept, x_ItemEntries := map snd kept,
             x_OmittedItems := x_OmittedItems ctx @ om\<rparr>)"

fun contentOf :: "item option \<Rightarrow> content list" where
  "contentOf (Some (Message role c r)) = c"
| "contentOf (Some (FunctionCallOutput cid out r)) = od_Parts out"
| "contentOf _ = []"

definition is_image :: "content \<Rightarrow> bool" where
  "is_image c = (case c of InputImage j \<Rightarrow> True | _ \<Rightarrow> False)"

definition imageParts :: "item option \<Rightarrow> nat list" where
  "imageParts i = filter (\<lambda>k. is_image (contentOf i ! k)) [0..<length (contentOf i)]"

definition withPlaceholders :: "item option \<Rightarrow> nat set \<Rightarrow> string \<Rightarrow> item option" where
  "withPlaceholders i replace text =
     (let parts = map (\<lambda>k. if k \<in> replace then InputText text else contentOf i ! k)
                    [0..<length (contentOf i)]
      in case i of
          Some (Message role c r) \<Rightarrow> Some (Message role parts r)
        | Some (FunctionCallOutput cid out r) \<Rightarrow>
            Some (FunctionCallOutput cid \<lparr>od_Text = [], od_Parts = parts\<rparr> r)
        | _ \<Rightarrow> i)"

fun replace_outputs ::
    "omit_outputs \<Rightarrow> (item option \<times> entry) list \<Rightarrow> item option list \<times> replaced_item list" where
  "replace_outputs oo [] = ([], [])"
| "replace_outputs oo ((i, e) # ies) =
     (let (its, rs) = replace_outputs oo ies
      in case e of
          ItemEntry ie \<Rightarrow>
            (case (TextFor oo (b_ID (it_base ie)), i) of
               (Some text, Some (FunctionCallOutput cid out r)) \<Rightarrow>
                 (Some (FunctionCallOutput cid \<lparr>od_Text = text, od_Parts = []\<rparr> r) # its,
                  \<lparr>rit_Entry = ie, rit_Reason = OmitOutputsReason, rit_Parts = 0\<rparr> # rs)
             | _ \<Rightarrow> (i # its, rs))
        | _ \<Rightarrow> (i # its, rs))"

text \<open>
  The image pass: \<open>reached e n\<close> says whether the \<open>n\<close>-th image part counted over the items of item
  entries, in the item of entry \<open>e\<close>, is sent as the placeholder.
\<close>

fun replace_images ::
    "(entry \<Rightarrow> nat \<Rightarrow> bool) \<Rightarrow> string \<Rightarrow> (item option \<times> entry) list \<Rightarrow> nat \<Rightarrow>
     item option list \<times> replaced_item list" where
  "replace_images reached text [] n = ([], [])"
| "replace_images reached text ((i, e) # ies) n =
     (case e of
        ItemEntry ie \<Rightarrow>
          (let parts = imageParts i;
               replace = set (map snd (filter (\<lambda>(m, p). reached e m) (zip [n..<n + length parts] parts)));
               (its, rs) = replace_images reached text ies (n + length parts)
           in if replace = {} then (i # its, rs)
              else (withPlaceholders i replace text # its,
                    \<lparr>rit_Entry = ie, rit_Reason = OmitImagesReason, rit_Parts = card replace\<rparr> # rs))
      | _ \<Rightarrow> (let (its, rs) = replace_images reached text ies n in (i # its, rs)))"

definition image_total :: "(item option \<times> entry) list \<Rightarrow> nat" where
  "image_total ies =
     sum_list (map (\<lambda>(i, e). case e of ItemEntry _ \<Rightarrow> length (imageParts i) | _ \<Rightarrow> 0) ies)"

definition reached_by ::
    "omit_images \<Rightarrow> entry list \<Rightarrow> (item option \<times> entry) list \<Rightarrow> (entry \<Rightarrow> nat \<Rightarrow> bool) option" where
  "reached_by im path ies =
     (if oi_Before im \<noteq> []
      then (case last_at e_id path (oi_Before im) of
              None \<Rightarrow> None
            | Some before \<Rightarrow>
                Some (\<lambda>e n. case last_at e_id path (e_id e) of
                              None \<Rightarrow> False
                            | Some pos \<Rightarrow> pos < before))
      else Some (\<lambda>e n. int n < int (image_total ies) - oi_Keep im))"

definition replaceParts :: "entry list \<Rightarrow> session_context \<Rightarrow> session_context" where
  "replaceParts path ctx =
     (let om = s_Omit (x_Settings ctx);
          ctx = (case o_Outputs om of
                   None \<Rightarrow> ctx
                 | Some oo \<Rightarrow>
                     (let (its, rs) = replace_outputs oo (zip (x_Items ctx) (x_ItemEntries ctx))
                      in ctx\<lparr>x_Items := its, x_ReplacedItems := x_ReplacedItems ctx @ rs\<rparr>));
          ies = zip (x_Items ctx) (x_ItemEntries ctx)
      in case o_Images om of
          None \<Rightarrow> ctx
        | Some im \<Rightarrow>
            (case reached_by im path ies of
               None \<Rightarrow> ctx
             | Some reached \<Rightarrow>
                 (let (its, rs) = replace_images reached (oi_Placeholder im) ies 0
                  in ctx\<lparr>x_Items := its, x_ReplacedItems := x_ReplacedItems ctx @ rs\<rparr>)))"

fun is_compaction :: "entry \<Rightarrow> bool" where
  "is_compaction (CompactionEntry c) = True"
| "is_compaction _ = False"

text \<open>The path split at its last compaction: what is before it, the compaction, what is after.\<close>

definition last_compaction :: "entry list \<Rightarrow> (entry list \<times> compaction_entry \<times> entry list) option" where
  "last_compaction path =
     (case find_last (\<lambda>i. is_compaction (path ! i)) [0..<length path] of
        None \<Rightarrow> None
      | Some i \<Rightarrow>
          (case path ! i of CompactionEntry c \<Rightarrow> Some (take i path, c, drop (i + 1) path) | _ \<Rightarrow> None))"

definition ctx_start :: "entry list \<Rightarrow> (session_context \<times> entry list) res" where
  "ctx_start path =
     (case last_compaction path of
        None \<Rightarrow> Inr (zero_context, path)
      | Some (before, cmp, after) \<Rightarrow>
          (case find (\<lambda>i. e_id (before ! i) = cp_FirstKept cmp) [0..<length before] of
             None \<Rightarrow> Inl (EInvalid ''first_kept is not on the path before it'')
           | Some kept \<Rightarrow>
               Inr (fold ctx_entry (drop kept before)
                      (zero_context\<lparr>x_Settings := checkpointSettings cmp,
                         x_Entries := [CompactionEntry cmp],
                         x_Items := cp_Summary cmp # map Some (cp_Pinned cmp),
                         x_ItemEntries := replicate (1 + length (cp_Pinned cmp)) (CompactionEntry cmp)\<rparr>),
                    after)))"

definition buildContext :: "(string \<Rightarrow> string) \<Rightarrow> entry list \<Rightarrow> bool \<Rightarrow> session_context res" where
  "buildContext hash path applyOmit =
     bind_res (ctx_start path) (\<lambda>(ctx, rest).
       let ctx = fold (ctx_step hash) rest ctx;
           ctx = (if applyOmit \<and> \<not> omit_IsZero (s_Omit (x_Settings ctx))
                  then replaceParts path (leaveOut path ctx) else ctx)
       in Inr (ctx\<lparr>x_Trust := PathTrust path\<rparr>))"

definition BuildContext :: "(string \<Rightarrow> string) \<Rightarrow> entry list \<Rightarrow> session_context res" where
  "BuildContext hash path = buildContext hash path True"

text \<open>\<open>OutputEntries\<close>: the walk back from the end of the path, then reversed.\<close>

fun output_walk :: "string \<Rightarrow> entry list \<Rightarrow> item_entry list" where
  "output_walk rid [] = []"
| "output_walk rid (e # es) =
     (case e of
        ItemEntry v \<Rightarrow>
          if it_ResponseID v = [] \<or> it_ResponseID v \<noteq> rid then [] else v # output_walk rid es
      | _ \<Rightarrow> output_walk rid es)"

definition OutputEntries :: "entry list \<Rightarrow> response_entry option \<Rightarrow> item_entry list" where
  "OutputEntries path resp =
     (case resp of
        None \<Rightarrow> []
      | Some r \<Rightarrow> if rp_ResponseID r = [] then [] else rev (output_walk (rp_ResponseID r) (rev path)))"

text \<open>
  \<open>requestContextAt\<close>; the entries of a path are distinct, so the pointer set of the code is a set
  of entries.
\<close>

definition requestContextAt ::
    "(string \<Rightarrow> string) \<Rightarrow> entry list \<Rightarrow> response_entry \<Rightarrow> bool \<Rightarrow> session_context res" where
  "requestContextAt hash path resp applyOmit =
     (let output = OutputEntries path (Some resp)
      in if output = [] then buildContext hash path applyOmit
         else buildContext hash (filter (\<lambda>e. e \<notin> ItemEntry ` set output) path) applyOmit)"

definition PathRequestContext :: "(string \<Rightarrow> string) \<Rightarrow> entry list \<Rightarrow> session_context res" where
  "PathRequestContext hash path =
     (if path = [] then Inl (EInvalid ''empty path'')
      else case last path of
          ResponseEntry resp \<Rightarrow> requestContextAt hash (butlast path) resp True
        | _ \<Rightarrow> Inl (EInvalid ''not a response''))"

fun unresolved_of :: "(string \<Rightarrow> string) \<Rightarrow> entry list \<Rightarrow> settings \<Rightarrow> config_entry list" where
  "unresolved_of hash [] s = []"
| "unresolved_of hash (e # es) s =
     (case e of
        CompactionEntry v \<Rightarrow> unresolved_of hash es ((cp_Config v)\<lparr>s_left := [], s_lists := []\<rparr>)
      | ConfigEntry v \<Rightarrow>
          (let bad = (case c_InstructionsOmitted v of
                        None \<Rightarrow> False
                      | Some d \<Rightarrow> if c_Replace v then snd (resolveOmitted [] d [])
                                  else snd (resolveOmitted (s_InstructionsOmitted s) d (s_lists s)));
               rest = unresolved_of hash es (Apply hash s v)
           in if bad then v # rest else rest)
      | _ \<Rightarrow> unresolved_of hash es s)"

definition UnresolvedOf :: "(string \<Rightarrow> string) \<Rightarrow> entry list \<Rightarrow> config_entry list" where
  "UnresolvedOf hash path = unresolved_of hash path zero_settings"

section \<open>An omitted delta resolves to the list it was computed for\<close>

text \<open>The loop of \<open>omittedRuns\<close> read front to back, and the elements it writes out and keeps.\<close>

definition flush_run :: "string \<Rightarrow> nat \<Rightarrow> omitted_part list" where
  "flush_run src r = (if r > 0 then [keep_part (int r) src] else [])"

definition kept_at :: "omitted_part list \<Rightarrow> omitted_part \<Rightarrow> nat \<Rightarrow> bool" where
  "kept_at l p i \<longleftrightarrow> first_at l (om_ID p) = Some i \<and> l ! i = p"

definition cursor_after :: "omitted_part list \<Rightarrow> omitted_part \<Rightarrow> nat \<Rightarrow> nat" where
  "cursor_after l p c = (case first_at l (om_ID p) of None \<Rightarrow> c | Some j \<Rightarrow> j + 1)"

fun runs :: "omitted_part list \<Rightarrow> string \<Rightarrow> omitted_part list \<Rightarrow> nat \<Rightarrow> nat \<Rightarrow> omitted_part list" where
  "runs l src [] c r = flush_run src r"
| "runs l src (p # ps) c r =
     (if kept_at l p (c + r) then runs l src ps c (r + 1)
      else flush_run src r @ p # runs l src ps (cursor_after l p (c + r)) 0)"

fun written :: "omitted_part list \<Rightarrow> omitted_part list \<Rightarrow> nat \<Rightarrow> nat \<Rightarrow> omitted_part list" where
  "written l [] c r = []"
| "written l (p # ps) c r =
     (if kept_at l p (c + r) then written l ps c (r + 1)
      else p # written l ps (cursor_after l p (c + r)) 0)"

fun kept_parts :: "omitted_part list \<Rightarrow> omitted_part list \<Rightarrow> nat \<Rightarrow> nat \<Rightarrow> omitted_part list" where
  "kept_parts l [] c r = []"
| "kept_parts l (p # ps) c r =
     (if kept_at l p (c + r) then p # kept_parts l ps c (r + 1)
      else kept_parts l ps (cursor_after l p (c + r)) 0)"

lemma run_flush_eq: "run_flush src (out, c, r) = (out @ flush_run src r, c + r, 0)"
  by (simp add: run_flush_def flush_run_def)

lemma run_step_eq:
  "run_step l src p (out, c, r) =
     (if kept_at l p (c + r) then (out, c, r + 1)
      else (out @ flush_run src r @ [p], cursor_after l p (c + r), 0))"
  by (simp add: run_step_def run_flush_eq kept_at_def cursor_after_def split: option.split)

lemma runs_fold:
  "fst (run_flush src (fold (run_step l src) omitted (out, c, r))) = out @ runs l src omitted c r"
  by (induction omitted arbitrary: out c r) (simp_all add: run_flush_eq run_step_eq)

lemma omittedRuns_runs: "omittedRuns l src omitted = Some d \<Longrightarrow> d = runs l src omitted 0 0"
  by (auto simp: omittedRuns_def runs_fold Let_def split: if_splits)

lemma written_kept:
  "set (written l om c r) \<union> set (kept_parts l om c r) = set om"
  "distinct (map om_ID om) \<Longrightarrow> set (map om_ID (written l om c r)) \<inter> set (map om_ID (kept_parts l om c r)) = {}"
proof -
  show part: "set (written l om c r) \<union> set (kept_parts l om c r) = set om" for om c r
    by (induction om arbitrary: c r) simp_all
  show "distinct (map om_ID om) \<Longrightarrow> set (map om_ID (written l om c r)) \<inter> set (map om_ID (kept_parts l om c r)) = {}"
  proof (induction om arbitrary: c r)
    case (Cons p ps)
    have sub: "om_ID p \<notin> om_ID ` set (written l ps c' r')" "om_ID p \<notin> om_ID ` set (kept_parts l ps c' r')"
      for c' r'
      using part [of ps c' r'] Cons.prems by auto
    from Cons sub show ?case by (cases "kept_at l p (c + r)") simp_all
  qed simp
qed

lemma runs_ids: "[] \<notin> set (map om_ID om) \<Longrightarrow>
    set (map om_ID (runs l src om c r)) - {[]} = set (map om_ID (written l om c r))"
proof (induction om arbitrary: c r)
  case (Cons p ps)
  have "om_ID ` set (flush_run src r) - {[]} = {}" by (auto simp: flush_run_def keep_part_def)
  with Cons show ?case by (auto simp: image_Un Un_Diff insert_Diff_if simp del: Diff_eq_empty_iff)
qed (auto simp: flush_run_def keep_part_def)

lemma runs_no_keep:
  "(\<forall>p\<in>set om. \<not> is_keep p) \<Longrightarrow> (\<forall>q\<in>set (runs l src om c r). \<not> is_keep q) \<Longrightarrow> r = 0 \<Longrightarrow> runs l src om c r = om"
proof (induction om arbitrary: c r)
  case (Cons p ps)
  have later: "\<exists>q\<in>set (runs l src ps c' (Suc r')). is_keep q" if "\<forall>p\<in>set ps. \<not> is_keep p" for c' r'
    using that
  proof (induction ps arbitrary: c' r')
    case Nil
    then show ?case by (simp add: flush_run_def keep_part_def is_keep_def)
  next
    case (Cons q qs)
    then show ?case by (cases "kept_at l q (c' + Suc r')") (auto simp: flush_run_def keep_part_def is_keep_def)
  qed
  from Cons.prems later [of c 0] have "\<not> kept_at l p c" by auto
  with Cons show ?case by (auto simp: flush_run_def)
qed (simp add: flush_run_def)

lemma slice_Suc: "i + n < length xs \<Longrightarrow> slice xs i (Suc n) = slice xs i n @ [xs ! (i + n)]"
  by (simp add: slice_def take_Suc_conv_app_nth)

lemma resolve_flush:
  assumes cs: "cs src = Some \<lparr>cu_list = l, cu_next = c\<rparr>" and len: "c + r \<le> length l"
    and nm: "\<forall>q\<in>set (slice l c r). om_ID q \<notin> named"
  shows "resolve_parts named (flush_run src r @ d) cs =
    (case resolve_parts named d (cs(src \<mapsto> \<lparr>cu_list = l, cu_next = c + r\<rparr>)) of
       (out, bad) \<Rightarrow> (slice l c r @ out, bad))"
proof (cases "r > 0")
  case True
  with assms show ?thesis
    by (simp add: flush_run_def keep_part_def is_keep_def slice_def list_all_iff split: prod.splits)
next
  case False
  with cs have "cs(src \<mapsto> \<lparr>cu_list = l, cu_next = c + r\<rparr>) = cs" by (simp add: fun_upd_idem)
  with False show ?thesis by (simp add: flush_run_def slice_def)
qed

definition plain_part :: "omitted_part \<Rightarrow> bool" where
  "plain_part p \<longleftrightarrow> om_ID p \<noteq> [] \<and> om_Keep p = 0 \<and> om_Of p = []"

lemma resolve_plain:
  "plain_part p \<Longrightarrow> \<exists>cs'. resolve_parts named (p # d) cs = (case resolve_parts named d cs' of (out, bad) \<Rightarrow> (p # out, bad)) \<and>
     (\<forall>src l c. cs src = Some \<lparr>cu_list = l, cu_next = c\<rparr> \<longrightarrow>
        cs' src = Some \<lparr>cu_list = l, cu_next = cursor_after l p c\<rparr>)"
  by (rule exI [of _ "\<lambda>k. map_option (\<lambda>cur. case first_at (cu_list cur) (om_ID p) of
        None \<Rightarrow> cur | Some i \<Rightarrow> cur\<lparr>cu_next := i + 1\<rparr>) (cs k)"])
    (auto simp: plain_part_def is_keep_def cursor_after_def split: option.splits prod.splits)

lemma resolve_runs:
  assumes "cs src = Some \<lparr>cu_list = l, cu_next = c\<rparr>" "c + r \<le> length l"
    and "\<forall>q\<in>set (slice l c r). om_ID q \<notin> named"
    and "\<forall>p\<in>set om. plain_part p" "\<forall>q\<in>set (kept_parts l om c r). om_ID q \<notin> named"
  shows "resolve_parts named (runs l src om c r) cs = (slice l c r @ om, False)"
  using assms
proof (induction om arbitrary: c r cs)
  case Nil
  from resolve_flush [of cs src l c r named "[]"] Nil show ?case by simp
next
  case (Cons p ps)
  show ?case
  proof (cases "kept_at l p (c + r)")
    case True
    then have i: "c + r < length l" and p: "l ! (c + r) = p"
      by (auto simp: kept_at_def first_at_def find_Some_iff split: if_splits)
    have "slice l c (Suc r) = slice l c r @ [p]" using slice_Suc [OF i] p by simp
    with Cons.IH [of cs c "Suc r"] Cons.prems True i show ?thesis by simp
  next
    case False
    let ?cs = "cs(src \<mapsto> \<lparr>cu_list = l, cu_next = c + r\<rparr>)"
    let ?d = "runs l src ps (cursor_after l p (c + r)) 0"
    from Cons.prems have "plain_part p" by simp
    from resolve_plain [OF this, of named ?d ?cs] obtain cs' where
      r1: "resolve_parts named (p # ?d) ?cs = (case resolve_parts named ?d cs' of (out, bad) \<Rightarrow> (p # out, bad))"
      and c': "cs' src = Some \<lparr>cu_list = l, cu_next = cursor_after l p (c + r)\<rparr>"
      by auto
    have le: "cursor_after l p (c + r) \<le> length l"
      using Cons.prems(2) by (auto simp: cursor_after_def first_at_def find_Some_iff split: option.splits if_splits)
    have "resolve_parts named ?d cs' = (slice l (cursor_after l p (c + r)) 0 @ ps, False)"
      using Cons.IH [of cs' "cursor_after l p (c + r)" 0] c' le Cons.prems False by (simp add: slice_def)
    with resolve_flush [of cs src l c r named "p # ?d"] Cons.prems(1-3) r1 False show ?thesis
      by (simp add: slice_def)
  qed
qed

lemma resolve_written:
  "\<forall>p\<in>set d. plain_part p \<Longrightarrow> resolve_parts named d cs = (d, False)"
proof (induction d arbitrary: cs)
  case (Cons p d)
  then have "plain_part p" by simp
  from resolve_plain [OF this, of named d cs] Cons show ?case by auto
qed simp

lemma find_cursors_keeps: "cs k \<noteq> None \<Longrightarrow> find_cursors hist d cs k = cs k"
proof (induction d arbitrary: cs)
  case (Cons p d)
  then show ?case by (auto split: option.splits)
qed simp

lemma find_cursors_hist:
  assumes "map_of hist k = Some l" "k \<noteq> []" "cs k = None" "\<exists>p\<in>set d. is_keep p \<and> om_Of p = k"
  shows "find_cursors hist d cs k = Some (newCursor l)"
  using assms(3,4)
proof (induction d arbitrary: cs)
  case (Cons p d)
  show ?case
  proof (cases "is_keep p \<and> om_Of p = k")
    case True
    with assms Cons.prems find_cursors_keeps [of "cs(k \<mapsto> newCursor l)" k hist d] show ?thesis by auto
  next
    case False
    with Cons show ?thesis by (auto split: option.splits)
  qed
qed simp

lemma omittedRuns_resolves:
  assumes d: "omittedRuns l src omitted = Some d"
    and l: "if src = [] then l = prev else map_of hist src = Some l"
    and plain: "\<forall>p\<in>set omitted. plain_part p" and dist: "distinct (map om_ID omitted)"
  shows "resolveOmitted prev d hist = (omitted, False)"
proof -
  from omittedRuns_runs [OF d] have d: "d = runs l src omitted 0 0" .
  let ?cs = "find_cursors hist d [[] \<mapsto> newCursor prev]"
  let ?named = "set (map om_ID d) - {[]}"
  from plain have ne: "[] \<notin> set (map om_ID omitted)" and nk: "\<forall>p\<in>set omitted. \<not> is_keep p"
    by (auto simp: plain_part_def is_keep_def)
  have named: "?named = set (map om_ID (written l omitted 0 0))"
    unfolding d by (rule runs_ids [OF ne])
  show ?thesis
  proof (cases "\<forall>q\<in>set d. \<not> is_keep q")
    case True
    then have "d = omitted" using runs_no_keep [OF nk] unfolding d by blast
    with plain show ?thesis by (simp add: resolveOmitted_def resolve_written)
  next
    case False
    have src: "\<forall>q\<in>set d. is_keep q \<longrightarrow> om_Of q = src"
    proof -
      have "\<forall>q\<in>set (runs l src omitted c r). is_keep q \<longrightarrow> om_Of q = src" for c r
        using nk by (induction omitted arbitrary: c r) (auto simp: flush_run_def keep_part_def)
      then show ?thesis by (simp add: d)
    qed
    have "?cs src = Some \<lparr>cu_list = l, cu_next = 0\<rparr>"
    proof (cases "src = []")
      case True
      with l find_cursors_keeps [of "[[] \<mapsto> newCursor prev]" "[]" hist d] show ?thesis
        by (simp add: newCursor_def)
    next
      case False
      with l find_cursors_hist [of hist src l "[[] \<mapsto> newCursor prev]" d] src \<open>\<not> (\<forall>q\<in>set d. \<not> is_keep q)\<close>
      show ?thesis by (auto simp: newCursor_def)
    qed
    moreover have "\<forall>q\<in>set (kept_parts l omitted 0 0). om_ID q \<notin> ?named"
      unfolding named using written_kept(2) [OF dist, of l 0 0] by auto
    ultimately have "resolve_parts ?named d ?cs = (omitted, False)" 
      using resolve_runs [of ?cs src l 0 0 ?named omitted] plain by (simp add: d [symmetric] slice_def)
    then show ?thesis by (simp add: resolveOmitted_def)
  qed
qed

lemma try_lists_in:
  "try_lists sz prev om hs front n best = fst best \<or>
   (\<exists>(ent, l)\<in>set hs. omittedRuns l ent om = Some (try_lists sz prev om hs front n best))"
proof (induction sz prev om hs front n best rule: try_lists.induct)
  case (2 sz prev om ent l hs front n best)
  show ?case
  proof (cases "n < maxOmittedLists \<and> \<not> (front \<and> l = prev)")
    case True
    with "2.IH"(2) show ?thesis by (auto split: option.splits if_splits)
  next
    case False
    with "2.IH"(1) show ?thesis by auto
  qed
qed simp

lemma OmittedDelta_resolves:
  assumes d: "OmittedDelta sz s omitted = Some d"
    and hist: "distinct (map fst (s_lists s))" "[] \<notin> set (map fst (s_lists s))"
    and plain: "\<forall>p\<in>set omitted. plain_part p" and dist: "distinct (map om_ID omitted)"
  shows "resolveOmitted (s_InstructionsOmitted s) d (s_lists s) = (omitted, False)"
proof -
  let ?prev = "s_InstructionsOmitted s"
  let ?best = "case omittedRuns ?prev [] omitted of None \<Rightarrow> omitted | Some d \<Rightarrow> d"
  have whole: "resolveOmitted ?prev omitted (s_lists s) = (omitted, False)"
    using plain by (simp add: resolveOmitted_def resolve_written)
  have best: "resolveOmitted ?prev ?best (s_lists s) = (omitted, False)"
    using whole omittedRuns_resolves [of ?prev "[]" omitted _ ?prev "s_lists s"] plain dist
    by (auto split: option.splits)
  show ?thesis
  proof (cases "omitted = []")
    case True
    with d whole show ?thesis by (auto simp: OmittedDelta_def Let_def split: if_splits)
  next
    case False
    have "\<not> list_ex (\<lambda>p. om_ID p = [] \<or> om_Keep p \<noteq> 0 \<or> om_Of p \<noteq> []) omitted"
      using plain by (auto simp: list_ex_iff plain_part_def)
    with False d dist obtain b where b: "b \<in> {omitted, ?best}" and
      t: "d = try_lists sz ?prev omitted (s_lists s) True 0 (b, sz b)"
      by (auto simp: OmittedDelta_def Let_def split: if_splits)
    from try_lists_in [of sz ?prev omitted "s_lists s" True 0 "(b, sz b)"] t
    consider "d = b" | ent l where "(ent, l) \<in> set (s_lists s)" "omittedRuns l ent omitted = Some d"
      by auto
    then show ?thesis
    proof cases
      case 1
      with b whole best show ?thesis by auto
    next
      case 2
      from 2(1) hist have "map_of (s_lists s) ent = Some l" "ent \<noteq> []" by (auto simp: rev_image_eqI)
      with omittedRuns_resolves [OF 2(2), of ?prev "s_lists s"] plain dist show ?thesis by simp
    qed
  qed
qed

end
