(* ===== verification/Sessions.thy ===== *)
theory Sessions
  imports Call_Lookup Contexts
begin

text \<open>
  One session in memory (\<open>session.go\<close>): the header, the entries in file order, the tree they
  form, the current leaf, and the indexes an append reads.  Every exported operation holds the
  session's lock throughout, so an operation is a function on the state; an operation that writes an
  entry through a pointer returns the entry it leaves behind.  The encoding of an entry to its line
  goes through the encoders of the third-party item types and SHA-256, so the few functions of it the
  session calls are the fields of a \<open>codec\<close>, an argument of the operations; so is the clock.
\<close>

section \<open>What a session asks of the codec\<close>

record codec =
  k_rewriteEnvelope :: "unknown_entry \<Rightarrow> (string \<times> json) res"
  k_normaliseEntry :: "entry \<Rightarrow> entry res"
  k_EntryHashes :: "entry \<Rightarrow> (eid \<times> string) res"
  k_splitMembers :: "json \<Rightarrow> (string \<times> json) list option"
  k_canon :: canon
  k_triggerCanon :: "trigger \<Rightarrow> string option"
  k_HashText :: "string \<Rightarrow> string"

section \<open>The state\<close>

record read_leaf =
  rl_n :: nat
  rl_marked :: string
  rl_at :: int
  rl_under :: "eid set"
  rl_tip :: string

record truncated_line =
  tl_Line :: nat
  tl_Data :: string
  tl_Err :: error

record session =
  se_header :: header
  se_entries :: "entry list"
  se_byID :: "eid \<rightharpoonup> entry"
  se_children :: "eid \<Rightarrow> eid list"
  se_leaf :: eid
  se_truncated :: "truncated_line option"
  se_prefix :: "eid set"
  se_callIDs :: "string set"
  se_spawnIDs :: "string set"
  se_copied :: "string set"
  se_results :: "string set"
  se_dispatches :: "eid \<Rightarrow> dispatch_entry list"
  se_repeated :: "eid list"
  se_unresolved :: "string list"
  se_migrated :: bool
  se_declared :: string
  se_heldRedacted :: bool
  se_read :: "read_leaf option"

definition empty_session :: "header \<Rightarrow> session" where
  "empty_session h = \<lparr>se_header = h, se_entries = [], se_byID = Map.empty, se_children = (\<lambda>_. []),
     se_leaf = [], se_truncated = None, se_prefix = {}, se_callIDs = {}, se_spawnIDs = {},
     se_copied = {}, se_results = {}, se_dispatches = (\<lambda>_. []), se_repeated = [],
     se_unresolved = [], se_migrated = False, se_declared = h_Format h, se_heldRedacted = False,
     se_read = None\<rparr>"

text \<open>\<open>New\<close>: the payload profile of this build, a fresh UUIDv7 and the clock are arguments.\<close>

definition New :: "string \<Rightarrow> string \<Rightarrow> timestamp \<Rightarrow> header \<Rightarrow> session" where
  "New payload newID now h = empty_session (fill payload newID now h)"

definition Entry :: "session \<Rightarrow> eid \<Rightarrow> entry option" where
  "Entry s i = se_byID s i"

definition Resolve :: "session \<Rightarrow> eid \<Rightarrow> eid option" where
  "Resolve s i =
     (if se_byID s i \<noteq> None then Some i
      else if i = [] then None
      else map_option e_id (find (\<lambda>e. b_LegacyID (base_of e) = i) (se_entries s)))"

definition Children :: "session \<Rightarrow> eid \<Rightarrow> eid list" where
  "Children s i = se_children s i"

definition Leaves :: "session \<Rightarrow> eid list" where
  "Leaves s = filter (\<lambda>i. se_children s i = []) (map e_id (se_entries s))"

section \<open>Paths\<close>

text \<open>
  The walk from an entry to the root, which the code ends by reversing what it met.  Each step goes to
  an earlier entry of the file, so as many steps as there are entries, and one to see the root, are
  enough; running out is told from an answer by \<open>None\<close>.
\<close>

fun walk :: "nat \<Rightarrow> (eid \<rightharpoonup> entry) \<Rightarrow> eid \<Rightarrow> entry list \<Rightarrow> entry list option" where
  "walk 0 m i acc = None"
| "walk (Suc n) m i acc =
     (if i = [] then Some acc
      else case m i of None \<Rightarrow> Some [] | Some e \<Rightarrow> walk n m (e_parent e) (e # acc))"

definition path :: "session \<Rightarrow> eid \<Rightarrow> entry list" where
  "path s i =
     (case walk (Suc (length (se_entries s))) (se_byID s) i [] of None \<Rightarrow> [] | Some p \<Rightarrow> p)"

definition Path :: "session \<Rightarrow> eid \<Rightarrow> entry list" where
  "Path s i = path s i"

definition onPath :: "entry list \<Rightarrow> eid \<Rightarrow> bool" where
  "onPath p i \<longleftrightarrow> i \<in> set (map e_id p)"

definition ContextAt :: "codec \<Rightarrow> session \<Rightarrow> eid \<Rightarrow> session_context res" where
  "ContextAt k s i =
     (if i = [] then Inr zero_context
      else let p = Path s i in if p = [] then Inl ENoEntry else BuildContext (k_HashText k) p)"

section \<open>Moving the leaf\<close>

definition Branch :: "session \<Rightarrow> eid \<Rightarrow> session res" where
  "Branch s i = (if se_byID s i = None then Inl ENoEntry else Inr (s\<lparr>se_leaf := i\<rparr>))"

definition ResetLeaf :: "session \<Rightarrow> session" where
  "ResetLeaf s = s\<lparr>se_leaf := []\<rparr>"

definition mayRestOn :: "session \<Rightarrow> eid \<Rightarrow> bool" where
  "mayRestOn s i =
     (if i = [] then h_Base (se_header s) = []
      else case se_byID s i of
          None \<Rightarrow> False
        | Some e \<Rightarrow>
            \<not> (h_Base (se_header s) \<noteq> [] \<and> i \<noteq> h_Base (se_header s) \<and> i \<in> se_prefix s) \<and>
            \<not> is_leaf_label e)"

datatype outcome = Continued | Branched | Held | LeafMoved | LeafNotMoved

record result =
  r_ID :: eid
  r_Outcome :: outcome

definition leaf_target :: "entry \<Rightarrow> eid" where
  "leaf_target e = (case e of LabelEntry l \<Rightarrow> lb_Target l | _ \<Rightarrow> [])"

definition outcomeFor :: "session \<Rightarrow> entry \<Rightarrow> outcome" where
  "outcomeFor s e =
     (if is_leaf_label e then (if mayRestOn s (leaf_target e) then LeafMoved else LeafNotMoved)
      else if e_parent e = se_leaf s then Continued else Branched)"

definition moveLeafFor :: "session \<Rightarrow> entry \<Rightarrow> session" where
  "moveLeafFor s e =
     (if is_leaf_label e
      then (if mayRestOn s (leaf_target e) then s\<lparr>se_leaf := leaf_target e\<rparr> else s)
      else if e_parent e = se_leaf s then s\<lparr>se_leaf := e_id e\<rparr> else s)"

section \<open>The rules on parents\<close>

definition checkOwnParent :: "eid \<Rightarrow> eid \<Rightarrow> (eid \<Rightarrow> bool) \<Rightarrow> unit res" where
  "checkOwnParent base parent onPrefix =
     (if parent = [] then Inl EBaseRule
      else if parent \<noteq> base \<and> onPrefix parent then Inl EBaseRule
      else Inr ())"

definition checkParentRule :: "session \<Rightarrow> eid \<Rightarrow> unit res" where
  "checkParentRule s parent =
     (if parent \<noteq> [] \<and> se_byID s parent = None then Inl ENoEntry
      else if h_Base (se_header s) \<noteq> []
      then checkOwnParent (h_Base (se_header s)) parent (\<lambda>i. i \<in> se_prefix s)
      else Inr ())"

record base_rule =
  br_base :: eid
  br_prev :: eid
  br_met :: bool
  br_prefix :: "eid set"

definition newBaseRule :: "eid \<Rightarrow> base_rule option" where
  "newBaseRule base =
     (if base = [] then None
      else Some \<lparr>br_base = base, br_prev = [], br_met = False, br_prefix = {}\<rparr>)"

definition base_line :: "base_rule option \<Rightarrow> eid \<Rightarrow> eid \<Rightarrow> (base_rule option) res" where
  "base_line ro i parent =
     (case ro of
        None \<Rightarrow> Inr None
      | Some r \<Rightarrow>
          if br_met r
          then then_res (checkOwnParent (br_base r) parent (\<lambda>p. p \<in> br_prefix r)) (Inr ro)
          else if br_prev r = [] \<and> parent \<noteq> [] then Inl EBaseRule
          else if br_prev r \<noteq> [] \<and> parent = [] then Inl EBaseRule
          else if parent \<noteq> br_prev r then Inl EBaseRule
          else Inr (Some (r\<lparr>br_prefix := insert i (br_prefix r), br_prev := i,
                            br_met := (i = br_base r)\<rparr>)))"

definition sortParents :: "entry_ref list \<Rightarrow> entry_ref list" where
  "sortParents refs = sort_key (\<lambda>r. (r_Session r, r_Entry r)) refs"

fun refs_loop ::
    "eid \<Rightarrow> string \<Rightarrow> (eid \<Rightarrow> bool) \<Rightarrow> entry_ref list \<Rightarrow> entry_ref set \<Rightarrow> unit res" where
  "refs_loop parent session has [] seen = Inr ()"
| "refs_loop parent session has (r # rs) seen =
     (if r_Entry r = [] then Inl EBadConvergence
      else (let r = (if r_Session r = session then r\<lparr>r_Session := []\<rparr> else r)
            in if r \<in> seen then Inl EBadConvergence
               else if r_Session r \<noteq> [] then refs_loop parent session has rs (insert r seen)
               else if r_Entry r = parent then Inl EBadConvergence
               else if \<not> has (r_Entry r) then Inl EBadConvergence
               else refs_loop parent session has rs (insert r seen)))"

definition checkRefs :: "eid \<Rightarrow> string \<Rightarrow> entry_ref list \<Rightarrow> (eid \<Rightarrow> bool) \<Rightarrow> unit res" where
  "checkRefs parent session refs has = refs_loop parent session has refs {}"

definition checkParents :: "session \<Rightarrow> entry_base \<Rightarrow> unit res" where
  "checkParents s b =
     checkRefs (b_Parent b) (h_ID (se_header s)) (b_Parents b) (\<lambda>i. se_byID s i \<noteq> None)"

section \<open>The rules on calls\<close>

definition dispatchedOff :: "session \<Rightarrow> eid \<Rightarrow> (eid \<Rightarrow> bool) \<Rightarrow> bool" where
  "dispatchedOff s target on = list_ex (\<lambda>d. \<not> on (b_ID (dp_base d))) (se_dispatches s target)"

definition Dispatches :: "session \<Rightarrow> eid \<Rightarrow> dispatch_entry list" where
  "Dispatches s target = se_dispatches s target"

definition decision_rule :: "session \<Rightarrow> eid \<Rightarrow> decision_entry \<Rightarrow> call \<Rightarrow> unit res" where
  "decision_rule s parent v c =
     (if Copied c then Inl ECopiedCall
      else if Returned c \<and> dc_Verdict v \<noteq> VerdictAnswer then Inl ECallReturned
      else if Answered c then Inl ECallAnswered
      else if Rejected c then Inl ECallRejected
      else if dc_Withdrawn v \<and> dc_Verdict v = VerdictReject
      then (if \<not> withdraws c v then Inl EBadWithdrawal else Inr ())
      else if dc_Verdict v = VerdictReject \<and> ca_Dispatch c \<noteq> None then Inl ERejectDispatched
      else if dc_Verdict v \<noteq> VerdictAnswer \<and> dc_Verdict v \<noteq> VerdictReject then Inr ()
      else if ca_Output c \<noteq> None then Inl ECallCompleted
      else if dc_Verdict v = VerdictAnswer \<and> ca_Dispatch c = None \<and>
              HasRecord (se_header s) TypeDispatch \<and> ca_EntryID c \<notin> se_prefix s \<and>
              \<not> dispatchedOff s (ca_EntryID c) (onPath (path s parent))
      then Inl EAnswerNotDispatched
      else Inr ())"

definition result_rule :: "call \<Rightarrow> unit res" where
  "result_rule c =
     (if Copied c then Inl ECopiedCall
      else if ca_Output c \<noteq> None then Inl ECallCompleted
      else if ca_Dispatches c = [] \<or> ca_resultAfterLast c \<or> Answered c \<or> Rejected c then Inl EBadResult
      else Inr ())"

definition dispatch_rule :: "call \<Rightarrow> unit res" where
  "dispatch_rule c =
     (if Copied c then Inl ECopiedCall
      else if Returned c then Inl ECallReturned
      else if Rejected c then Inl ECallRejected
      else if Answered c then Inl ECallAnswered
      else if ca_Output c \<noteq> None then Inl ECallCompleted
      else Inr ())"

definition output_rule :: "codec \<Rightarrow> session \<Rightarrow> eid \<Rightarrow> item_entry \<Rightarrow> unit res" where
  "output_rule k s parent v =
     (case it_Item v of
        Some (FunctionCallOutput cid out r) \<Rightarrow>
          if it_CopiedFrom v = None \<and> cid \<in> se_copied s then Inl EBadCopiedFrom
          else if cid \<in> se_results s
          then (case callFor (k_canon k) (path s parent) cid of
                  None \<Rightarrow> Inr ()
                | Some c \<Rightarrow>
                    refuse (Returned c \<and> \<not> ca_answeredSinceResult c \<and>
                            \<not> sameItem (k_canon k) (Option.bind (ca_Result c) rs_Item) (it_Item v))
                      EResultMismatch)
          else Inr ()
      | _ \<Rightarrow> Inr ())"

definition item_rule :: "codec \<Rightarrow> session \<Rightarrow> eid \<Rightarrow> item_entry \<Rightarrow> unit res" where
  "item_rule k s parent v =
     (if (case it_CopiedFrom v of None \<Rightarrow> False | Some cf \<Rightarrow> cf_Session cf = h_ID (se_header s))
      then Inl EBadCopiedFrom
      else if it_CopiedFrom v \<noteq> None \<and> it_ResponseID v \<noteq> [] then Inl EBadCopiedFrom
      else then_res (output_rule k s parent v)
             (case it_Item v of
                Some (FunctionCall cid args r) \<Rightarrow>
                  if cid = [] then Inl ECallIDEmpty
                  else if cid \<in> se_callIDs s then Inl ECallIDRepeated
                  else Inr ()
              | _ \<Rightarrow> Inr ()))"

definition spawns :: "link_entry \<Rightarrow> bool" where
  "spawns v \<longleftrightarrow> ln_Rel v = RelSubsession \<and> ln_SpawnID v \<noteq> [] \<and> ln_Cancel v = []"

definition checkCallRules :: "codec \<Rightarrow> session \<Rightarrow> entry \<Rightarrow> eid \<Rightarrow> unit res" where
  "checkCallRules k s e parent =
     (case e of
        LinkEntry v \<Rightarrow> refuse (spawns v \<and> ln_SpawnID v \<in> se_spawnIDs s) ESpawnIDRepeated
      | ItemEntry v \<Rightarrow> item_rule k s parent v
      | DecisionEntry v \<Rightarrow>
          bind_res (targetCall (k_canon k) (path s parent) (dc_CallID v) (dc_Target v))
            (decision_rule s parent v)
      | ResultEntry v \<Rightarrow>
          bind_res (targetCall (k_canon k) (path s parent) (rs_CallID v) (rs_Target v)) result_rule
      | DispatchEntry v \<Rightarrow>
          bind_res (targetCall (k_canon k) (path s parent) (dp_CallID v) (dp_Target v)) dispatch_rule
      | _ \<Rightarrow> Inr ())"

section \<open>Redaction and the format an entry is read under\<close>

fun digits_of :: "nat \<Rightarrow> string" where
  "digits_of n = (if n < 10 then [char_of (48 + n)] else digits_of (n div 10) @ [char_of (48 + n mod 10)])"

definition Itoa :: "int \<Rightarrow> string" where
  "Itoa i = (if i < 0 then CHR ''-'' # digits_of (nat (- i)) else digits_of (nat i))"

definition span_JSON :: "span \<Rightarrow> json" where
  "span_JSON s =
     (if fst s = snd s then Itoa (fst s) else ''['' @ Itoa (fst s) @ '','' @ Itoa (snd s) @ '']'')"

definition redactedJSON :: "entry_base \<Rightarrow> json" where
  "redactedJSON b =
     (case b_redactedRaw b of
        Some raw \<Rightarrow> raw
      | None \<Rightarrow> ''['' @ join '','' (map span_JSON (b_redacted b)) @ '']'')"

definition RedactedOf :: "entry option \<Rightarrow> span list option" where
  "RedactedOf eo =
     (case eo of
        None \<Rightarrow> None
      | Some e \<Rightarrow> if b_isRedacted (base_of e) then Some (b_redacted (base_of e)) else None)"

definition holdsRedactedMember :: "codec \<Rightarrow> entry \<Rightarrow> bool" where
  "holdsRedactedMember k e \<longleftrightarrow>
     ''redacted'' \<in> fst ` set (b_Unknown (base_of e)) \<or>
     (case e of
        UnknownEntry u \<Rightarrow>
          un_Raw u \<noteq> [] \<and>
          (case k_splitMembers k (un_Raw u) of None \<Rightarrow> False | Some ms \<Rightarrow> ''redacted'' \<in> fst ` set ms)
      | _ \<Rightarrow> False)"

definition is_unknown :: "entry \<Rightarrow> bool" where
  "is_unknown e = (case e of UnknownEntry u \<Rightarrow> True | _ \<Rightarrow> False)"

definition demoteRedacted :: "codec \<Rightarrow> entry \<Rightarrow> entry \<times> bool" where
  "demoteRedacted k e =
     (if b_isRedacted (base_of e)
      then (upd_base (\<lambda>b. b\<lparr>b_redacted := [], b_isRedacted := False, b_redactedRaw := None,
                            b_Unknown :=
                              (if is_unknown e then b_Unknown b
                               else filter (\<lambda>kv. fst kv \<noteq> ''redacted'') (b_Unknown b) @
                                      [(''redacted'', redactedJSON b)])\<rparr>) e, True)
      else (e, holdsRedactedMember k e))"

definition gateRedacted :: "codec \<Rightarrow> string \<Rightarrow> entry \<Rightarrow> entry" where
  "gateRedacted k format e =
     (if definesRedactedFrom format then e
      else let (e', held) = demoteRedacted k e in upd_base (\<lambda>b. b\<lparr>b_gated := held\<rparr>) e')"

definition GateEntry :: "codec \<Rightarrow> string \<Rightarrow> entry option \<Rightarrow> entry option" where
  "GateEntry k format eo = map_option (gateRedacted k format) eo"

definition session_raiseRefused :: "session \<Rightarrow> string \<Rightarrow> unit res" where
  "session_raiseRefused s format =
     then_res (header_raiseRefused (se_header s) format)
       (refuse (se_heldRedacted s \<and> definesRedactedFrom format) ENoRaise)"

definition raiseHeader :: "session \<Rightarrow> string \<Rightarrow> session res" where
  "raiseHeader s format =
     (case (ParseFormat (h_Format (se_header s)), ParseFormat format) of
        (Inr (_, have), Inr (_, want)) \<Rightarrow>
          if have \<ge> want then Inr s
          else then_res (session_raiseRefused s format)
                 (bind_res (Raise (se_header s) format) (\<lambda>h. Inr (s\<lparr>se_header := h\<rparr>)))
      | _ \<Rightarrow> Inr s)"

section \<open>Adding an entry\<close>

definition isEnvelopeKey :: "string \<Rightarrow> bool" where
  "isEnvelopeKey key \<longleftrightarrow> key \<in> {''id'', ''type'', ''parent'', ''parents'', ''ts'', ''content''}"

text \<open>A dispatch stands for a call only when its target is a function call with its call ID.\<close>

definition names_its_call :: "(eid \<rightharpoonup> entry) \<Rightarrow> dispatch_entry \<Rightarrow> bool" where
  "names_its_call m v =
     (case m (dp_Target v) of None \<Rightarrow> False | Some e \<Rightarrow> call_of e = Some (dp_CallID v))"

definition add_indexes :: "entry \<Rightarrow> session \<Rightarrow> session" where
  "add_indexes e s =
     (case e of
        LinkEntry v \<Rightarrow>
          if spawns v then s\<lparr>se_spawnIDs := insert (ln_SpawnID v) (se_spawnIDs s)\<rparr> else s
      | ItemEntry v \<Rightarrow>
          (case it_Item v of
             Some (FunctionCall cid args r) \<Rightarrow>
               s\<lparr>se_callIDs := insert cid (se_callIDs s),
                 se_copied := (if it_CopiedFrom v \<noteq> None then insert cid (se_copied s) else se_copied s)\<rparr>
           | _ \<Rightarrow> s)
      | DispatchEntry v \<Rightarrow>
          if names_its_call (se_byID s) v
          then s\<lparr>se_dispatches := (se_dispatches s)(dp_Target v := se_dispatches s (dp_Target v) @ [v])\<rparr>
          else s
      | ResultEntry v \<Rightarrow> s\<lparr>se_results := insert (rs_CallID v) (se_results s)\<rparr>
      | _ \<Rightarrow> s)"

definition hold_gated :: "entry \<Rightarrow> session \<Rightarrow> session" where
  "hold_gated e s =
     (if b_gated (base_of e)
      then s\<lparr>se_heldRedacted := True,
             se_header :=
               (if \<not> definesRedactedFrom (se_declared s) \<and> definesRedactedFrom (h_Format (se_header s))
                then (se_header s)\<lparr>h_Format := heldFormat (se_declared s)\<rparr>
                else se_header s)\<rparr>
      else s)"

definition add :: "entry \<Rightarrow> session \<Rightarrow> session" where
  "add e s =
     (let s = hold_gated e s;
          s = s\<lparr>se_entries := se_entries s @ [e],
                se_byID := (se_byID s)(e_id e \<mapsto> e),
                se_children := (se_children s)(e_parent e := se_children s (e_parent e) @ [e_id e])\<rparr>
      in add_indexes e s)"

section \<open>Preparing an entry\<close>

text \<open>The raw line of an unknown entry is kept in step with its envelope.\<close>

definition rewrite_raw :: "codec \<Rightarrow> entry \<Rightarrow> entry res" where
  "rewrite_raw k e =
     (case e of
        UnknownEntry u \<Rightarrow>
          bind_res (k_rewriteEnvelope k u) (\<lambda>(typ, raw). Inr (UnknownEntry (u\<lparr>un_Type := typ, un_Raw := raw\<rparr>)))
      | _ \<Rightarrow> Inr e)"

definition hashEntry :: "codec \<Rightarrow> entry \<Rightarrow> entry res" where
  "hashEntry k e =
     bind_res (k_EntryHashes k e) (\<lambda>(i, content). Inr (upd_base (\<lambda>b. b\<lparr>b_ID := i, b_content := content\<rparr>) e))"

definition fill_parent :: "session \<Rightarrow> entry \<Rightarrow> entry" where
  "fill_parent s e =
     (if e_parent e = [] \<and> e_id e = [] then upd_base (\<lambda>b. b\<lparr>b_Parent := se_leaf s\<rparr>) e else e)"

definition stamp :: "timestamp \<Rightarrow> entry \<Rightarrow> entry" where
  "stamp now e =
     upd_base (\<lambda>b. b\<lparr>b_Timestamp := (if b_Timestamp b = 0 \<and> b_tsRaw b = [] then now else b_Timestamp b),
                     b_Parents := (if b_tsRaw b = [] then sortParents (b_Parents b) else b_Parents b)\<rparr>) e"

text \<open>
  \<open>prepareEntry\<close>, with the entry as it stands when the function returns: every early return leaves
  behind what the steps before it wrote.
\<close>

definition prepareEntry :: "codec \<Rightarrow> timestamp \<Rightarrow> session \<Rightarrow> entry \<Rightarrow> entry \<times> result res" where
  "prepareEntry k now s e0 =
     (if list_ex isEnvelopeKey (map fst (b_Unknown (base_of e0))) then (e0, Inl EReservedMember)
      else let e1 = fill_parent s e0 in
      case checkParentRule s (e_parent e1) of Inl x \<Rightarrow> (e1, Inl x) | Inr _ \<Rightarrow>
      (let e2 = stamp now e1 in
      case checkParents s (base_of e2) of Inl x \<Rightarrow> (e2, Inl x) | Inr _ \<Rightarrow>
      (let want = e_id e2; e3 = upd_base (\<lambda>b. b\<lparr>b_ID := []\<rparr>) e2 in
      case rewrite_raw k e3 of Inl x \<Rightarrow> (e3, Inl x) | Inr e4 \<Rightarrow>
      (case k_normaliseEntry k e4 of Inl x \<Rightarrow> (e4, Inl x) | Inr e5 \<Rightarrow>
      (case hashEntry k e5 of Inl x \<Rightarrow> (e5, Inl x) | Inr e6 \<Rightarrow>
      (if want \<noteq> [] \<and> want \<noteq> e_id e6 then (e6, Inl EBadID)
       else
      case rewrite_raw k e6 of Inl x \<Rightarrow> (e6, Inl x) | Inr e7 \<Rightarrow>
      (if se_byID s (e_id e7) \<noteq> None then (e7, Inr \<lparr>r_ID = e_id e7, r_Outcome = Held\<rparr>)
       else
      case checkCallRules k s e7 (e_parent e7) of Inl x \<Rightarrow> (e7, Inl x) | Inr _ \<Rightarrow>
      (e7, Inr \<lparr>r_ID = e_id e7, r_Outcome = outcomeFor s e7\<rparr>))))))))"

text \<open>\<open>prepare\<close> puts the envelope, and an unknown entry's raw line, back on refusal.\<close>

definition put_back :: "entry \<Rightarrow> entry \<Rightarrow> entry" where
  "put_back e0 e =
     (let b0 = base_of e0;
          e = upd_base (\<lambda>b. b\<lparr>b_Parent := b_Parent b0, b_Timestamp := b_Timestamp b0, b_ID := b_ID b0,
                              b_Parents := b_Parents b0\<rparr>) e
      in case (e0, e) of
          (UnknownEntry u0, UnknownEntry u) \<Rightarrow> UnknownEntry (u\<lparr>un_Raw := un_Raw u0\<rparr>)
        | _ \<Rightarrow> e)"

definition prepare :: "codec \<Rightarrow> timestamp \<Rightarrow> session \<Rightarrow> entry \<Rightarrow> entry \<times> result res" where
  "prepare k now s e =
     (case prepareEntry k now s e of
        (e', Inr r) \<Rightarrow> (e', Inr r)
      | (e', Inl x) \<Rightarrow> (put_back e e', Inl x))"

section \<open>What a writer may append\<close>

definition SupersededBy :: "session \<Rightarrow> string" where
  "SupersededBy s =
     (case find_last (\<lambda>e. case e of LinkEntry l \<Rightarrow> ln_Rel l = RelContinuedIn \<and> ln_Session l \<noteq> [] | _ \<Rightarrow> False)
             (se_entries s) of
        Some (LinkEntry l) \<Rightarrow> ln_Session l
      | _ \<Rightarrow> [])"

definition checkCallee :: "link_entry \<Rightarrow> (eid \<Rightarrow> link_entry option) \<Rightarrow> unit res" where
  "checkCallee l before =
     (if ln_Cancel l \<noteq> []
      then (case before (ln_Target l) of
              None \<Rightarrow> Inl ECalleeLink
            | Some to \<Rightarrow>
                refuse (ln_CallID to \<noteq> ln_CallID l \<or> ln_SpawnID to \<noteq> ln_SpawnID l \<or> ln_Rel to \<noteq> ln_Rel l)
                  ECalleeLink)
      else refuse (ln_Rel l = RelPeer \<and> ln_URL l \<noteq> [] \<and> ln_CallID l = []) ECalleeLink)"

definition callee_link_at :: "entry list \<Rightarrow> eid \<Rightarrow> link_entry option" where
  "callee_link_at p i =
     (case find (\<lambda>e. case e of
                       LinkEntry l \<Rightarrow> b_ID (ln_base l) = i \<and> callee l \<and> ln_Cancel l = []
                     | _ \<Rightarrow> False) p of
        Some (LinkEntry l) \<Rightarrow> Some l
      | _ \<Rightarrow> None)"

definition checkOutputs :: "codec \<Rightarrow> session \<Rightarrow> config_entry \<Rightarrow> omit \<Rightarrow> unit res" where
  "checkOutputs k s c om =
     (let parent = (if b_Parent (c_base c) = [] then se_leaf s else b_Parent (c_base c))
      in if parent \<noteq> [] \<and> \<not> c_Replace c
         then (case ContextAt k s parent of
                 Inl _ \<Rightarrow> Inr ()
               | Inr ctx \<Rightarrow>
                   refuse (outputsOverlap (o_Outputs (s_Omit (x_Settings ctx))) (o_Outputs om)) EOmitOverlap)
         else refuse (outputsOverlap None (o_Outputs om)) EOmitOverlap)"

definition check_link :: "session \<Rightarrow> link_entry \<Rightarrow> unit res" where
  "check_link s l =
     (if ln_Rel l = RelContinuedIn
      then refuse (SupersededBy s \<noteq> [] \<and> SupersededBy s \<noteq> ln_Session l) ESuperseded
      else if \<not> callee l then Inr ()
      else if ln_Rel l = RelPeer \<and> ln_Cancel l = [] \<and>
              (ln_CallID l = [] \<or> ln_URL l = [] \<and> ln_Session l = [])
      then Inl ECalleeLink
      else if ln_Rel l = RelSubsession \<and> ln_CallID l \<noteq> [] \<and> ln_SpawnID l \<noteq> [] then Inl ESpawnLink
      else if ln_Rel l = RelSubsession \<and> ln_CallID l = [] \<and> ln_SpawnID l = [] then Inl ESpawnLink
      else if ln_Cancel l = [] then Inr ()
      else checkCallee l (callee_link_at
             (Path s (if b_Parent (ln_base l) = [] then se_leaf s else b_Parent (ln_base l)))))"

definition checkNew :: "codec \<Rightarrow> session \<Rightarrow> entry option \<Rightarrow> unit res" where
  "checkNew k s eo =
     then_res (session_raiseRefused s Format)
       (case eo of
          None \<Rightarrow> Inr ()
        | Some e \<Rightarrow>
            if b_gated (base_of e) then Inl ENoRaise
            else (case e of
                    ConfigEntry c \<Rightarrow>
                      (case c_Omit c of
                         Some om \<Rightarrow> if o_Outputs om \<noteq> None then checkOutputs k s c om else Inr ()
                       | None \<Rightarrow> Inr ())
                  | LinkEntry l \<Rightarrow> check_link s l
                  | _ \<Rightarrow> Inr ()))"

section \<open>Append, Prepare and Commit\<close>

definition Commit :: "codec \<Rightarrow> timestamp \<Rightarrow> session \<Rightarrow> entry option \<Rightarrow> session \<times> result res" where
  "Commit k now s eo =
     (case validateEntry eo of
        Inl x \<Rightarrow> (s, Inl x)
      | Inr _ \<Rightarrow>
          (case prepare k now s (the eo) of
             (e, Inl x) \<Rightarrow> (s, Inl x)
           | (e, Inr r) \<Rightarrow>
               if r_Outcome r = Held then (s, Inr r) else (moveLeafFor (add e s) e, Inr r)))"

definition Append :: "codec \<Rightarrow> timestamp \<Rightarrow> session \<Rightarrow> entry option \<Rightarrow> session \<times> eid res" where
  "Append k now s eo =
     (case checkNew k s eo of
        Inl x \<Rightarrow> (s, Inl x)
      | Inr _ \<Rightarrow>
          (case Commit k now s eo of
             (s', Inl x) \<Rightarrow> (s', Inl x)
           | (s', Inr r) \<Rightarrow> (s', Inr (r_ID r))))"

definition Prepare :: "codec \<Rightarrow> timestamp \<Rightarrow> session \<Rightarrow> entry option \<Rightarrow> (entry \<times> result) res" where
  "Prepare k now s eo =
     then_res (validateEntry eo) (then_res (checkNew k s eo)
       (case prepare k now s (the eo) of (e, Inl x) \<Rightarrow> Inl x | (e, Inr r) \<Rightarrow> Inr (e, r)))"

section \<open>Moving the head by compare and swap\<close>

definition headLabel :: "session \<Rightarrow> eid \<Rightarrow> eid \<Rightarrow> label_entry res" where
  "headLabel s expected to =
     (if se_leaf s \<noteq> expected then Inl EHeadMoved
      else if to = []
      then (if h_Base (se_header s) \<noteq> [] then Inl ENoEntry else Inr (NewLabelEntry [] LeafLabel))
      else case se_byID s to of
          None \<Rightarrow> Inl ENoEntry
        | Some e \<Rightarrow>
            if h_Base (se_header s) \<noteq> [] \<and> to \<noteq> h_Base (se_header s) \<and> to \<in> se_prefix s then Inl ENoEntry
            else if is_leaf_label e then Inl EHeadTarget
            else Inr ((NewLabelEntry to LeafLabel)\<lparr>lb_base := new_base\<lparr>b_Parent := to\<rparr>\<rparr>))"

definition commitHead :: "codec \<Rightarrow> timestamp \<Rightarrow> session \<Rightarrow> eid \<Rightarrow> eid \<Rightarrow> session \<times> entry res" where
  "commitHead k now s expected to =
     (case checkNew k s None of
        Inl x \<Rightarrow> (s, Inl x)
      | Inr _ \<Rightarrow>
          (case headLabel s expected to of
             Inl x \<Rightarrow> (s, Inl x)
           | Inr l \<Rightarrow>
               (case prepare k now s (LabelEntry l) of
                  (e, Inl x) \<Rightarrow> (s, Inl x)
                | (e, Inr r) \<Rightarrow> (moveLeafFor (add e s) e, Inr e))))"

section \<open>Fork\<close>

definition prefixStandsAlone :: "session \<Rightarrow> entry list \<Rightarrow> unit res" where
  "prefixStandsAlone s p =
     each_res (\<lambda>e.
       then_res (refuse (list_ex (\<lambda>r. r_Session r = [] \<and> \<not> onPath p (r_Entry r)) (b_Parents (base_of e)))
                        EBadConvergence)
         (refuse (b_LegacyID (base_of e) \<noteq> [] \<and> se_migrated s \<and>
                  b_LegacyID (base_of e) \<in> set (se_unresolved s))
                 EUnresolvedMigration)) p"

definition fork_header :: "session \<Rightarrow> eid \<Rightarrow> header \<Rightarrow> header" where
  "fork_header origin at h =
     h\<lparr>h_Base := at,
       h_ParentSession := (if h_ParentSession h = [] then h_ID (se_header origin) else h_ParentSession h),
       h_Media := (if h_Media h = [] then h_Media (se_header origin) else h_Media h),
       h_Payload := (if h_Payload h = [] then h_Payload (se_header origin) else h_Payload h)\<rparr>"

definition add_prefix :: "entry \<Rightarrow> session \<Rightarrow> session" where
  "add_prefix e s = (let s = add e s in s\<lparr>se_prefix := insert (e_id e) (se_prefix s)\<rparr>)"

definition Fork ::
    "string \<Rightarrow> string \<Rightarrow> timestamp \<Rightarrow> session \<Rightarrow> eid \<Rightarrow> header \<Rightarrow> session res" where
  "Fork payload newID now origin at h =
     (let p = path origin at
      in if p = [] then Inl ENoEntry
         else if is_leaf_label (last p) then Inl ENoEntry
         else then_res (prefixStandsAlone origin p)
           (if h_Media h \<noteq> [] \<and> mediaForm (h_Media h) \<noteq> mediaForm (h_Media (se_header origin))
            then Inl EMediaDiffers
            else let s = fold add_prefix p (New payload newID now (fork_header origin at h))
                 in then_res (session_raiseRefused s (h_Format (se_header s)))
                      (if \<not> definesRedactedFrom (h_Format (se_header s)) \<and>
                          list_ex (\<lambda>e. RedactedOf (Some e) \<noteq> None) p
                       then Inl EUnsupportedFormat
                       else Inr (s\<lparr>se_leaf := at\<rparr>))))"

section \<open>Labels and names\<close>

fun label_step :: "entry \<Rightarrow> (eid \<rightharpoonup> string) \<Rightarrow> (eid \<rightharpoonup> string)" where
  "label_step (LabelEntry l) out =
     (case lb_Label l of None \<Rightarrow> out(lb_Target l := None) | Some x \<Rightarrow> out(lb_Target l \<mapsto> x))"
| "label_step _ out = out"

definition Labels :: "session \<Rightarrow> (eid \<rightharpoonup> string)" where
  "Labels s = fold label_step (se_entries s) Map.empty"

fun name_step :: "entry \<Rightarrow> string \<Rightarrow> string" where
  "name_step (InfoEntry i) name = (if in_Name i \<noteq> [] then in_Name i else name)"
| "name_step _ name = name"

definition Name :: "session \<Rightarrow> string" where
  "Name s = fold name_step (se_entries s) []"

section \<open>Compaction and branch summaries\<close>

definition new_compaction :: "eid \<Rightarrow> item option \<Rightarrow> settings \<Rightarrow> compaction_entry" where
  "new_compaction firstKept summary config = \<lparr>cp_base = new_base, cp_FirstKept = firstKept,
     cp_Summary = summary, cp_Pinned = [], cp_Config = config, cp_TokensBefore = 0, cp_Usage = None,
     cp_Trust = None, cp_Requested = False, cp_Instructions = []\<rparr>"

definition compactionContext :: "codec \<Rightarrow> session \<Rightarrow> item option \<Rightarrow> (eid \<times> session_context) res" where
  "compactionContext k s summary =
     (if summary = None then Inl (EInvalid ''compaction needs a summary item'')
      else if se_leaf s = [] then Inl (EInvalid ''no leaf to compact'')
      else bind_res (ContextAt k s (se_leaf s)) (\<lambda>ctx. Inr (se_leaf s, ctx)))"

definition compactionFrom :: "session_context \<Rightarrow> nat \<Rightarrow> item option \<Rightarrow> compaction_entry res" where
  "compactionFrom ctx first summary =
     (let e = x_ItemEntries ctx ! first
      in if is_compaction e then Inl (EInvalid ''a later compaction replaces rather than keeps'')
         else Inr (new_compaction (e_id e) summary (checkpoint (x_Settings ctx))))"

definition Compact :: "codec \<Rightarrow> session \<Rightarrow> eid \<Rightarrow> item option \<Rightarrow> compaction_entry res" where
  "Compact k s firstKept summary =
     bind_res (compactionContext k s summary) (\<lambda>(leaf, ctx).
       if onPath (Path s leaf) firstKept
       then Inr (new_compaction firstKept summary (checkpoint (x_Settings ctx)))
       else Inl ENoEntry)"

definition CompactFrom :: "codec \<Rightarrow> session \<Rightarrow> int \<Rightarrow> item option \<Rightarrow> compaction_entry res" where
  "CompactFrom k s first summary =
     bind_res (compactionContext k s summary) (\<lambda>(_, ctx).
       if first < 0 \<or> first \<ge> int (length (x_Items ctx))
       then Inl (EInvalid ''first kept item is outside the context'')
       else compactionFrom ctx (nat first) summary)"

definition CompactKeeping :: "codec \<Rightarrow> session \<Rightarrow> int \<Rightarrow> item option \<Rightarrow> compaction_entry res" where
  "CompactKeeping k s kept summary =
     bind_res (compactionContext k s summary) (\<lambda>(_, ctx).
       if kept < 1 \<or> kept > int (length (x_Items ctx))
       then Inl (EInvalid ''cannot keep that many items'')
       else compactionFrom ctx (length (x_Items ctx) - nat kept) summary)"

definition SummarizeBranch :: "session \<Rightarrow> eid \<Rightarrow> item option \<Rightarrow> branch_summary_entry res" where
  "SummarizeBranch s origin summary =
     (if summary = None then Inl (EInvalid ''branch summary needs a summary item'')
      else if Entry s origin = None then Inl ENoEntry
      else if se_leaf s = [] then Inl (EInvalid ''no leaf to continue from'')
      else Inr \<lparr>bs_base = new_base, bs_From = origin, bs_Summary = summary, bs_Usage = None, bs_Trust = None\<rparr>)"

end
