(* ===== verification/Session_Tree.thy ===== *)
theory Session_Tree
  imports Sessions
begin

text \<open>
  The shape every operation of a session keeps: the entries in file order carry distinct, non-empty
  IDs, the ID and child indexes agree with them, a parent precedes its children, and the leaf is the
  root or an entry.  From it follow that a path ends at the root and is what \<open>Path\<close> says, and that an
  append changes no path it did not make.
\<close>

section \<open>The shape\<close>

definition parents_before :: "entry list \<Rightarrow> bool" where
  "parents_before es =
     list_all (\<lambda>n. e_parent (es ! n) = [] \<or> e_parent (es ! n) \<in> set (map e_id (take n es))) [0..<length es]"

lemma parents_before_Nil [simp]: "parents_before []"
  by (simp add: parents_before_def)

lemma parents_before_snoc [simp]:
  "parents_before (es @ [e]) \<longleftrightarrow>
     parents_before es \<and> (e_parent e = [] \<or> e_parent e \<in> set (map e_id es))"
  by (auto simp: parents_before_def list_all_iff nth_append)

text \<open>An ID is a hash in the format's notation: \<open>HashPrefix\<close> and hexadecimal digits.\<close>

definition plain_id :: "eid \<Rightarrow> bool" where
  "plain_id i \<longleftrightarrow> has_prefix ''sha256:'' i \<and> list_all (\<lambda>c. (of_char c :: nat) < 128) i"

lemma plain_id_neq [simp]: "\<not> plain_id []"
  by (simp add: plain_id_def has_prefix_def)

definition tree_wf :: "entry list \<Rightarrow> bool" where
  "tree_wf es \<longleftrightarrow> distinct (map e_id es) \<and> list_all plain_id (map e_id es) \<and> parents_before es"

lemma tree_wf_neq: "tree_wf es \<Longrightarrow> [] \<notin> set (map e_id es)"
  by (auto simp: tree_wf_def list_all_iff)

lemma tree_wf_Nil [simp]: "tree_wf []"
  by (simp add: tree_wf_def)

lemma tree_wf_snoc:
  "tree_wf (es @ [e]) \<longleftrightarrow> tree_wf es \<and> plain_id (e_id e) \<and> e_id e \<notin> set (map e_id es) \<and>
     (e_parent e = [] \<or> e_parent e \<in> set (map e_id es))"
  by (auto simp: tree_wf_def)

definition index_of :: "entry list \<Rightarrow> eid \<rightharpoonup> entry" where
  "index_of es i = find (\<lambda>e. e_id e = i) es"

definition children_of :: "entry list \<Rightarrow> eid \<Rightarrow> eid list" where
  "children_of es i = map e_id (filter (\<lambda>e. e_parent e = i) es)"

definition session_wf :: "session \<Rightarrow> bool" where
  "session_wf s \<longleftrightarrow>
     tree_wf (se_entries s) \<and> se_byID s = index_of (se_entries s) \<and>
     se_children s = children_of (se_entries s) \<and>
     (se_leaf s = [] \<or> se_byID s (se_leaf s) \<noteq> None)"

lemma index_of_None: "index_of es i = None \<longleftrightarrow> i \<notin> set (map e_id es)"
  by (auto simp: index_of_def find_None_iff)

lemma index_of_Some: "index_of es i = Some e \<Longrightarrow> e \<in> set es \<and> e_id e = i"
  by (auto simp: index_of_def dest: find_Some_set)

lemma index_of_mem: "distinct (map e_id es) \<Longrightarrow> e \<in> set es \<Longrightarrow> index_of es (e_id e) = Some e"
proof -
  assume d: "distinct (map e_id es)" and e: "e \<in> set es"
  then have "index_of es (e_id e) \<noteq> None" by (simp add: index_of_None)
  then obtain x where x: "index_of es (e_id e) = Some x" by blast
  from index_of_Some [OF x] d e have "x = e" by (metis distinct_map inj_onD)
  with x show ?thesis by simp
qed

lemma index_of_snoc:
  "e_id e \<notin> set (map e_id es) \<Longrightarrow> index_of (es @ [e]) = (index_of es)(e_id e \<mapsto> e)"
proof
  fix i
  assume "e_id e \<notin> set (map e_id es)"
  then have "find (\<lambda>x. e_id x = e_id e) es = None" by (simp add: find_None_iff) (metis imageI)
  then show "index_of (es @ [e]) i = ((index_of es)(e_id e \<mapsto> e)) i"
    by (auto simp: index_of_def find_append split: option.splits)
qed

lemma children_of_snoc:
  "children_of (es @ [e]) = (children_of es)(e_parent e := children_of es (e_parent e) @ [e_id e])"
  by (auto simp: children_of_def fun_eq_iff)

section \<open>Paths\<close>

text \<open>The chain of entries from the root to \<open>i\<close>, by rules.\<close>

inductive chain :: "(eid \<rightharpoonup> entry) \<Rightarrow> eid \<Rightarrow> entry list \<Rightarrow> bool" for m where
  root: "chain m [] []"
| step: "i \<noteq> [] \<Longrightarrow> m i = Some e \<Longrightarrow> chain m (e_parent e) p \<Longrightarrow> chain m i (p @ [e])"

inductive_simps chain_root_simps [simp]: "chain m [] p"
inductive_cases chain_stepE: "chain m i p"

lemma chain_det: "chain m i p \<Longrightarrow> chain m i q \<Longrightarrow> p = q"
proof (induction arbitrary: q rule: chain.induct)
  case (step i e p)
  from step.prems step.hyps show ?case
    by (cases rule: chain_stepE) (auto dest: step.IH)
qed simp

lemma walk_chain: "chain m i p \<Longrightarrow> length p < n \<Longrightarrow> walk n m i acc = Some (p @ acc)"
proof (induction arbitrary: n acc rule: chain.induct)
  case root
  then show ?case by (cases n) auto
next
  case (step i e p)
  then obtain n' where "n = Suc n'" by (cases n) auto
  with step show ?case by simp
qed

lemma chain_mono: "chain m i p \<Longrightarrow> (\<And>i e. m i = Some e \<Longrightarrow> m' i = Some e) \<Longrightarrow> chain m' i p"
  by (induction rule: chain.induct) (auto intro: chain.intros)

lemma chain_exists:
  "tree_wf es \<Longrightarrow> i = [] \<or> i \<in> set (map e_id es) \<Longrightarrow>
   \<exists>p. chain (index_of es) i p \<and> set p \<subseteq> set es \<and> length p \<le> length es \<and>
       distinct (map e_id p) \<and> parents_before p"
proof (induction es arbitrary: i rule: rev_induct)
  case Nil
  then show ?case by simp
next
  case (snoc e es)
  from snoc.prems plain_id_neq have wf: "tree_wf es" and e: "e_id e \<noteq> []" "e_id e \<notin> set (map e_id es)"
      "e_parent e = [] \<or> e_parent e \<in> set (map e_id es)"
    by (auto simp: tree_wf_snoc)
  have mono: "index_of es j = Some x \<Longrightarrow> index_of (es @ [e]) j = Some x" for j x
    using e(2) index_of_Some [of es j x] index_of_None [of es "e_id e"] by (auto simp: index_of_snoc)
  show ?case
  proof (cases "i = e_id e")
    case True
    from snoc.IH [OF wf e(3)] obtain p where p: "chain (index_of es) (e_parent e) p" "set p \<subseteq> set es"
        "length p \<le> length es" "distinct (map e_id p)" "parents_before p" by blast
    have last: "e_parent e = [] \<or> e_parent e \<in> set (map e_id p)"
      using p(1) by (cases rule: chain_stepE) (auto dest: index_of_Some)
    have "chain (index_of (es @ [e])) (e_parent e) p" by (rule chain_mono [OF p(1) mono])
    then have "chain (index_of (es @ [e])) i (p @ [e])"
      using True e by (intro chain.step) (simp_all add: index_of_snoc)
    with p e last show ?thesis by (intro exI [of _ "p @ [e]"]) auto
  next
    case False
    with snoc.prems have "i = [] \<or> i \<in> set (map e_id es)" by auto
    from snoc.IH [OF wf this] obtain p where "chain (index_of es) i p" "set p \<subseteq> set es"
        "length p \<le> length es" "distinct (map e_id p)" "parents_before p" by blast
    then show ?thesis by (intro exI [of _ p]) (auto elim: chain_mono [OF _ mono])
  qed
qed

lemma path_chain:
  assumes wf: "session_wf s" and i: "i = [] \<or> se_byID s i \<noteq> None"
  shows "chain (se_byID s) i (path s i)" "set (path s i) \<subseteq> set (se_entries s)"
    "distinct (map e_id (path s i))" "parents_before (path s i)"
proof -
  from wf i have "i = [] \<or> i \<in> set (map e_id (se_entries s))" "tree_wf (se_entries s)"
    and m: "se_byID s = index_of (se_entries s)"
    by (auto simp: session_wf_def index_of_None)
  then obtain p where p: "chain (se_byID s) i p" "length p \<le> length (se_entries s)"
      "set p \<subseteq> set (se_entries s)" "distinct (map e_id p)" "parents_before p"
    using chain_exists by metis
  from walk_chain [OF p(1), of "Suc (length (se_entries s))" "[]"] p(2) have "path s i = p"
    by (simp add: path_def)
  with p show "chain (se_byID s) i (path s i)" "set (path s i) \<subseteq> set (se_entries s)"
    "distinct (map e_id (path s i))" "parents_before (path s i)" by simp_all
qed

lemma path_chain_eq: "session_wf s \<Longrightarrow> chain (se_byID s) i p \<Longrightarrow> path s i = p"
  using path_chain(1) [of s i] chain_det by (cases rule: chain_stepE) auto

lemma path_Nil [simp]: "path s [] = []"
  by (simp add: path_def)

lemma path_missing: "i \<noteq> [] \<Longrightarrow> se_byID s i = None \<Longrightarrow> path s i = []"
  by (simp add: path_def)

lemma path_step:
  assumes "session_wf s" "se_byID s i = Some e"
  shows "path s i = path s (e_parent e) @ [e]"
proof -
  have "i \<noteq> []" using assms index_of_None [of "se_entries s" "[]"] tree_wf_neq [of "se_entries s"]
    by (auto simp: session_wf_def)
  from path_chain(1) [OF assms(1), of i] assms(2) this obtain p where
    "path s i = p @ [e]" "chain (se_byID s) (e_parent e) p"
    by (auto elim: chain_stepE)
  with path_chain_eq [OF assms(1)] show ?thesis by simp
qed

lemma path_nonempty: "session_wf s \<Longrightarrow> se_byID s i \<noteq> None \<Longrightarrow> path s i \<noteq> []"
  by (auto simp: path_step)

section \<open>What adding an entry keeps\<close>

lemma hold_gated_simps [simp, session_simps]:
  "se_entries (hold_gated e s) = se_entries s" "se_byID (hold_gated e s) = se_byID s"
  "se_children (hold_gated e s) = se_children s" "se_leaf (hold_gated e s) = se_leaf s"
  "se_prefix (hold_gated e s) = se_prefix s" "se_callIDs (hold_gated e s) = se_callIDs s"
  "se_spawnIDs (hold_gated e s) = se_spawnIDs s" "se_copied (hold_gated e s) = se_copied s"
  "se_results (hold_gated e s) = se_results s" "se_dispatches (hold_gated e s) = se_dispatches s"
  "se_declared (hold_gated e s) = se_declared s" "se_read (hold_gated e s) = se_read s"
  "h_Base (se_header (hold_gated e s)) = h_Base (se_header s)"
  "h_ID (se_header (hold_gated e s)) = h_ID (se_header s)"
  "h_Records (se_header (hold_gated e s)) = h_Records (se_header s)"
  by (simp_all add: hold_gated_def)

lemma add_indexes_simps [simp, session_simps]:
  "se_entries (add_indexes e s) = se_entries s" "se_byID (add_indexes e s) = se_byID s"
  "se_children (add_indexes e s) = se_children s" "se_leaf (add_indexes e s) = se_leaf s"
  "se_prefix (add_indexes e s) = se_prefix s" "se_header (add_indexes e s) = se_header s"
  "se_declared (add_indexes e s) = se_declared s" "se_read (add_indexes e s) = se_read s"
  "se_heldRedacted (add_indexes e s) = se_heldRedacted s"
  by (auto simp: add_indexes_def split: entry.split option.split item.split)

lemma add_simps [simp, session_simps]:
  "se_entries (add e s) = se_entries s @ [e]"
  "se_byID (add e s) = (se_byID s)(e_id e \<mapsto> e)"
  "se_children (add e s) = (se_children s)(e_parent e := se_children s (e_parent e) @ [e_id e])"
  "se_leaf (add e s) = se_leaf s" "se_prefix (add e s) = se_prefix s"
  "se_declared (add e s) = se_declared s" "se_read (add e s) = se_read s"
  "h_Base (se_header (add e s)) = h_Base (se_header s)"
  "h_ID (se_header (add e s)) = h_ID (se_header s)"
  "h_Records (se_header (add e s)) = h_Records (se_header s)"
  by (simp_all add: add_def Let_def)

lemma moveLeafFor_simps [simp, session_simps]:
  "se_entries (moveLeafFor s e) = se_entries s" "se_byID (moveLeafFor s e) = se_byID s"
  "se_children (moveLeafFor s e) = se_children s" "se_prefix (moveLeafFor s e) = se_prefix s"
  "se_header (moveLeafFor s e) = se_header s" "se_declared (moveLeafFor s e) = se_declared s"
  "se_callIDs (moveLeafFor s e) = se_callIDs s" "se_results (moveLeafFor s e) = se_results s"
  "se_copied (moveLeafFor s e) = se_copied s" "se_spawnIDs (moveLeafFor s e) = se_spawnIDs s"
  "se_dispatches (moveLeafFor s e) = se_dispatches s" "se_read (moveLeafFor s e) = se_read s"
  by (simp_all add: moveLeafFor_def)

text \<open>The entries an append may add: a fresh ID under the root or an entry held.\<close>

definition addable :: "session \<Rightarrow> entry \<Rightarrow> bool" where
  "addable s e \<longleftrightarrow> plain_id (e_id e) \<and> se_byID s (e_id e) = None \<and> (e_parent e = [] \<or> se_byID s (e_parent e) \<noteq> None)"

lemma session_wf_add:
  assumes wf: "session_wf s" and ok: "addable s e"
  shows "session_wf (add e s)"
proof -
  from wf ok have "e_id e \<notin> set (map e_id (se_entries s))"
    by (simp add: session_wf_def addable_def index_of_None)
  with wf ok show ?thesis
    by (auto simp: session_wf_def addable_def tree_wf_snoc index_of_snoc children_of_snoc index_of_None)
qed

lemma session_wf_moveLeafFor:
  assumes wf: "session_wf s" and e: "se_byID s (e_id e) \<noteq> None"
  shows "session_wf (moveLeafFor s e)"
proof -
  have "se_leaf (moveLeafFor s e) = [] \<or> se_byID s (se_leaf (moveLeafFor s e)) \<noteq> None"
    using wf e by (auto simp: moveLeafFor_def mayRestOn_def session_wf_def split: option.splits if_splits)
  with wf show ?thesis by (simp add: session_wf_def)
qed

lemma path_add:
  assumes wf: "session_wf s" and ok: "addable s e" and i: "i = [] \<or> se_byID s i \<noteq> None"
  shows "path (add e s) i = path s i"
proof (rule path_chain_eq [OF session_wf_add [OF wf ok]])
  show "chain (se_byID (add e s)) i (path s i)"
    by (rule chain_mono [OF path_chain(1) [OF wf i]]) (use ok in \<open>auto simp: addable_def\<close>)
qed

lemma path_add_new:
  assumes wf: "session_wf s" and ok: "addable s e"
  shows "path (add e s) (e_id e) = path s (e_parent e) @ [e]"
  using path_step [OF session_wf_add [OF wf ok], of "e_id e" e] path_add [OF wf ok, of "e_parent e"] ok
  by (auto simp: addable_def)

lemma path_moveLeafFor [simp]: "path (moveLeafFor s e) i = path s i"
  by (simp add: path_def)

section \<open>What a prepared entry satisfies\<close>

text \<open>
  What the session relies on of the codec: an ID is a hash in the format's notation, normalising a
  body leaves the predecessors the envelope names, and a leaf label on an entry, whose strings are plain,
  has nothing to normalise.
\<close>

definition codec_ok :: "codec \<Rightarrow> bool" where
  "codec_ok k \<longleftrightarrow>
     (\<forall>e i c. k_EntryHashes k e = Inr (i, c) \<longrightarrow> plain_id i) \<and>
     (\<forall>e e'. k_normaliseEntry k e = Inr e' \<longrightarrow>
        e_parent e' = e_parent e \<and> b_Parents (base_of e') = b_Parents (base_of e)) \<and>
     (\<forall>l e'. k_normaliseEntry k (LabelEntry l) = Inr e' \<longrightarrow> lb_Label l = Some LeafLabel \<longrightarrow>
        lb_Target l = [] \<or> plain_id (lb_Target l) \<longrightarrow> (\<exists>b. e' = LabelEntry (l\<lparr>lb_base := b\<rparr>)))"

text \<open>An entry whose ID the codec computed from it.\<close>

definition hashed_by :: "codec \<Rightarrow> entry \<Rightarrow> bool" where
  "hashed_by k e \<longleftrightarrow> (\<exists>e1 e2. hashEntry k e1 = Inr e2 \<and> rewrite_raw k e2 = Inr e)"

definition admitted :: "codec \<Rightarrow> session \<Rightarrow> entry \<Rightarrow> bool" where
  "admitted k s e \<longleftrightarrow>
     plain_id (e_id e) \<and> hashed_by k e \<and> se_byID s (e_id e) = None \<and> checkParentRule s (e_parent e) = Inr () \<and>
     checkParents s (base_of e) = Inr () \<and> checkCallRules k s e (e_parent e) = Inr ()"

lemma rewrite_raw_base: "rewrite_raw k e = Inr e' \<Longrightarrow> base_of e' = base_of e"
  by (cases e) (auto simp: rewrite_raw_def bind_res_Inr)

lemma hashEntry_base:
  "hashEntry k e = Inr e' \<Longrightarrow> \<exists>i c. k_EntryHashes k e = Inr (i, c) \<and> e_id e' = i \<and>
     e_parent e' = e_parent e \<and> b_Parents (base_of e') = b_Parents (base_of e)"
  by (auto simp: hashEntry_def bind_res_Inr)

lemma prepareEntry_ok:
  assumes k: "codec_ok k" and p: "prepareEntry k now s e0 = (e, Inr r)"
  shows "r_ID r = e_id e \<and>
    (r_Outcome r = Held \<and> se_byID s (e_id e) \<noteq> None \<or>
     r_Outcome r = outcomeFor s e \<and> admitted k s e)"
proof -
  let ?e1 = "fill_parent s e0"
  let ?e2 = "stamp now ?e1"
  let ?e3 = "upd_base (\<lambda>b. b\<lparr>b_ID := []\<rparr>) ?e2"
  from p obtain e4 e5 e6 where rule: "checkParentRule s (e_parent ?e1) = Inr ()"
    and refs: "checkParents s (base_of ?e2) = Inr ()"
    and e4: "rewrite_raw k ?e3 = Inr e4" and e5: "k_normaliseEntry k e4 = Inr e5"
    and e6: "hashEntry k e5 = Inr e6" and e7: "rewrite_raw k e6 = Inr e"
    and rest: "(if se_byID s (e_id e) \<noteq> None then Inr \<lparr>r_ID = e_id e, r_Outcome = Held\<rparr>
      else case checkCallRules k s e (e_parent e) of Inl x \<Rightarrow> Inl x
        | Inr _ \<Rightarrow> Inr \<lparr>r_ID = e_id e, r_Outcome = outcomeFor s e\<rparr>) = Inr r"
    unfolding prepareEntry_def Let_def by (auto split: if_splits sum.splits)
  have par: "e_parent e = e_parent ?e1 \<and> e_parent ?e2 = e_parent ?e1 \<and> b_Parents (base_of e) = b_Parents (base_of ?e2)"
    using rewrite_raw_base [OF e4] rewrite_raw_base [OF e7] hashEntry_base [OF e6] k e5
    by (auto simp: codec_ok_def stamp_def)
  have "plain_id (e_id e)"
    using rewrite_raw_base [OF e7] hashEntry_base [OF e6] k by (auto simp: codec_ok_def)
  moreover have "checkParents s (base_of e) = Inr ()" using refs par by (simp add: checkParents_def)
  moreover have "hashed_by k e" using e6 e7 by (auto simp: hashed_by_def)
  ultimately show ?thesis using rest rule par by (auto simp: admitted_def split: if_splits sum.splits)
qed

lemma outcomeFor_not_Held [simp]: "outcomeFor s e \<noteq> Held" "Held \<noteq> outcomeFor s e"
  by (auto simp: outcomeFor_def)

text \<open>A commit refuses, holds the entry already, or adds an admitted entry and moves the leaf.\<close>

lemma Commit_cases:
  assumes k: "codec_ok k" and c: "Commit k now s eo = (s', res)"
  obtains (refused) x where "res = Inl x" "s' = s"
    | (held) r where "res = Inr r" "s' = s" "r_Outcome r = Held" "se_byID s (r_ID r) \<noteq> None"
    | (added) e r where "res = Inr r" "s' = moveLeafFor (add e s) e" "admitted k s e"
        "r_ID r = e_id e" "r_Outcome r = outcomeFor s e"
proof (cases "validateEntry eo")
  case (Inl x)
  with c show ?thesis by (auto simp: Commit_def intro: refused)
next
  case (Inr u)
  obtain e' pr where pr: "prepareEntry k now s (the eo) = (e', pr)" by fastforce
  show ?thesis
  proof (cases pr)
    case (Inl x)
    with c Inr pr show ?thesis by (auto simp: Commit_def prepare_def intro: refused)
  next
    case (Inr r)
    from prepareEntry_ok [OF k pr [unfolded Inr]] c \<open>validateEntry eo = Inr u\<close> pr Inr
    show ?thesis
      by (auto simp: Commit_def prepare_def split: if_splits intro: held added)
  qed
qed

lemma admitted_addable: "admitted k s e \<Longrightarrow> addable s e"
  by (auto simp: admitted_def addable_def checkParentRule_def split: if_splits)

lemma session_wf_Commit:
  assumes "codec_ok k" "session_wf s" "Commit k now s eo = (s', res)"
  shows "session_wf s'"
  using assms(1,3)
proof (cases rule: Commit_cases)
  case (added e r)
  with assms(2) show ?thesis
    by (auto intro!: session_wf_moveLeafFor session_wf_add dest: admitted_addable)
qed (use assms(2) in simp_all)

lemma Append_Commit: "Append k now s eo = (s', res) \<Longrightarrow> s' = s \<or> fst (Commit k now s eo) = s'"
  by (auto simp: Append_def split: sum.splits prod.splits)

lemma session_wf_Append: "codec_ok k \<Longrightarrow> session_wf s \<Longrightarrow> Append k now s eo = (s', res) \<Longrightarrow> session_wf s'"
  using Append_Commit [of k now s eo s' res] session_wf_Commit [of k s now eo]
  by (cases "Commit k now s eo") auto

lemma session_wf_New [simp]: "session_wf (New payload newID now h)"
  by (simp add: session_wf_def New_def empty_session_def index_of_def children_of_def fun_eq_iff)

lemma session_wf_Branch: "session_wf s \<Longrightarrow> Branch s i = Inr s' \<Longrightarrow> session_wf s'"
  by (auto simp: Branch_def session_wf_def split: if_splits)

lemma session_wf_ResetLeaf: "session_wf s \<Longrightarrow> session_wf (ResetLeaf s)"
  by (simp add: ResetLeaf_def session_wf_def)

section \<open>Fork\<close>

lemma add_prefix_simps [simp, session_simps]:
  "se_entries (add_prefix e s) = se_entries s @ [e]"
  "se_byID (add_prefix e s) = (se_byID s)(e_id e \<mapsto> e)"
  "se_leaf (add_prefix e s) = se_leaf s"
  "se_prefix (add_prefix e s) = insert (e_id e) (se_prefix s)"
  "h_Base (se_header (add_prefix e s)) = h_Base (se_header s)"
  "h_ID (se_header (add_prefix e s)) = h_ID (se_header s)"
  by (simp_all add: add_prefix_def Let_def)

lemma session_wf_prefix [simp]: "session_wf (s\<lparr>se_prefix := x\<rparr>) = session_wf s"
  by (simp add: session_wf_def)

lemma session_wf_add_prefix: "session_wf s \<Longrightarrow> addable s e \<Longrightarrow> session_wf (add_prefix e s)"
  by (simp add: add_prefix_def Let_def session_wf_add)

lemma fold_add_prefix:
  assumes "session_wf s" "se_entries s = []" "distinct (map e_id p)" "list_all plain_id (map e_id p)" "parents_before p"
  shows "session_wf (fold add_prefix p s) \<and> se_entries (fold add_prefix p s) = p \<and>
    se_prefix (fold add_prefix p s) = se_prefix s \<union> set (map e_id p) \<and>
    h_Base (se_header (fold add_prefix p s)) = h_Base (se_header s) \<and>
    h_ID (se_header (fold add_prefix p s)) = h_ID (se_header s)"
  using assms(3-5)
proof (induction p rule: rev_induct)
  case Nil
  with assms show ?case by simp
next
  case (snoc e p)
  let ?s = "fold add_prefix p s"
  from snoc have IH: "session_wf ?s" "se_entries ?s = p" by auto
  then have m: "se_byID ?s = index_of p" by (simp add: session_wf_def)
  from snoc.prems have "addable ?s e" by (auto simp: addable_def m index_of_None)
  with snoc IH(1) show ?case by (auto intro: session_wf_add_prefix)
qed

lemma Fork_cases:
  assumes wf: "session_wf origin" and f: "Fork payload newID now origin at h = Inr s"
  shows "session_wf s" "se_entries s = path origin at" "se_leaf s = at" "se_byID origin at \<noteq> None"
    "se_prefix s = set (map e_id (path origin at))" "h_Base (se_header s) = at"
    "\<not> is_leaf_label (last (path origin at))"
proof -
  let ?p = "path origin at"
  let ?s0 = "New payload newID now (fork_header origin at h)"
  from f have ne: "?p \<noteq> []" and lab: "\<not> is_leaf_label (last ?p)" and s: "s = (fold add_prefix ?p ?s0)\<lparr>se_leaf := at\<rparr>"
    by (auto simp: Fork_def Let_def then_res_Inr split: if_splits)
  from ne have atn: "at \<noteq> []" by auto
  with ne path_missing [of at origin] show m: "se_byID origin at \<noteq> None" by auto
  note pc = path_chain [OF wf disjI2, OF m]
  have "list_all plain_id (map e_id ?p)" using pc(2) wf by (auto simp: session_wf_def tree_wf_def list_all_iff)
  moreover have "se_entries ?s0 = []" "se_prefix ?s0 = {}" "h_Base (se_header ?s0) = at"
    by (simp_all add: New_def empty_session_def fill_def fork_header_def)
  ultimately have F: "session_wf (fold add_prefix ?p ?s0)"
      "se_entries (fold add_prefix ?p ?s0) = ?p"
      "se_prefix (fold add_prefix ?p ?s0) = set (map e_id ?p)"
      "h_Base (se_header (fold add_prefix ?p ?s0)) = at"
    using fold_add_prefix [of ?s0 ?p] pc by simp_all
  obtain e where e: "se_byID origin at = Some e" using m by blast
  have "at \<in> set (map e_id ?p)" using path_step [OF wf e] wf e
    by (auto simp: session_wf_def dest: index_of_Some)
  then have "se_byID (fold add_prefix ?p ?s0) at \<noteq> None"
    using F(1,2) by (simp add: session_wf_def index_of_None)
  with F show "session_wf s" by (simp add: s session_wf_def)
  show "se_entries s = ?p" "se_leaf s = at" "se_prefix s = set (map e_id ?p)" "h_Base (se_header s) = at"
    "\<not> is_leaf_label (last ?p)"
    using F lab by (simp_all add: s)
qed

end
