(* ===== verification/Indexes.thy ===== *)
theory Indexes
  imports Session_Tree
begin

text \<open>
  The indexes an append reads are the entries they index: the call IDs, the spawn IDs, the copied
  calls, the results and the dispatches of a call are read off the entries in file order, and every
  operation that adds an entry keeps them so.  What an index answers is therefore a fact about the
  entries of the session, which the call rules rest on.
\<close>

section \<open>What the indexes stand for\<close>

fun spawn_of :: "entry \<Rightarrow> string option" where
  "spawn_of (LinkEntry l) = (if spawns l then Some (ln_SpawnID l) else None)"
| "spawn_of _ = None"

fun result_of :: "entry \<Rightarrow> string option" where
  "result_of (ResultEntry v) = Some (rs_CallID v)"
| "result_of _ = None"

fun copied_call_of :: "entry \<Rightarrow> string option" where
  "copied_call_of (ItemEntry v) = (if it_CopiedFrom v = None then None else call_of (ItemEntry v))"
| "copied_call_of _ = None"

fun dispatch_at :: "eid \<Rightarrow> entry \<Rightarrow> dispatch_entry option" where
  "dispatch_at t (DispatchEntry v) = (if dp_Target v = t then Some v else None)"
| "dispatch_at t _ = None"

text \<open>What a loop over the entries collects, in file order.\<close>

definition collect :: "('a \<Rightarrow> 'b option) \<Rightarrow> 'a list \<Rightarrow> 'b list" where
  "collect f es = List.map_filter f es"

lemma collect_Nil [simp]: "collect f [] = []"
  by (simp add: collect_def List.map_filter_def)

lemma collect_Cons [simp]: "collect f (e # es) = (case f e of None \<Rightarrow> [] | Some x \<Rightarrow> [x]) @ collect f es"
  by (simp add: collect_def List.map_filter_def split: option.splits)

lemma collect_append [simp]: "collect f (xs @ ys) = collect f xs @ collect f ys"
  by (induction xs) auto

lemma collect_iff: "x \<in> set (collect f es) \<longleftrightarrow> (\<exists>e\<in>set es. f e = Some x)"
  by (induction es) (auto split: option.splits)

lemma collect_distinct_inj:
  assumes "distinct (collect f es)" "x \<in> set es" "y \<in> set es" "f x = Some k" "f y = Some k"
  shows "x = y"
  using assms by (induction es) (auto simp: collect_iff split: option.splits)

text \<open>Part of a list, in any order: what is collected once from the whole is collected once from it.\<close>

lemma collect_distinct_part:
  assumes d: "distinct (collect f es)" and p: "distinct p" "set p \<subseteq> set es"
  shows "distinct (collect f p)"
  using p
proof (induction p)
  case (Cons x p)
  have "x' = x" if "x' \<in> set p" "f x' = Some k" "f x = Some k" for x' k
    using collect_distinct_inj [OF d, of x' x k] that Cons.prems by auto
  with Cons show ?case by (auto simp: collect_iff split: option.splits)
qed simp

lemma call_ids_collect: "call_ids p = collect call_of p"
  by (simp add: call_ids_def collect_def)

definition indexed :: "session \<Rightarrow> bool" where
  "indexed s \<longleftrightarrow>
     se_callIDs s = set (collect call_of (se_entries s)) \<and>
     se_spawnIDs s = set (collect spawn_of (se_entries s)) \<and>
     se_copied s = set (collect copied_call_of (se_entries s)) \<and>
     se_results s = set (collect result_of (se_entries s)) \<and>
     se_dispatches s = (\<lambda>t. collect (dispatch_at t) (se_entries s))"

text \<open>No two calls of a session share an ID, none has the empty one, and no two spawns share theirs.\<close>

definition unrepeated :: "entry list \<Rightarrow> bool" where
  "unrepeated es \<longleftrightarrow>
     distinct (collect call_of es) \<and> [] \<notin> set (collect call_of es) \<and> distinct (collect spawn_of es)"

definition indexes_ok :: "session \<Rightarrow> bool" where
  "indexes_ok s \<longleftrightarrow> indexed s \<and> unrepeated (se_entries s)"

lemma unrepeated_part:
  "unrepeated es \<Longrightarrow> distinct p \<Longrightarrow> set p \<subseteq> set es \<Longrightarrow> unrepeated p"
  by (auto simp: unrepeated_def collect_iff intro: collect_distinct_part)

section \<open>Adding an entry\<close>

text \<open>The dispatches an index may take: those whose target is the call they name.\<close>

definition dispatch_placed :: "session \<Rightarrow> entry \<Rightarrow> bool" where
  "dispatch_placed s e = (case e of DispatchEntry v \<Rightarrow> names_its_call (se_byID s) v | _ \<Rightarrow> True)"

lemma add_indexed:
  assumes ix: "indexed s" and d: "dispatch_placed s e" and new: "se_byID s (e_id e) = None"
  shows "indexed (add e s)"
proof -
  have [simp]: "names_its_call ((se_byID s)(b_ID (dp_base v) \<mapsto> DispatchEntry v)) v"
    if "e = DispatchEntry v" for v
    using d that new by (auto simp: dispatch_placed_def names_its_call_def split: option.splits)
  show ?thesis
    using ix unfolding add_def Let_def
    by (cases e)
      (auto simp: indexed_def add_indexes_def fun_eq_iff split: option.splits item.splits)
qed

lemma admitted_targetCall:
  assumes "admitted k s e" "call_names e = Some (cid, tgt)"
  shows "\<exists>c. targetCall (k_canon k) (path s (e_parent e)) cid tgt = Inr c"
  using assms by (cases e) (auto simp: admitted_def checkCallRules_def bind_res_Inr)

lemma targetCall_named:
  assumes "distinct (map e_id p)" "targetCall canon p cid tgt = Inr c"
  shows "c \<in> set (Calls canon p) \<and> ca_EntryID c = tgt \<and> ca_CallID c = cid \<and>
    ItemEntry (ca_Entry c) \<in> set p \<and> call_of (ItemEntry (ca_Entry c)) = Some cid"
proof -
  from assms have "find (\<lambda>c. ca_EntryID c = tgt) (Calls canon p) = Some c" and cid: "ca_CallID c = cid"
    by (auto simp: targetCall_full split: option.splits if_splits)
  from find_Some_set [OF this(1)] have c: "c \<in> set (Calls canon p)" "ca_EntryID c = tgt" by auto
  then have "ca_Entry c \<in> set (call_entries p)" by (metis call_entries_eq image_eqI list.set_map)
  from call_entries_mem [OF this] c cid Calls_call_of [OF c(1)] show ?thesis by auto
qed

text \<open>An admitted entry that names a call names one before it on its own path.\<close>

lemma admitted_named:
  assumes wf: "session_wf s" and a: "admitted k s e"
  shows "named_before (path s (e_parent e)) e"
proof (cases "call_names e")
  case (Some x)
  obtain cid tgt where x: "x = (cid, tgt)" by fastforce
  let ?p = "path s (e_parent e)"
  from admitted_targetCall [OF a] Some x obtain c where
    c: "targetCall (k_canon k) ?p cid tgt = Inr c" by blast
  have "distinct (map e_id ?p)"
    using path_chain(3) [OF wf] admitted_addable [OF a] by (simp add: addable_def)
  from targetCall_named [OF this c] Some x show ?thesis
    by (force simp: named_before_def list_ex_iff)
qed (simp add: named_before_def)

lemma admitted_placed:
  assumes wf: "session_wf s" and a: "admitted k s e"
  shows "dispatch_placed s e"
proof (cases e)
  case (DispatchEntry v)
  have "set (path s (e_parent e)) \<subseteq> set (se_entries s)"
    using path_chain(2) [OF wf] admitted_addable [OF a] by (simp add: addable_def)
  moreover from admitted_named [OF wf a] DispatchEntry obtain x where
    x: "x \<in> set (path s (e_parent e))" "e_id x = dp_Target v" "call_of x = Some (dp_CallID v)"
    by (auto simp: named_before_def list_ex_iff)
  ultimately have "x \<in> set (se_entries s)" by auto
  then have "se_byID s (dp_Target v) = Some x"
    using wf x(2) index_of_mem [of "se_entries s" x] by (auto simp: session_wf_def tree_wf_def)
  with x(3) DispatchEntry show ?thesis by (simp add: dispatch_placed_def names_its_call_def)
qed (simp_all add: dispatch_placed_def)

lemma admitted_unrepeated:
  assumes ok: "indexes_ok s" and a: "admitted k s e"
  shows "unrepeated (se_entries s @ [e])"
proof -
  have "call_of e = Some cid \<Longrightarrow> cid \<notin> se_callIDs s \<and> cid \<noteq> []" for cid
    using a by (cases e) (auto simp: admitted_def checkCallRules_def item_rule_def then_res_Inr
        split: option.splits item.splits if_splits)
  moreover have "spawn_of e = Some i \<Longrightarrow> i \<notin> se_spawnIDs s" for i
    using a by (cases e) (auto simp: admitted_def checkCallRules_def split: if_splits)
  ultimately show ?thesis
    using ok by (auto simp: indexes_ok_def indexed_def unrepeated_def split: option.splits)
qed

lemma indexes_ok_add:
  assumes "session_wf s" "indexes_ok s" "admitted k s e"
  shows "indexes_ok (add e s)"
  using assms admitted_unrepeated [OF assms(2,3)] admitted_placed [OF assms(1,3)] add_indexed [of s e]
  by (auto simp: indexes_ok_def admitted_def)

lemma indexes_ok_moveLeafFor [simp]: "indexes_ok (moveLeafFor s e) = indexes_ok s"
  by (simp add: indexes_ok_def indexed_def)

lemma indexes_ok_upd [simp]:
  "indexes_ok (s\<lparr>se_leaf := i\<rparr>) = indexes_ok s" "indexes_ok (s\<lparr>se_read := r\<rparr>) = indexes_ok s"
  "indexes_ok (s\<lparr>se_header := h\<rparr>) = indexes_ok s" "indexes_ok (s\<lparr>se_prefix := x\<rparr>) = indexes_ok s"
  by (simp_all add: indexes_ok_def indexed_def)

lemma indexed_upd [simp]:
  "indexed (s\<lparr>se_leaf := i\<rparr>) = indexed s" "indexed (s\<lparr>se_prefix := x\<rparr>) = indexed s"
  by (simp_all add: indexed_def)

lemma New_entries [simp]: "se_entries (New payload newID now h) = []"
  by (simp add: New_def empty_session_def)

lemma indexes_ok_New [simp]: "indexes_ok (New payload newID now h)"
  by (simp add: indexes_ok_def indexed_def unrepeated_def New_def empty_session_def)

section \<open>Fork\<close>

text \<open>The prefix of a fork, replayed into a fresh session: each entry has its call before it.\<close>

lemma fold_add_prefix_indexed:
  assumes "session_wf s" "se_entries s = []" "indexed s"
    "distinct (map e_id p)" "list_all plain_id (map e_id p)" "parents_before p" "well_named p"
  shows "indexed (fold add_prefix p s)"
  using assms(4-)
proof (induction p rule: rev_induct)
  case (snoc e p)
  let ?s = "fold add_prefix p s"
  from snoc.prems fold_add_prefix [OF assms(1,2), of p] have F: "session_wf ?s" "se_entries ?s = p" by auto
  then have m: "se_byID ?s = index_of p" by (simp add: session_wf_def)
  have "dispatch_placed ?s e"
  proof (cases e)
    case (DispatchEntry v)
    with snoc.prems obtain x where "x \<in> set p" "e_id x = dp_Target v" "call_of x = Some (dp_CallID v)"
      by (auto simp: named_before_def list_ex_iff)
    with DispatchEntry m index_of_mem [of p x] snoc.prems show ?thesis
      by (simp add: dispatch_placed_def names_its_call_def)
  qed (simp_all add: dispatch_placed_def)
  with add_indexed [of ?s e] snoc m show ?case
    by (auto simp: add_prefix_def [of e ?s] Let_def index_of_None)
qed (use assms in simp)

lemma indexes_ok_Fork:
  assumes wf: "session_wf origin" and ix: "indexes_ok origin" and f: "Fork payload newID now origin at h = Inr s"
    and n: "well_named (path origin at)"
  shows "indexes_ok s"
proof -
  let ?p = "path origin at"
  let ?s0 = "New payload newID now (fork_header origin at h)"
  note F = Fork_cases [OF wf f]
  from f have s: "s = (fold add_prefix ?p ?s0)\<lparr>se_leaf := at\<rparr>"
    by (auto simp: Fork_def Let_def then_res_Inr split: if_splits)
  note pc = path_chain [OF wf disjI2, OF F(4)]
  have "list_all plain_id (map e_id ?p)" using pc(2) wf by (auto simp: session_wf_def tree_wf_def list_all_iff)
  then have "indexed (fold add_prefix ?p ?s0)"
    using pc n indexes_ok_New [of payload newID now "fork_header origin at h"]
    by (intro fold_add_prefix_indexed) (auto simp: indexes_ok_def)
  moreover have "unrepeated ?p"
    using ix pc(2,3) by (auto simp: indexes_ok_def distinct_map intro: unrepeated_part)
  ultimately show ?thesis using F(2) by (simp add: indexes_ok_def s)
qed

end
