(* ===== verification/Records.thy ===== *)
theory Records
  imports Session_Tree
begin

text \<open>
  The record entries of a path read back (\<open>run.go\<close>): its runs and their segments, the inputs still
  queued, the source and the end reason a segment shows, and \<open>VerifyRecords\<close>, which holds a path to
  the rules an append holds each entry to.
\<close>

section \<open>The calls of a session\<close>

definition mark_call :: "session \<Rightarrow> entry list \<Rightarrow> call \<Rightarrow> call" where
  "mark_call s p c =
     c\<lparr>ca_inPrefix := (ca_EntryID c \<in> se_prefix s),
       ca_dispatchedElsewhere := (ca_Dispatch c = None \<and> dispatchedOff s (ca_EntryID c) (onPath p))\<rparr>"

definition session_Calls :: "codec \<Rightarrow> session \<Rightarrow> eid \<Rightarrow> call list res" where
  "session_Calls k s leaf =
     (let p = Path s leaf
      in if p = [] then Inl ENoEntry else Inr (map (mark_call s p) (Calls (k_canon k) p)))"

definition PendingCalls :: "codec \<Rightarrow> session \<Rightarrow> eid \<Rightarrow> call list res" where
  "PendingCalls k s leaf =
     bind_res (session_Calls k s leaf) (\<lambda>calls. Inr (filter (\<lambda>c. Pending c \<and> \<not> Copied c) calls))"

section \<open>Queued inputs\<close>

fun queued_step :: "entry \<Rightarrow> queued_entry list \<times> eid set \<Rightarrow> queued_entry list \<times> eid set" where
  "queued_step (QueuedEntry v) (opn, drained) = (opn @ [v], drained)"
| "queued_step (ItemEntry v) (opn, drained) =
     (opn, if it_QueuedFrom v \<noteq> [] then insert (it_QueuedFrom v) drained else drained)"
| "queued_step (RunEntry v) (opn, drained) = (if IsEnd v then [] else opn, drained)"
| "queued_step _ st = st"

definition Queued :: "entry list \<Rightarrow> queued_entry list" where
  "Queued p =
     (case fold queued_step p ([], {}) of
        (opn, drained) \<Rightarrow> filter (\<lambda>q. b_ID (q_base q) \<notin> drained) opn)"

definition PendingQueued :: "session \<Rightarrow> eid \<Rightarrow> queued_entry list res" where
  "PendingQueued s leaf = (let p = Path s leaf in if p = [] then Inl ENoEntry else Inr (Queued p))"

section \<open>Runs\<close>

record run =
  ru_Start :: run_entry
  ru_End :: "run_entry option"
  ru_Segment :: "entry list"
  ru_Path :: "entry list option"

definition start_of :: "entry \<Rightarrow> run_entry option" where
  "start_of e = (case e of RunEntry r \<Rightarrow> if IsStart r then Some r else None | _ \<Rightarrow> None)"

definition end_of :: "string \<Rightarrow> entry \<Rightarrow> run_entry option" where
  "end_of rid e = (case e of RunEntry r \<Rightarrow> if IsEnd r \<and> rn_RunID r = rid then Some r else None | _ \<Rightarrow> None)"

text \<open>The loop of \<open>Runs\<close>: the runs so far, and whether the last of them is the current one.\<close>

definition runs_step :: "entry list \<Rightarrow> nat \<Rightarrow> run list \<times> bool \<Rightarrow> run list \<times> bool" where
  "runs_step p i st =
     (let e = p ! i;
          (rs, cur) =
            (case start_of e of
               Some r \<Rightarrow> (fst st @ [\<lparr>ru_Start = r, ru_End = None, ru_Segment = [], ru_Path = None\<rparr>], True)
             | None \<Rightarrow> st)
      in if \<not> cur then (rs, False)
         else let r = last rs
              in if ru_End r \<noteq> None then (rs, False)
                 else (butlast rs @ [r\<lparr>ru_Segment := ru_Segment r @ [e], ru_Path := Some (take (i + 1) p),
                                      ru_End := end_of (rn_RunID (ru_Start r)) e\<rparr>], True))"

definition Runs :: "entry list \<Rightarrow> run list" where
  "Runs p = fst (fold (runs_step p) [0..<length p] ([], False))"

definition session_Runs :: "session \<Rightarrow> eid \<Rightarrow> run list res" where
  "session_Runs s leaf = (let p = Path s leaf in if p = [] then Inl ENoEntry else Inr (Runs p))"

definition OpenRun :: "session \<Rightarrow> eid \<Rightarrow> (run option) res" where
  "OpenRun s leaf =
     bind_res (session_Runs s leaf) (\<lambda>rs.
       if rs \<noteq> [] \<and> ru_End (last rs) = None then Inr (Some (last rs)) else Inr None)"

definition takenUpIn :: "eid set \<Rightarrow> call \<Rightarrow> bool" where
  "takenUpIn ids c \<longleftrightarrow>
     ca_EntryID c \<in> ids \<or>
     (case ca_Output c of None \<Rightarrow> False | Some v \<Rightarrow> b_ID (it_base v) \<in> ids) \<or>
     list_ex (\<lambda>d. b_ID (dc_base d) \<in> ids) (ca_Decisions c) \<or>
     list_ex (\<lambda>d. b_ID (dp_base d) \<in> ids) (ca_Dispatches c) \<or>
     list_ex (\<lambda>(d, r). b_ID (dp_base d) \<in> ids \<or> b_ID (dc_base r) \<in> ids) (ca_Withdrawn c) \<or>
     (case ca_Result c of None \<Rightarrow> False | Some v \<Rightarrow> b_ID (rs_base v) \<in> ids)"

definition path_or :: "entry list option \<Rightarrow> entry list \<Rightarrow> entry list" where
  "path_or po segment = (case po of None \<Rightarrow> segment | Some p \<Rightarrow> p)"

definition runCalls :: "canon \<Rightarrow> entry list option \<Rightarrow> entry list \<Rightarrow> call list" where
  "runCalls canon po segment =
     filter (\<lambda>c. \<not> Copied c \<and> takenUpIn (set (map e_id segment) - {[]}) c) (Calls canon (path_or po segment))"

definition run_Calls :: "canon \<Rightarrow> run \<Rightarrow> call list" where
  "run_Calls canon r = runCalls canon (ru_Path r) (ru_Segment r)"

definition run_Pending :: "canon \<Rightarrow> run \<Rightarrow> string list" where
  "run_Pending canon r = map ca_CallID (filter Pending (run_Calls canon r))"

definition EndRun :: "codec \<Rightarrow> session \<Rightarrow> string \<Rightarrow> string \<Rightarrow> run_entry res" where
  "EndRun k s reason ref =
     bind_res (OpenRun s (se_leaf s)) (\<lambda>ro.
       case ro of
         None \<Rightarrow> Inl (EInvalid ''no open run at the leaf'')
       | Some r \<Rightarrow>
           if reason = [] then Inl (EInvalid ''a run end needs a reason'')
           else Inr (NewRunEnd (rn_RunID (ru_Start r)) reason ref (run_Pending (k_canon k) r)))"

section \<open>What a segment shows\<close>

text \<open>The entries of a call and the call they are for, in the order the code fills its map.\<close>

definition call_parts :: "call \<Rightarrow> (eid \<times> call) list" where
  "call_parts c =
     (if Copied c then []
      else map (\<lambda>i. (i, c))
             ((case ca_Output c of None \<Rightarrow> [] | Some v \<Rightarrow> [b_ID (it_base v)]) @
              map (\<lambda>d. b_ID (dc_base d)) (ca_Decisions c) @
              map (\<lambda>d. b_ID (dp_base d)) (ca_Dispatches c) @
              concat (map (\<lambda>(d, r). [b_ID (dp_base d), b_ID (dc_base r)]) (ca_Withdrawn c)) @
              (case ca_Result c of None \<Rightarrow> [] | Some v \<Rightarrow> [b_ID (rs_base v)])))"

fun source_loop :: "eid set \<Rightarrow> (eid \<rightharpoonup> call) \<Rightarrow> entry list \<Rightarrow> string" where
  "source_loop before part [] = SourceInput"
| "source_loop before part (e # es) =
     (case part (e_id e) of
        None \<Rightarrow> if output_of e \<noteq> None then SourceInput else source_loop before part es
      | Some c \<Rightarrow>
          if ca_EntryID c \<in> before \<and>
             (case ca_Output c of None \<Rightarrow> True | Some v \<Rightarrow> b_ID (it_base v) \<notin> before)
          then SourceResume else SourceInput)"

definition ComputeSource :: "canon \<Rightarrow> run \<Rightarrow> string" where
  "ComputeSource canon r =
     (let p = path_or (ru_Path r) (ru_Segment r);
          before = set (map e_id (take (length p - length (ru_Segment r)) p));
          part = map_of (rev (concat (map call_parts (Calls canon p))))
      in source_loop before part (ru_Segment r))"

fun takes_up :: "entry \<Rightarrow> bool" where
  "takes_up (ItemEntry _) = True"
| "takes_up (ConfigEntry _) = True"
| "takes_up (CompactionEntry _) = True"
| "takes_up (BranchSummaryEntry _) = True"
| "takes_up (ResponseEntry _) = True"
| "takes_up (DispatchEntry _) = True"
| "takes_up (DecisionEntry _) = True"
| "takes_up (ResultEntry _) = True"
| "takes_up _ = False"

definition run_Empty :: "run \<Rightarrow> bool" where
  "run_Empty r \<longleftrightarrow> \<not> list_ex takes_up (ru_Segment r)"

definition lastResponse :: "entry list \<Rightarrow> response_entry option" where
  "lastResponse es =
     (case find_last (\<lambda>e. case e of ResponseEntry _ \<Rightarrow> True | _ \<Rightarrow> False) es of
        Some (ResponseEntry r) \<Rightarrow> Some r
      | _ \<Rightarrow> None)"

definition madeCalls :: "call list \<Rightarrow> response_entry \<Rightarrow> bool" where
  "madeCalls calls resp = list_ex (\<lambda>c. \<not> Copied c \<and> it_ResponseID (ca_Entry c) = rp_ResponseID resp) calls"

definition answersACall :: "entry list \<Rightarrow> bool" where
  "answersACall segment =
     list_ex (\<lambda>e. case e of DecisionEntry _ \<Rightarrow> True | _ \<Rightarrow> output_of e \<noteq> None) segment"

definition stoppedOnPath :: "call list \<Rightarrow> entry list \<Rightarrow> entry list \<Rightarrow> bool" where
  "stoppedOnPath calls p segment =
     (case lastResponse p of
        None \<Rightarrow> False
      | Some l \<Rightarrow>
          madeCalls calls l \<and> \<not> list_ex (\<lambda>c. Pending c \<and> \<not> Copied c) calls \<and> answersACall segment)"

definition ComputeReason :: "canon \<Rightarrow> entry list option \<Rightarrow> entry list \<Rightarrow> string" where
  "ComputeReason canon po segment =
     (let p = path_or po segment;
          lst = lastResponse segment;
          calls = filter Pending (runCalls canon (Some p) segment);
          onp = Calls canon p
      in if (case lst of None \<Rightarrow> False | Some r \<Rightarrow> rp_Error r \<noteq> None) then ReasonError
         else if list_ex call_Held calls \<and> \<not> list_ex InFlight calls then ReasonInputRequired
         else if calls \<noteq> [] \<or> (case lst of None \<Rightarrow> False | Some r \<Rightarrow> rp_Incomplete r \<noteq> None)
         then ReasonAborted
         else if (case lst of None \<Rightarrow> False | Some r \<Rightarrow> \<not> madeCalls onp r) then ReasonDone
         else if stoppedOnPath onp p segment then ReasonStopped
         else ReasonAborted)"

definition run_Verify :: "canon \<Rightarrow> run \<Rightarrow> unit res" where
  "run_Verify canon r =
     (case ru_End r of
        None \<Rightarrow> Inr ()
      | Some en \<Rightarrow>
          then_res (refuse (rn_Reason en \<noteq> ReasonError \<and> rn_Reason en \<noteq> ReasonInterrupted \<and>
                            ComputeReason canon (ru_Path r) (ru_Segment r) \<noteq> rn_Reason en) EReasonMismatch)
            (refuse (sort (run_Pending canon r) \<noteq> sort (rn_Pending en)) EReasonMismatch))"

section \<open>VerifyRecords\<close>

fun callids_loop :: "entry list \<Rightarrow> string set \<Rightarrow> unit res" where
  "callids_loop [] seen = Inr ()"
| "callids_loop (e # es) seen =
     (case call_of e of
        None \<Rightarrow> callids_loop es seen
      | Some cid \<Rightarrow>
          if cid = [] then Inl ECallIDEmpty
          else if cid \<in> seen then Inl ECallIDRepeated
          else callids_loop es (insert cid seen))"

definition verifyCallIDs :: "session \<Rightarrow> unit res" where
  "verifyCallIDs s = callids_loop (se_entries s) {}"

fun spawnids_loop :: "entry list \<Rightarrow> string set \<Rightarrow> unit res" where
  "spawnids_loop [] seen = Inr ()"
| "spawnids_loop (e # es) seen =
     (case e of
        LinkEntry l \<Rightarrow>
          if ln_Rel l \<noteq> RelSubsession \<or> ln_SpawnID l = [] then spawnids_loop es seen
          else if ln_CallID l \<noteq> [] then Inl ESpawnLink
          else if ln_Cancel l \<noteq> [] then spawnids_loop es seen
          else if ln_SpawnID l \<in> seen then Inl ESpawnIDRepeated
          else spawnids_loop es (insert (ln_SpawnID l) seen)
      | _ \<Rightarrow> spawnids_loop es seen)"

definition verifySpawnIDs :: "session \<Rightarrow> unit res" where
  "verifySpawnIDs s = spawnids_loop (se_entries s) {}"

definition check_target :: "(eid \<rightharpoonup> string) \<Rightarrow> string \<Rightarrow> eid \<Rightarrow> unit res" where
  "check_target calls callID target =
     (case calls target of
        None \<Rightarrow> Inl EBadTarget
      | Some got \<Rightarrow> refuse (got \<noteq> callID) EBadTarget)"

fun targets_loop :: "entry list \<Rightarrow> (eid \<rightharpoonup> string) \<Rightarrow> unit res" where
  "targets_loop [] calls = Inr ()"
| "targets_loop (e # es) calls =
     (case e of
        ItemEntry v \<Rightarrow>
          targets_loop es (case call_of e of Some cid \<Rightarrow> calls(b_ID (it_base v) \<mapsto> cid) | None \<Rightarrow> calls)
      | DecisionEntry v \<Rightarrow> then_res (check_target calls (dc_CallID v) (dc_Target v)) (targets_loop es calls)
      | DispatchEntry v \<Rightarrow> then_res (check_target calls (dp_CallID v) (dp_Target v)) (targets_loop es calls)
      | _ \<Rightarrow> targets_loop es calls)"

definition verifyTargets :: "entry list \<Rightarrow> unit res" where
  "verifyTargets p = targets_loop p Map.empty"

fun callees_loop :: "entry list \<Rightarrow> (eid \<rightharpoonup> link_entry) \<Rightarrow> unit res" where
  "callees_loop [] seen = Inr ()"
| "callees_loop (e # es) seen =
     (case e of
        LinkEntry l \<Rightarrow>
          if \<not> callee l then callees_loop es seen
          else then_res (checkCallee l seen)
                 (callees_loop es (if ln_Cancel l = [] then seen(b_ID (ln_base l) \<mapsto> l) else seen))
      | _ \<Rightarrow> callees_loop es seen)"

definition verifyCallees :: "entry list \<Rightarrow> unit res" where
  "verifyCallees p = callees_loop p Map.empty"

fun fromlinks_loop :: "entry list \<Rightarrow> eid set \<Rightarrow> unit res" where
  "fromlinks_loop [] peers = Inr ()"
| "fromlinks_loop (e # es) peers =
     (case e of
        LinkEntry v \<Rightarrow>
          fromlinks_loop es (if ln_Rel v = RelPeer \<and> ln_Cancel v = [] then insert (b_ID (ln_base v)) peers else peers)
      | ItemEntry v \<Rightarrow>
          if it_FromLink v \<noteq> [] \<and> it_FromLink v \<notin> peers then Inl EBadFromLink else fromlinks_loop es peers
      | _ \<Rightarrow> fromlinks_loop es peers)"

definition verifyFromLinks :: "entry list \<Rightarrow> unit res" where
  "verifyFromLinks p = fromlinks_loop p {}"

text \<open>The state of \<open>verifyCopied\<close>: the copied calls by entry, and by call ID, the last one winning.\<close>

fun copied_loop :: "string \<Rightarrow> entry list \<Rightarrow> (eid \<Rightarrow> bool) \<Rightarrow> (string \<Rightarrow> bool) \<Rightarrow> unit res" where
  "copied_loop self [] copied byCallID = Inr ()"
| "copied_loop self (e # es) copied byCallID =
     (case e of
        ItemEntry v \<Rightarrow>
          if (case it_CopiedFrom v of None \<Rightarrow> False | Some cf \<Rightarrow> cf_Session cf = self) then Inl EBadCopiedFrom
          else if it_CopiedFrom v \<noteq> None \<and> it_ResponseID v \<noteq> [] then Inl EBadCopiedFrom
          else (case it_Item v of
                  Some (FunctionCall cid args r) \<Rightarrow>
                    copied_loop self es (copied(b_ID (it_base v) := (it_CopiedFrom v \<noteq> None)))
                      (byCallID(cid := (it_CopiedFrom v \<noteq> None)))
                | Some (FunctionCallOutput cid out r) \<Rightarrow>
                    if byCallID cid \<and> it_CopiedFrom v = None then Inl EBadCopiedFrom
                    else copied_loop self es copied byCallID
                | _ \<Rightarrow> copied_loop self es copied byCallID)
      | DecisionEntry v \<Rightarrow> if copied (dc_Target v) then Inl ECopiedCall else copied_loop self es copied byCallID
      | DispatchEntry v \<Rightarrow> if copied (dp_Target v) then Inl ECopiedCall else copied_loop self es copied byCallID
      | ResultEntry v \<Rightarrow> if copied (rs_Target v) then Inl ECopiedCall else copied_loop self es copied byCallID
      | _ \<Rightarrow> copied_loop self es copied byCallID)"

definition verifyCopied :: "string \<Rightarrow> entry list \<Rightarrow> unit res" where
  "verifyCopied self p = copied_loop self p (\<lambda>_. False) (\<lambda>_. False)"

definition trigger_Equal :: "codec \<Rightarrow> trigger \<Rightarrow> trigger \<Rightarrow> bool" where
  "trigger_Equal k t u =
     (case (k_triggerCanon k t, k_triggerCanon k u) of (Some a, Some b) \<Rightarrow> a = b | _ \<Rightarrow> False)"

definition layers_list :: "layer_ref list option \<Rightarrow> layer_ref list" where
  "layers_list o1 = (case o1 of None \<Rightarrow> [] | Some l \<Rightarrow> l)"

definition drain_ok :: "codec \<Rightarrow> queued_entry \<Rightarrow> item_entry \<Rightarrow> unit res" where
  "drain_ok k q v =
     refuse ((q_Visible q \<noteq> None \<and> it_Visible v \<noteq> q_Visible q) \<or>
             (q_Trust q \<noteq> None \<and> \<not> sameTrust (q_Trust q) (it_Trust v)) \<or>
             (queued_Layers q \<noteq> None \<and> layers_list (queued_Layers q) \<noteq> layers_list (item_Layers v)) \<or>
             (case (q_Trigger q, it_Source v) of
                (Some t, Some u) \<Rightarrow> \<not> trigger_Equal k t u
              | (Some t, None) \<Rightarrow> q_Visible q \<noteq> None \<or> q_Trust q \<noteq> None \<or> queued_Layers q \<noteq> None
              | _ \<Rightarrow> False)) EDrainMismatch"

fun drains_loop :: "codec \<Rightarrow> entry list \<Rightarrow> (eid \<rightharpoonup> queued_entry) \<Rightarrow> unit res" where
  "drains_loop k [] queued = Inr ()"
| "drains_loop k (e # es) queued =
     (case e of
        QueuedEntry v \<Rightarrow> drains_loop k es (queued(b_ID (q_base v) \<mapsto> v))
      | ItemEntry v \<Rightarrow>
          (case queued (it_QueuedFrom v) of
             None \<Rightarrow> drains_loop k es queued
           | Some q \<Rightarrow> then_res (drain_ok k q v) (drains_loop k es queued))
      | _ \<Rightarrow> drains_loop k es queued)"

definition verifyDrains :: "codec \<Rightarrow> entry list \<Rightarrow> unit res" where
  "verifyDrains k p = drains_loop k p Map.empty"

definition verify_run :: "canon \<Rightarrow> run \<Rightarrow> unit res" where
  "verify_run canon r =
     then_res (run_Verify canon r)
       (let src = rn_Source (ru_Start r)
        in refuse ((src = SourceInput \<or> src = SourceResume) \<and> src \<noteq> ComputeSource canon r \<and>
                   \<not> (src = SourceResume \<and> run_Empty r)) ESourceMismatch)"

definition promised :: "session \<Rightarrow> eid \<Rightarrow> bool" where
  "promised s i \<longleftrightarrow> HasRecord (se_header s) TypeDispatch \<and> i \<notin> se_prefix s"

definition verify_call :: "session \<Rightarrow> entry list \<Rightarrow> call \<Rightarrow> unit res" where
  "verify_call s p c =
     (if Copied c then Inr ()
      else if (case ca_ended c of None \<Rightarrow> False | Some d \<Rightarrow> dc_Verdict d = VerdictAnswer) then Inl ECallAnswered
      else if ca_ended c \<noteq> None then Inl ECallRejected
      else if ca_afterAnswer c \<noteq> None then Inl ECallAnswered
      else if ca_afterReject c \<noteq> None then Inl ECallRejected
      else if ca_badResult c \<noteq> None then Inl EBadResult
      else if ca_afterResult c \<noteq> None then Inl ECallReturned
      else if ca_outputMismatch c \<noteq> None then Inl EResultMismatch
      else if ca_rejectAfterDispatch c \<noteq> None then Inl ERejectDispatched
      else if ca_dispatchAfterOutput c \<noteq> None then Inl ECallCompleted
      else if ca_endAfterOutput c \<noteq> None then Inl ECallCompleted
      else if Answered c \<and> ca_Dispatch c = None \<and> promised s (ca_EntryID c) \<and>
              \<not> dispatchedOff s (ca_EntryID c) (onPath p) then Inl EAnswerNotDispatched
      else if (case ca_Output c of
                 None \<Rightarrow> False
               | Some v \<Rightarrow> ca_Dispatch c = None \<and> \<not> Rejected c \<and> \<not> Answered c \<and> promised s (b_ID (it_base v)))
      then Inl ERecordMissing
      else Inr ())"

definition VerifyRecords :: "codec \<Rightarrow> session \<Rightarrow> eid \<Rightarrow> unit res" where
  "VerifyRecords k s leaf =
     (let p = Path s leaf
      in if p = [] then Inl ENoEntry
         else then_res (verifyCallIDs s)
             (then_res (verifySpawnIDs s)
             (then_res (verifyTargets p)
             (then_res (verifyCallees p)
             (then_res (verifyFromLinks p)
             (then_res (verifyCopied (h_ID (se_header s)) p)
             (then_res (verifyDrains k p)
             (then_res (each_res (verify_run (k_canon k)) (Runs p))
               (each_res (verify_call s p) (Calls (k_canon k) p))))))))))"

section \<open>VerifyLinks and VerifyCopies\<close>

definition verify_link :: "session \<Rightarrow> (string \<Rightarrow> (session option) res) \<Rightarrow> entry \<Rightarrow> unit res" where
  "verify_link s resolve e =
     (case e of
        LinkEntry l \<Rightarrow>
          if ln_Rel l \<noteq> RelSubsession \<or> b_ID (ln_base l) \<in> se_prefix s then Inr ()
          else if ln_Cancel l \<noteq> [] \<or> ln_URL l \<noteq> [] then Inr ()
          else bind_res (resolve (ln_Session l)) (\<lambda>target.
            case target of
              None \<Rightarrow> Inr ()
            | Some t \<Rightarrow>
                refuse (h_ParentSession (se_header t) \<noteq> h_ID (se_header s) \<or>
                        h_SpawnedBy (se_header t) \<noteq>
                          (if ln_SpawnID l \<noteq> [] then ln_SpawnID l else ln_CallID l)) ELinkMismatch)
      | _ \<Rightarrow> Inr ())"

definition VerifyLinks :: "session \<Rightarrow> (string \<Rightarrow> (session option) res) option \<Rightarrow> unit res" where
  "VerifyLinks s ro =
     (case ro of None \<Rightarrow> Inr () | Some resolve \<Rightarrow> each_res (verify_link s resolve) (se_entries s))"

definition verify_copy :: "codec \<Rightarrow> (string \<Rightarrow> (session option) res) \<Rightarrow> entry \<Rightarrow> unit res" where
  "verify_copy k resolve e =
     (case e of
        ItemEntry it \<Rightarrow>
          (case it_CopiedFrom it of
             None \<Rightarrow> Inr ()
           | Some cf \<Rightarrow>
               if cf_Entry cf = [] then Inr ()
               else bind_res (resolve (cf_Session cf)) (\<lambda>src.
                 case src of
                   None \<Rightarrow> Inr ()
                 | Some t \<Rightarrow>
                     (case Entry t (cf_Entry cf) of
                        Some (ItemEntry held) \<Rightarrow>
                          refuse (\<not> sameItem (k_canon k) (it_Item held) (it_Item it) \<or>
                                  \<not> holdsTrust (it_Trust it) (it_Trust held)) ECopyMismatch
                      | _ \<Rightarrow> Inl ECopyMismatch)))
      | _ \<Rightarrow> Inr ())"

definition VerifyCopies :: "codec \<Rightarrow> session \<Rightarrow> (string \<Rightarrow> (session option) res) option \<Rightarrow> unit res" where
  "VerifyCopies k s ro =
     (case ro of None \<Rightarrow> Inr () | Some resolve \<Rightarrow> each_res (verify_copy k resolve) (se_entries s))"

end
