(* ===== verification/Call_Rules.thy ===== *)
theory Call_Rules
  imports Indexes Records
begin

text \<open>
  The rules an append holds a call's entries to (\<open>checkCallRules\<close> of \<open>session.go\<close>) against the rules
  \<open>VerifyRecords\<close> reads back off a path (\<open>run.go\<close>): an entry the append admits raises none of the
  flags of the pass over the path it joins, so a path built by appends verifies.
\<close>

section \<open>One admitted entry and the call it is for\<close>

lemmas clean_defs = call_clean_def endingDecision_None

lemma clean_new [simp]: "call_clean (new_call v cid args)"
  by (simp add: call_clean_def new_call_def)

lemma clean_output:
  "call_clean c \<Longrightarrow>
   \<not> (Returned c \<and> \<not> ca_answeredSinceResult c \<and>
      \<not> sameItem canon (Option.bind (ca_Result c) rs_Item) (it_Item v)) \<Longrightarrow>
   call_clean (take_output canon v c)"
  by (auto simp: clean_defs take_output_def first_of_def)

lemma clean_result: "call_clean c \<Longrightarrow> result_rule c = Inr () \<Longrightarrow> call_clean (take_result v c)"
  by (simp add: clean_defs take_result_def first_of_def result_rule_def split: if_splits)

lemma clean_dispatch: "call_clean c \<Longrightarrow> dispatch_rule c = Inr () \<Longrightarrow> call_clean (take_dispatch v c)"
  by (simp add: clean_defs take_dispatch_def first_of_def dispatch_rule_def split: if_splits)

lemma clean_decision:
  assumes "call_clean c" "decision_rule s parent v c = Inr ()"
  shows "call_clean (take_decision v c)"
  using assms unfolding take_decision_def decision_rule_def
  by (auto simp: clean_defs take_withdrawal_def first_of_def withdraws_def Let_def split: if_splits)

section \<open>What a path of the session keeps\<close>

text \<open>An answer to a call nobody dispatched on its path stands on a dispatch elsewhere in the session.\<close>

definition answer_placed :: "session \<Rightarrow> entry list \<Rightarrow> call \<Rightarrow> bool" where
  "answer_placed s p c \<longleftrightarrow>
     (Answered c \<and> ca_Dispatch c = None \<and> promised s (ca_EntryID c) \<longrightarrow>
      dispatchedOff s (ca_EntryID c) (onPath p))"

text \<open>No decision, dispatch or result is of a call copied in from another session.\<close>

definition own_before :: "entry list \<Rightarrow> entry \<Rightarrow> bool" where
  "own_before p e =
     (case call_names e of
        None \<Rightarrow> True
      | Some (cid, tgt) \<Rightarrow> list_all (\<lambda>x. e_id x = tgt \<longrightarrow> copied_call_of x = None) p)"

definition own_calls :: "entry list \<Rightarrow> bool" where
  "own_calls p = list_all (\<lambda>i. own_before (take i p) (p ! i)) [0..<length p]"

lemma own_calls_Nil [simp]: "own_calls []"
  by (simp add: own_calls_def)

lemma own_calls_snoc [simp]: "own_calls (p @ [e]) \<longleftrightarrow> own_calls p \<and> own_before p e"
  by (auto simp: own_calls_def list_all_iff nth_append)

definition path_ok :: "canon \<Rightarrow> session \<Rightarrow> entry list \<Rightarrow> bool" where
  "path_ok canon s p \<longleftrightarrow>
     well_named p \<and> own_calls p \<and> (\<forall>c\<in>set (Calls canon p). call_clean c \<and> answer_placed s p c)"

definition paths_ok :: "canon \<Rightarrow> session \<Rightarrow> bool" where
  "paths_ok canon s \<longleftrightarrow> (\<forall>i. path_ok canon s (path s i))"

lemma path_ok_Nil [simp]: "path_ok canon s []"
  by (simp add: path_ok_def Calls_def calls_init_def)

lemma answer_placed_new [simp]: "answer_placed s p (new_call v cid args)"
  by (simp add: answer_placed_def new_call_def verdict_defs)

text \<open>The result a call holds is on the path, under the call's own ID.\<close>

lemma Calls_Result:
  "well_named p \<Longrightarrow> distinct (call_ids p) \<Longrightarrow> distinct (map e_id p) \<Longrightarrow>
   c \<in> set (Calls canon p) \<Longrightarrow> ca_Result c \<noteq> None \<Longrightarrow> \<exists>e\<in>set p. result_of e = Some (ca_CallID c)"
proof (induction p arbitrary: c rule: rev_induct)
  case Nil
  then show ?case by (simp add: Calls_def calls_init_def)
next
  case (snoc e p)
  let ?st = "calls_run canon p"
  have d: "distinct (call_ids p)" "distinct (map e_id p)" "well_named p" "named_before p e"
    using snoc.prems by auto
  show ?case
  proof (cases "call_of e")
    case (Some cid)
    with calls_step_call [OF Some, of canon ?st] snoc.prems(4,5) snoc.IH [OF d(3,1,2), of c] show ?thesis
      by (auto simp: Calls_def add_call_def new_call_def)
  next
    case None
    show ?thesis
    proof (cases "entry_call ?st e")
      case None
      with \<open>call_of e = None\<close> snoc.prems(4,5) snoc.IH [OF d(3,1,2), of c] show ?thesis
        by (auto simp: Calls_def calls_step_bound bound_step_def)
    next
      case (Some i)
      from entry_call_bound [OF calls_wf_run this] have i: "i < length (Calls canon p)"
        by (simp add: Calls_def)
      let ?c = "Calls canon p ! i"
      have "c \<in> set ((Calls canon p)[i := take_entry canon e ?c])"
        using snoc.prems(4) Some \<open>call_of e = None\<close>
        by (simp add: Calls_def calls_step_bound bound_step_def upd_call_def)
      with set_update_subset_insert [of "Calls canon p" i] consider "c \<in> set (Calls canon p)" | "c = take_entry canon e ?c" 
        by auto
      then show ?thesis
      proof cases
        case 1
        with snoc.prems(5) snoc.IH [OF d(3,1,2), of c] show ?thesis by auto
      next
        case 2
        show ?thesis
        proof (cases "ca_Result ?c")
          case None
          with 2 snoc.prems(5) obtain v where v: "e = ResultEntry v"
            by (cases e) (auto simp: take_defs split: if_splits)
          with entry_call_ID [OF d(1,2,4) \<open>call_of e = None\<close>, of canon] Some
          have "cs_byID ?st (rs_CallID v) = Some i" by simp
          then have "ca_CallID ?c = rs_CallID v"
            using calls_wf_run [of canon p] by (auto simp: calls_wf_def Calls_def)
          with 2 v show ?thesis by (simp add: take_result_def)
        next
          case Some
          with snoc.IH [OF d(3,1,2) nth_mem [OF i]] 2 show ?thesis by auto
        qed
      qed
    qed
  qed
qed

section \<open>The step of an append\<close>

lemma dispatchedOff_add:
  assumes ix: "indexed s" and new: "se_byID s (e_id e) = None" and wf: "session_wf s"
    and placed: "dispatch_placed s e" and off: "dispatchedOff s t (onPath p)"
  shows "dispatchedOff (add e s) t (onPath p)" "dispatchedOff (add e s) t (onPath (p @ [e]))"
proof -
  from off obtain d where d: "d \<in> set (se_dispatches s t)" "\<not> onPath p (b_ID (dp_base d))"
    by (auto simp: dispatchedOff_def list_ex_iff)
  with ix have "DispatchEntry d \<in> set (se_entries s)"
    by (auto simp: indexed_def collect_iff elim!: dispatch_at.elims split: if_splits)
  then have "b_ID (dp_base d) \<noteq> e_id e" using wf new by (force simp: session_wf_def index_of_None image_iff)
  moreover have "d \<in> set (se_dispatches (add e s) t)"
    using d ix add_indexed [OF ix placed new] by (simp add: indexed_def)
  ultimately show "dispatchedOff (add e s) t (onPath p)" "dispatchedOff (add e s) t (onPath (p @ [e]))"
    using d by (auto simp: dispatchedOff_def list_ex_iff onPath_def)
qed

lemma promised_add [simp]: "promised (add e s) i = promised s i"
  by (simp add: promised_def HasRecord_def)

lemma answer_placed_add:
  assumes "indexed s" "se_byID s (e_id e) = None" "session_wf s" "dispatch_placed s e" "answer_placed s p c"
  shows "answer_placed (add e s) p c" "answer_placed (add e s) (p @ [e]) c"
  using assms dispatchedOff_add [OF assms(1-4)] by (auto simp: answer_placed_def)

text \<open>What the rules make of the answer on the call an admitted entry is for.\<close>

lemma answer_placed_take:
  assumes p: "answer_placed s p c"
    and rule: "\<And>v. e = DecisionEntry v \<Longrightarrow> decision_rule s i v c = Inr () \<and> path s i = p"
  shows "answer_placed s p (take_entry canon e c)"
proof (cases e)
  case (DecisionEntry v)
  with rule have r: "decision_rule s i v c = Inr ()" "path s i = p" by auto
  with p DecisionEntry show ?thesis
    by (auto simp: answer_placed_def take_defs decision_rule_def verdict_defs promised_def withdraws_def
        split: if_splits)
qed (use p in \<open>auto simp: answer_placed_def take_defs verdict_defs\<close>)

text \<open>The call a rule of the append looked at is the call the pass gives the entry to.\<close>

lemma entry_call_target:
  assumes d: "distinct (map e_id p)" and n: "call_names e = Some (cid, tgt)"
    and c: "targetCall canon p cid tgt = Inr c" and i: "entry_call (calls_run canon p) e = Some i"
  shows "c = Calls canon p ! i"
proof -
  from c have f: "find (\<lambda>c. ca_EntryID c = tgt) (Calls canon p) = Some c"
    by (auto simp: targetCall_full [OF d] split: option.splits if_splits)
  with find_byEntry [OF calls_full_run [OF d], where t = tgt] obtain j where
    "cs_byEntry (calls_run canon p) tgt = Some j" "c = Calls canon p ! j"
    by (auto simp: Calls_def)
  with i n show ?thesis by (auto simp: entry_call_names bind_call_def)
qed

lemma entry_call_callFor:
  assumes p: "well_named p" "distinct (call_ids p)" "distinct (map e_id p)"
    and n: "output_of e = Some cid" and i: "entry_call (calls_run canon p) e = Some i"
  shows "callFor canon p cid = Some (Calls canon p ! i)"
  using i by (simp add: callFor_full [OF p] find_CallID [OF p(2)] entry_call_output [OF n])

lemma admitted_output:
  assumes wf: "session_wf s" and ok: "indexes_ok s" and a: "admitted k s (ItemEntry v)"
    and p: "p = path s (b_Parent (it_base v))" "well_named p" "distinct (call_ids p)" "distinct (map e_id p)"
    and i: "entry_call (calls_run (k_canon k) p) (ItemEntry v) = Some i" and c: "c = Calls (k_canon k) p ! i"
  shows "\<not> (Returned c \<and> \<not> ca_answeredSinceResult c \<and>
      \<not> sameItem (k_canon k) (Option.bind (ca_Result c) rs_Item) (it_Item v))"
proof -
  from i obtain cid out r where it: "it_Item v = Some (FunctionCallOutput cid out r)"
    by (auto split: option.splits item.splits)
  then have out: "output_of (ItemEntry v) = Some cid" by simp
  from entry_call_callFor [OF p(2-4) out i] have cf: "callFor (k_canon k) p cid = Some c" by (simp add: c)
  from a it have rule: "output_rule k s (b_Parent (it_base v)) v = Inr ()"
    by (auto simp: admitted_def checkCallRules_def item_rule_def then_res_Inr split: if_splits)
  show ?thesis
  proof (cases "cid \<in> se_results s")
    case True
    with rule it cf p(1) show ?thesis by (simp add: output_rule_def split: if_splits)
  next
    case False
    from entry_call_bound [OF calls_wf_run i] have mem: "c \<in> set (Calls (k_canon k) p)"
      by (simp add: c Calls_def)
    have "ca_CallID c = cid"
      using cf by (auto simp: callFor_full [OF p(2-4)] dest: find_last_Some_set)
    moreover have "set p \<subseteq> set (se_entries s)"
      using path_chain(2) [OF wf] admitted_addable [OF a] p(1) by (simp add: addable_def)
    ultimately have "\<nexists>e. e \<in> set p \<and> result_of e = Some (ca_CallID c)"
      using False ok by (auto simp: indexes_ok_def indexed_def collect_iff)
    with Calls_Result [OF p(2-4) mem] have "ca_Result c = None" by blast
    then show ?thesis by (simp add: Returned_def)
  qed
qed

lemma admitted_clean:
  assumes wf: "session_wf s" and ok: "indexes_ok s" and a: "admitted k s e"
    and p: "p = path s (e_parent e)" "well_named p" "distinct (call_ids p)" "distinct (map e_id p)"
    and i: "entry_call (calls_run (k_canon k) p) e = Some i" and c: "c = Calls (k_canon k) p ! i"
    and cl: "call_clean c" "answer_placed s p c"
  shows "call_clean (take_entry (k_canon k) e c) \<and> answer_placed s p (take_entry (k_canon k) e c)"
proof (cases "call_names e")
  case None
  with i obtain v where v: "e = ItemEntry v" by (cases e) auto
  with admitted_output [OF wf ok a [unfolded v] _ p(2-4) i [unfolded v] c] p(1) cl show ?thesis
    using answer_placed_take [OF cl(2), of e "e_parent e"] by (auto intro: clean_output)
next
  case (Some x)
  obtain cid tgt where x: "x = (cid, tgt)" by fastforce
  from admitted_targetCall [OF a] Some x obtain c' where
    t: "targetCall (k_canon k) p cid tgt = Inr c'" by (auto simp: p(1))
  from entry_call_target [OF p(4) Some [unfolded x] t i] c have "c' = c" by simp
  with a Some x t p(1) have
    "(\<forall>v. e = DecisionEntry v \<longrightarrow> decision_rule s (e_parent e) v c = Inr ()) \<and>
     (\<forall>v. e = ResultEntry v \<longrightarrow> result_rule c = Inr ()) \<and>
     (\<forall>v. e = DispatchEntry v \<longrightarrow> dispatch_rule c = Inr ())"
    by (auto simp: admitted_def checkCallRules_def)
  with Some cl p(1) answer_placed_take [OF cl(2), of e "e_parent e"] show ?thesis
    by (cases e) (auto intro: clean_decision clean_result clean_dispatch)
qed

lemma admitted_own:
  assumes wf: "session_wf s" and a: "admitted k s e"
  shows "own_before (path s (e_parent e)) e"
proof (cases "call_names e")
  case (Some x)
  obtain cid tgt where x: "x = (cid, tgt)" by fastforce
  let ?p = "path s (e_parent e)"
  have d: "distinct (map e_id ?p)"
    using path_chain(3) [OF wf] admitted_addable [OF a] by (simp add: addable_def)
  from admitted_targetCall [OF a] Some x obtain c where
    c: "targetCall (k_canon k) ?p cid tgt = Inr c" by blast
  with a Some x have "\<not> Copied c"
    by (cases e) (auto simp: admitted_def checkCallRules_def decision_rule_def result_rule_def
        dispatch_rule_def split: if_splits)
  moreover note n = targetCall_named [OF d c]
  moreover have "y = ItemEntry (ca_Entry c)" if "y \<in> set ?p" "e_id y = tgt" for y
    using d n that by (metis base_of.simps(1) distinct_map inj_on_def)
  ultimately have "copied_call_of y = None" if "y \<in> set ?p" "e_id y = tgt" for y
    using that by (metis Copied_def copied_call_of.simps(1))
  with Some x show ?thesis by (simp add: own_before_def list_all_iff)
qed (simp add: own_before_def)

lemma path_ok_snoc:
  assumes wf: "session_wf s" and ok: "indexes_ok s" and a: "admitted k s e"
    and p: "p = path s (e_parent e)" and po: "path_ok (k_canon k) s p"
  shows "path_ok (k_canon k) (add e s) (p @ [e])"
proof -
  let ?canon = "k_canon k"
  let ?st = "calls_run ?canon p"
  have add: "addable s e" by (rule admitted_addable [OF a])
  with path_chain [OF wf, of "e_parent e"] have d: "distinct (map e_id p)" "set p \<subseteq> set (se_entries s)"
    by (auto simp: addable_def p)
  have ids: "distinct (call_ids p)"
    using ok d by (auto simp: call_ids_collect indexes_ok_def unrepeated_def distinct_map intro: collect_distinct_part)
  from po have wn: "well_named p" by (simp add: path_ok_def)
  have "call_clean c \<and> answer_placed s p c" if c: "c \<in> set (cs_out (calls_step ?canon e ?st))" for c
  proof (cases "call_of e")
    case (Some cid)
    from calls_step_call [OF Some, of ?canon ?st] c po show ?thesis
      by (auto simp: add_call_def path_ok_def Calls_def)
  next
    case None
    show ?thesis
    proof (cases "entry_call ?st e")
      case None
      with \<open>call_of e = None\<close> c po show ?thesis
        by (auto simp: calls_step_bound bound_step_def path_ok_def Calls_def)
    next
      case (Some i)
      from entry_call_bound [OF calls_wf_run Some] have i: "i < length (Calls ?canon p)" by (simp add: Calls_def)
      let ?c = "Calls ?canon p ! i"
      from po nth_mem [OF i] have "call_clean ?c" "answer_placed s p ?c" by (auto simp: path_ok_def)
      from admitted_clean [OF wf ok a p wn ids d(1) Some refl this] c Some None i
        set_update_subset_insert [of "Calls ?canon p" i] po show ?thesis
        by (auto simp: calls_step_bound bound_step_def upd_call_def path_ok_def Calls_def)
    qed
  qed
  moreover have "indexed s" "se_byID s (e_id e) = None"
    using ok add by (auto simp: indexes_ok_def addable_def)
  ultimately show ?thesis
    using answer_placed_add(2) [OF _ _ wf admitted_placed [OF wf a]] admitted_named [OF wf a] admitted_own [OF wf a] wn p po
    by (auto simp: path_ok_def Calls_def)
qed

lemma path_ok_add:
  assumes wf: "session_wf s" and ok: "indexes_ok s" and a: "admitted k s e" and po: "path_ok canon s p"
  shows "path_ok canon (add e s) p"
  using po answer_placed_add(1) [OF _ _ wf admitted_placed [OF wf a], of p] ok a
  by (auto simp: path_ok_def indexes_ok_def admitted_def)

lemma paths_ok_add:
  assumes wf: "session_wf s" and ok: "indexes_ok s" and a: "admitted k s e" and po: "paths_ok (k_canon k) s"
  shows "paths_ok (k_canon k) (add e s)"
  unfolding paths_ok_def
proof
  fix i
  have add: "addable s e" by (rule admitted_addable [OF a])
  consider "i = e_id e" | "i \<noteq> e_id e" "i = [] \<or> se_byID s i \<noteq> None" | "i \<noteq> e_id e" "i \<noteq> []" "se_byID s i = None"
    by blast
  then show "path_ok (k_canon k) (add e s) (path (add e s) i)"
  proof cases
    case 1
    with path_ok_snoc [OF wf ok a refl] po path_add_new [OF wf add] show ?thesis by (simp add: paths_ok_def)
  next
    case 2
    with path_ok_add [OF wf ok a] po path_add [OF wf add] show ?thesis by (simp add: paths_ok_def)
  next
    case 3
    then show ?thesis by (simp add: path_missing)
  qed
qed

section \<open>The verifier's loops\<close>

lemma callids_loop_ok:
  "callids_loop es seen = Inr () \<longleftrightarrow>
     distinct (collect call_of es) \<and> [] \<notin> set (collect call_of es) \<and> set (collect call_of es) \<inter> seen = {}"
  by (induction es arbitrary: seen) (auto split: option.splits)

lemma verifyCallIDs_ok: "unrepeated (se_entries s) \<Longrightarrow> verifyCallIDs s = Inr ()"
  by (simp add: verifyCallIDs_def callids_loop_ok unrepeated_def)

lemma spawnids_loop_repeated:
  "distinct (collect spawn_of es) \<Longrightarrow> set (collect spawn_of es) \<inter> seen = {} \<Longrightarrow>
   spawnids_loop es seen = Inr () \<or> spawnids_loop es seen = Inl ESpawnLink"
proof (induction es arbitrary: seen)
  case (Cons e es)
  then show ?case by (cases e) (auto simp: spawns_def split: if_splits)
qed simp

lemma targets_loop_ok:
  "well_named (q @ es) \<Longrightarrow> distinct (map e_id (q @ es)) \<Longrightarrow>
   (\<forall>x\<in>set q. \<forall>cid. call_of x = Some cid \<longrightarrow> calls (e_id x) = Some cid) \<Longrightarrow>
   targets_loop es calls = Inr ()"
proof (induction es arbitrary: q calls)
  case (Cons e es)
  have nb: "named_before q e"
    using Cons.prems(1) by (auto simp: well_named_def list_all_iff dest!: bspec [where x = "length q"])
  have step: "targets_loop es calls' = Inr ()"
    if "\<forall>x\<in>set (q @ [e]). \<forall>cid. call_of x = Some cid \<longrightarrow> calls' (e_id x) = Some cid" for calls'
    using Cons.IH [of "q @ [e]" calls'] Cons.prems that by simp
  have ok: "check_target calls cid tgt = Inr ()" if "call_names e = Some (cid, tgt)" for cid tgt
    using nb that Cons.prems(3) by (auto simp: named_before_def list_ex_iff check_target_def)
  show ?case
  proof (cases e)
    case (ItemEntry v)
    let ?calls = "case call_of e of Some cid \<Rightarrow> calls(e_id e \<mapsto> cid) | None \<Rightarrow> calls"
    have "e_id x \<noteq> e_id e" if "x \<in> set q" for x
    proof -
      have "e_id e \<notin> e_id ` set q" using Cons.prems(2) by simp
      with that show ?thesis by (metis imageI)
    qed
    with Cons.prems(3) have "targets_loop es ?calls = Inr ()"
      by (intro step) (simp split: option.split)
    then show ?thesis using ItemEntry by (cases "call_of e") (simp_all split: option.splits item.splits)
  qed (use Cons.prems(3) ok in \<open>auto intro!: step\<close>)
qed simp

lemma verifyTargets_ok: "well_named p \<Longrightarrow> distinct (map e_id p) \<Longrightarrow> verifyTargets p = Inr ()"
  unfolding verifyTargets_def by (rule targets_loop_ok [of "[]"]) simp_all

lemma copied_loop_ok:
  "own_calls (q @ es) \<Longrightarrow> (\<forall>t. copied t \<longrightarrow> (\<exists>x\<in>set q. e_id x = t \<and> copied_call_of x \<noteq> None)) \<Longrightarrow>
   copied_loop self es copied byCallID \<noteq> Inl ECopiedCall"
proof (induction es arbitrary: q copied byCallID)
  case (Cons e es)
  have nb: "own_before q e"
    using Cons.prems(1) by (auto simp: own_calls_def list_all_iff dest!: bspec [where x = "length q"])
  have step: "copied_loop self es copied' b \<noteq> Inl ECopiedCall"
    if "\<forall>t. copied' t \<longrightarrow> (\<exists>x\<in>set (q @ [e]). e_id x = t \<and> copied_call_of x \<noteq> None)" for copied' b
    using Cons.IH [of "q @ [e]" copied' b] Cons.prems(1) that by simp
  have ok: "\<not> copied tgt" if "call_names e = Some (cid, tgt)" for cid tgt
    using nb that Cons.prems(2) by (auto simp: own_before_def list_all_iff)
  show ?case
  proof (cases e)
    case (ItemEntry v)
    let ?copied = "copied(e_id e := (it_CopiedFrom v \<noteq> None))"
    have "copied_loop self es copied b \<noteq> Inl ECopiedCall" for b
      using Cons.prems(2) by (intro step) auto
    moreover have "copied_loop self es ?copied b \<noteq> Inl ECopiedCall" if "call_of e \<noteq> None" for b
      using Cons.prems(2) ItemEntry that by (intro step) (auto split: if_splits)
    ultimately show ?thesis using ItemEntry by (auto split: option.splits item.splits)
  qed (use Cons.prems(2) ok in \<open>auto intro!: step\<close>)
qed simp

lemma verifyCopied_ok: "own_calls p \<Longrightarrow> verifyCopied self p \<noteq> Inl ECopiedCall"
  unfolding verifyCopied_def by (rule copied_loop_ok [of "[]"]) simp_all

lemma verify_call_ok:
  "call_clean c \<Longrightarrow> answer_placed s p c \<Longrightarrow> verify_call s p c = Inr () \<or> verify_call s p c = Inl ERecordMissing"
  by (auto simp: verify_call_def call_clean_def answer_placed_def)

text \<open>The errors the other rules report.\<close>

lemma callees_loop_error: "callees_loop es seen = Inl x \<Longrightarrow> x = ECalleeLink"
proof (induction es arbitrary: seen)
  case (Cons e es)
  then show ?case
    by (cases e) (auto simp: then_res_Inl checkCallee_def split: if_splits option.splits)
qed simp

lemma fromlinks_loop_error: "fromlinks_loop es peers = Inl x \<Longrightarrow> x = EBadFromLink"
proof (induction es arbitrary: peers)
  case (Cons e es)
  then show ?case by (cases e) (auto split: if_splits)
qed simp

lemma copied_loop_error: "copied_loop self es copied byCallID = Inl x \<Longrightarrow> x = EBadCopiedFrom \<or> x = ECopiedCall"
proof (induction es arbitrary: copied byCallID)
  case (Cons e es)
  then show ?case by (cases e) (auto split: if_splits option.splits item.splits)
qed simp

lemma drains_loop_error: "drains_loop k es queued = Inl x \<Longrightarrow> x = EDrainMismatch"
proof (induction es arbitrary: queued)
  case (Cons e es)
  then show ?case by (cases e) (auto simp: then_res_Inl drain_ok_def split: option.splits)
qed simp

lemma verify_run_error: "verify_run canon r = Inl x \<Longrightarrow> x = EReasonMismatch \<or> x = ESourceMismatch"
  by (auto simp: verify_run_def run_Verify_def then_res_Inl Let_def split: option.splits)

lemmas verify_errors = callees_loop_error fromlinks_loop_error copied_loop_error drains_loop_error

lemma VerifyRecords_path:
  assumes "VerifyRecords k s i = Inl x" "path s i \<noteq> []"
    and "verifyCallIDs s = Inr ()" "verifyTargets (path s i) = Inr ()"
    and "verifySpawnIDs s = Inr () \<or> verifySpawnIDs s = Inl ESpawnLink"
    and "verifyCopied (h_ID (se_header s)) (path s i) \<noteq> Inl ECopiedCall"
    and "\<And>c. c \<in> set (Calls (k_canon k) (path s i)) \<Longrightarrow>
      verify_call s (path s i) c = Inr () \<or> verify_call s (path s i) c = Inl ERecordMissing"
  shows "x \<in> {ESpawnLink, ECalleeLink, EBadFromLink, EBadCopiedFrom, EDrainMismatch,
    EReasonMismatch, ESourceMismatch, ERecordMissing}"
proof -
  let ?p = "path s i"
  from assms(1-4) consider "verifySpawnIDs s = Inl x" | "verifyCallees ?p = Inl x" | "verifyFromLinks ?p = Inl x"
    | "verifyCopied (h_ID (se_header s)) ?p = Inl x" | "verifyDrains k ?p = Inl x"
    | "each_res (verify_run (k_canon k)) (Runs ?p) = Inl x"
    | "each_res (verify_call s ?p) (Calls (k_canon k) ?p) = Inl x"
    by (auto simp: VerifyRecords_def Path_def Let_def then_res_Inl)
  then show ?thesis
  proof cases
    case 6
    from each_res_Inl [OF this] show ?thesis by (auto dest: verify_run_error)
  next
    case 7
    from each_res_Inl [OF this] assms(7) show ?thesis by fastforce
  qed (use assms(5,6) in \<open>auto simp: verifyCallees_def verifyFromLinks_def verifyCopied_def verifyDrains_def
      dest: verify_errors\<close>)
qed

end
