(* ===== verification/Leaf_Rule.thy ===== *)
theory Leaf_Rule
  imports Session_Tree
begin

text \<open>
  Where the leaf is after a read (\<open>session.go\<close>, \<open>durableLeafAt\<close> to \<open>LeafMarkBefore\<close>).  A leaf
  label marks the branch that is live; a reader takes the newest entry under the mark in force, or the
  last line when no mark is.  \<open>Extend\<close> keeps that answer up to date one entry at a time, and a store
  of lines asks \<open>LeafMarkNeeded\<close> and \<open>LeafMarkBefore\<close> for the label that makes a reader agree
  with the session in memory.
\<close>

section \<open>Marks\<close>

definition rootMark :: string where
  "rootMark = CHR 0x00 # ''root''"

definition markOf :: "eid \<Rightarrow> string" where
  "markOf target = (if target = [] then rootMark else target)"

definition unmark :: "string \<Rightarrow> eid" where
  "unmark m = (if m = rootMark then [] else m)"

text \<open>The marks of a list of entries, each with its line; the leaf may rest where \<open>may\<close> says.\<close>

definition durable_step ::
    "(eid \<Rightarrow> bool) \<Rightarrow> nat \<times> entry \<Rightarrow> string \<times> int \<Rightarrow> string \<times> int" where
  "durable_step may ie st =
     (case snd ie of
        LabelEntry l \<Rightarrow>
          if lb_Label l = Some LeafLabel
          then (if may (lb_Target l) then (markOf (lb_Target l), int (fst ie)) else st)
          else if lb_Label l = None \<and> fst st \<noteq> [] \<and> lb_Target l = unmark (fst st) then ([], -1)
          else st
      | _ \<Rightarrow> st)"

definition durable :: "(eid \<Rightarrow> bool) \<Rightarrow> entry list \<Rightarrow> string \<times> int" where
  "durable may es = fold (durable_step may) (zip [0..<length es] es) ([], -1)"

definition durableLeafAt :: "session \<Rightarrow> string \<times> int" where
  "durableLeafAt s = durable (mayRestOn s) (se_entries s)"

text \<open>The pass that finds the entries under a mark and the newest of them after its line.\<close>

definition under_step :: "int \<Rightarrow> nat \<times> entry \<Rightarrow> eid set \<times> string \<Rightarrow> eid set \<times> string" where
  "under_step at ie st =
     (let e = snd ie
      in if e_parent e \<in> fst st
         then (insert (e_id e) (fst st), if int (fst ie) > at then e_id e else snd st)
         else st)"

definition under_start :: "string \<Rightarrow> eid set" where
  "under_start marked = (if marked = rootMark then {marked, []} else {marked})"

definition under_pass :: "string \<Rightarrow> int \<Rightarrow> entry list \<Rightarrow> eid set \<times> string" where
  "under_pass marked at es =
     fold (under_step at) (zip [0..<length es] es) (under_start marked, marked)"

text \<open>\<open>notOnLabel\<close>: each step of the walk goes to an earlier entry, as in \<open>path\<close>.\<close>

fun off_label :: "nat \<Rightarrow> (eid \<rightharpoonup> entry) \<Rightarrow> eid \<Rightarrow> eid" where
  "off_label 0 m i = i"
| "off_label (Suc n) m i =
     (if i = [] then []
      else case m i of
          None \<Rightarrow> i
        | Some e \<Rightarrow> if is_leaf_label e then off_label n m (e_parent e) else i)"

definition notOnLabel :: "session \<Rightarrow> eid \<Rightarrow> eid" where
  "notOnLabel s i =
     (let base = h_Base (se_header s);
          i = off_label (Suc (length (se_entries s))) (se_byID s) i
      in if base \<noteq> [] \<and> (i = [] \<or> i \<in> se_prefix s \<and> i \<noteq> base) then base else i)"

definition resolveLeaf :: "session \<Rightarrow> eid" where
  "resolveLeaf s =
     (if se_entries s = [] then []
      else case durableLeafAt s of (marked, at) \<Rightarrow>
        if marked = [] then notOnLabel s (e_id (last (se_entries s)))
        else notOnLabel s (unmark (snd (under_pass marked at (se_entries s)))))"

section \<open>The state Extend keeps\<close>

definition read_mark :: "entry list \<Rightarrow> string \<Rightarrow> int \<Rightarrow> read_leaf \<Rightarrow> read_leaf" where
  "read_mark es target at st =
     (if target = [] then st\<lparr>rl_marked := target, rl_at := at, rl_tip := target, rl_under := {}\<rparr>
      else case under_pass target at es of (und, tip) \<Rightarrow>
        st\<lparr>rl_marked := target, rl_at := at, rl_tip := tip, rl_under := und\<rparr>)"

definition no_read :: read_leaf where
  "no_read = \<lparr>rl_n = 0, rl_marked = [], rl_at = -1, rl_under = {}, rl_tip = []\<rparr>"

definition readLeafState :: "session \<Rightarrow> read_leaf" where
  "readLeafState s =
     (case durableLeafAt s of (marked, at) \<Rightarrow>
        (read_mark (se_entries s) marked at no_read)\<lparr>rl_n := length (se_entries s)\<rparr>)"

definition read_descend :: "entry \<Rightarrow> read_leaf \<Rightarrow> read_leaf" where
  "read_descend e st =
     (if rl_marked st \<noteq> [] \<and> e_parent e \<in> rl_under st
      then st\<lparr>rl_under := insert (e_id e) (rl_under st), rl_tip := e_id e\<rparr>
      else st)"

definition read_extend :: "session \<Rightarrow> nat \<Rightarrow> read_leaf \<Rightarrow> read_leaf" where
  "read_extend s i st =
     (let e = se_entries s ! i;
          st' = (case e of
              LabelEntry l \<Rightarrow>
                if lb_Label l = Some LeafLabel
                then (if mayRestOn s (lb_Target l)
                      then read_mark (se_entries s) (markOf (lb_Target l)) (int i) st
                      else read_descend e st)
                else if lb_Label l = None \<and> rl_marked st \<noteq> [] \<and> lb_Target l = unmark (rl_marked st)
                then read_mark (se_entries s) [] (-1) st
                else read_descend e st
            | _ \<Rightarrow> read_descend e st)
      in st'\<lparr>rl_n := i + 1\<rparr>)"

definition read_leaf_of :: "session \<Rightarrow> eid \<Rightarrow> read_leaf \<Rightarrow> eid" where
  "read_leaf_of s newest st =
     (if rl_marked st = [] then notOnLabel s newest else notOnLabel s (unmark (rl_tip st)))"

text \<open>The state for the entries held, recomputed when it is missing or out of step.\<close>

definition read_current :: "session \<Rightarrow> read_leaf" where
  "read_current s =
     (case se_read s of
        Some st \<Rightarrow> if rl_n st \<noteq> length (se_entries s) then readLeafState s else st
      | None \<Rightarrow> readLeafState s)"

definition extend_with :: "entry \<Rightarrow> read_leaf \<Rightarrow> session \<Rightarrow> session" where
  "extend_with e st s =
     (let s = add e s;
          st = read_extend s (length (se_entries s) - 1) st
      in s\<lparr>se_read := Some st, se_leaf := read_leaf_of s (e_id e) st\<rparr>)"

definition Extend :: "codec \<Rightarrow> timestamp \<Rightarrow> session \<Rightarrow> entry option \<Rightarrow> session \<times> result res" where
  "Extend k now s eo =
     (case validateEntry eo of
        Inl x \<Rightarrow> (s, Inl x)
      | Inr _ \<Rightarrow>
          (case prepare k now s (gateRedacted k (se_declared s) (the eo)) of
             (e, Inl x) \<Rightarrow> (s, Inl x)
           | (e, Inr r) \<Rightarrow>
               if r_Outcome r = Held then (s, Inr r)
               else (extend_with e (read_current s) s, Inr r)))"

section \<open>The marks a store of lines writes\<close>

definition leafMark :: "session \<Rightarrow> label_entry" where
  "leafMark s = (NewLabelEntry (se_leaf s) LeafLabel)\<lparr>lb_base := new_base\<lparr>b_Parent := se_leaf s\<rparr>\<rparr>"

definition MarkLeaf :: "session \<Rightarrow> label_entry res" where
  "MarkLeaf s =
     (if se_leaf s = [] then Inl (EInvalid ''no leaf to mark'')
      else Inr (NewLabelEntry (se_leaf s) LeafLabel))"

definition read_known :: "session \<Rightarrow> read_leaf" where
  "read_known s =
     (case se_read s of
        Some st \<Rightarrow> if rl_n st > length (se_entries s) then readLeafState s else st
      | None \<Rightarrow> readLeafState s)"

definition readCaughtUp :: "session \<Rightarrow> session" where
  "readCaughtUp s =
     (let st = read_known s
      in s\<lparr>se_read := Some (fold (read_extend s) [rl_n st..<length (se_entries s)] st)\<rparr>)"

definition LeafMarkNeeded :: "session \<Rightarrow> session \<times> label_entry option" where
  "LeafMarkNeeded s =
     (if se_entries s = [] \<or> \<not> mayRestOn s (se_leaf s) then (s, None)
      else let s = readCaughtUp s;
               st = the (se_read s);
               resolved = (if rl_marked st = [] then e_id (last (se_entries s)) else unmark (rl_tip st))
           in if notOnLabel s resolved = se_leaf s then (s, None) else (s, Some (leafMark s)))"

text \<open>Whether the walk from \<open>i\<close> to the root, or to an entry that is missing, meets the leaf.\<close>

fun meets_leaf :: "nat \<Rightarrow> (eid \<rightharpoonup> entry) \<Rightarrow> eid \<Rightarrow> eid \<Rightarrow> bool" where
  "meets_leaf 0 m leaf i = False"
| "meets_leaf (Suc n) m leaf i =
     (if i = [] then False
      else if i = leaf then True
      else case m i of None \<Rightarrow> False | Some e \<Rightarrow> meets_leaf n m leaf (e_parent e))"

definition LeafMarkBefore :: "session \<Rightarrow> entry \<Rightarrow> session \<times> label_entry option" where
  "LeafMarkBefore s e =
     (if e_parent e = se_leaf s \<or> se_leaf s = [] then (s, None)
      else if is_leaf_label e then (s, None)
      else if meets_leaf (Suc (length (se_entries s))) (se_byID s) (se_leaf s) (e_parent e) then (s, None)
      else if se_entries s \<noteq> []
      then (let s = readCaughtUp s;
                st = the (se_read s)
            in if rl_marked st \<noteq> [] \<and> e_parent e \<notin> rl_under st \<and>
                  notOnLabel s (unmark (rl_tip st)) = se_leaf s
               then (s, None) else (s, Some (leafMark s)))
      else (s, Some (leafMark s)))"

section \<open>The passes, one entry at a time\<close>

lemma zip_upt_snoc: "zip [0..<length (es @ [e])] (es @ [e]) = zip [0..<length es] es @ [(length es, e)]"
  by simp

lemma durable_Nil [simp]: "durable may [] = ([], -1)"
  by (simp add: durable_def)

lemma durable_snoc: "durable may (es @ [e]) = durable_step may (length es, e) (durable may es)"
  by (simp add: durable_def)

lemma under_pass_snoc: "under_pass m at (es @ [e]) = under_step at (length es, e) (under_pass m at es)"
  by (simp add: under_pass_def)

lemma markOf_neq [simp]: "markOf t \<noteq> []"
  by (simp add: markOf_def rootMark_def)

lemma unmark_markOf [simp]: "t \<noteq> rootMark \<Longrightarrow> unmark (markOf t) = t"
  by (simp add: unmark_def markOf_def)

text \<open>The line of the mark in force is a line already read.\<close>

lemma durable_at: "snd (durable may es) < int (length es)"
  by (induction es rule: rev_induct) (auto simp: durable_snoc durable_step_def split: entry.split)

lemma durable_step_other: "\<not> is_leaf_label e \<Longrightarrow> durable_step may (n, e) st = durable_step may' (n, e) st"
  by (cases e) (simp_all add: durable_step_def is_leaf_label_def)

lemma durable_step_leaf:
  "is_leaf_label e \<Longrightarrow> durable_step may (n, e) st =
     (if may (leaf_target e) then (markOf (leaf_target e), int n) else st)"
  by (cases e) (simp_all add: durable_step_def is_leaf_label_def leaf_target_def)

lemma durable_cong:
  "(\<And>e. e \<in> set es \<Longrightarrow> is_leaf_label e \<Longrightarrow> may (leaf_target e) = may' (leaf_target e)) \<Longrightarrow>
   durable may es = durable may' es"
proof (induction es rule: rev_induct)
  case (snoc e es)
  then show ?case
    using durable_step_other [of e may] by (cases "is_leaf_label e") (auto simp: durable_snoc durable_step_leaf)
qed simp

lemma under_step_fst:
  "fst st \<subseteq> fst (under_step at x st)" "fst (under_step at x st) \<subseteq> insert (e_id (snd x)) (fst st)"
  by (auto simp: under_step_def Let_def)

lemma under_fold_mono: "fst st \<subseteq> fst (fold (under_step at) xs st)"
  by (induction xs arbitrary: st) (simp, metis fold_simps(2) subset_trans under_step_fst(1))

lemma under_fold_ids: "fst (fold (under_step at) xs st) \<subseteq> fst st \<union> (e_id \<circ> snd) ` set xs"
proof (induction xs arbitrary: st)
  case (Cons x xs)
  from Cons [of "under_step at x st"] under_step_fst(2) [of at x st] show ?case by auto
qed simp

lemma under_pass_take:
  assumes "i \<le> length es"
  shows "fst (under_pass m at (take i es)) \<subseteq> fst (under_pass m at es)"
    "fst (under_pass m at es) \<subseteq> fst (under_pass m at (take i es)) \<union> set (map e_id (drop i es))"
proof -
  have z: "zip [0..<length es] es = zip [0..<i] (take i es) @ zip [i..<length es] (drop i es)"
  proof -
    have "[0..<length es] = [0..<i] @ [i..<length es]" using assms upt_add_eq_append [of 0 i "length es - i"] by simp
    then show ?thesis using zip_append [of "[0..<i]" "take i es" "[i..<length es]" "drop i es"] assms
      by simp
  qed
  let ?st = "under_pass m at (take i es)"
  have st: "?st = fold (under_step at) (zip [0..<i] (take i es)) (under_start m, m)"
    using assms by (simp add: under_pass_def min_def)
  have full: "under_pass m at es = fold (under_step at) (zip [i..<length es] (drop i es)) ?st"
    unfolding st by (simp add: under_pass_def z)
  have ids: "(e_id \<circ> snd) ` set (zip [i..<length es] (drop i es)) \<subseteq> set (map e_id (drop i es))"
    by (auto dest: set_zip_rightD)
  show "fst (under_pass m at (take i es)) \<subseteq> fst (under_pass m at es)"
    unfolding full by (rule under_fold_mono)
  show "fst (under_pass m at es) \<subseteq> fst (under_pass m at (take i es)) \<union> set (map e_id (drop i es))"
    unfolding full using under_fold_ids [of at "zip [i..<length es] (drop i es)" ?st] ids by blast
qed

section \<open>The incremental state is the state of the whole pass\<close>

text \<open>
  What the state says after \<open>i\<close> of the entries.  A mark met on the way is computed over the whole
  session, so until the last entry is taken in the set under the mark and the tip may run ahead.
\<close>

definition read_upto :: "session \<Rightarrow> nat \<Rightarrow> read_leaf \<Rightarrow> bool" where
  "read_upto s i st \<longleftrightarrow>
     (rl_marked st, rl_at st) = durable (mayRestOn s) (take i (se_entries s)) \<and>
     (if rl_marked st = [] then rl_tip st = [] \<and> rl_under st = {}
      else let now = under_pass (rl_marked st) (rl_at st) (take i (se_entries s));
               full = under_pass (rl_marked st) (rl_at st) (se_entries s)
           in fst now \<subseteq> rl_under st \<and> rl_under st \<subseteq> fst full \<and> rl_tip st \<in> {snd now, snd full})"

lemma read_upto_mark:
  "durable (mayRestOn s) (take i (se_entries s)) = (m, at) \<Longrightarrow> i \<le> length (se_entries s) \<Longrightarrow>
   read_upto s i ((read_mark (se_entries s) m at st)\<lparr>rl_n := n\<rparr>)"
  using under_pass_take(1) [of i "se_entries s" m at]
  by (auto simp: read_upto_def read_mark_def Let_def split: prod.splits)

lemma readLeafState_upto: "read_upto s (length (se_entries s)) (readLeafState s)"
  by (auto simp: readLeafState_def durableLeafAt_def intro!: read_upto_mark split: prod.splits)

text \<open>A parent precedes its child, so it is under the mark now or never.\<close>

lemma parent_under:
  assumes wf: "tree_wf es" and i: "i < length es"
    and p: "e_parent (es ! i) \<in> fst (under_pass m at es)"
  shows "e_parent (es ! i) \<in> fst (under_pass m at (take i es))"
proof -
  from wf i have "e_parent (es ! i) = [] \<or> e_parent (es ! i) \<in> set (map e_id (take i es))"
    by (auto simp: tree_wf_def parents_before_def list_all_iff)
  moreover have "set (map e_id (take i es)) \<inter> set (map e_id (drop i es)) = {}"
    using wf by (metis append_take_drop_id distinct_append map_append tree_wf_def)
  moreover have "[] \<notin> set (map e_id (drop i es))"
    using tree_wf_neq [OF wf] by (auto dest: in_set_dropD)
  ultimately have "e_parent (es ! i) \<notin> set (map e_id (drop i es))" by auto
  with p under_pass_take(2) [of i es m at] i show ?thesis by auto
qed

lemma read_upto_descend:
  assumes wf: "session_wf s" and i: "i < length (se_entries s)" and st: "read_upto s i st"
    and keep: "durable (mayRestOn s) (take (Suc i) (se_entries s)) = durable (mayRestOn s) (take i (se_entries s))"
  shows "read_upto s (Suc i) ((read_descend (se_entries s ! i) st)\<lparr>rl_n := n\<rparr>)"
proof (cases "rl_marked st = []")
  case True
  with st keep show ?thesis by (auto simp: read_upto_def read_descend_def)
next
  case False
  let ?es = "se_entries s" and ?e = "se_entries s ! i"
  let ?now = "under_pass (rl_marked st) (rl_at st) (take i ?es)"
  let ?next = "under_pass (rl_marked st) (rl_at st) (take (Suc i) ?es)"
  let ?full = "under_pass (rl_marked st) (rl_at st) ?es"
  from st False have sub: "fst ?now \<subseteq> rl_under st" "rl_under st \<subseteq> fst ?full" "rl_tip st \<in> {snd ?now, snd ?full}"
    and d: "(rl_marked st, rl_at st) = durable (mayRestOn s) (take i ?es)"
    by (auto simp: read_upto_def Let_def)
  have nxt: "?next = under_step (rl_at st) (i, ?e) ?now"
    using i by (simp add: take_Suc_conv_app_nth under_pass_snoc)
  have at: "rl_at st < int i"
    using durable_at [of "mayRestOn s" "take i ?es"] i by (simp add: d [symmetric])
  have iff: "e_parent ?e \<in> rl_under st \<longleftrightarrow> e_parent ?e \<in> fst ?now"
    using sub parent_under [of ?es i "rl_marked st" "rl_at st"] wf i by (auto simp: session_wf_def)
  have nf: "fst ?next \<subseteq> fst ?full" using under_pass_take(1) [of "Suc i" ?es] i by simp
  show ?thesis
  proof (cases "e_parent ?e \<in> rl_under st")
    case True
    with iff at have "?next = (insert (e_id ?e) (fst ?now), e_id ?e)" by (simp add: nxt under_step_def Let_def)
    with True False sub d keep nf show ?thesis
      by (auto simp: read_upto_def read_descend_def Let_def)
  next
    case no: False
    with iff have "?next = ?now" by (simp add: nxt under_step_def Let_def)
    with no False sub d keep show ?thesis by (auto simp: read_upto_def read_descend_def Let_def)
  qed
qed

lemma read_upto_extend:
  assumes wf: "session_wf s" and i: "i < length (se_entries s)" and st: "read_upto s i st"
  shows "read_upto s (Suc i) (read_extend s i st)"
proof -
  let ?es = "se_entries s" and ?e = "se_entries s ! i"
  have step: "durable (mayRestOn s) (take (Suc i) ?es) =
      durable_step (mayRestOn s) (i, ?e) (rl_marked st, rl_at st)"
    using i st by (simp add: take_Suc_conv_app_nth durable_snoc read_upto_def)
  have st_d: "durable (mayRestOn s) (take i ?es) = (rl_marked st, rl_at st)"
    using st by (simp add: read_upto_def)
  note descend = read_upto_descend [OF wf i st, where n = "i + 1"]
  note mark = read_upto_mark [where s = s and i = "Suc i" and st = st and n = "i + 1"]
  show ?thesis
  proof (cases ?e)
    case (LabelEntry l)
    consider (leaf) "lb_Label l = Some LeafLabel" "mayRestOn s (lb_Target l)"
      | (clear) "lb_Label l = None" "rl_marked st \<noteq> []" "lb_Target l = unmark (rl_marked st)"
      | (other) "\<not> (lb_Label l = Some LeafLabel \<and> mayRestOn s (lb_Target l))"
          "\<not> (lb_Label l = None \<and> rl_marked st \<noteq> [] \<and> lb_Target l = unmark (rl_marked st))"
      by argo
    then show ?thesis
    proof cases
      case leaf
      with mark [of "markOf (lb_Target l)" "int i"] step LabelEntry i show ?thesis
        by (simp add: durable_step_def read_extend_def)
    next
      case clear
      with mark [of "[]" "-1"] step LabelEntry i show ?thesis
        by (simp add: durable_step_def read_extend_def)
    next
      case other
      with step LabelEntry st_d have "durable (mayRestOn s) (take (Suc i) ?es) = durable (mayRestOn s) (take i ?es)"
        by (auto simp: durable_step_def)
      from descend [OF this] other LabelEntry show ?thesis by (auto simp: read_extend_def Let_def)
    qed
  qed (use descend step st_d in \<open>simp_all add: durable_step_def read_extend_def\<close>)
qed

lemma read_upto_fold:
  assumes wf: "session_wf s" and "read_upto s i st" and "i \<le> j" "j \<le> length (se_entries s)"
  shows "read_upto s j (fold (read_extend s) [i..<j] st)"
  using assms(3,4)
proof (induction j)
  case (Suc j)
  show ?case
  proof (cases "i = Suc j")
    case False
    with Suc have "read_upto s j (fold (read_extend s) [i..<j] st)" by simp
    from read_upto_extend [OF wf _ this] False Suc.prems show ?thesis by simp
  qed (use assms(2) in simp)
qed (use assms(2) in simp)

text \<open>Once every entry is taken in, the state decides the leaf exactly as \<open>resolveLeaf\<close> does.\<close>

lemma read_leaf_resolve:
  assumes "read_upto s (length (se_entries s)) st" and "se_entries s \<noteq> []"
  shows "read_leaf_of s (e_id (last (se_entries s))) st = resolveLeaf s"
proof -
  have d: "durableLeafAt s = (rl_marked st, rl_at st)"
    using assms(1) by (simp add: read_upto_def durableLeafAt_def)
  show ?thesis
  proof (cases "rl_marked st = []")
    case True
    with d assms(2) show ?thesis by (simp add: resolveLeaf_def read_leaf_of_def)
  next
    case False
    then have "rl_tip st = snd (under_pass (rl_marked st) (rl_at st) (se_entries s))"
      using assms(1) by (simp add: read_upto_def Let_def)
    with False d assms(2) show ?thesis by (simp add: resolveLeaf_def read_leaf_of_def)
  qed
qed

section \<open>The state a session keeps between operations\<close>

definition read_exact :: "session \<Rightarrow> read_leaf \<Rightarrow> bool" where
  "read_exact s st \<longleftrightarrow>
     rl_n st \<le> length (se_entries s) \<and>
     (rl_marked st, rl_at st) = durable (mayRestOn s) (take (rl_n st) (se_entries s)) \<and>
     (if rl_marked st = [] then rl_tip st = [] \<and> rl_under st = {}
      else (rl_under st, rl_tip st) = under_pass (rl_marked st) (rl_at st) (take (rl_n st) (se_entries s)))"

definition read_inv :: "session \<Rightarrow> bool" where
  "read_inv s = (case se_read s of None \<Rightarrow> True | Some st \<Rightarrow> read_exact s st)"

lemma read_exact_upto: "read_exact s st \<Longrightarrow> read_upto s (rl_n st) st"
  using under_pass_take(1) [of "rl_n st" "se_entries s" "rl_marked st" "rl_at st"]
  by (cases "under_pass (rl_marked st) (rl_at st) (take (rl_n st) (se_entries s))")
    (auto simp: read_exact_def read_upto_def Let_def)

lemma read_upto_exact:
  "read_upto s (length (se_entries s)) st \<Longrightarrow> rl_n st = length (se_entries s) \<Longrightarrow> read_exact s st"
  by (cases "under_pass (rl_marked st) (rl_at st) (se_entries s)")
    (auto simp: read_exact_def read_upto_def Let_def)

lemma readLeafState_n [simp]: "rl_n (readLeafState s) = length (se_entries s)"
  by (simp add: readLeafState_def split: prod.split)

lemma read_extend_n [simp]: "rl_n (read_extend s i st) = i + 1"
  by (simp add: read_extend_def Let_def)

lemma readLeafState_exact: "read_exact s (readLeafState s)"
  by (simp add: read_upto_exact readLeafState_upto)

text \<open>The leaf and the state kept change neither where the leaf may rest nor what a read resolves.\<close>

lemma mayRestOn_upd [simp]:
  "mayRestOn (s\<lparr>se_read := x\<rparr>) = mayRestOn s" "mayRestOn (s\<lparr>se_leaf := y\<rparr>) = mayRestOn s"
  by (simp_all add: mayRestOn_def fun_eq_iff split: option.split)

lemma notOnLabel_upd [simp]:
  "notOnLabel (s\<lparr>se_read := x\<rparr>) = notOnLabel s" "notOnLabel (s\<lparr>se_leaf := y\<rparr>) = notOnLabel s"
  by (simp_all add: notOnLabel_def fun_eq_iff)

lemma resolveLeaf_upd [simp]:
  "resolveLeaf (s\<lparr>se_read := x\<rparr>) = resolveLeaf s" "resolveLeaf (s\<lparr>se_leaf := y\<rparr>) = resolveLeaf s"
  by (simp_all add: resolveLeaf_def durableLeafAt_def split: prod.split)

lemma read_exact_upd [simp]:
  "read_exact (s\<lparr>se_read := x\<rparr>) st = read_exact s st" "read_exact (s\<lparr>se_leaf := y\<rparr>) st = read_exact s st"
  by (simp_all add: read_exact_def)

lemma session_wf_read [simp]: "session_wf (s\<lparr>se_read := x\<rparr>) = session_wf s"
  by (simp add: session_wf_def)

text \<open>
  The one way an append could change an answer already given: an earlier leaf label that names the
  new entry, and moved nothing because the entry was not there yet.
\<close>

definition no_forward :: "session \<Rightarrow> eid \<Rightarrow> bool" where
  "no_forward s i = list_all (\<lambda>l. is_leaf_label l \<longrightarrow> leaf_target l \<noteq> i) (se_entries s)"

lemma mayRestOn_add: "i \<noteq> e_id e \<Longrightarrow> mayRestOn (add e s) i = mayRestOn s i"
  by (simp add: mayRestOn_def split: option.split)

lemma durable_add:
  assumes "no_forward s (e_id e)" "set es \<subseteq> set (se_entries s)"
  shows "durable (mayRestOn (add e s)) es = durable (mayRestOn s) es"
  using assms by (intro durable_cong mayRestOn_add) (auto simp: no_forward_def list_all_iff)

lemma read_exact_add:
  assumes "no_forward s (e_id e)" "read_exact s st"
  shows "read_exact (add e s) st"
  using assms durable_add [OF assms(1), of "take (rl_n st) (se_entries s)"]
  by (simp add: read_exact_def set_take_subset)

lemma read_inv_add: "no_forward s (e_id e) \<Longrightarrow> read_inv s \<Longrightarrow> read_inv (add e s)"
  by (auto simp: read_inv_def read_exact_add split: option.splits)

lemma read_inv_moveLeafFor: "read_inv s \<Longrightarrow> read_inv (moveLeafFor s e)"
  by (auto simp: read_inv_def moveLeafFor_def split: option.splits)

lemma off_label_bound:
  "session_wf s \<Longrightarrow> i = [] \<or> se_byID s i \<noteq> None \<Longrightarrow>
   off_label n (se_byID s) i = [] \<or> se_byID s (off_label n (se_byID s) i) \<noteq> None"
proof (induction n arbitrary: i)
  case (Suc n)
  have "e_parent e = [] \<or> se_byID s (e_parent e) \<noteq> None" if "se_byID s i = Some e" for e
  proof -
    from path_step [OF Suc.prems(1) that] path_chain(4) [OF Suc.prems(1) Suc.prems(2)]
    have "e_parent e = [] \<or> path s (e_parent e) \<noteq> []" by auto
    then show ?thesis using path_missing [of "e_parent e" s] by blast
  qed
  with Suc show ?case by (auto split: option.splits)
qed simp

section \<open>Extend agrees with Read\<close>

lemma Extend_cases:
  assumes k: "codec_ok k" and x: "Extend k now s eo = (s', Inr r)" and h: "r_Outcome r \<noteq> Held"
  obtains e where "admitted k s e" "r_ID r = e_id e" "r_Outcome r = outcomeFor s e"
    "s' = extend_with e (read_current s) s"
proof -
  let ?g = "gateRedacted k (se_declared s) (the eo)"
  from x h obtain e where p: "prepare k now s ?g = (e, Inr r)" and s': "s' = extend_with e (read_current s) s"
    by (auto simp: Extend_def split: sum.splits prod.splits if_splits)
  from p have "prepareEntry k now s ?g = (e, Inr r)"
    by (auto simp: prepare_def split: prod.splits sum.splits)
  from prepareEntry_ok [OF k this] h s' show ?thesis by (intro that [of e]) auto
qed

lemma Extend_exact:
  assumes wf: "session_wf s" and inv: "read_inv s" and ok: "addable s e" and nf: "no_forward s (e_id e)"
  shows "read_upto (add e s) (length (se_entries (add e s)))
    (read_extend (add e s) (length (se_entries s)) (read_current s))"
proof -
  have n: "rl_n (read_current s) = length (se_entries s)" and "read_exact s (read_current s)"
    using inv by (auto simp: read_inv_def read_current_def readLeafState_exact split: option.splits if_splits)
  then have "read_exact (add e s) (read_current s)" by (intro read_exact_add nf)
  then have "read_upto (add e s) (length (se_entries s)) (read_current s)" using read_exact_upto n by metis
  with read_upto_extend [OF session_wf_add [OF wf ok]] show ?thesis by simp
qed

lemma Extend_resolves:
  assumes k: "codec_ok k" and wf: "session_wf s" and inv: "read_inv s"
    and x: "Extend k now s eo = (s', Inr r)" and h: "r_Outcome r \<noteq> Held" and nf: "no_forward s (r_ID r)"
  shows "se_leaf s' = resolveLeaf s'" "read_inv s'"
proof -
  from Extend_cases [OF k x h] obtain e where e: "admitted k s e" "r_ID r = e_id e" and
    s': "s' = extend_with e (read_current s) s"
    by metis
  let ?st = "read_extend (add e s) (length (se_entries s)) (read_current s)"
  from Extend_exact [OF wf inv admitted_addable [OF e(1)]] nf e(2)
  have u: "read_upto (add e s) (length (se_entries (add e s))) ?st" by simp
  from read_leaf_resolve [OF u] show "se_leaf s' = resolveLeaf s'" by (simp add: s' extend_with_def Let_def)
  from read_upto_exact [OF u] show "read_inv s'" by (simp add: s' extend_with_def read_inv_def Let_def)
qed

section \<open>The marks keep a reader on the head\<close>

lemma readCaughtUp_simps [simp]:
  "se_entries (readCaughtUp s) = se_entries s" "se_leaf (readCaughtUp s) = se_leaf s"
  "se_byID (readCaughtUp s) = se_byID s"
  "resolveLeaf (readCaughtUp s) = resolveLeaf s" "mayRestOn (readCaughtUp s) = mayRestOn s"
  "notOnLabel (readCaughtUp s) = notOnLabel s" "session_wf (readCaughtUp s) = session_wf s"
  "leafMark (readCaughtUp s) = leafMark s"
  by (simp_all add: readCaughtUp_def Let_def leafMark_def)

lemma readCaughtUp_upto:
  assumes "session_wf s" "read_inv s"
  shows "\<exists>st. se_read (readCaughtUp s) = Some st \<and> read_upto s (length (se_entries s)) st"
proof -
  have "read_exact s (read_known s)" using assms(2)
    by (auto simp: read_inv_def read_known_def readLeafState_exact split: option.splits)
  then have "read_upto s (rl_n (read_known s)) (read_known s)" "rl_n (read_known s) \<le> length (se_entries s)"
    by (auto intro: read_exact_upto simp: read_exact_def)
  from read_upto_fold [OF assms(1) this] show ?thesis by (simp add: readCaughtUp_def Let_def)
qed

lemma notOnLabel_rest:
  assumes "mayRestOn s i"
  shows "notOnLabel s i = i"
  using assms by (auto simp: notOnLabel_def mayRestOn_def Let_def split: option.splits if_splits)

text \<open>A label is asked for exactly when a read would not resolve the head.\<close>

lemma LeafMarkNeeded_iff:
  assumes wf: "session_wf s" and inv: "read_inv s" and ne: "se_entries s \<noteq> []"
    and may: "mayRestOn s (se_leaf s)"
  shows "snd (LeafMarkNeeded s) = (if resolveLeaf s = se_leaf s then None else Some (leafMark s))"
proof -
  from readCaughtUp_upto [OF wf inv] obtain st where st: "se_read (readCaughtUp s) = Some st"
      "read_upto s (length (se_entries s)) st" by blast
  with read_leaf_resolve [OF st(2) ne]
  have "notOnLabel s (if rl_marked st = [] then e_id (last (se_entries s)) else unmark (rl_tip st)) = resolveLeaf s"
    by (simp add: read_leaf_of_def split: if_splits)
  with ne may st(1) show ?thesis by (auto simp: LeafMarkNeeded_def Let_def)
qed

text \<open>A leaf label on the head, appended last, makes a read resolve the head.\<close>

lemma resolveLeaf_marked:
  assumes e: "is_leaf_label e" "leaf_target e = i" and may: "mayRestOn (add e s) i" and i: "i \<noteq> rootMark"
  shows "resolveLeaf (add e s) = i"
proof -
  let ?t = "add e s" and ?n = "length (se_entries s)"
  have d: "durableLeafAt ?t = (markOf i, int ?n)"
    using e may by (simp add: durableLeafAt_def durable_snoc durable_step_leaf)
  have "snd (under_pass m (int ?n) es) = m" if "length es \<le> Suc ?n" for m es
    using that by (induction es rule: rev_induct) (auto simp: under_pass_def under_step_def Let_def)
  then have "snd (under_pass (markOf i) (int ?n) (se_entries ?t)) = markOf i" by simp
  with d notOnLabel_rest [OF may] i show ?thesis by (simp add: resolveLeaf_def)
qed

text \<open>A committed leaf label keeps its target: the steps of \<open>prepareEntry\<close> leave it alone.\<close>

lemma leaf_label_upd [simp]: "leaf_target (upd_base f e) = leaf_target e"
  by (cases e) (simp_all add: leaf_target_def)

lemma is_leaf_label_iff: "is_leaf_label e \<longleftrightarrow> (\<exists>l. e = LabelEntry l \<and> lb_Label l = Some LeafLabel)"
  by (cases e) (auto simp: is_leaf_label_def)

lemma prepareEntry_label:
  assumes k: "codec_ok k" and p: "prepareEntry k now s e0 = (e, Inr r)" and l: "is_leaf_label e0"
    and t: "leaf_target e0 = [] \<or> plain_id (leaf_target e0)"
  shows "is_leaf_label e \<and> leaf_target e = leaf_target e0"
proof -
  let ?e3 = "upd_base (\<lambda>b. b\<lparr>b_ID := []\<rparr>) (stamp now (fill_parent s e0))"
  have l3: "is_leaf_label ?e3" "leaf_target ?e3 = leaf_target e0"
    using l by (auto simp: stamp_def fill_parent_def)
  from p obtain e4 e5 e6 where e4: "rewrite_raw k ?e3 = Inr e4" and e5: "k_normaliseEntry k e4 = Inr e5"
    and e6: "hashEntry k e5 = Inr e6" and e7: "rewrite_raw k e6 = Inr e"
    unfolding prepareEntry_def Let_def by (auto split: if_splits sum.splits)
  have raw: "rewrite_raw k x = Inr x" if "is_leaf_label x" for x
    using that by (cases x) (auto simp: rewrite_raw_def is_leaf_label_def)
  from raw [OF l3(1)] e4 have e4': "e4 = ?e3" by simp
  from l3 obtain v where v: "?e3 = LabelEntry v" "lb_Label v = Some LeafLabel"
    by (auto simp: is_leaf_label_iff)
  with l3 t have "lb_Target v = [] \<or> plain_id (lb_Target v)" by (simp add: leaf_target_def)
  with k e5 v e4' obtain b where b: "e5 = LabelEntry (v\<lparr>lb_base := b\<rparr>)"
    unfolding codec_ok_def by metis
  with v l3 have l5: "is_leaf_label e5" "leaf_target e5 = leaf_target e0"
    by (auto simp: is_leaf_label_def leaf_target_def)
  from e6 obtain f where "e6 = upd_base f e5" by (auto simp: hashEntry_def bind_res_Inr)
  with l5 raw [of e6] e7 show ?thesis by auto
qed

lemma Commit_label:
  assumes k: "codec_ok k" and c: "Commit k now s (Some e0) = (s', Inr r)" and h: "r_Outcome r \<noteq> Held"
    and l: "is_leaf_label e0" "leaf_target e0 = [] \<or> plain_id (leaf_target e0)"
  obtains e where "s' = moveLeafFor (add e s) e" "admitted k s e" "is_leaf_label e" "leaf_target e = leaf_target e0"
proof -
  from c h obtain e where p: "prepare k now s e0 = (e, Inr r)" and s': "s' = moveLeafFor (add e s) e"
    by (auto simp: Commit_def split: sum.splits prod.splits if_splits)
  from p have p': "prepareEntry k now s e0 = (e, Inr r)"
    by (auto simp: prepare_def split: prod.splits sum.splits)
  from prepareEntry_ok [OF k p'] prepareEntry_label [OF k p' l] h s' show ?thesis by (intro that [of e]) auto
qed

lemma leafMark_label [simp]:
  "is_leaf_label (LabelEntry (leafMark s))" "leaf_target (LabelEntry (leafMark s)) = se_leaf s"
  by (simp_all add: leafMark_def NewLabelEntry_def is_leaf_label_def leaf_target_def)

lemma leaf_plain: "session_wf s \<Longrightarrow> se_leaf s = [] \<or> plain_id (se_leaf s)"
  using index_of_Some [of "se_entries s" "se_leaf s"]
  by (force simp: session_wf_def tree_wf_def list_all_iff)

lemma resolveLeaf_moveLeafFor [simp]: "resolveLeaf (moveLeafFor s e) = resolveLeaf s"
  by (simp add: moveLeafFor_def)

lemma plain_not_root: "i = [] \<or> plain_id i \<Longrightarrow> i \<noteq> rootMark"
  by (auto simp: plain_id_def has_prefix_def rootMark_def)

lemma mayRestOn_add_label:
  assumes "mayRestOn s i" "addable s e"
  shows "mayRestOn (add e s) i"
proof -
  have "i \<noteq> e_id e" using assms by (auto simp: mayRestOn_def addable_def split: if_splits)
  with assms show ?thesis by (simp add: mayRestOn_add)
qed

lemma leafMark_resolves:
  assumes k: "codec_ok k" and wf: "session_wf s" and may: "mayRestOn s (se_leaf s)"
    and c: "Commit k now s (Some (LabelEntry (leafMark s))) = (s', Inr r)" and h: "r_Outcome r \<noteq> Held"
  shows "se_leaf s' = se_leaf s \<and> resolveLeaf s' = se_leaf s"
proof -
  from Commit_label [OF k c h] leaf_plain [OF wf] obtain e where e: "s' = moveLeafFor (add e s) e"
      "admitted k s e" "is_leaf_label e" "leaf_target e = se_leaf s" by auto
  have m: "mayRestOn (add e s) (se_leaf s)" using may admitted_addable [OF e(2)] by (rule mayRestOn_add_label)
  with resolveLeaf_marked [OF e(3,4) m plain_not_root [OF leaf_plain [OF wf]]] e show ?thesis
    by (simp add: moveLeafFor_def)
qed

section \<open>A mark ahead of an entry off the head\<close>

text \<open>The entries under a mark are those whose path meets it.\<close>

lemma under_path:
  assumes wf: "session_wf s" and m: "se_byID s m \<noteq> None"
  shows "j \<le> length (se_entries s) \<Longrightarrow> x \<in> fst (under_pass m at (take j (se_entries s))) \<Longrightarrow>
    m \<in> set (map e_id (path s x))"
proof (induction j arbitrary: x)
  case 0
  obtain e where e: "se_byID s m = Some e" using m by blast
  have "plain_id m" using wf e index_of_Some [of "se_entries s" m e]
    by (auto simp: session_wf_def tree_wf_def list_all_iff)
  with 0 plain_not_root [of m] have "x = m" by (auto simp: under_pass_def under_start_def)
  with path_step [OF wf e] wf e show ?case by (auto simp: session_wf_def dest: index_of_Some)
next
  case (Suc j)
  let ?e = "se_entries s ! j"
  from Suc.prems have "x \<in> fst (under_step at (j, ?e) (under_pass m at (take j (se_entries s))))"
    by (simp add: take_Suc_conv_app_nth under_pass_snoc)
  then consider "x \<in> fst (under_pass m at (take j (se_entries s)))"
    | "x = e_id ?e" "e_parent ?e \<in> fst (under_pass m at (take j (se_entries s)))"
    by (auto simp: under_step_def Let_def split: if_splits)
  then show ?case
  proof cases
    case 1
    with Suc show ?thesis by simp
  next
    case 2
    have "se_byID s x = Some ?e"
      using wf Suc.prems(1) 2(1) by (simp add: session_wf_def tree_wf_def index_of_mem)
    from path_step [OF wf this] Suc.IH [OF _ 2(2)] Suc.prems(1) show ?thesis by auto
  qed
qed

lemma meets_leaf_chain:
  "chain m i p \<Longrightarrow> (\<And>j e. m j = Some e \<Longrightarrow> e_id e = j) \<Longrightarrow> length p < n \<Longrightarrow>
   meets_leaf n m leaf i \<longleftrightarrow> leaf \<in> set (map e_id p)"
proof (induction arbitrary: n rule: chain.induct)
  case root
  then show ?case by (cases n) auto
next
  case (step i e p)
  then obtain n' where "n = Suc n'" by (cases n) auto
  with step show ?case by auto
qed

lemma meets_leaf_path:
  assumes "session_wf s" "i = [] \<or> se_byID s i \<noteq> None"
  shows "meets_leaf (Suc (length (se_entries s))) (se_byID s) leaf i \<longleftrightarrow> leaf \<in> set (map e_id (path s i))"
proof (rule meets_leaf_chain [OF path_chain(1) [OF assms]])
  show "se_byID s j = Some e \<Longrightarrow> e_id e = j" for j e
    using assms(1) index_of_Some by (auto simp: session_wf_def)
  from path_chain(2,3) [OF assms] have "card (set (path s i)) \<le> length (se_entries s)" "distinct (path s i)"
    by (auto simp: distinct_map intro: le_trans [OF card_mono card_length])
  then show "length (path s i) < Suc (length (se_entries s))" by (simp add: distinct_card)
qed

text \<open>An entry that neither marks nor clears leaves the mark in force.\<close>

definition clears :: "eid \<Rightarrow> entry \<Rightarrow> bool" where
  "clears m e = (case e of LabelEntry l \<Rightarrow> lb_Label l = None \<and> lb_Target l = m | _ \<Rightarrow> False)"

lemma durable_step_keeps:
  "\<not> is_leaf_label e \<Longrightarrow> \<not> clears (unmark (fst st)) e \<Longrightarrow> durable_step may (n, e) st = st"
  by (cases e) (auto simp: durable_step_def is_leaf_label_def clears_def)

lemma mark_ahead_resolves:
  assumes wf: "session_wf s" and may: "mayRestOn s (se_leaf s)" and leaf: "se_leaf s \<noteq> []"
    and l: "is_leaf_label l" "leaf_target l = se_leaf s" "addable s l"
    and e: "addable (add l s) e" "\<not> is_leaf_label e" "\<not> clears (se_leaf s) e"
      "e_parent e = [] \<or> se_byID s (e_parent e) \<noteq> None" "se_leaf s \<notin> set (map e_id (path s (e_parent e)))"
  shows "resolveLeaf (add e (add l s)) = se_leaf s"
proof -
  let ?t = "add e (add l s)" and ?n = "length (se_entries s)" and ?L = "se_leaf s"
  have nr: "?L \<noteq> rootMark" using plain_not_root [OF leaf_plain [OF wf]] .
  have m1: "mayRestOn (add l s) ?L" by (rule mayRestOn_add_label [OF may l(3)])
  have m2: "mayRestOn ?t ?L" by (rule mayRestOn_add_label [OF m1 e(1)])
  have d: "durableLeafAt ?t = (?L, int ?n)"
    using l m2 e leaf nr durable_step_keeps [of e "(markOf ?L, int ?n)"]
    by (simp add: durableLeafAt_def durable_snoc [of _ "se_entries s @ [l]", simplified]
        durable_snoc durable_step_leaf markOf_def unmark_def)
  have Lin: "se_byID s ?L \<noteq> None" using wf leaf unfolding session_wf_def by blast
  have "e_parent e \<notin> fst (under_pass ?L (int ?n) (se_entries s))"
    using under_path [OF wf Lin, of ?n "e_parent e"] e(5) by auto
  moreover have "e_parent e \<noteq> e_id l" using e(4) l(3) by (auto simp: addable_def)
  ultimately have "e_parent e \<notin> fst (under_pass ?L (int ?n) (se_entries s @ [l]))"
    by (auto simp: under_pass_snoc under_step_def Let_def)
  then have "under_pass ?L (int ?n) (se_entries ?t) = under_pass ?L (int ?n) (se_entries s @ [l])"
    using under_pass_snoc [of ?L "int ?n" "se_entries s @ [l]" e] by (simp add: under_step_def Let_def)
  moreover have "snd (under_pass ?L (int ?n) es) = ?L" if "length es \<le> Suc ?n" for es
    using that by (induction es rule: rev_induct) (auto simp: under_pass_def under_step_def Let_def)
  ultimately show ?thesis
    using d leaf nr notOnLabel_rest [OF m2] by (simp add: resolveLeaf_def unmark_def)
qed

lemma LeafMarkBefore_Some:
  assumes wf: "session_wf s" and p: "e_parent e = [] \<or> se_byID s (e_parent e) \<noteq> None"
    and b: "snd (LeafMarkBefore s e) = Some m"
  shows "m = leafMark s" "se_leaf s \<noteq> []" "\<not> is_leaf_label e"
    "se_leaf s \<notin> set (map e_id (path s (e_parent e)))"
  using b meets_leaf_path [OF wf p, of "se_leaf s"]
  by (auto simp: LeafMarkBefore_def Let_def split: if_splits)

text \<open>The leaf a reader resolves is read off the entries, the base and the prefix alone.\<close>

lemma resolveLeaf_cong:
  assumes "se_entries s' = se_entries s" "se_byID s' = se_byID s" "se_prefix s' = se_prefix s"
    "h_Base (se_header s') = h_Base (se_header s)"
  shows "resolveLeaf s' = resolveLeaf s"
proof -
  have "mayRestOn s' = mayRestOn s" "notOnLabel s' = notOnLabel s"
    by (rule ext, simp only: mayRestOn_def notOnLabel_def assms)+
  then show ?thesis by (simp only: resolveLeaf_def durableLeafAt_def assms)
qed

section \<open>Moving the head\<close>

text \<open>A leaf label is no place to rest, so the label itself never moves the leaf onto itself.\<close>

lemma mayRestOn_self: "is_leaf_label e \<Longrightarrow> se_byID s (e_id e) = None \<Longrightarrow> plain_id (e_id e) \<Longrightarrow>
  mayRestOn (add e s) (leaf_target e) = mayRestOn s (leaf_target e)"
  by (cases "leaf_target e = e_id e") (auto simp: mayRestOn_add, auto simp: mayRestOn_def split: if_splits)

lemma headLabel_ok:
  assumes "headLabel s expected to = Inr l"
  shows "se_leaf s = expected \<and> mayRestOn s to \<and> is_leaf_label (LabelEntry l) \<and> leaf_target (LabelEntry l) = to"
  using assms
  by (auto simp: headLabel_def mayRestOn_def is_leaf_label_def leaf_target_def NewLabelEntry_def
      split: if_splits option.splits)

lemma commitHead_ok:
  assumes k: "codec_ok k" and wf: "session_wf s" and c: "commitHead k now s expected to = (s', Inr e)"
    and new: "se_byID s (e_id e) = None"
  shows "se_leaf s = expected" "mayRestOn s to" "admitted k s e" "is_leaf_label e" "leaf_target e = to"
    "s' = moveLeafFor (add e s) e" "to = [] \<or> plain_id to"
proof -
  from c obtain l r where l: "headLabel s expected to = Inr l"
    and p: "prepareEntry k now s (LabelEntry l) = (e, Inr r)" and s': "s' = moveLeafFor (add e s) e"
    by (auto simp: commitHead_def prepare_def split: sum.splits prod.splits)
  from headLabel_ok [OF l] show h: "se_leaf s = expected" "mayRestOn s to" by auto
  from h(2) wf show t: "to = [] \<or> plain_id to"
    by (auto simp: mayRestOn_def session_wf_def tree_wf_def list_all_iff split: if_splits option.splits
        dest!: index_of_Some)
  from prepareEntry_ok [OF k p] new show "admitted k s e" by auto
  from prepareEntry_label [OF k p] headLabel_ok [OF l] t show "is_leaf_label e" "leaf_target e = to" by auto
  show "s' = moveLeafFor (add e s) e" by (rule s')
qed

lemma commitHead_moved: "se_leaf s \<noteq> expected \<Longrightarrow> \<exists>x. commitHead k now s expected to = (s, Inl x)"
  by (auto simp: commitHead_def headLabel_def split: sum.splits)

lemma commitHead_resolves:
  assumes k: "codec_ok k" and wf: "session_wf s" and c: "commitHead k now s expected to = (s', Inr e)"
    and new: "se_byID s (e_id e) = None"
  shows "se_leaf s' = to \<and> resolveLeaf s' = to"
proof -
  note h = commitHead_ok [OF assms]
  have "mayRestOn (add e s) to" using h(2) admitted_addable [OF h(3)] by (rule mayRestOn_add_label)
  with resolveLeaf_marked [OF h(4,5) this plain_not_root [OF h(7)]] h(4-6) show ?thesis
    by (simp add: moveLeafFor_def)
qed

end
