(* ===== verification/Session_Steps.thy ===== *)
theory Session_Steps
  imports Call_Rules Leaf_Rule "HOL-Library.Sublist"
begin

text \<open>
  The session as a state machine: the operations of \<open>session.go\<close> that change one session are the
  steps, \<open>New\<close> and \<open>Fork\<close> start it.  The invariant (the tree, the indexes, and the call rules of every
  path) holds in every state reached.  That a session only grows is stated once, for any machine
  whose log grows, and interpreted on the steps of the session.
\<close>

section \<open>Machines whose log only grows\<close>

locale append_only =
  fixes step :: "'s \<Rightarrow> 's \<Rightarrow> bool" and inv :: "'s \<Rightarrow> bool" and logs :: "'s \<Rightarrow> 'e list"
  assumes keeps: "step s s' \<Longrightarrow> inv s \<Longrightarrow> inv s'"
    and grows: "step s s' \<Longrightarrow> inv s \<Longrightarrow> prefix (logs s) (logs s')"
begin

lemma steps_keep: "step\<^sup>*\<^sup>* s s' \<Longrightarrow> inv s \<Longrightarrow> inv s'"
  by (induction rule: rtranclp_induct) (auto intro: keeps)

lemma steps_grow: "step\<^sup>*\<^sup>* s s' \<Longrightarrow> inv s \<Longrightarrow> prefix (logs s) (logs s')"
proof (induction rule: rtranclp_induct)
  case (step t u)
  with grows [of t u] steps_keep [of s t] show ?case by (auto intro: prefix_order.trans)
qed simp

lemma line_stays: "step\<^sup>*\<^sup>* s s' \<Longrightarrow> inv s \<Longrightarrow> i < length (logs s) \<Longrightarrow> logs s' ! i = logs s ! i"
  by (drule (1) steps_grow) (auto simp: prefix_def nth_append)

end

text \<open>With a lookup by ID whose answer is the one entry of the log that has the ID.\<close>

locale append_only_store = append_only step inv logs
  for step :: "'s \<Rightarrow> 's \<Rightarrow> bool" and inv :: "'s \<Rightarrow> bool" and logs :: "'s \<Rightarrow> 'e list" +
  fixes key :: "'e \<Rightarrow> 'i" and get :: "'s \<Rightarrow> 'i \<Rightarrow> 'e option"
  assumes keys: "inv s \<Longrightarrow> distinct (map key (logs s))"
    and get_iff: "inv s \<Longrightarrow> get s i = Some e \<longleftrightarrow> e \<in> set (logs s) \<and> key e = i"
begin

lemma get_stays: "step\<^sup>*\<^sup>* s s' \<Longrightarrow> inv s \<Longrightarrow> get s i = Some e \<Longrightarrow> get s' i = Some e"
  using steps_grow [of s s'] steps_keep [of s s'] by (auto simp: get_iff prefix_def)

lemma get_back: "step\<^sup>*\<^sup>* s s' \<Longrightarrow> inv s \<Longrightarrow> get s i = Some e \<Longrightarrow> get s' i = Some e' \<Longrightarrow> e' = e"
  using get_stays by fastforce

end

section \<open>The steps\<close>

inductive session_step :: "codec \<Rightarrow> session \<Rightarrow> session \<Rightarrow> bool" for k where
  commit: "Commit k now s eo = (s', res) \<Longrightarrow> session_step k s s'"
| append: "Append k now s eo = (s', res') \<Longrightarrow> session_step k s s'"
| extend: "Extend k now s eo = (s', res) \<Longrightarrow> session_step k s s'"
| head: "commitHead k now s expected to = (s', Inr e) \<Longrightarrow> se_byID s (e_id e) = None \<Longrightarrow> session_step k s s'"
| branch: "Branch s i = Inr s' \<Longrightarrow> session_step k s s'"
| reset: "session_step k s (ResetLeaf s)"
| raise: "raiseHeader s format = Inr s' \<Longrightarrow> session_step k s s'"
| needed: "session_step k s (fst (LeafMarkNeeded s))"
| before: "session_step k s (fst (LeafMarkBefore s e))"

inductive reachable :: "codec \<Rightarrow> session \<Rightarrow> bool" for k where
  start: "reachable k (New payload newID now h)"
| step: "reachable k s \<Longrightarrow> session_step k s s' \<Longrightarrow> reachable k s'"
| fork: "reachable k origin \<Longrightarrow> Fork payload newID now origin at h = Inr s \<Longrightarrow> reachable k s"

section \<open>The leaf a reader resolves is held\<close>

definition held :: "session \<Rightarrow> eid \<Rightarrow> bool" where
  "held s i \<longleftrightarrow> i = [] \<or> se_byID s i \<noteq> None"

definition tip_ok :: "session \<Rightarrow> read_leaf \<Rightarrow> bool" where
  "tip_ok s st \<longleftrightarrow> held s (unmark (rl_tip st))"

text \<open>A base names an entry of the prefix, once there is one.\<close>

definition base_held :: "session \<Rightarrow> bool" where
  "base_held s \<longleftrightarrow> se_entries s = [] \<or> held s (h_Base (se_header s))"

lemma held_Nil [simp]: "held s []"
  by (simp add: held_def)

lemma held_add: "held s i \<Longrightarrow> held (add e s) i"
  by (auto simp: held_def)

lemma held_mayRestOn: "mayRestOn s i \<Longrightarrow> held s i"
  by (auto simp: mayRestOn_def held_def split: if_splits option.splits)

lemma held_entries: "session_wf s \<Longrightarrow> e \<in> set (se_entries s) \<Longrightarrow> held s (e_id e)"
  by (auto simp: held_def session_wf_def index_of_None)

lemma unmark_cases: "unmark (markOf t) = [] \<or> unmark (markOf t) = t" "unmark [] = []" "unmark m = [] \<or> unmark m = m"
  by (auto simp: unmark_def markOf_def)

lemma under_pass_tip: "snd (under_pass m at es) = m \<or> snd (under_pass m at es) \<in> set (map e_id es)"
  by (induction es rule: rev_induct) (auto simp: under_pass_snoc under_step_def Let_def, simp add: under_pass_def)

lemma durable_held: "\<forall>i. may i \<longrightarrow> held s i \<Longrightarrow> held s (unmark (fst (durable may es)))"
proof (induction es rule: rev_induct)
  case (snoc e es)
  have "held s (unmark (markOf t))" if "may t" for t
    using snoc.prems that unmark_cases(1) [of t] by auto
  with snoc show ?case
    by (auto simp: durable_snoc durable_step_def unmark_cases(2) split: entry.splits)
qed (simp add: unmark_cases)

lemma tip_ok_mark:
  assumes wf: "session_wf s" and t: "held s (unmark target)"
  shows "tip_ok s (read_mark (se_entries s) target at st)"
proof -
  let ?tip = "snd (under_pass target at (se_entries s))"
  have "held s (unmark ?tip)"
    using under_pass_tip [of target at "se_entries s"] t held_entries [OF wf] unmark_cases(3) [of ?tip]
    by auto
  with t show ?thesis by (auto simp: read_mark_def tip_ok_def split: prod.splits)
qed

lemma tip_ok_state: "session_wf s \<Longrightarrow> tip_ok s (readLeafState s)"
  using tip_ok_mark [of s "fst (durableLeafAt s)" "snd (durableLeafAt s)" no_read]
    durable_held [of "mayRestOn s" s "se_entries s"] held_mayRestOn [of s]
  by (cases "durableLeafAt s") (simp add: readLeafState_def durableLeafAt_def tip_ok_def)

lemma tip_ok_descend: "session_wf s \<Longrightarrow> e \<in> set (se_entries s) \<Longrightarrow> tip_ok s st \<Longrightarrow> tip_ok s (read_descend e st)"
  using held_entries [of s e] unmark_cases(3) [of "e_id e"] by (auto simp: tip_ok_def read_descend_def)

lemma tip_ok_extend:
  assumes wf: "session_wf s" and i: "i < length (se_entries s)" and st: "tip_ok s st"
  shows "tip_ok s (read_extend s i st)"
proof -
  have n: "tip_ok s (x\<lparr>rl_n := n\<rparr>) = tip_ok s x" for x n by (simp add: tip_ok_def)
  have "held s (unmark (markOf t))" if "mayRestOn s t" for t
    using held_mayRestOn [OF that] unmark_cases(1) [of t] by auto
  with wf st tip_ok_descend [OF wf nth_mem [OF i]] show ?thesis
    by (auto simp: read_extend_def Let_def n unmark_cases intro!: tip_ok_mark split: entry.splits)
qed

definition tip_held :: "session \<Rightarrow> bool" where
  "tip_held s \<longleftrightarrow> (\<forall>st. se_read s = Some st \<longrightarrow> tip_ok s st)"

lemma tip_ok_caughtUp:
  assumes wf: "session_wf s" and t: "tip_held s"
  shows "tip_ok s (the (se_read (readCaughtUp s)))"
proof -
  have "tip_ok s (fold (read_extend s) is st)" if "tip_ok s st" "\<forall>i\<in>set is. i < length (se_entries s)" for "is" st
    using that by (induction "is" arbitrary: st) (auto intro: tip_ok_extend [OF wf])
  moreover have "tip_ok s (read_known s)"
    using t tip_ok_state [OF wf] by (auto simp: read_known_def tip_held_def split: option.splits)
  ultimately show ?thesis by (simp add: readCaughtUp_def Let_def)
qed

lemma notOnLabel_held: "session_wf s \<Longrightarrow> held s (h_Base (se_header s)) \<Longrightarrow> held s i \<Longrightarrow> held s (notOnLabel s i)"
  using off_label_bound [of s i "Suc (length (se_entries s))"]
  by (auto simp: notOnLabel_def Let_def held_def simp del: off_label.simps)

section \<open>The steps, one by one\<close>

text \<open>What a step may change when it adds no entry: the leaf, the reader's state and the format.\<close>

definition same_log :: "session \<Rightarrow> session \<Rightarrow> bool" where
  "same_log s s' \<longleftrightarrow>
     se_entries s' = se_entries s \<and> se_byID s' = se_byID s \<and> se_children s' = se_children s \<and>
     se_prefix s' = se_prefix s \<and> se_callIDs s' = se_callIDs s \<and> se_spawnIDs s' = se_spawnIDs s \<and>
     se_copied s' = se_copied s \<and> se_results s' = se_results s \<and> se_dispatches s' = se_dispatches s \<and>
     h_ID (se_header s') = h_ID (se_header s) \<and> h_Base (se_header s') = h_Base (se_header s) \<and>
     h_Records (se_header s') = h_Records (se_header s) \<and>
     (se_leaf s' = se_leaf s \<or> held s (se_leaf s')) \<and>
     (se_read s' = se_read s \<or> tip_ok s (the (se_read s')))"

lemma same_log_refl [simp]: "same_log s s"
  by (simp add: same_log_def)

lemma same_log_leaf: "held s i \<Longrightarrow> same_log s (s\<lparr>se_leaf := i\<rparr>)"
  by (simp add: same_log_def)

lemma same_log_moveLeafFor: "held s (e_id e) \<Longrightarrow> same_log s (moveLeafFor s e)"
  by (auto simp: moveLeafFor_def intro: same_log_leaf dest: held_mayRestOn)

lemma same_log_caughtUp: "session_wf s \<Longrightarrow> tip_held s \<Longrightarrow> same_log s (readCaughtUp s)"
  using tip_ok_caughtUp [of s] by (simp add: same_log_def readCaughtUp_def Let_def)

lemma same_log_raise: "raiseHeader s format = Inr s' \<Longrightarrow> same_log s s'"
  by (auto simp: raiseHeader_def same_log_def then_res_Inr bind_res_Inr Raise_ok_iff
      split: sum.splits prod.splits if_splits)

lemma fst_LeafMark:
  "fst (LeafMarkNeeded s) = s \<or> fst (LeafMarkNeeded s) = readCaughtUp s"
  "fst (LeafMarkBefore s e) = s \<or> fst (LeafMarkBefore s e) = readCaughtUp s"
  by (simp_all add: LeafMarkNeeded_def LeafMarkBefore_def Let_def)

definition session_inv :: "codec \<Rightarrow> session \<Rightarrow> bool" where
  "session_inv k s \<longleftrightarrow>
     codec_ok k \<and> session_wf s \<and> base_held s \<and> tip_held s \<and> indexes_ok s \<and> paths_ok (k_canon k) s"

text \<open>What a session keeps whatever it was read from: the part of the invariant that the calls do not enter.\<close>

definition session_core :: "codec \<Rightarrow> session \<Rightarrow> bool" where
  "session_core k s \<longleftrightarrow> codec_ok k \<and> session_wf s \<and> base_held s \<and> tip_held s"

lemma session_inv_core: "session_inv k s \<longleftrightarrow> session_core k s \<and> indexes_ok s \<and> paths_ok (k_canon k) s"
  by (auto simp: session_inv_def session_core_def)

lemma paths_ok_same:
  "same_log s s' \<Longrightarrow> paths_ok canon s \<Longrightarrow> paths_ok canon s'"
  by (simp add: same_log_def paths_ok_def path_ok_def path_def answer_placed_def promised_def
      dispatchedOff_def HasRecord_def)

lemma session_core_same:
  assumes l: "same_log s s'" and inv: "session_core k s"
  shows "session_core k s'"
proof -
  from l have "held s' = held s" "tip_ok s' = tip_ok s"
    by (auto simp: same_log_def held_def tip_ok_def fun_eq_iff)
  with l inv show ?thesis
    by (auto simp: session_core_def same_log_def session_wf_def base_held_def tip_held_def held_def)
qed

lemma session_inv_same: "same_log s s' \<Longrightarrow> session_inv k s \<Longrightarrow> session_inv k s'"
  using session_core_same [of s s' k] paths_ok_same [of s s']
  by (auto simp: session_inv_core same_log_def indexes_ok_def indexed_def)

lemma session_core_add:
  assumes inv: "session_core k s" and a: "admitted k s e"
  shows "session_core k (add e s)"
proof -
  from inv have i: "codec_ok k" "session_wf s" "base_held s" "tip_held s" by (auto simp: session_core_def)
  have "se_entries s \<noteq> [] \<or> h_Base (se_header s) = []"
    using a i(2) by (auto simp: admitted_def checkParentRule_def checkOwnParent_def session_wf_def index_of_def
        split: if_splits)
  with i(3) have "base_held (add e s)" by (auto simp: base_held_def intro: held_add)
  moreover have "tip_held (add e s)" using i(4) by (auto simp: tip_held_def tip_ok_def intro: held_add)
  ultimately show ?thesis
    using i session_wf_add [OF i(2) admitted_addable [OF a]] by (simp add: session_core_def)
qed

lemma session_inv_add: "session_inv k s \<Longrightarrow> admitted k s e \<Longrightarrow> session_inv k (add e s)"
  using session_core_add [of k s e] indexes_ok_add [of s k e] paths_ok_add [of s k e]
  by (simp add: session_inv_core session_core_def)

lemma same_log_extend_with:
  assumes inv: "session_core k s" and a: "admitted k s e"
  shows "same_log (add e s) (extend_with e (read_current s) s)"
proof -
  let ?s = "add e s"
  have inv': "session_core k ?s" by (rule session_core_add [OF inv a])
  then have wf: "session_wf ?s" and base: "held ?s (h_Base (se_header ?s))"
    by (auto simp: session_core_def base_held_def)
  from inv tip_ok_state [of s] have "tip_ok s (read_current s)"
    by (auto simp: read_current_def session_core_def tip_held_def split: option.splits)
  then have "tip_ok ?s (read_current s)" by (auto simp: tip_ok_def intro: held_add)
  then have t: "tip_ok ?s (read_extend ?s (length (se_entries s)) (read_current s))"
    by (intro tip_ok_extend [OF wf]) simp_all
  with notOnLabel_held [OF wf base] held_entries [OF wf, of e]
  show ?thesis by (auto simp: same_log_def extend_with_def read_leaf_of_def tip_ok_def Let_def)
qed

lemma commitHead_cases:
  assumes k: "codec_ok k" and c: "commitHead k now s expected to = (s', Inr e)" and new: "se_byID s (e_id e) = None"
  shows "admitted k s e \<and> s' = moveLeafFor (add e s) e"
proof -
  from c obtain l r where p: "prepareEntry k now s (LabelEntry l) = (e, Inr r)" and s': "s' = moveLeafFor (add e s) e"
    by (auto simp: commitHead_def prepare_def split: sum.splits prod.splits)
  from prepareEntry_ok [OF k p] new s' show ?thesis by auto
qed

lemma session_core_cases:
  assumes st: "session_step k s s'" and inv: "session_core k s"
  shows "same_log s s' \<or> (\<exists>e. admitted k s e \<and> same_log (add e s) s')"
proof -
  from inv have k: "codec_ok k" and wf: "session_wf s" and tip: "tip_held s" by (auto simp: session_core_def)
  have move: "same_log (add e s) (moveLeafFor (add e s) e)" for e
    by (rule same_log_moveLeafFor) (simp add: held_def)
  have committed: "same_log s t \<or> (\<exists>e. admitted k s e \<and> same_log (add e s) t)" if "Commit k now s eo = (t, res)"
    for now eo t res
    using k that by (cases rule: Commit_cases) (auto intro: move)
  from st show ?thesis
  proof (cases rule: session_step.cases)
    case (commit now eo res)
    then show ?thesis by (rule committed)
  next
    case (append now eo res')
    with Append_Commit [of k now s eo s' res'] committed show ?thesis by (cases "Commit k now s eo") auto
  next
    case (extend now eo res)
    show ?thesis
    proof (cases "\<exists>r. res = Inr r \<and> r_Outcome r \<noteq> Held")
      case True
      with extend Extend_cases [OF k] same_log_extend_with [OF inv] show ?thesis by metis
    next
      case False
      with extend have "s' = s" by (auto simp: Extend_def split: sum.splits prod.splits if_splits)
      then show ?thesis by simp
    qed
  next
    case (head now expected to e)
    with commitHead_cases [OF k] move show ?thesis by blast
  next
    case (branch i)
    then show ?thesis by (auto simp: Branch_def held_def split: if_splits intro!: same_log_leaf)
  next
    case reset
    then show ?thesis by (auto simp: ResetLeaf_def intro: same_log_leaf)
  next
    case (raise format)
    then show ?thesis by (auto intro: same_log_raise)
  next
    case needed
    with fst_LeafMark(1) [of s] same_log_caughtUp [OF wf tip] show ?thesis by auto
  next
    case (before e)
    with fst_LeafMark(2) [of s e] same_log_caughtUp [OF wf tip] show ?thesis by auto
  qed
qed

lemma session_step_cases: "session_step k s s' \<Longrightarrow> session_inv k s \<Longrightarrow>
  same_log s s' \<or> (\<exists>e. admitted k s e \<and> same_log (add e s) s')"
  by (rule session_core_cases) (auto simp: session_inv_core)

section \<open>The invariant and the interpretation\<close>

lemma session_core_step: "session_step k s s' \<Longrightarrow> session_core k s \<Longrightarrow> session_core k s'"
  using session_core_cases session_core_same session_core_add by metis

lemma session_inv_step: "session_step k s s' \<Longrightarrow> session_inv k s \<Longrightarrow> session_inv k s'"
  using session_step_cases session_inv_same session_inv_add by metis

lemma session_step_grows: "session_step k s s' \<Longrightarrow> session_inv k s \<Longrightarrow> prefix (se_entries s) (se_entries s')"
  by (drule (1) session_step_cases) (auto simp: same_log_def)

lemma session_wf_get:
  "session_wf s \<Longrightarrow> Entry s i = Some e \<longleftrightarrow> e \<in> set (se_entries s) \<and> e_id e = i"
  using index_of_mem [of "se_entries s" e] index_of_Some [of "se_entries s" i e]
  by (auto simp: Entry_def session_wf_def tree_wf_def)

interpretation session_log: append_only_store "session_step k" "session_inv k" se_entries e_id Entry for k
proof unfold_locales
  fix s s' :: session and e i
  show "session_step k s s' \<Longrightarrow> session_inv k s \<Longrightarrow> session_inv k s'" by (rule session_inv_step)
  show "session_step k s s' \<Longrightarrow> session_inv k s \<Longrightarrow> prefix (se_entries s) (se_entries s')"
    by (rule session_step_grows)
  show "session_inv k s \<Longrightarrow> distinct (map e_id (se_entries s))"
    by (simp add: session_inv_def session_wf_def tree_wf_def)
  show "session_inv k s \<Longrightarrow> Entry s i = Some e \<longleftrightarrow> e \<in> set (se_entries s) \<and> e_id e = i"
    by (simp add: session_inv_def session_wf_get)
qed

section \<open>Fork\<close>

text \<open>A path of a fork is the origin's path, and every call on it is in the prefix.\<close>

lemma Fork_path:
  assumes wf: "session_wf origin" and f: "Fork payload newID now origin at h = Inr s" and i: "held s i"
  shows "path s i = path origin i"
proof -
  note F = Fork_cases [OF wf f]
  note pc = path_chain [OF wf disjI2, OF F(4)]
  have mono: "se_byID origin j = Some e" if "se_byID s j = Some e" for j e
  proof -
    from that F(1,2) have "e \<in> set (path origin at)" "e_id e = j"
      by (auto simp: session_wf_def dest: index_of_Some)
    with pc(2) session_wf_get [OF wf, of j e] show ?thesis by (auto simp: Entry_def)
  qed
  from path_chain(1) [OF F(1)] i have "chain (se_byID s) i (path s i)" by (auto simp: held_def)
  from path_chain_eq [OF wf chain_mono [OF this mono]] show ?thesis by simp
qed

lemma session_core_Fork:
  assumes inv: "session_core k origin" and f: "Fork payload newID now origin at h = Inr s"
  shows "session_core k s"
proof -
  from inv have i: "codec_ok k" "session_wf origin" by (auto simp: session_core_def)
  note F = Fork_cases [OF i(2) f]
  have "se_read (fold add_prefix p t) = se_read t" for p t
    by (induction p arbitrary: t) (simp_all add: add_prefix_def Let_def)
  with f have "se_read s = None"
    by (auto simp: Fork_def Let_def then_res_Inr New_def empty_session_def split: if_splits)
  moreover have "held s at" using F(1,3) by (auto simp: session_wf_def held_def)
  ultimately show ?thesis using i F(1,6) by (simp add: session_core_def base_held_def tip_held_def)
qed

lemma session_inv_Fork:
  assumes inv: "session_inv k origin" and f: "Fork payload newID now origin at h = Inr s"
  shows "session_inv k s"
proof -
  from inv have i: "codec_ok k" "session_wf origin" "indexes_ok origin" "paths_ok (k_canon k) origin"
    by (auto simp: session_inv_def)
  note F = Fork_cases [OF i(2) f]
  have wn: "well_named (path origin j)" for j using i(4) by (simp add: paths_ok_def path_ok_def)
  have "path_ok (k_canon k) s (path s j)" for j
  proof (cases "held s j")
    case True
    have "ca_EntryID c \<in> se_prefix s" if "c \<in> set (Calls (k_canon k) (path s j))" for c
    proof -
      from that have "ca_Entry c \<in> set (call_entries (path s j))"
        by (auto simp: call_entries_eq [symmetric, of _ "k_canon k"])
      from call_entries_mem [OF this] path_chain(2) [OF F(1), of j] True F(2)
      have "ItemEntry (ca_Entry c) \<in> set (path origin at)" by (auto simp: held_def)
      from imageI [OF this, of e_id] F(5) show ?thesis by simp
    qed
    with i(4) Fork_path [OF i(2) f True] show ?thesis
      by (auto simp: paths_ok_def path_ok_def answer_placed_def promised_def)
  next
    case False
    then show ?thesis by (simp add: held_def path_missing)
  qed
  then show ?thesis
    using inv session_core_Fork [OF _ f] indexes_ok_Fork [OF i(2,3) f wn] by (simp add: session_inv_core paths_ok_def)
qed

lemma session_inv_New [simp]: "codec_ok k \<Longrightarrow> session_inv k (New payload newID now h)"
proof -
  have "path (New payload newID now h) i = []" for i
    by (cases "i = []") (simp_all add: path_missing New_def empty_session_def)
  then show "codec_ok k \<Longrightarrow> session_inv k (New payload newID now h)"
    by (simp add: session_inv_def paths_ok_def base_held_def tip_held_def) (simp add: New_def empty_session_def)
qed

lemma reachable_inv:
  assumes "reachable k s" "codec_ok k"
  shows "session_inv k s"
  using assms(1)
proof induction
  case (step s s')
  then show ?case by (blast intro: session_inv_step)
next
  case (fork origin payload newID now at h s)
  then show ?case by (blast intro: session_inv_Fork)
qed (simp add: assms(2))

section \<open>Paths\<close>

text \<open>A chain, spelt out: each entry is the parent of the next, the first hangs from the root.\<close>

lemma chain_links:
  assumes "chain m i p" and ids: "\<And>j e. m j = Some e \<Longrightarrow> e_id e = j"
  shows "(i \<noteq> [] \<longrightarrow> p \<noteq> [] \<and> e_id (last p) = i \<and> e_parent (hd p) = []) \<and>
    (\<forall>j. Suc j < length p \<longrightarrow> e_parent (p ! Suc j) = e_id (p ! j))"
  using assms(1)
proof induction
  case (step i e p)
  have "e_parent e = [] \<longrightarrow> p = []" using step.hyps by (auto elim: chain.cases)
  moreover have "last p = p ! j" if "Suc j = length p" for j
    using that by (metis diff_Suc_1 last_conv_nth length_0_conv nat.distinct(1))
  ultimately show ?case
    using step.IH ids [OF step.hyps(2)]
    by (cases "e_parent e = []") (auto simp: nth_append hd_append less_Suc_eq)
qed simp

lemma path_same: "same_log s s' \<Longrightarrow> path s' i = path s i"
  by (simp add: same_log_def path_def)

lemma path_session_step:
  assumes st: "session_step k s s'" and inv: "session_inv k s" and i: "held s i"
  shows "path s' i = path s i \<and> held s' i"
  using session_step_cases [OF st inv]
proof
  assume "same_log s s'"
  with i path_same [of s s' i] show ?thesis by (auto simp: same_log_def held_def)
next
  assume "\<exists>e. admitted k s e \<and> same_log (add e s) s'"
  then obtain e where e: "admitted k s e" "same_log (add e s) s'" by blast
  from inv have "session_wf s" by (simp add: session_inv_def)
  from path_add [OF this admitted_addable [OF e(1)], of i] path_same [OF e(2), of i] held_add [OF i, of e] e(2) i
  show ?thesis by (auto simp: same_log_def held_def)
qed

lemma path_session_steps:
  assumes "(session_step k)\<^sup>*\<^sup>* s s'" and inv: "session_inv k s" and i: "held s i"
  shows "path s' i = path s i \<and> held s' i"
  using assms(1)
proof (induction rule: rtranclp_induct)
  case (step t u)
  from path_session_step [OF step.hyps(2) session_log.steps_keep [OF step.hyps(1) inv]] step.IH show ?case by simp
qed (simp add: i)

end
