(* ===== verification/Examples.thy ===== *)
theory Examples
  imports Session_Steps
begin

text \<open>
  Concrete sessions the theorems are applied to.  The codec is the simplest one that meets what the
  session relies on: an entry's ID is a hash in the format's notation, here a letter the timestamp
  chooses, and nothing is normalised.
\<close>

section \<open>A codec\<close>

definition ex_codec :: codec where
  "ex_codec = \<lparr>k_rewriteEnvelope = (\<lambda>u. Inr (un_Type u, un_Raw u)), k_normaliseEntry = Inr,
     k_EntryHashes = (\<lambda>e. Inr (''sha256:'' @ [char_of (96 + b_Timestamp (base_of e) mod 26)], [])),
     k_splitMembers = (\<lambda>_. None),
     k_canon = (\<lambda>i. case i of Some (FunctionCallOutput c out r) \<Rightarrow> Some (od_Text out) | _ \<Rightarrow> Some []),
     k_triggerCanon = (\<lambda>t. Some (tr_Kind t)), k_HashText = (\<lambda>t. ''h:'' @ t)\<rparr>"

lemma ex_codec_ok: "codec_ok ex_codec"
proof -
  have "\<exists>b. l = l\<lparr>lb_base := b\<rparr>" for l :: label_entry by (rule exI [of _ "lb_base l"]) simp
  moreover have "plain_id (''sha256:'' @ [char_of (96 + n mod 26)])" for n :: nat
    by (simp add: plain_id_def has_prefix_def)
  ultimately show ?thesis by (simp add: codec_ok_def ex_codec_def)
qed

section \<open>Sessions\<close>

definition ex_header :: header where
  "ex_header = \<lparr>h_Format = [], h_ID = ''s1'', h_CreatedAt = 1, h_Payload = ''openresponses/1'',
     h_Harness = None, h_Records = [''dispatch''], h_CWD = [], h_ParentSession = [], h_SpawnedBy = [],
     h_Base = [], h_Media = [], h_Redacted = False, h_RedactedFrom = None, h_Extra = []\<rparr>"

definition ex_start :: session where
  "ex_start = New ''openresponses/1'' ''s1'' 1 ex_header"

text \<open>Appends at the ticks 1, 2, ... of the clock.\<close>

fun ex_appends :: "nat \<Rightarrow> entry list \<Rightarrow> session \<Rightarrow> session" where
  "ex_appends t [] s = s"
| "ex_appends t (e # es) s = ex_appends (Suc t) es (fst (Append ex_codec t s (Some e)))"

definition ex_output :: "string \<Rightarrow> item" where
  "ex_output txt = FunctionCallOutput ''c1'' \<lparr>od_Text = txt, od_Parts = []\<rparr> []"

text \<open>A call, its dispatch, its result, and its output.\<close>

definition ex_calls :: "entry list" where
  "ex_calls =
     [ItemEntry (NewItemEntry (FunctionCall ''c1'' ''{}'' [])),
      DispatchEntry (NewDispatch ''c1'' ''sha256:a''),
      ResultEntry (NewResult ''c1'' ''sha256:a'' (ex_output ''42'')),
      ItemEntry (NewItemEntry (ex_output ''42''))]"

definition ex_session :: session where
  "ex_session = ex_appends 1 ex_calls ex_start"

text \<open>
  The value of a session is computed once, entry by entry, and the computations after that start
  from it: the equation is the one the code simplifier unfolds from there on.
\<close>

lemma by_value:
  assumes "\<And>Q. Q x \<longrightarrow> Q y"
  shows "x = y"
  using assms [of "\<lambda>z. x = z"] by simp

definition ex_stamp :: "eid \<Rightarrow> eid \<Rightarrow> nat \<Rightarrow> entry_base" where
  "ex_stamp i p t = new_base\<lparr>b_ID := i, b_Parent := p, b_Timestamp := t\<rparr>"

definition ex_a :: entry where
  "ex_a = upd_base (\<lambda>_. ex_stamp ''sha256:a'' [] 1) (ItemEntry (NewItemEntry (FunctionCall ''c1'' ''{}'' [])))"

definition ex_b :: dispatch_entry where
  "ex_b = (NewDispatch ''c1'' ''sha256:a'')\<lparr>dp_base := ex_stamp ''sha256:b'' ''sha256:a'' 2\<rparr>"

definition ex_c :: entry where
  "ex_c = upd_base (\<lambda>_. ex_stamp ''sha256:c'' ''sha256:b'' 3) (ResultEntry (NewResult ''c1'' ''sha256:a'' (ex_output ''42'')))"

definition ex_d :: entry where
  "ex_d = upd_base (\<lambda>_. ex_stamp ''sha256:d'' ''sha256:c'' 4) (ItemEntry (NewItemEntry (ex_output ''42'')))"

lemma ex_appends_append:
  "ex_appends t (xs @ ys) s = ex_appends (t + length xs) ys (ex_appends t xs s)"
  by (induction xs arbitrary: t s) simp_all

definition ex_one :: session where
  "ex_one = ex_appends 1 (take 1 ex_calls) ex_start"

definition ex_half :: session where
  "ex_half = ex_appends 1 (take 2 ex_calls) ex_start"

definition ex_whole :: session where
  "ex_whole = ex_appends 3 (drop 2 ex_calls) ex_half"

lemma ex_one_value [code]:
  "ex_one = (empty_session (ex_header\<lparr>h_Format := Format\<rparr>))\<lparr>
     se_entries := [ex_a], se_byID := [''sha256:a'' \<mapsto> ex_a], se_children := (\<lambda>_. [])([] := [''sha256:a'']),
     se_leaf := ''sha256:a'', se_callIDs := {''c1''}\<rparr>"
  by (rule by_value) (code_simp, rule impI, assumption)

lemma ex_half_value [code]:
  "ex_half = (empty_session (ex_header\<lparr>h_Format := Format\<rparr>))\<lparr>
     se_entries := [ex_a, DispatchEntry ex_b], se_byID := [''sha256:a'' \<mapsto> ex_a, ''sha256:b'' \<mapsto> DispatchEntry ex_b],
     se_children := (\<lambda>_. [])([] := [''sha256:a''], ''sha256:a'' := [''sha256:b'']), se_leaf := ''sha256:b'',
     se_callIDs := {''c1''}, se_dispatches := (\<lambda>_. [])(''sha256:a'' := [ex_b])\<rparr>"
  by (rule by_value) (code_simp, rule impI, assumption)

lemma ex_session_whole: "ex_session = ex_whole"
  using ex_appends_append [of 1 "take 2 ex_calls" "drop 2 ex_calls" ex_start]
  by (simp add: ex_session_def ex_whole_def ex_half_def ex_calls_def eval_nat_numeral)

lemma ex_whole_value [code]:
  "ex_whole = (empty_session (ex_header\<lparr>h_Format := Format\<rparr>))\<lparr>
     se_entries := [ex_a, DispatchEntry ex_b, ex_c, ex_d],
     se_byID := [''sha256:a'' \<mapsto> ex_a, ''sha256:b'' \<mapsto> DispatchEntry ex_b, ''sha256:c'' \<mapsto> ex_c, ''sha256:d'' \<mapsto> ex_d],
     se_children := (\<lambda>_. [])([] := [''sha256:a''], ''sha256:a'' := [''sha256:b''], ''sha256:b'' := [''sha256:c''],
       ''sha256:c'' := [''sha256:d'']),
     se_leaf := ''sha256:d'', se_callIDs := {''c1''}, se_results := {''c1''},
     se_dispatches := (\<lambda>_. [])(''sha256:a'' := [ex_b])\<rparr>"
  by (rule by_value) (code_simp, rule impI, assumption)

declare ex_session_whole [code]

lemma ex_appends_steps: "(session_step ex_codec)\<^sup>*\<^sup>* s (ex_appends t es s)"
proof (induction es arbitrary: t s)
  case (Cons e es)
  obtain s' r where a: "Append ex_codec t s (Some e) = (s', r)" by fastforce
  from session_step.append [OF a] Cons [of s' "Suc t"] a show ?case by simp
qed simp

lemma reachable_steps: "(session_step k)\<^sup>*\<^sup>* s s' \<Longrightarrow> reachable k s \<Longrightarrow> reachable k s'"
  by (induction rule: rtranclp_induct) (auto intro: reachable.step)

lemma ex_reachable: "reachable ex_codec (ex_appends t es ex_start)"
  using reachable_steps [OF ex_appends_steps] reachable.start by (auto simp: ex_start_def)

lemma ex_session_reachable: "reachable ex_codec ex_session"
  by (simp add: ex_session_def ex_reachable)

lemma ex_session_ids: "map e_id (se_entries ex_session) = [''sha256:a'', ''sha256:b'', ''sha256:c'', ''sha256:d'']"
  by code_simp

lemma ex_session_leaf: "se_leaf ex_session = ''sha256:d''"
  by code_simp

lemma ex_session_path: "map e_id (path ex_session ''sha256:c'') = [''sha256:a'', ''sha256:b'', ''sha256:c'']"
  by code_simp

lemma ex_held: "held ex_session ''sha256:c''"
  by code_simp

text \<open>The same session in two stretches.\<close>

lemma ex_half_reachable: "reachable ex_codec ex_half"
  by (simp add: ex_half_def ex_reachable)

lemma ex_half_steps: "(session_step ex_codec)\<^sup>*\<^sup>* ex_half ex_whole"
  by (simp add: ex_whole_def ex_appends_steps)

lemma ex_half_entry: "\<exists>e. Entry ex_half ''sha256:b'' = Some e"
proof -
  have "Entry ex_half ''sha256:b'' \<noteq> None" by code_simp
  then show ?thesis by blast
qed

lemma ex_whole_ids: "map e_id (se_entries ex_whole) = [''sha256:a'', ''sha256:b'', ''sha256:c'', ''sha256:d'']"
  by code_simp

section \<open>Moves, marks and branches\<close>

text \<open>The head moved back to the call, at tick 7 of the clock.\<close>

definition ex_back :: "session \<times> entry res" where
  "ex_back = commitHead ex_codec 7 ex_session ''sha256:d'' ''sha256:a''"

text \<open>Moved forward at tick 8, and back again with the clock at 7: the label is one it holds.\<close>

definition ex_forth :: "session \<times> entry res" where
  "ex_forth = commitHead ex_codec 8 (fst ex_back) ''sha256:a'' ''sha256:d''"

definition ex_again :: "session \<times> entry res" where
  "ex_again = commitHead ex_codec 7 (fst ex_forth) ''sha256:d'' ''sha256:a''"

text \<open>The reader's side: a line taken in by \<open>Extend\<close>.\<close>

definition ex_extend :: "session \<times> result res" where
  "ex_extend = Extend ex_codec 3 ex_half (Some (ex_calls ! 2))"

text \<open>A branch off the head: the head stays, and the last line is the branch.\<close>

definition ex_side :: entry where
  "ex_side = ItemEntry ((NewItemEntry (Message ''user'' [] []))\<lparr>it_base := new_base\<lparr>b_Parent := ''sha256:a''\<rparr>\<rparr>)"

definition ex_side_filled :: entry where
  "ex_side_filled = upd_base (\<lambda>b. b\<lparr>b_ID := ''sha256:e'', b_Timestamp := 5\<rparr>) ex_side"

definition ex_branched :: session where
  "ex_branched = fst (Commit ex_codec 5 ex_half (Some ex_side))"

definition ex_marked :: "session \<times> result res" where
  "ex_marked = Commit ex_codec 6 ex_branched (Some (LabelEntry (leafMark ex_branched)))"

text \<open>The same branch with the mark ahead of it, and a null label on the head in its place.\<close>

definition ex_ahead :: "session \<times> result res" where
  "ex_ahead = Commit ex_codec 4 ex_half (Some (LabelEntry (leafMark ex_half)))"

definition ex_mark :: entry where
  "ex_mark = LabelEntry ((NewLabelEntry ''sha256:b'' LeafLabel)\<lparr>lb_base := ex_stamp ''sha256:d'' ''sha256:b'' 4\<rparr>)"

definition ex_null :: entry where
  "ex_null = LabelEntry \<lparr>lb_base = new_base\<lparr>b_ID := ''sha256:e'', b_Parent := ''sha256:a'', b_Timestamp := 5\<rparr>,
     lb_Target = ''sha256:b'', lb_Label = None\<rparr>"

text \<open>A fork of it at the result, and one entry of its own.\<close>

definition ex_forking :: "session res" where
  "ex_forking = Fork ''openresponses/1'' ''s2'' 9 ex_session ''sha256:c'' (ex_header\<lparr>h_ID := ''s2''\<rparr>)"

definition ex_fork :: session where
  "ex_fork = (case ex_forking of Inr s \<Rightarrow> s | Inl x \<Rightarrow> ex_start)"

definition ex_forked :: session where
  "ex_forked = ex_appends 10 [ItemEntry (NewItemEntry (Message ''user'' [] []))] ex_fork"

text \<open>What the operations return, in one computation.\<close>

abbreviation outcome_of :: "result res \<Rightarrow> unit + eid \<times> outcome" where
  "outcome_of \<equiv> map_sum (\<lambda>_. ()) (\<lambda>r. (r_ID r, r_Outcome r))"

abbreviation id_list :: "session \<Rightarrow> eid list" where
  "id_list s \<equiv> map e_id (se_entries s)"

lemma ex_results:
  "(ex_branched, ex_ahead, outcome_of (snd ex_marked), outcome_of (snd ex_extend), map_sum (\<lambda>_. ()) e_id (snd ex_back),
     map_sum (\<lambda>_. ()) e_id (snd ex_again), id_list (fst ex_forth), id_list (fst ex_again), isl ex_forking,
     id_list ex_forked, h_Base (se_header ex_forked), outcome_of (snd (Commit ex_codec 3 ex_half (Some (ex_calls ! 2))))) =
   (ex_half\<lparr>se_entries := [ex_a, DispatchEntry ex_b, ex_side_filled],
      se_byID := [''sha256:a'' \<mapsto> ex_a, ''sha256:b'' \<mapsto> DispatchEntry ex_b, ''sha256:e'' \<mapsto> ex_side_filled],
      se_children := (\<lambda>_. [])([] := [''sha256:a''], ''sha256:a'' := [''sha256:b''], ''sha256:a'' := [''sha256:b'', ''sha256:e''])\<rparr>,
    (ex_half\<lparr>se_entries := [ex_a, DispatchEntry ex_b, ex_mark],
      se_byID := [''sha256:a'' \<mapsto> ex_a, ''sha256:b'' \<mapsto> DispatchEntry ex_b, ''sha256:d'' \<mapsto> ex_mark],
      se_children := (\<lambda>_. [])([] := [''sha256:a''], ''sha256:a'' := [''sha256:b''], ''sha256:b'' := [''sha256:d''])\<rparr>,
      Inr \<lparr>r_ID = ''sha256:d'', r_Outcome = LeafMoved\<rparr>),
    Inr (''sha256:f'', LeafMoved), Inr (''sha256:c'', Continued), Inr ''sha256:g'', Inr ''sha256:g'',
    [''sha256:a'', ''sha256:b'', ''sha256:c'', ''sha256:d'', ''sha256:g'', ''sha256:h''],
    [''sha256:a'', ''sha256:b'', ''sha256:c'', ''sha256:d'', ''sha256:g'', ''sha256:h'', ''sha256:g''], False,
    [''sha256:a'', ''sha256:b'', ''sha256:c'', ''sha256:j''], ''sha256:c'', Inr (''sha256:c'', Continued))"
  by (rule by_value) (code_simp, rule impI, assumption)

lemma ex_branched_value [code]:
  "ex_branched = ex_half\<lparr>se_entries := [ex_a, DispatchEntry ex_b, ex_side_filled],
     se_byID := [''sha256:a'' \<mapsto> ex_a, ''sha256:b'' \<mapsto> DispatchEntry ex_b, ''sha256:e'' \<mapsto> ex_side_filled],
     se_children := (\<lambda>_. [])([] := [''sha256:a''], ''sha256:a'' := [''sha256:b''], ''sha256:a'' := [''sha256:b'', ''sha256:e''])\<rparr>"
  using ex_results by (simp only: prod.inject)

lemma ex_ahead_value [code]:
  "ex_ahead = (ex_half\<lparr>se_entries := [ex_a, DispatchEntry ex_b, ex_mark],
     se_byID := [''sha256:a'' \<mapsto> ex_a, ''sha256:b'' \<mapsto> DispatchEntry ex_b, ''sha256:d'' \<mapsto> ex_mark],
     se_children := (\<lambda>_. [])([] := [''sha256:a''], ''sha256:a'' := [''sha256:b''], ''sha256:b'' := [''sha256:d''])\<rparr>,
     Inr \<lparr>r_ID = ''sha256:d'', r_Outcome = LeafMoved\<rparr>)"
  using ex_results by (simp only: prod.inject)

lemma ex_outcomes:
  "outcome_of (snd ex_marked) = Inr (''sha256:f'', LeafMoved)" "outcome_of (snd ex_extend) = Inr (''sha256:c'', Continued)"
  "map_sum (\<lambda>_. ()) e_id (snd ex_back) = Inr ''sha256:g''" "map_sum (\<lambda>_. ()) e_id (snd ex_again) = Inr ''sha256:g''"
  "outcome_of (snd (Commit ex_codec 3 ex_half (Some (ex_calls ! 2)))) = Inr (''sha256:c'', Continued)" "\<not> isl ex_forking"
  using ex_results by (simp_all only: prod.inject) simp_all

lemma ex_moved_ids:
  "id_list (fst ex_forth) = [''sha256:a'', ''sha256:b'', ''sha256:c'', ''sha256:d'', ''sha256:g'', ''sha256:h'']"
  "id_list (fst ex_again) = [''sha256:a'', ''sha256:b'', ''sha256:c'', ''sha256:d'', ''sha256:g'', ''sha256:h'', ''sha256:g'']"
  using ex_results by (simp_all only: prod.inject)

lemma ex_forked_ids: "id_list ex_forked = [''sha256:a'', ''sha256:b'', ''sha256:c'', ''sha256:j'']"
  and ex_forked_base: "h_Base (se_header ex_forked) = ''sha256:c''"
  using ex_results by (simp_all only: prod.inject)

lemma Inr_outcome:
  assumes "outcome_of (snd x) = Inr (i, c)"
  shows "\<exists>r. x = (fst x, Inr r) \<and> r_ID r = i \<and> r_Outcome r = c"
  using assms by (cases x; cases "snd x") auto

lemma ex_back_ok: "\<exists>e. ex_back = (fst ex_back, Inr e) \<and> e_id e = ''sha256:g''"
proof -
  from ex_outcomes(3) obtain e where "snd ex_back = Inr e" "e_id e = ''sha256:g''" by (cases "snd ex_back") auto
  then show ?thesis by (metis prod.collapse)
qed

lemma ex_session_fresh: "Entry ex_session ''sha256:g'' = None"
  by code_simp

lemma ex_extend_ok: "\<exists>r. ex_extend = (fst ex_extend, Inr r) \<and> r_ID r = ''sha256:c'' \<and> r_Outcome r \<noteq> Held"
  using Inr_outcome [OF ex_outcomes(2)] by auto

lemma ex_half_wf: "session_wf ex_half"
  using reachable_inv [OF ex_half_reachable ex_codec_ok] by (simp add: session_inv_def)

lemma ex_half_read: "read_inv ex_half"
  by (simp add: read_inv_def ex_half_value empty_session_def)

lemma ex_half_facts: "no_forward ex_half ''sha256:c''" "mayRestOn ex_half (se_leaf ex_half)" "se_leaf ex_half = ''sha256:b''"
  by code_simp+

lemma ex_branched_reachable: "reachable ex_codec ex_branched"
  unfolding ex_branched_def
  by (rule reachable.step [OF ex_half_reachable]) (rule session_step.commit [OF prod.collapse [symmetric]])

lemma ex_branched_wf: "session_wf ex_branched"
  using reachable_inv [OF ex_branched_reachable ex_codec_ok] by (simp add: session_inv_def)

lemma ex_branched_read: "read_inv ex_branched"
  by (simp add: read_inv_def ex_branched_value ex_half_value empty_session_def)

lemma ex_branched_facts:
  "mayRestOn ex_branched (se_leaf ex_branched)" "se_leaf ex_branched = ''sha256:b''"
  "resolveLeaf ex_branched = ''sha256:e''" "id_list ex_branched = [''sha256:a'', ''sha256:b'', ''sha256:e'']"
  by code_simp+

lemma ex_marked_ok: "\<exists>r. ex_marked = (fst ex_marked, Inr r) \<and> r_Outcome r \<noteq> Held"
  using Inr_outcome [OF ex_outcomes(1)] by auto

lemma ex_ahead_ok: "\<exists>r. ex_ahead = (fst ex_ahead, Inr r) \<and> r_Outcome r \<noteq> Held"
  by (simp add: ex_ahead_value)

lemma ex_before: "snd (LeafMarkBefore ex_half ex_side_filled) = Some (leafMark ex_half)"
proof -
  have "\<not> Option.is_none (snd (LeafMarkBefore ex_half ex_side_filled))" by code_simp
  moreover have "snd (LeafMarkBefore ex_half ex_side_filled) \<in> {None, Some (leafMark ex_half)}"
    by (auto simp: LeafMarkBefore_def Let_def)
  ultimately show ?thesis by (auto simp: Option.is_none_def)
qed

lemma ex_side_addable: "addable (fst ex_ahead) ex_side_filled" "addable ex_half ex_side_filled"
  by code_simp+

lemma ex_fork_eq:
  "Fork ''openresponses/1'' ''s2'' 9 ex_session ''sha256:c'' (ex_header\<lparr>h_ID := ''s2''\<rparr>) = Inr ex_fork"
  using ex_outcomes(6) by (auto simp: ex_fork_def ex_forking_def split: sum.splits)

lemma ex_forked_reachable: "reachable ex_codec ex_forked"
  unfolding ex_forked_def
  using reachable_steps [OF ex_appends_steps reachable.fork [OF ex_session_reachable ex_fork_eq]] by blast

end
