(* ===== verification/File_Order.thy ===== *)
theory File_Order
  imports Session_Steps
begin

text \<open>
  What the order of the entries of a session promises a reader of its file: a path is read off the
  file in order, in a session with a base the prefix comes first, as one path down to the base, and
  every later entry hangs from the base or from a later entry, and every convergence reference names
  an entry earlier in the file.
\<close>

section \<open>Paths run in file order\<close>

lemma chain_subseq:
  "tree_wf es \<Longrightarrow> chain (index_of es) i p \<Longrightarrow> subseq p es"
proof (induction es arbitrary: i p rule: rev_induct)
  case Nil
  then show ?case by (auto elim: chain.cases simp: index_of_def)
next
  case (snoc e es)
  let ?m = "index_of (es @ [e])"
  from snoc.prems(1) have wf: "tree_wf es" "e_id e \<notin> set (map e_id es)" "e_parent e = [] \<or> e_parent e \<in> set (map e_id es)"
    by (auto simp: tree_wf_snoc)
  have mono: "?m j = Some x" if "index_of es j = Some x" for j x
    using that wf(2) index_of_Some [OF that] index_of_None [of es "e_id e"] by (auto simp: index_of_snoc)
  have old: "subseq q es" if q: "chain ?m j q" "j = [] \<or> j \<in> set (map e_id es)" for j q
  proof -
    from chain_exists [OF wf(1) q(2)] obtain q' where q': "chain (index_of es) j q'" by blast
    have "q = q'" by (rule chain_det [OF q(1) chain_mono [OF q' mono]])
    with snoc.IH [OF wf(1) q'] show ?thesis by simp
  qed
  from snoc.prems(2) show ?case
  proof (cases rule: chain.cases)
    case root
    then show ?thesis by simp
  next
    case (step x q)
    show ?thesis
    proof (cases "i \<in> set (map e_id es)")
      case True
      with old [OF snoc.prems(2)] show ?thesis by (simp add: subseq_rev_drop_many)
    next
      case False
      with step index_of_Some [of "es @ [e]" i x] have "x = e" by auto
      with step old [of "e_parent e" q] wf(3) show ?thesis by (simp add: subseq_append)
    qed
  qed
qed

lemma path_subseq: "session_wf s \<Longrightarrow> subseq (path s i) (se_entries s)"
  using path_chain(1) [of s i] chain_subseq [of "se_entries s" i "path s i"] path_missing [of i s]
  by (cases "i = [] \<or> se_byID s i \<noteq> None") (auto simp: session_wf_def)

text \<open>In a list without repetition the parts of a subsequence around an element are subsequences of the parts.\<close>

lemma subseq_split:
  assumes "subseq (c @ x # d) (a @ x # b)" "x \<notin> set a" "x \<notin> set b" "x \<notin> set c"
  shows "subseq c a"
proof -
  from assms(1) obtain e f where ef: "a @ x # b = e @ f" "subseq c e" "subseq (x # d) f"
    by (meson list_emb_appendD)
  from ef(3) have "x \<in> set f" by (auto dest: list_emb_set)
  with ef(1) assms(2,3) have "prefix e a"
    by (auto simp: append_eq_append_conv2 prefix_def Cons_eq_append_conv)
  with ef(2) show ?thesis by (auto simp: prefix_def intro: subseq_rev_drop_many)
qed

section \<open>The prefix comes first\<close>

definition own_hangs :: "eid \<Rightarrow> eid set \<Rightarrow> entry \<Rightarrow> bool" where
  "own_hangs base pre e \<longleftrightarrow> e_parent e \<noteq> [] \<and> (e_parent e = base \<or> e_parent e \<notin> pre)"

definition base_shape :: "session \<Rightarrow> bool" where
  "base_shape s \<longleftrightarrow>
     (if h_Base (se_header s) = [] then se_prefix s = {}
      else se_entries s \<noteq> [] \<longrightarrow>
        se_prefix s = set (map e_id (path s (h_Base (se_header s)))) \<and>
        se_byID s (h_Base (se_header s)) \<noteq> None \<and>
        (\<exists>own. se_entries s = path s (h_Base (se_header s)) @ own \<and>
           list_all (own_hangs (h_Base (se_header s)) (se_prefix s)) own))"

lemma base_shape_same: "same_log s s' \<Longrightarrow> base_shape s \<Longrightarrow> base_shape s'"
  using path_same [of s s'] unfolding base_shape_def by (auto simp: same_log_def)

lemma base_shape_add:
  assumes wf: "session_wf s" and a: "admitted k s e" and b: "base_shape s"
  shows "base_shape (add e s)"
proof (cases "h_Base (se_header s) = []")
  case True
  with b show ?thesis by (simp add: base_shape_def)
next
  case False
  let ?b = "h_Base (se_header s)"
  from a False have p: "e_parent e \<noteq> []" "se_byID s (e_parent e) \<noteq> None" "own_hangs ?b (se_prefix s) e"
    by (auto simp: admitted_def checkParentRule_def checkOwnParent_def own_hangs_def split: if_splits)
  then have "se_entries s \<noteq> []" using wf by (auto simp: session_wf_def index_of_def)
  with b False obtain own where o: "se_prefix s = set (map e_id (path s ?b))" "se_byID s ?b \<noteq> None"
      "se_entries s = path s ?b @ own" "list_all (own_hangs ?b (se_prefix s)) own"
    by (auto simp: base_shape_def)
  have "path (add e s) ?b = path s ?b" by (rule path_add [OF wf admitted_addable [OF a] disjI2 [OF o(2)]])
  moreover have "se_entries (add e s) = path s ?b @ (own @ [e])" using o(3) by simp
  moreover have "list_all (own_hangs ?b (se_prefix s)) (own @ [e])" using o(4) p(3) by simp
  ultimately show ?thesis
    using False o(1,2) unfolding base_shape_def by (auto intro!: exI [of _ "own @ [e]"])
qed

lemma base_shape_Fork:
  assumes wf: "session_wf origin" and f: "Fork payload newID now origin at h = Inr s"
  shows "base_shape s"
proof -
  note F = Fork_cases [OF wf f]
  have h: "se_byID s at \<noteq> None"
    using F(1,3,4) path_nonempty [OF wf F(4)] F(2) by (auto simp: session_wf_def)
  have "path s at = path origin at" using Fork_path [OF wf f] h by (simp add: held_def)
  with F h show ?thesis by (auto simp: base_shape_def)
qed

lemma base_shape_New: "base_shape (New payload newID now h)"
  by (simp add: base_shape_def) (simp add: New_def empty_session_def)

lemma reachable_shape:
  assumes "reachable k s" "codec_ok k"
  shows "base_shape s"
  using assms(1)
proof induction
  case (start payload newID now h)
  then show ?case by (rule base_shape_New)
next
  case (step s s')
  note inv = reachable_inv [OF step.hyps(1) assms(2)]
  then have "session_wf s" by (simp add: session_inv_def)
  with session_step_cases [OF step.hyps(2) inv] step.IH show ?case
    using base_shape_same base_shape_add by metis
next
  case (fork origin payload newID now at h s)
  from reachable_inv [OF fork.hyps(1) assms(2)] have "session_wf origin" by (simp add: session_inv_def)
  from base_shape_Fork [OF this fork.hyps(2)] show ?case .
qed

section \<open>Convergence references name earlier entries\<close>

text \<open>A reference into the session by its own ID is one into the session by none.\<close>

definition own_ref :: "string \<Rightarrow> entry_ref \<Rightarrow> entry_ref" where
  "own_ref session r = (if r_Session r = session then r\<lparr>r_Session := []\<rparr> else r)"

lemma own_ref_Entry [simp]: "r_Entry (own_ref session r) = r_Entry r"
  by (simp add: own_ref_def)

lemma refs_loop_ok:
  "refs_loop parent session has rs seen = Inr () \<longleftrightarrow>
     distinct (map (own_ref session) rs) \<and> set (map (own_ref session) rs) \<inter> seen = {} \<and>
     (\<forall>r\<in>set rs. r_Entry r \<noteq> [] \<and>
        (r_Session (own_ref session r) = [] \<longrightarrow> r_Entry r \<noteq> parent \<and> has (r_Entry r)))"
proof (induction rs arbitrary: seen)
  case (Cons r rs)
  show ?case
    using Cons.IH [of "insert (own_ref session r) seen"] unfolding refs_loop.simps own_ref_def [symmetric] Let_def
    by (auto simp del: refs_loop.simps)
qed simp

definition refs_ok :: "string \<Rightarrow> entry list \<Rightarrow> bool" where
  "refs_ok session es =
     list_all (\<lambda>i. checkRefs (e_parent (es ! i)) session (b_Parents (base_of (es ! i)))
                     (\<lambda>j. j \<in> set (map e_id (take i es))) = Inr ()) [0..<length es]"

lemma refs_ok_Nil [simp]: "refs_ok session []"
  by (simp add: refs_ok_def)

lemma refs_ok_snoc [simp]:
  "refs_ok session (es @ [e]) \<longleftrightarrow>
     refs_ok session es \<and>
     checkRefs (e_parent e) session (b_Parents (base_of e)) (\<lambda>j. j \<in> set (map e_id es)) = Inr ()"
  by (auto simp: refs_ok_def list_all_iff nth_append)

lemma refs_ok_split:
  "refs_ok session (a @ e # b) \<Longrightarrow>
     checkRefs (e_parent e) session (b_Parents (base_of e)) (\<lambda>j. j \<in> set (map e_id a)) = Inr ()"
  by (auto simp: refs_ok_def list_all_iff dest!: bspec [where x = "length a"])

lemma refs_ok_add:
  assumes wf: "session_wf s" and a: "admitted k s e" and r: "refs_ok (h_ID (se_header s)) (se_entries s)"
  shows "refs_ok (h_ID (se_header (add e s))) (se_entries (add e s))"
proof -
  have "(\<lambda>i. se_byID s i \<noteq> None) = (\<lambda>i. i \<in> set (map e_id (se_entries s)))"
    using wf index_of_None by (auto simp: session_wf_def fun_eq_iff)
  with a r show ?thesis by (simp add: admitted_def checkParents_def)
qed

lemma refs_ok_step:
  assumes st: "session_step k s s'" and inv: "session_inv k s" and r: "refs_ok (h_ID (se_header s)) (se_entries s)"
  shows "refs_ok (h_ID (se_header s')) (se_entries s')"
  using session_step_cases [OF st inv]
proof
  assume "same_log s s'"
  with r show ?thesis by (simp add: same_log_def)
next
  assume "\<exists>e. admitted k s e \<and> same_log (add e s) s'"
  then obtain e where e: "admitted k s e" "same_log (add e s) s'" by blast
  from inv have "session_wf s" by (simp add: session_inv_def)
  from refs_ok_add [OF this e(1) r] e(2) show ?thesis by (simp add: same_log_def)
qed

text \<open>Two entries of a path stand in it as they stand in the file.\<close>

lemma subseq_order_kept:
  assumes sub: "subseq (c @ e # d) (a @ e # b)" and d: "distinct (a @ e # b)" and x: "x \<in> set a" "x \<in> set (c @ e # d)"
  shows "x \<in> set c"
proof (rule ccontr)
  assume "x \<notin> set c"
  with x d obtain d1 d2 where d1: "d = d1 @ x # d2" by (auto simp: in_set_conv_decomp)
  from x(1) obtain a1 a2 where a: "a = a1 @ x # a2" by (auto simp: in_set_conv_decomp)
  have dist: "distinct (c @ e # d)" using sub d by (metis distinct_nthsI subseq_conv_nths)
  from sub have "subseq ((c @ e # d1) @ x # d2) (a1 @ x # (a2 @ e # b))" by (simp add: d1 a)
  from subseq_split [OF this] dist d have "subseq (c @ e # d1) a1" by (auto simp: d1 a)
  then have "e \<in> set a1" by (auto dest: list_emb_set)
  with d show False by (simp add: a)
qed

lemma refs_ok_Fork:
  assumes wf: "session_wf origin" and f: "Fork payload newID now origin at h = Inr s"
    and r: "refs_ok (h_ID (se_header origin)) (se_entries origin)"
    and fresh: "\<And>e x. e \<in> set (path origin at) \<Longrightarrow> x \<in> set (b_Parents (base_of e)) \<Longrightarrow> r_Session x \<noteq> h_ID (se_header s)"
  shows "refs_ok (h_ID (se_header s)) (se_entries s)"
proof -
  let ?p = "path origin at" and ?es = "se_entries origin"
  note F = Fork_cases [OF wf f]
  have alone: "prefixStandsAlone origin ?p = Inr ()"
    using f by (auto simp: Fork_def Let_def then_res_Inr split: if_splits)
  have "checkRefs (e_parent (?p ! i)) (h_ID (se_header s)) (b_Parents (base_of (?p ! i)))
      (\<lambda>j. j \<in> set (map e_id (take i ?p))) = Inr ()" if i: "i < length ?p" for i
  proof -
    let ?e = "?p ! i" and ?c = "take i ?p"
    have sub: "subseq ?p ?es" by (rule path_subseq [OF wf])
    have pe: "?p = ?c @ ?e # drop (Suc i) ?p" using i by (simp add: id_take_nth_drop)
    have dist: "distinct (map e_id ?es)" using wf by (simp add: session_wf_def tree_wf_def)
    have mem: "?e \<in> set ?p" using i by simp
    with sub have "?e \<in> set ?es" by (auto dest: list_emb_set)
    then obtain a b where es: "?es = a @ ?e # b" by (auto simp: in_set_conv_decomp)
    from refs_ok_split [of "h_ID (se_header origin)" a ?e b] r es
    have o: "distinct (map (own_ref (h_ID (se_header origin))) (b_Parents (base_of ?e)))"
      "\<And>x. x \<in> set (b_Parents (base_of ?e)) \<Longrightarrow> r_Entry x \<noteq> [] \<and>
         (r_Session (own_ref (h_ID (se_header origin)) x) = [] \<longrightarrow> r_Entry x \<noteq> e_parent ?e \<and> r_Entry x \<in> set (map e_id a))"
      by (auto simp: checkRefs_def refs_loop_ok)
    have own: "own_ref (h_ID (se_header s)) x = x" if "x \<in> set (b_Parents (base_of ?e))" for x
      using fresh [OF mem that] by (simp add: own_ref_def)
    have "r_Entry x \<in> set (map e_id ?c)" if x: "x \<in> set (b_Parents (base_of ?e))" "r_Session x = []" for x
    proof -
      from alone mem x have "onPath ?p (r_Entry x)"
        by (auto simp: prefixStandsAlone_def each_res_Inr then_res_Inr list_ex_iff)
      then obtain y where y: "y \<in> set ?p" "e_id y = r_Entry x" by (auto simp: onPath_def)
      from o(2) [OF x(1)] x(2) obtain z where z: "z \<in> set a" "e_id z = r_Entry x"
        by (auto simp: own_ref_def split: if_splits)
      from sub y(1) have "y \<in> set ?es" by (auto dest: list_emb_set)
      with z y(2) dist es have "y = z" by (metis Un_iff distinct_map inj_on_eq_iff set_append)
      with subseq_order_kept [of ?c ?e "drop (Suc i) ?p" a b y] sub dist es pe y z
      show ?thesis by (metis distinct_map image_eqI list.set_map)
    qed
    with o own show ?thesis
      by (auto simp: checkRefs_def refs_loop_ok own_ref_def distinct_map inj_on_def cong: map_cong)
  qed
  with F(2) show ?thesis by (simp add: refs_ok_def list_all_iff)
qed

lemma refs_ok_New [simp]: "refs_ok (h_ID (se_header (New payload newID now h))) (se_entries (New payload newID now h))"
  by simp

section \<open>Every entry was hashed\<close>

lemma reachable_hashed:
  assumes "reachable k s" "codec_ok k" "e \<in> set (se_entries s)"
  shows "hashed_by k e"
  using assms(1,3)
proof (induction arbitrary: e)
  case (step s s')
  from session_step_cases [OF step.hyps(2) reachable_inv [OF step.hyps(1) assms(2)]] step.prems
  have "e \<in> set (se_entries s) \<or> admitted k s e" by (auto simp: same_log_def)
  with step.IH show ?case by (auto simp: admitted_def)
next
  case (fork origin payload newID now at h s)
  from reachable_inv [OF fork.hyps(1) assms(2)] have wf: "session_wf origin" by (simp add: session_inv_def)
  note F = Fork_cases [OF wf fork.hyps(2)]
  have "set (path origin at) \<subseteq> set (se_entries origin)" using path_chain(2) [OF wf] F(4) by simp
  with F(2) fork show ?case by auto
qed (simp add: New_def empty_session_def)

end
