(* ===== verification/Reading.thy ===== *)
theory Reading
  imports File_Order
begin

text \<open>
  Reading and writing a session file (\<open>codec.go\<close>, \<open>scan.go\<close>): the line loop of \<open>Read\<close> with its
  blank and torn lines, the checks \<open>link\<close> makes of a decoded line, the migration of a file before 0.5,
  the verification of a line from its canonical bytes, the line loop of \<open>Scan\<close>, and \<open>Write\<close>.  The
  parsing of JSON, its canonical form, the decoders of the entry bodies and SHA-256 are the fields of
  a \<open>wire\<close>, an argument of the functions.
\<close>

section \<open>What the reader asks of the wire format\<close>

record wire =
  w_ijson :: "string \<Rightarrow> unit res"
  w_valid :: "string \<Rightarrow> bool"
  w_header :: "string \<Rightarrow> header res"
  w_decodeLine :: "string \<Rightarrow> (entry \<times> string option) res"
  w_transform :: "string \<Rightarrow> string res"
  w_members :: "string \<Rightarrow> (string \<times> json) list option"
  w_string :: "json \<Rightarrow> string option"
  w_time :: "string \<Rightarrow> bool"
  w_commonBody :: "json option \<Rightarrow> json option \<Rightarrow> unit res"
  w_memberHashes :: "string \<Rightarrow> string \<times> string"
  w_refs :: "json \<Rightarrow> (entry_ref list) res"
  w_remapRefs :: "(string \<Rightarrow> eid \<Rightarrow> eid option) \<Rightarrow> entry \<Rightarrow> (entry \<times> bool \<times> string list) res"
  w_marshalHeader :: "header \<Rightarrow> string res"
  w_marshalEntry :: "entry \<Rightarrow> string res"

text \<open>What \<open>New\<close> takes besides the header: the payload profile, a fresh ID, the clock.\<close>

record fresh =
  f_payload :: string
  f_id :: string
  f_now :: timestamp

section \<open>Lines\<close>

definition LF :: char where "LF = CHR 0x0A"
definition CR :: char where "CR = CHR 0x0D"

text \<open>\<open>br.ReadBytes\<close> up to a newline: the line without it, and what is left, none at the end of the input.\<close>

definition chunk :: "string \<Rightarrow> string \<times> string option" where
  "chunk inp =
     (takeWhile (\<lambda>c. c \<noteq> LF) inp,
      case dropWhile (\<lambda>c. c \<noteq> LF) inp of [] \<Rightarrow> None | _ # rest \<Rightarrow> Some rest)"

definition TrimRight :: "string \<Rightarrow> string" where
  "TrimRight s = rev (dropWhile (\<lambda>c. c = CR \<or> c = LF) (rev s))"

lemma chunk_less [termination_simp]: "chunk inp = (raw, Some rest) \<Longrightarrow> length rest < length inp"
proof -
  assume "chunk inp = (raw, Some rest)"
  then have "dropWhile (\<lambda>c. c \<noteq> LF) inp = LF # rest \<or> (\<exists>x. dropWhile (\<lambda>c. c \<noteq> LF) inp = x # rest)"
    by (auto simp: chunk_def split: list.splits)
  then obtain x where "dropWhile (\<lambda>c. c \<noteq> LF) inp = x # rest" by blast
  then have "length (x # rest) \<le> length inp" by (metis length_dropWhile_le)
  then show ?thesis by simp
qed

section \<open>One line of a hashed file\<close>

record line_envelope =
  le_id :: eid
  le_parent :: eid
  le_typ :: string
  le_content :: string
  le_parents :: "json option"

text \<open>The member of that name, the last one when the object repeats it.\<close>

definition member :: "string \<Rightarrow> (string \<times> json) list \<Rightarrow> json option" where
  "member key ms = map_of (rev ms) key"

definition str_member :: "wire \<Rightarrow> json option \<Rightarrow> string res" where
  "str_member w v =
     (case v of
        None \<Rightarrow> Inr []
      | Some j \<Rightarrow>
          if j = ''null'' then Inr []
          else if length j \<ge> 2 \<and> hd j = CHR 0x22 \<and> last j = CHR 0x22 \<and> CHR 0x5C \<notin> set j
          then Inr (butlast (tl j))
          else (case w_string w j of
                  None \<Rightarrow> Inl (EInvalid ''member is not a string'')
                | Some s \<Rightarrow> Inr s))"

definition verifyLine :: "wire \<Rightarrow> string \<Rightarrow> line_envelope res" where
  "verifyLine w c =
     (case w_members w c of
        None \<Rightarrow> Inl (EInvalid ''entry is not an object'')
      | Some ms \<Rightarrow>
          then_res (refuse (member ''content'' ms \<noteq> None) EReservedMember)
          (bind_res (str_member w (member ''type'' ms)) (\<lambda>typ.
          bind_res (str_member w (member ''id'' ms)) (\<lambda>i.
          bind_res (str_member w (member ''parent'' ms)) (\<lambda>parent.
          bind_res (str_member w (member ''ts'' ms)) (\<lambda>ts.
            if typ = [] then Inl (EInvalid ''entry has no type'')
            else if i = [] then Inl EBadID
            else if parent = [] \<and> member ''parent'' ms \<noteq> None \<and> member ''parent'' ms \<noteq> Some ''null'' then Inl EBadID
            else if \<not> w_time w ts then Inl EBadID
            else then_res (w_commonBody w (member ''legacy_id'' ms) (member ''normalised'' ms))
              (case w_memberHashes w c of (hashed, content) \<Rightarrow>
                 if hashed \<noteq> i then Inl EBadID
                 else Inr \<lparr>le_id = i, le_parent = parent, le_typ = typ, le_content = content,
                           le_parents = member ''parents'' ms\<rparr>)))))))"

section \<open>Linking a decoded line\<close>

type_synonym migration = "eid \<rightharpoonup> eid"

definition rewrite :: "codec \<Rightarrow> wire \<Rightarrow> migration \<Rightarrow> entry \<Rightarrow> session \<Rightarrow> (entry \<times> migration \<times> session) res" where
  "rewrite k w ids e s =
     (let old = e_id e
      in if old = [] then Inl EBadID
         else bind_res (w_remapRefs w
                  (\<lambda>session i. if session \<noteq> [] \<and> session \<noteq> h_ID (se_header s) then None else ids i)
                  (upd_base (\<lambda>b. b\<lparr>b_LegacyID := old\<rparr>) e))
           (\<lambda>(e, opaque, unmapped).
              let s = (if opaque \<or> list_ex (\<lambda>at. at \<noteq> ''/parent'') unmapped
                       then s\<lparr>se_unresolved := se_unresolved s @ [old]\<rparr> else s)
              in bind_res (rewrite_raw k (upd_base (\<lambda>b. b\<lparr>b_ID := []\<rparr>) e)) (\<lambda>e.
                 bind_res (hashEntry k e) (\<lambda>e.
                 bind_res (rewrite_raw k e) (\<lambda>e. Inr (e, ids(old \<mapsto> e_id e), s))))))"

text \<open>The checks after the ID of the line is settled.\<close>

definition link_checked :: "base_rule option \<Rightarrow> entry \<Rightarrow> session \<Rightarrow> (session \<times> base_rule option) res" where
  "link_checked rule e s =
     (if se_byID s (e_id e) \<noteq> None then Inr (s\<lparr>se_repeated := se_repeated s @ [e_id e]\<rparr>, rule)
      else if e_parent e \<noteq> [] \<and> se_byID s (e_parent e) = None then Inl ENoEntry
      else bind_res (base_line rule (e_id e) (e_parent e)) (\<lambda>rule.
             then_res (checkParents s (base_of e)) (Inr (add e s, rule))))"

definition link ::
    "codec \<Rightarrow> wire \<Rightarrow> migration option \<Rightarrow> base_rule option \<Rightarrow> entry \<Rightarrow> string \<Rightarrow> string option \<Rightarrow> session \<Rightarrow>
     (session \<times> migration option \<times> base_rule option) res" where
  "link k w m rule e data co s =
     (let e = gateRedacted k (se_declared s) e
      in case m of
          Some ids \<Rightarrow>
            bind_res (rewrite k w ids e s) (\<lambda>(e, ids, s).
              bind_res (link_checked rule e s) (\<lambda>(s, rule). Inr (s, Some ids, rule)))
        | None \<Rightarrow>
            bind_res (case co of Some c \<Rightarrow> Inr c | None \<Rightarrow> w_transform w data) (\<lambda>c.
            bind_res (verifyLine w c) (\<lambda>v.
            bind_res (link_checked rule (upd_base (\<lambda>b. b\<lparr>b_ID := le_id v, b_content := le_content v\<rparr>) e) s)
              (\<lambda>(s, rule). Inr (s, None, rule)))))"

section \<open>Read\<close>

record read_state =
  st_session :: "session option"
  st_line :: nat
  st_migration :: "migration option"
  st_rule :: "base_rule option"

definition read_start :: read_state where
  "read_start = \<lparr>st_session = None, st_line = 0, st_migration = None, st_rule = None\<rparr>"

definition read_header :: "wire \<Rightarrow> fresh \<Rightarrow> string \<Rightarrow> read_state \<Rightarrow> read_state res" where
  "read_header w f data st =
     bind_res (w_header w data) (\<lambda>h.
     then_res (Validate h) (
       let m = (if minor_of (h_Format h) < hashedMinor then Some Map.empty else None);
           declared = h_Format h
       in bind_res (migrate h) (\<lambda>h.
            Inr (st\<lparr>st_session := Some ((New (f_payload f) (f_id f) (f_now f) h)
                                          \<lparr>se_migrated := (m \<noteq> None), se_declared := declared\<rparr>),
                    st_migration := m, st_rule := newBaseRule (h_Base h)\<rparr>))))"

text \<open>One line that is not blank; the flag tells that the loop ends at it, and \<open>final\<close> that nothing follows it.\<close>

definition read_line :: "codec \<Rightarrow> wire \<Rightarrow> fresh \<Rightarrow> bool \<Rightarrow> string \<Rightarrow> read_state \<Rightarrow> (read_state \<times> bool) res" where
  "read_line k w f final data st =
     (case st_session st of
        None \<Rightarrow> bind_res (read_header w f data st) (\<lambda>st. Inr (st, False))
      | Some s \<Rightarrow>
          (case w_decodeLine w data of
             Inl x \<Rightarrow>
               if \<not> final \<or> w_valid w data then Inl x
               else Inr (st\<lparr>st_session := Some (s\<lparr>se_truncated :=
                            Some \<lparr>tl_Line = st_line st, tl_Data = data, tl_Err = x\<rparr>\<rparr>)\<rparr>, True)
           | Inr (e, co) \<Rightarrow>
               bind_res (link k w (st_migration st) (st_rule st) e data co s) (\<lambda>(s, m, rule).
                 Inr (st\<lparr>st_session := Some s, st_migration := m, st_rule := rule\<rparr>, False))))"

definition ijson_refused :: "wire \<Rightarrow> string \<Rightarrow> error option" where
  "ijson_refused w data =
     (case w_ijson w data of Inl x \<Rightarrow> if w_valid w data then Some x else None | Inr _ \<Rightarrow> None)"

function read_loop :: "codec \<Rightarrow> wire \<Rightarrow> fresh \<Rightarrow> read_state \<Rightarrow> string \<Rightarrow> read_state res" where
  "read_loop k w f st inp =
     (case chunk inp of (raw, rest) \<Rightarrow>
        let data = TrimRight raw;
            st = (if data = [] \<and> rest = None then st else st\<lparr>st_line := st_line st + 1\<rparr>)
        in if data = []
           then (case rest of None \<Rightarrow> Inr st | Some inp' \<Rightarrow> read_loop k w f st inp')
           else case ijson_refused w data of
               Some x \<Rightarrow> Inl x
             | None \<Rightarrow>
                 (case read_line k w f (rest = None \<or> rest = Some []) data st of
                    Inl x \<Rightarrow> Inl x
                  | Inr (st, stop) \<Rightarrow>
                      if stop then Inr st
                      else case rest of None \<Rightarrow> Inr st | Some inp' \<Rightarrow> read_loop k w f st inp'))"
  by pat_completeness auto
termination
  by (relation "measure (\<lambda>(k, w, f, st, inp). length inp)") (auto dest!: sym [of "(_, Some _)"] chunk_less)

definition read_finish :: "session \<Rightarrow> session res" where
  "read_finish s =
     (if h_Base (se_header s) \<noteq> [] \<and> se_byID s (h_Base (se_header s)) = None then Inl ENoEntry
      else let s = (if h_Base (se_header s) \<noteq> []
                    then s\<lparr>se_prefix := set (map e_id (path s (h_Base (se_header s))))\<rparr> else s)
           in Inr (s\<lparr>se_leaf := resolveLeaf s\<rparr>))"

definition Read :: "codec \<Rightarrow> wire \<Rightarrow> fresh \<Rightarrow> string \<Rightarrow> session res" where
  "Read k w f inp =
     bind_res (read_loop k w f read_start inp) (\<lambda>st.
       case st_session st of
         None \<Rightarrow> Inl (EInvalid ''empty input'')
       | Some s \<Rightarrow> read_finish s)"

section \<open>Scan\<close>

record raw_entry =
  re_ID :: eid
  re_Parent :: eid
  re_Type :: string
  re_Line :: string
  re_Repeat :: bool
  re_format :: string

definition parents_refs :: "wire \<Rightarrow> json option \<Rightarrow> (entry_ref list option) res" where
  "parents_refs w p =
     (case p of
        None \<Rightarrow> Inr None
      | Some j \<Rightarrow> if j = ''null'' then Inr None else bind_res (w_refs w j) (\<lambda>refs. Inr (Some refs)))"

definition scanLine ::
    "wire \<Rightarrow> string \<Rightarrow> string \<Rightarrow> eid set \<Rightarrow> base_rule option \<Rightarrow> (raw_entry \<times> eid set \<times> base_rule option) res" where
  "scanLine w data session seen rule =
     then_res (w_ijson w data)
     (bind_res (w_transform w data) (\<lambda>c.
     bind_res (verifyLine w c) (\<lambda>v.
       let e = \<lparr>re_ID = le_id v, re_Parent = le_parent v, re_Type = le_typ v, re_Line = data,
                re_Repeat = False, re_format = []\<rparr>
       in if le_id v \<in> seen then Inr (e\<lparr>re_Repeat := True\<rparr>, seen, rule)
          else if le_parent v \<noteq> [] \<and> le_parent v \<notin> seen then Inl ENoEntry
          else bind_res (base_line rule (le_id v) (le_parent v)) (\<lambda>rule.
               bind_res (parents_refs w (le_parents v)) (\<lambda>refs.
               then_res (case refs of
                           None \<Rightarrow> Inr ()
                         | Some rs \<Rightarrow> checkRefs (le_parent v) session rs (\<lambda>i. i \<in> seen))
                 (Inr (e, insert (le_id v) seen, rule)))))))"

definition base_missing :: "header \<Rightarrow> eid set \<Rightarrow> error option" where
  "base_missing h seen = (if h_Base h \<noteq> [] \<and> h_Base h \<notin> seen then Some ENoEntry else None)"

text \<open>The sequence \<open>Scan\<close> yields, and the error it ends with.\<close>

function scan_loop ::
    "wire \<Rightarrow> header \<Rightarrow> nat \<Rightarrow> eid set \<Rightarrow> base_rule option \<Rightarrow> string \<Rightarrow> raw_entry list \<times> error option" where
  "scan_loop w h line seen rule inp =
     (case chunk inp of (raw, rest) \<Rightarrow>
        let data = TrimRight raw
        in if data = []
           then (case rest of
                   None \<Rightarrow> ([], base_missing h seen)
                 | Some inp' \<Rightarrow> scan_loop w h (line + 1) seen rule inp')
           else case scanLine w data (h_ID h) seen rule of
               Inl x \<Rightarrow>
                 ([], Some (if (rest = None \<or> rest = Some []) \<and> \<not> w_valid w data
                            then (case base_missing h seen of
                                    Some x \<Rightarrow> x
                                  | None \<Rightarrow> ETruncatedLine (line + 1) data)
                            else x))
             | Inr (e, seen, rule) \<Rightarrow>
                 (case (case rest of
                          None \<Rightarrow> ([], base_missing h seen)
                        | Some inp' \<Rightarrow> scan_loop w h (line + 1) seen rule inp') of
                    (es, err) \<Rightarrow> (e\<lparr>re_format := h_Format h\<rparr> # es, err)))"
  by pat_completeness auto
termination
  by (relation "measure (\<lambda>(w, h, line, seen, rule, inp). length inp)") (auto dest!: sym [of "(_, Some _)"] chunk_less)

function first_line :: "nat \<Rightarrow> string \<Rightarrow> (string \<times> nat \<times> string option) option" where
  "first_line line inp =
     (case chunk inp of (raw, rest) \<Rightarrow>
        if TrimRight raw \<noteq> [] then Some (TrimRight raw, line + 1, rest)
        else case rest of None \<Rightarrow> None | Some inp' \<Rightarrow> first_line (line + 1) inp')"
  by pat_completeness auto
termination
  by (relation "measure (\<lambda>(line, inp). length inp)") (auto dest!: sym [of "(_, Some _)"] chunk_less)

definition Scan :: "wire \<Rightarrow> string \<Rightarrow> (header \<times> raw_entry list \<times> error option) res" where
  "Scan w inp =
     (case first_line 0 inp of
        None \<Rightarrow> Inl (EInvalid ''empty input'')
      | Some (data, line, rest) \<Rightarrow>
          (case ijson_refused w data of
             Some x \<Rightarrow> Inl x
           | None \<Rightarrow>
               bind_res (w_header w data) (\<lambda>h.
               then_res (Validate h)
               (then_res (refuse (minor_of (h_Format h) < hashedMinor) EScanMigrated)
                 (Inr (h, case rest of
                            None \<Rightarrow> ([], base_missing h {})
                          | Some inp' \<Rightarrow> scan_loop w h line {} (newBaseRule (h_Base h)) inp'))))))"

section \<open>Write\<close>

definition writeLine :: "wire \<Rightarrow> string res \<Rightarrow> string res" where
  "writeLine w m = bind_res m (\<lambda>data. bind_res (w_transform w data) (\<lambda>c. Inr (c @ [LF])))"

fun write_entries :: "wire \<Rightarrow> entry list \<Rightarrow> string res" where
  "write_entries w [] = Inr []"
| "write_entries w (e # es) =
     bind_res (writeLine w (w_marshalEntry w e)) (\<lambda>l. bind_res (write_entries w es) (\<lambda>ls. Inr (l @ ls)))"

definition Write :: "wire \<Rightarrow> session \<Rightarrow> string res" where
  "Write w s =
     (if se_migrated s \<and> se_unresolved s \<noteq> [] then Inl EUnresolvedMigration
      else bind_res (writeLine w (w_marshalHeader w (se_header s))) (\<lambda>hl.
           bind_res (write_entries w (se_entries s)) (\<lambda>ls. Inr (hl @ ls))))"

end
