(* ===== verification/Base_Rule.thy ===== *)
theory Base_Rule
  imports Reading
begin

text \<open>
  The base rule line by line (\<open>baseRule.line\<close> of \<open>session.go\<close>), which both readers hold a file to,
  against the rule an append keeps: the lines are accepted exactly when the file opens with the one
  path down to the base and every later entry hangs from the base or from a later entry.
\<close>

section \<open>A file that opens with one path\<close>

definition linear :: "entry list \<Rightarrow> bool" where
  "linear es =
     list_all (\<lambda>j. e_parent (es ! j) = (if j = 0 then [] else e_id (es ! (j - 1)))) [0..<length es]"

lemma linear_Nil [simp]: "linear []"
  by (simp add: linear_def)

lemma linear_snoc [simp]:
  "linear (es @ [e]) \<longleftrightarrow> linear es \<and> e_parent e = (if es = [] then [] else e_id (last es))"
  by (auto simp: linear_def list_all_iff nth_append last_conv_nth)

lemma linear_single [simp]: "linear [e] \<longleftrightarrow> e_parent e = []"
  using linear_snoc [of "[]" e] by simp

lemma linear_chain:
  assumes "linear p" "p \<noteq> []" "\<forall>e\<in>set p. m (e_id e) = Some e \<and> e_id e \<noteq> []"
  shows "chain m (e_id (last p)) p"
  using assms
proof (induction p rule: rev_induct)
  case (snoc e p)
  show ?case
  proof (cases "p = []")
    case True
    with snoc.prems chain.step [of "e_id e" m e "[]"] chain.root show ?thesis by simp
  next
    case False
    with snoc have "chain m (e_parent e) p" by simp
    with snoc.prems chain.step [of "e_id e" m e p] show ?thesis by simp
  qed
qed simp

lemma path_linear:
  assumes wf: "session_wf s" and i: "se_byID s i \<noteq> None"
  shows "linear (path s i)"
proof -
  have ids: "e_id x = j" if "se_byID s j = Some x" for j x
    using that wf by (auto simp: session_wf_def dest: index_of_Some)
  note l = chain_links [OF path_chain(1) [OF wf disjI2 [OF i]] ids]
  have "i \<noteq> []" using i wf index_of_None [of "se_entries s" "[]"] tree_wf_neq by (auto simp: session_wf_def)
  with l have h: "e_parent (path s i ! 0) = []" by (auto simp: hd_conv_nth)
  show ?thesis
    unfolding linear_def list_all_iff
  proof
    fix j assume "j \<in> set [0..<length (path s i)]"
    with l h show "e_parent (path s i ! j) = (if j = 0 then [] else e_id (path s i ! (j - 1)))"
      by (cases j) auto
  qed
qed

section \<open>The lines of a file\<close>

fun base_lines :: "base_rule option \<Rightarrow> entry list \<Rightarrow> (base_rule option) res" where
  "base_lines ro [] = Inr ro"
| "base_lines ro (e # es) = bind_res (base_line ro (e_id e) (e_parent e)) (\<lambda>ro. base_lines ro es)"

lemma base_lines_append: "base_lines ro (xs @ ys) = bind_res (base_lines ro xs) (\<lambda>ro. base_lines ro ys)"
proof (induction xs arbitrary: ro)
  case (Cons e xs)
  then show ?case by (cases "base_line ro (e_id e) (e_parent e)") auto
qed simp

text \<open>What the state of the rule says of the lines before.\<close>

definition rule_inv :: "eid \<Rightarrow> entry list \<Rightarrow> base_rule option \<Rightarrow> bool" where
  "rule_inv base es ro =
     (case ro of
        None \<Rightarrow> base = []
      | Some r \<Rightarrow>
          base \<noteq> [] \<and> br_base r = base \<and>
          (if \<not> br_met r
           then linear es \<and> base \<notin> set (map e_id es) \<and> br_prefix r = set (map e_id es) \<and>
             br_prev r = (if es = [] then [] else e_id (last es))
           else \<exists>p own. es = p @ own \<and> p \<noteq> [] \<and> linear p \<and> e_id (last p) = base \<and>
             br_prefix r = set (map e_id p) \<and> list_all (own_hangs base (br_prefix r)) own))"

lemma rule_inv_start: "rule_inv base [] (newBaseRule base)"
  by (simp add: rule_inv_def newBaseRule_def)

lemma rule_inv_line:
  assumes inv: "rule_inv base es ro" and l: "base_line ro (e_id e) (e_parent e) = Inr ro'"
    and ids: "\<forall>x\<in>set es. e_id x \<noteq> []"
  shows "rule_inv base (es @ [e]) ro'"
proof (cases ro)
  case None
  with inv l show ?thesis by (simp add: rule_inv_def base_line_def)
next
  case (Some r)
  show ?thesis
  proof (cases "br_met r")
    case True
    with inv Some obtain p own where p: "es = p @ own" "p \<noteq> []" "linear p" "e_id (last p) = base"
        "br_prefix r = set (map e_id p)" "list_all (own_hangs base (br_prefix r)) own" "base \<noteq> []" "br_base r = base"
      by (auto simp: rule_inv_def)
    from l Some True p(8) have "ro' = ro" "own_hangs base (br_prefix r) e"
      by (auto simp: base_line_def then_res_Inr checkOwnParent_def own_hangs_def split: if_splits)
    moreover from p(1) have "es @ [e] = p @ (own @ [e])" by simp
    ultimately have "\<exists>p own. es @ [e] = p @ own \<and> p \<noteq> [] \<and> linear p \<and> e_id (last p) = base \<and>
        br_prefix r = set (map e_id p) \<and> list_all (own_hangs base (br_prefix r)) own"
      using p by (intro exI [of _ p] exI [of _ "own @ [e]"]) simp
    with Some True p(7,8) \<open>ro' = ro\<close> show ?thesis by (simp add: rule_inv_def)
  next
    case False
    with inv Some have es: "linear es" "base \<notin> set (map e_id es)" "br_prefix r = set (map e_id es)"
        "br_prev r = (if es = [] then [] else e_id (last es))" "base \<noteq> []" "br_base r = base"
      by (auto simp: rule_inv_def)
    from l Some False have "e_parent e = br_prev r"
      and r: "ro' = Some (r\<lparr>br_prefix := insert (e_id e) (br_prefix r), br_prev := e_id e, br_met := (e_id e = br_base r)\<rparr>)"
      by (auto simp: base_line_def split: if_splits)
    with es have lin: "linear (es @ [e])" by simp
    show ?thesis
    proof (cases "e_id e = base")
      case True
      with es r lin have "\<exists>p own. es @ [e] = p @ own \<and> p \<noteq> [] \<and> linear p \<and> e_id (last p) = base \<and>
          insert (e_id e) (br_prefix r) = set (map e_id p) \<and>
          list_all (own_hangs base (insert (e_id e) (br_prefix r))) own"
        by (intro exI [of _ "es @ [e]"] exI [of _ "[]"]) simp
      with True es(5,6) r show ?thesis by (simp add: rule_inv_def)
    next
      case False
      with es r lin show ?thesis by (auto simp: rule_inv_def)
    qed
  qed
qed

lemma base_lines_linear:
  assumes "linear p" "base \<noteq> []" "\<forall>e\<in>set p. e_id e \<noteq> []" "base \<notin> set (map e_id (butlast p))"
  shows "\<exists>r. base_lines (newBaseRule base) p = Inr (Some r) \<and> rule_inv base p (Some r) \<and>
    br_met r = (p \<noteq> [] \<and> e_id (last p) = base)"
  using assms(1,3,4)
proof (induction p rule: rev_induct)
  case Nil
  then show ?case using assms(2) rule_inv_start [of base] by (simp add: newBaseRule_def)
next
  case (snoc e p)
  from snoc.prems have b: "base \<notin> set (map e_id p)" by simp
  then have "base \<notin> set (map e_id (butlast p))" by (auto dest: in_set_butlastD)
  with snoc obtain r where r: "base_lines (newBaseRule base) p = Inr (Some r)" "rule_inv base p (Some r)" "\<not> br_met r"
    using b by (cases "p = []") (force, auto)
  from r(2,3) have rr: "br_base r = base" "br_prev r = (if p = [] then [] else e_id (last p))"
    by (auto simp: rule_inv_def)
  with snoc.prems have "e_parent e = br_prev r" "p \<noteq> [] \<longrightarrow> br_prev r \<noteq> []" by auto
  with r rr have "base_line (Some r) (e_id e) (e_parent e) =
      Inr (Some (r\<lparr>br_prefix := insert (e_id e) (br_prefix r), br_prev := e_id e, br_met := (e_id e = base)\<rparr>))"
    by (simp add: base_line_def split: if_splits)
  with rule_inv_line [OF r(2) this] r(1) snoc.prems show ?case by (simp add: base_lines_append)
qed

lemma base_lines_own:
  assumes "br_met r" "list_all (own_hangs (br_base r) (br_prefix r)) own"
  shows "base_lines (Some r) own = Inr (Some r)"
  using assms(2)
proof (induction own)
  case (Cons e own)
  with assms(1) show ?case
    by (auto simp: base_line_def checkOwnParent_def own_hangs_def)
qed simp

text \<open>The file of a session in the shape the operations keep passes the rule.\<close>

lemma base_shape_lines:
  assumes wf: "session_wf s" and b: "base_shape s"
  shows "\<exists>ro. base_lines (newBaseRule (h_Base (se_header s))) (se_entries s) = Inr ro"
proof (cases "h_Base (se_header s) = []")
  case True
  have "base_lines None es = Inr None" for es by (induction es) (simp_all add: base_line_def)
  with True show ?thesis by (simp add: newBaseRule_def)
next
  case False
  let ?b = "h_Base (se_header s)"
  show ?thesis
  proof (cases "se_entries s = []")
    case False
    with b \<open>?b \<noteq> []\<close> obtain own where o: "se_prefix s = set (map e_id (path s ?b))" "se_byID s ?b \<noteq> None"
        "se_entries s = path s ?b @ own" "list_all (own_hangs ?b (se_prefix s)) own"
      by (auto simp: base_shape_def)
    let ?p = "path s ?b"
    from o(2) obtain e where e: "se_byID s ?b = Some e" by blast
    then have id: "e_id e = ?b" using wf by (auto simp: session_wf_def dest: index_of_Some)
    from path_step [OF wf e] have p: "?p = path s (e_parent e) @ [e]" .
    with path_chain(3) [OF wf disjI2 [OF o(2)]] id have nb: "?b \<notin> set (map e_id (butlast ?p))" by auto
    have ne: "\<forall>x\<in>set ?p. e_id x \<noteq> []"
      using o(3) wf tree_wf_neq [of "se_entries s"] by (metis Un_iff imageI session_wf_def set_append set_map)
    from base_lines_linear [OF path_linear [OF wf o(2)] \<open>?b \<noteq> []\<close> ne nb] obtain r where
      r: "base_lines (newBaseRule ?b) ?p = Inr (Some r)" "rule_inv ?b ?p (Some r)" "br_met r"
      using p id by auto
    have "br_base r = ?b" using r(2) by (simp add: rule_inv_def)
    have "br_prefix r = set (map e_id ?p)"
    proof -
      from r(2,3) obtain q own' where q: "?p = q @ own'" "q \<noteq> []" "e_id (last q) = ?b" "br_prefix r = set (map e_id q)"
        by (auto simp: rule_inv_def)
      have "own' = []"
      proof (rule ccontr)
        assume "own' \<noteq> []"
        then have "last q \<in> set (butlast ?p)" using q(1,2) by (simp add: butlast_append)
        with nb q(3) show False by (metis image_eqI list.set_map)
      qed
      with q show ?thesis by simp
    qed
    with base_lines_own [OF r(3), of own] o \<open>br_base r = ?b\<close> r(1) show ?thesis by (simp add: base_lines_append)
  qed simp
qed

text \<open>Lines the rule accepts, with the base among them, are a file in that shape.\<close>

lemma rule_inv_shape:
  assumes wf: "session_wf s" and inv: "rule_inv (h_Base (se_header s)) (se_entries s) ro"
    and b: "h_Base (se_header s) = [] \<longrightarrow> se_prefix s = {}"
    and p: "h_Base (se_header s) \<noteq> [] \<longrightarrow> se_byID s (h_Base (se_header s)) \<noteq> None \<and>
      se_prefix s = set (map e_id (path s (h_Base (se_header s))))"
  shows "base_shape s"
proof (cases "h_Base (se_header s) = []")
  case True
  with b show ?thesis by (simp add: base_shape_def)
next
  case False
  let ?b = "h_Base (se_header s)"
  from p False have h: "se_byID s ?b \<noteq> None" "se_prefix s = set (map e_id (path s ?b))" by auto
  from h(1) wf have mem: "?b \<in> set (map e_id (se_entries s))" by (metis index_of_None session_wf_def set_map)
  from inv False obtain r where r: "ro = Some r" by (cases ro) (auto simp: rule_inv_def)
  with inv mem have "br_met r" by (auto simp: rule_inv_def split: if_splits)
  with inv r obtain q own where q: "se_entries s = q @ own" "q \<noteq> []" "linear q" "e_id (last q) = ?b"
      "br_prefix r = set (map e_id q)" "list_all (own_hangs ?b (br_prefix r)) own"
    by (auto simp: rule_inv_def)
  have "\<forall>e\<in>set q. se_byID s (e_id e) = Some e \<and> e_id e \<noteq> []"
  proof
    fix e assume "e \<in> set q"
    with q(1) have e: "e \<in> set (se_entries s)" by simp
    with wf index_of_mem [of "se_entries s" e] have "se_byID s (e_id e) = Some e"
      by (simp add: session_wf_def tree_wf_def)
    moreover from wf e tree_wf_neq [of "se_entries s"] have "e_id e \<noteq> []"
      by (metis imageI session_wf_def set_map)
    ultimately show "se_byID s (e_id e) = Some e \<and> e_id e \<noteq> []" ..
  qed
  from path_chain_eq [OF wf linear_chain [OF q(3,2) this]] q(4) have "path s ?b = q" by simp
  with False h q show ?thesis by (auto simp: base_shape_def)
qed

end
