(* ===== verification/Lines.thy ===== *)
theory Lines
  imports Base_Rule
begin

text \<open>
  A file as the list of its lines: the two line loops (\<open>Read\<close>, \<open>Scan\<close>) are folds over the numbered
  lines that are not blank, so that what a reader does is shown line by line.  Then what every session
  \<open>Read\<close> returns satisfies.
\<close>

section \<open>The lines of a file\<close>

text \<open>Each line with its number, and whether nothing follows it.\<close>

function file_lines :: "nat \<Rightarrow> string \<Rightarrow> (nat \<times> string \<times> bool) list" where
  "file_lines n inp =
     (case chunk inp of (raw, rest) \<Rightarrow>
        (if TrimRight raw = [] then [] else [(Suc n, TrimRight raw, rest = None \<or> rest = Some [])]) @
        (case rest of None \<Rightarrow> [] | Some inp' \<Rightarrow> file_lines (Suc n) inp'))"
  by pat_completeness auto
termination
  by (relation "measure (\<lambda>(n, inp). length inp)") (auto dest!: sym [of "(_, Some _)"] chunk_less)

declare file_lines.simps [simp del] read_loop.simps [simp del] scan_loop.simps [simp del] first_line.simps [simp del]

fun read_lines :: "codec \<Rightarrow> wire \<Rightarrow> fresh \<Rightarrow> read_state \<Rightarrow> (nat \<times> string \<times> bool) list \<Rightarrow> read_state res" where
  "read_lines k w f st [] = Inr st"
| "read_lines k w f st ((n, data, final) # ls) =
     (case ijson_refused w data of
        Some x \<Rightarrow> Inl x
      | None \<Rightarrow>
          bind_res (read_line k w f final data (st\<lparr>st_line := n\<rparr>))
            (\<lambda>(st, stop). if stop then Inr st else read_lines k w f st ls))"

definition session_of :: "read_state res \<Rightarrow> session option res" where
  "session_of r = bind_res r (\<lambda>st. Inr (st_session st))"

lemma session_of_simps [simp]: "session_of (Inl x) = Inl x" "session_of (Inr st) = Inr (st_session st)"
  by (simp_all add: session_of_def)

lemma read_line_line: "read_line k w f final data st = Inr (st', stop) \<Longrightarrow> st_line st' = st_line st"
proof (cases "st_session st")
  case None
  assume "read_line k w f final data st = Inr (st', stop)"
  with None show ?thesis by (auto simp: read_line_def read_header_def bind_res_Inr then_res_Inr Let_def)
next
  case (Some s)
  assume "read_line k w f final data st = Inr (st', stop)"
  with Some show ?thesis
    by (cases "w_decodeLine w data") (auto simp: read_line_def bind_res_Inr split: if_splits prod.splits)
qed

lemma read_lines_line:
  "session_of (read_lines k w f (st\<lparr>st_line := m\<rparr>) ls) = session_of (read_lines k w f st ls)"
proof (cases ls)
  case (Cons l ls')
  then show ?thesis by (cases l) (simp split: option.split)
qed simp

lemma read_loop_lines:
  "session_of (read_loop k w f st inp) =
   session_of (read_lines k w f st (file_lines (st_line st) inp))"
proof (induction k w f st inp rule: read_loop.induct)
  case (1 k w f st inp)
  obtain raw rest where c: "chunk inp = (raw, rest)" by fastforce
  let ?st = "st\<lparr>st_line := Suc (st_line st)\<rparr>"
  show ?case
  proof (cases "TrimRight raw = []")
    case blank: True
    show ?thesis
    proof (cases rest)
      case None
      with c blank show ?thesis by (simp add: read_loop.simps file_lines.simps)
    next
      case (Some inp')
      with 1(1) [OF c [symmetric] refl refl blank] c blank
      have "session_of (read_loop k w f ?st inp') =
          session_of (read_lines k w f ?st (file_lines (Suc (st_line st)) inp'))" by simp
      with Some c blank read_lines_line show ?thesis by (simp add: read_loop.simps [of k w f st] file_lines.simps [of _ inp])
    qed
  next
    case data: False
    show ?thesis
    proof (cases "ijson_refused w (TrimRight raw)")
      case None
      show ?thesis
      proof (cases "read_line k w f (rest = None \<or> rest = Some []) (TrimRight raw) ?st")
        case (Inl x)
        with c data None show ?thesis by (simp add: read_loop.simps [of k w f st] file_lines.simps [of _ inp])
      next
        case (Inr p)
        obtain st' stop where p: "p = (st', stop)" by fastforce
        note ln = read_line_line [OF Inr [unfolded p]]
        show ?thesis
        proof (cases "stop \<or> rest = None")
          case True
          with c data None Inr p show ?thesis
            by (auto simp: read_loop.simps [of k w f st] file_lines.simps [of _ inp])
        next
          case False
          then obtain inp' where r: "rest = Some inp'" by blast
          have "session_of (read_loop k w f st' inp') =
              session_of (read_lines k w f st' (file_lines (Suc (st_line st)) inp'))"
            using 1(2) [OF c [symmetric] refl refl data None, of p st' stop] Inr p False r ln data by simp
          with c data None Inr p r False show ?thesis
            by (simp add: read_loop.simps [of k w f st] file_lines.simps [of _ inp])
        qed
      qed
    qed (use c data in \<open>simp add: read_loop.simps [of k w f st] file_lines.simps [of _ inp]\<close>)
  qed
qed

lemma Read_lines:
  "Read k w f inp =
     bind_res (session_of (read_lines k w f read_start (file_lines 0 inp)))
       (\<lambda>so. case so of None \<Rightarrow> Inl (EInvalid ''empty input'') | Some s \<Rightarrow> read_finish s)"
proof -
  have "Read k w f inp =
     bind_res (session_of (read_loop k w f read_start inp))
       (\<lambda>so. case so of None \<Rightarrow> Inl (EInvalid ''empty input'') | Some s \<Rightarrow> read_finish s)"
    unfolding Read_def by (cases "read_loop k w f read_start inp") auto
  then show ?thesis by (simp only: read_loop_lines) (simp add: read_start_def)
qed

section \<open>What a reader builds\<close>

text \<open>The hash of a line is a hash in the format's notation, as the ones of the codec are.\<close>

definition wire_hashes :: "wire \<Rightarrow> bool" where
  "wire_hashes w \<longleftrightarrow> (\<forall>c. plain_id (fst (w_memberHashes w c)))"

definition building :: "session \<Rightarrow> base_rule option \<Rightarrow> bool" where
  "building s rule \<longleftrightarrow>
     session_wf s \<and> rule_inv (h_Base (se_header s)) (se_entries s) rule \<and>
     refs_ok (h_ID (se_header s)) (se_entries s) \<and> se_prefix s = {} \<and> se_leaf s = [] \<and> se_read s = None"

lemma building_New: "building ((New p i n h)\<lparr>se_migrated := m, se_declared := d\<rparr>) (newBaseRule (h_Base h))"
proof -
  have "h_Base (fill p i n h) = h_Base h" by (simp add: fill_def)
  with session_wf_New [of p i n h] rule_inv_start [of "h_Base h"] show ?thesis
    by (simp add: building_def session_wf_def New_def empty_session_def)
qed

lemma verifyLine_id: "verifyLine w c = Inr v \<Longrightarrow> le_id v = fst (w_memberHashes w c)"
  by (auto simp: verifyLine_def bind_res_Inr then_res_Inr split: option.splits if_splits prod.splits)

lemma checkParents_file:
  "session_wf s \<Longrightarrow> checkParents s b =
     checkRefs (b_Parent b) (h_ID (se_header s)) (b_Parents b) (\<lambda>j. j \<in> set (map e_id (se_entries s)))"
proof -
  assume "session_wf s"
  then have "(\<lambda>i. se_byID s i \<noteq> None) = (\<lambda>i. i \<in> set (map e_id (se_entries s)))"
    using index_of_None by (auto simp: session_wf_def fun_eq_iff)
  then show ?thesis by (simp add: checkParents_def)
qed

lemma building_link_checked:
  assumes b: "building s rule" and p: "plain_id (e_id e)" and l: "link_checked rule e s = Inr (s', rule')"
  shows "building s' rule'"
proof (cases "se_byID s (e_id e)")
  case None
  from b have wf: "session_wf s" by (simp add: building_def)
  from l None have a: "addable s e" and r: "base_line rule (e_id e) (e_parent e) = Inr rule'"
    and c: "checkParents s (base_of e) = Inr ()" and s': "s' = add e s"
    using p by (auto simp: link_checked_def addable_def bind_res_Inr then_res_Inr split: if_splits)
  have "\<forall>x\<in>set (se_entries s). e_id x \<noteq> []"
    using wf tree_wf_neq [of "se_entries s"] by (metis imageI session_wf_def set_map)
  with b rule_inv_line [of _ _ rule e rule'] r have "rule_inv (h_Base (se_header s)) (se_entries s @ [e]) rule'"
    by (simp add: building_def)
  with b c session_wf_add [OF wf a] checkParents_file [OF wf] show ?thesis
    by (simp add: building_def s')
next
  case (Some x)
  with b l show ?thesis by (auto simp: link_checked_def building_def session_wf_def)
qed

lemma rewrite_state:
  assumes "rewrite k w ids e s = Inr (e', ids', s')"
  shows "(\<exists>e1 e2. hashEntry k e1 = Inr e2 \<and> rewrite_raw k e2 = Inr e') \<and> (s' = s \<or> (\<exists>u. s' = s\<lparr>se_unresolved := u\<rparr>))"
  using assms by (auto simp: rewrite_def Let_def bind_res_Inr split: if_splits prod.splits)

lemma building_rewrite:
  assumes k: "codec_ok k" and b: "building s rule" and r: "rewrite k w ids e s = Inr (e', ids', s')"
  shows "building s' rule \<and> plain_id (e_id e')"
proof -
  have "building (s\<lparr>se_unresolved := u\<rparr>) rule" for u
    using b by (simp add: building_def session_wf_def)
  moreover obtain e1 e2 where h: "hashEntry k e1 = Inr e2" "rewrite_raw k e2 = Inr e'" and
    "s' = s \<or> (\<exists>u. s' = s\<lparr>se_unresolved := u\<rparr>)"
    using rewrite_state [OF r] by blast
  moreover from hashEntry_base [OF h(1)] rewrite_raw_base [OF h(2)] k have "plain_id (e_id e')"
    by (auto simp: codec_ok_def)
  ultimately show ?thesis using b by auto
qed

lemma building_link:
  assumes k: "codec_ok k" "wire_hashes w" and b: "building s rule"
    and l: "link k w m rule e data co s = Inr (s', m', rule')"
  shows "building s' rule'"
proof (cases m)
  case None
  with l obtain c v where v: "verifyLine w c = Inr v"
      "link_checked rule (upd_base (\<lambda>b. b\<lparr>b_ID := le_id v, b_content := le_content v\<rparr>) (gateRedacted k (se_declared s) e)) s
        = Inr (s', rule')"
    by (auto simp: link_def Let_def bind_res_Inr)
  with k(2) verifyLine_id [OF v(1)] building_link_checked [OF b _ v(2)] show ?thesis
    by (simp add: wire_hashes_def)
next
  case (Some ids)
  with l obtain e1 ids' s1 where r: "rewrite k w ids (gateRedacted k (se_declared s) e) s = Inr (e1, ids', s1)"
      "link_checked rule e1 s1 = Inr (s', rule')"
    by (auto simp: link_def Let_def bind_res_Inr)
  from building_rewrite [OF k(1) b r(1)] building_link_checked [OF _ _ r(2)] show ?thesis by blast
qed

definition read_building :: "read_state \<Rightarrow> bool" where
  "read_building st = (case st_session st of None \<Rightarrow> True | Some s \<Rightarrow> building s (st_rule st))"

lemma read_building_line:
  assumes k: "codec_ok k" "wire_hashes w" and b: "read_building st"
    and l: "read_line k w f final data st = Inr (st', stop)"
  shows "read_building st'"
proof (cases "st_session st")
  case None
  with l obtain h m where "st' = st\<lparr>st_session := Some ((New (f_payload f) (f_id f) (f_now f) h)
        \<lparr>se_migrated := (m \<noteq> None), se_declared := se_declared (the (st_session st'))\<rparr>),
      st_migration := m, st_rule := newBaseRule (h_Base h)\<rparr>"
    by (auto simp: read_line_def read_header_def bind_res_Inr then_res_Inr Let_def)
  then have "st_session st' = Some ((New (f_payload f) (f_id f) (f_now f) h)
        \<lparr>se_migrated := (m \<noteq> None), se_declared := se_declared (the (st_session st'))\<rparr>)"
      "st_rule st' = newBaseRule (h_Base h)"
    by (metis (no_types, lifting) read_state.select_convs(1,4) read_state.surjective
        read_state.update_convs(1,3,4))+
  with building_New show ?thesis by (metis option.simps(5) read_building_def)
next
  case (Some s)
  with b have s: "building s (st_rule st)" by (simp add: read_building_def)
  show ?thesis
  proof (cases "w_decodeLine w data")
    case (Inl x)
    with l Some s show ?thesis
      by (auto simp: read_line_def read_building_def building_def session_wf_def split: if_splits)
  next
    case (Inr p)
    with l Some obtain e co s' m' rule' where "link k w (st_migration st) (st_rule st) e data co s = Inr (s', m', rule')"
        "st' = st\<lparr>st_session := Some s', st_migration := m', st_rule := rule'\<rparr>"
      by (cases p) (auto simp: read_line_def bind_res_Inr)
    with building_link [OF k s] show ?thesis by (simp add: read_building_def)
  qed
qed

lemma read_lines_building:
  assumes k: "codec_ok k" "wire_hashes w"
  shows "read_building st \<Longrightarrow> read_lines k w f st ls = Inr st' \<Longrightarrow> read_building st'"
proof (induction ls arbitrary: st)
  case (Cons l ls)
  obtain n data final where l: "l = (n, data, final)" by (cases l)
  have b: "read_building (st\<lparr>st_line := n\<rparr>)" using Cons.prems(1) by (simp add: read_building_def split: option.splits)
  from Cons.prems(2) l obtain st1 stop where
    r: "read_line k w f final data (st\<lparr>st_line := n\<rparr>) = Inr (st1, stop)"
      "if stop then st' = st1 else read_lines k w f st1 ls = Inr st'"
    by (auto simp: bind_res_Inr split: option.splits if_splits)
  from read_building_line [OF k b r(1)] Cons.IH r(2) show ?case by (auto split: if_splits)
qed simp

text \<open>The leaf a read resolves is an entry of the session, or none.\<close>

lemma resolveLeaf_held:
  assumes wf: "session_wf s" and b: "held s (h_Base (se_header s))"
  shows "held s (resolveLeaf s)"
proof (cases "se_entries s = []")
  case False
  obtain marked at where d: "durableLeafAt s = (marked, at)" by fastforce
  have l: "held s (e_id (last (se_entries s)))" using held_entries [OF wf] False by simp
  have "held s (unmark marked)"
    using durable_held [of "mayRestOn s" s "se_entries s"] held_mayRestOn [of s] d by (simp add: durableLeafAt_def)
  with under_pass_tip [of marked at "se_entries s"] held_entries [OF wf]
  have "held s (unmark (snd (under_pass marked at (se_entries s))))"
    using unmark_cases(3) [of "snd (under_pass marked at (se_entries s))"] by auto
  with notOnLabel_held [OF wf b] l d False show ?thesis by (simp add: resolveLeaf_def)
qed (simp add: resolveLeaf_def)

lemma read_finish_ok:
  assumes b: "building s rule" and f: "read_finish s = Inr s'"
  shows "session_wf s'" "base_shape s'" "refs_ok (h_ID (se_header s')) (se_entries s')"
    "se_leaf s' = resolveLeaf s'" "same_log (s\<lparr>se_prefix := se_prefix s'\<rparr>) s'" "se_read s' = None"
proof -
  let ?b = "h_Base (se_header s)"
  from b have wf: "session_wf s" and r: "rule_inv ?b (se_entries s) rule"
    and rf: "refs_ok (h_ID (se_header s)) (se_entries s)" and n: "se_prefix s = {}" "se_read s = None"
    by (simp_all add: building_def)
  define s1 where "s1 = s\<lparr>se_prefix := se_prefix s'\<rparr>"
  have h: "?b = [] \<or> se_byID s ?b \<noteq> None" using f by (auto simp: read_finish_def split: if_splits)
  have [simp]: "s\<lparr>se_prefix := {}\<rparr> = s" using n(1) by (cases s) simp
  have s': "s' = s1\<lparr>se_leaf := resolveLeaf s1\<rparr>"
    and p: "se_prefix s' = (if ?b = [] then {} else set (map e_id (path s ?b)))"
    using f h n by (auto simp: read_finish_def Let_def s1_def)
  have wf1: "session_wf s1" using wf by (simp add: s1_def)
  have "held s1 (h_Base (se_header s1))" using h by (simp add: held_def s1_def)
  from resolveLeaf_held [OF wf1 this] have hl: "held s1 (resolveLeaf s1)" .
  then show "session_wf s'" using wf1 by (auto simp: s' session_wf_def held_def)
  have same: "path s1 i = path s i" "se_header s1 = se_header s" "se_entries s1 = se_entries s"
      "se_byID s1 = se_byID s" "se_prefix s1 = se_prefix s'" "se_read s1 = se_read s" for i by (simp_all add: path_def s1_def)
  have "base_shape s1" by (rule rule_inv_shape [OF wf1]) (use r h p same in auto)
  moreover have log: "same_log s1 s'" using hl by (simp add: s' same_log_def)
  ultimately show "base_shape s'" by (rule base_shape_same [rotated])
  show "refs_ok (h_ID (se_header s')) (se_entries s')" using rf same(2,3) by (simp add: s')
  show "se_leaf s' = resolveLeaf s'" "se_read s' = None" using n(2) same(6) by (simp_all add: s')
  show "same_log (s\<lparr>se_prefix := se_prefix s'\<rparr>) s'"
    using log by (simp add: s1_def)
qed

lemma Read_building:
  assumes k: "codec_ok k" "wire_hashes w" and r: "Read k w f inp = Inr s"
  obtains s0 rule where "building s0 rule" "read_finish s0 = Inr s"
proof -
  from r obtain st where st: "read_lines k w f read_start (file_lines 0 inp) = Inr st"
      "(case st_session st of None \<Rightarrow> Inl (EInvalid ''empty input'') | Some s \<Rightarrow> read_finish s) = Inr s"
    by (auto simp: Read_lines session_of_def bind_res_Inr)
  have "read_building read_start" by (simp add: read_building_def read_start_def)
  from read_lines_building [OF k this st(1)] st(2) that show ?thesis
    by (auto simp: read_building_def split: option.splits)
qed

end
