(* ===== verification/Scanning.thy ===== *)
theory Scanning
  imports Lines
begin

text \<open>
  The two readers against each other: on every file \<open>Read\<close> accepts without migrating it, \<open>Scan\<close> meets
  the same entries, in the same order, with the same repeated lines, and ends the way \<open>Read\<close> ended.
\<close>

section \<open>Scan as a fold over lines\<close>

fun scan_lines ::
    "wire \<Rightarrow> header \<Rightarrow> eid set \<Rightarrow> base_rule option \<Rightarrow> (nat \<times> string \<times> bool) list \<Rightarrow> raw_entry list \<times> error option" where
  "scan_lines w h seen rule [] = ([], base_missing h seen)"
| "scan_lines w h seen rule ((n, data, final) # ls) =
     (case scanLine w data (h_ID h) seen rule of
        Inl x \<Rightarrow>
          ([], Some (if final \<and> \<not> w_valid w data
                     then (case base_missing h seen of Some x \<Rightarrow> x | None \<Rightarrow> ETruncatedLine n data)
                     else x))
      | Inr (e, seen, rule) \<Rightarrow>
          (case scan_lines w h seen rule ls of (es, err) \<Rightarrow> (e\<lparr>re_format := h_Format h\<rparr> # es, err)))"

lemma scan_loop_lines: "scan_loop w h n seen rule inp = scan_lines w h seen rule (file_lines n inp)"
proof (induction w h n seen rule inp rule: scan_loop.induct)
  case (1 w h n seen rule inp)
  obtain raw rest where c: "chunk inp = (raw, rest)" by fastforce
  show ?case
  proof (cases "TrimRight raw = []")
    case True
    with 1(1) [OF c [symmetric] refl True] c show ?thesis
      by (cases rest) (simp_all add: scan_loop.simps [of w h n] file_lines.simps [of n])
  next
    case False
    show ?thesis
    proof (cases "scanLine w (TrimRight raw) (h_ID h) seen rule")
      case (Inl x)
      with c False show ?thesis
        by (cases "base_missing h seen") (auto simp: scan_loop.simps [of w h n] file_lines.simps [of n] Let_def)
    next
      case (Inr p)
      obtain e seen' rule' where p: "p = (e, seen', rule')" by (cases p)
      have "scan_loop w h (n + 1) seen' rule' inp' = scan_lines w h seen' rule' (file_lines (Suc n) inp')"
        if "rest = Some inp'" for inp'
        using 1(2) [OF c [symmetric] refl False Inr, of e "(seen', rule')" seen' rule'] p that by simp
      with c False Inr p show ?thesis
        by (cases rest) (simp_all add: scan_loop.simps [of w h n] file_lines.simps [of n])
    qed
  qed
qed

lemma first_line_lines:
  "case first_line n inp of
     None \<Rightarrow> file_lines n inp = []
   | Some (data, m, rest) \<Rightarrow>
       \<exists>final. file_lines n inp = (m, data, final) # (case rest of None \<Rightarrow> [] | Some inp' \<Rightarrow> file_lines m inp')"
proof (induction n inp rule: first_line.induct)
  case (1 n inp)
  obtain raw rest where c: "chunk inp = (raw, rest)" by fastforce
  show ?case
  proof (cases "TrimRight raw = []")
    case True
    show ?thesis
    proof (cases rest)
      case (Some inp')
      with True c have "file_lines n inp = file_lines (Suc n) inp'" "first_line n inp = first_line (Suc n) inp'"
        by (simp_all add: first_line.simps [of n] file_lines.simps [of n])
      with 1 [OF c [symmetric] _ Some] True show ?thesis by (auto split: option.splits prod.splits)
    qed (use True c in \<open>simp add: first_line.simps [of n] file_lines.simps [of n]\<close>)
  next
    case False
    with c show ?thesis by (simp add: first_line.simps [of n] file_lines.simps [of n])
  qed
qed

text \<open>What both readers make of the first line.\<close>

definition scan_header :: "wire \<Rightarrow> string \<Rightarrow> header res" where
  "scan_header w data =
     (case ijson_refused w data of
        Some x \<Rightarrow> Inl x
      | None \<Rightarrow>
          bind_res (w_header w data) (\<lambda>h.
          then_res (Validate h)
          (then_res (refuse (minor_of (h_Format h) < hashedMinor) EScanMigrated) (Inr h))))"

lemma Scan_lines:
  "Scan w inp =
     (case file_lines 0 inp of
        [] \<Rightarrow> Inl (EInvalid ''empty input'')
      | (n, data, final) # ls \<Rightarrow>
          bind_res (scan_header w data) (\<lambda>h. Inr (h, scan_lines w h {} (newBaseRule (h_Base h)) ls)))"
proof (cases "first_line 0 inp")
  case None
  with first_line_lines [of 0 inp] show ?thesis by (simp add: Scan_def)
next
  case (Some p)
  obtain data m rest where p: "p = (data, m, rest)" by (cases p)
  from first_line_lines [of 0 inp] Some p obtain final where
    l: "file_lines 0 inp = (m, data, final) # (case rest of None \<Rightarrow> [] | Some inp' \<Rightarrow> file_lines m inp')" by auto
  have "(case rest of None \<Rightarrow> ([], base_missing h {}) | Some inp' \<Rightarrow> scan_loop w h m {} (newBaseRule (h_Base h)) inp') =
      scan_lines w h {} (newBaseRule (h_Base h)) (case rest of None \<Rightarrow> [] | Some inp' \<Rightarrow> file_lines m inp')" for h
    by (cases rest) (simp_all add: scan_loop_lines)
  with Some p l show ?thesis
    by (simp add: Scan_def scan_header_def bind_res_def then_res_def split: option.split sum.split)
qed

section \<open>One line\<close>

text \<open>
  What the two readers rely on in the decoder: a line it accepts is JSON, the canonical bytes it hands
  back are the line's, and the parent and the convergence references it decodes are the members.
\<close>

definition decodes_members :: "wire \<Rightarrow> bool" where
  "decodes_members w \<longleftrightarrow>
     (\<forall>d. w_ijson w d = Inr () \<longrightarrow> w_valid w d) \<and>
     (\<forall>d p. w_decodeLine w d = Inr p \<longrightarrow> w_valid w d) \<and>
     (\<forall>d e c. w_decodeLine w d = Inr (e, Some c) \<longrightarrow> w_transform w d = Inr c) \<and>
     (\<forall>d e co c ms. w_decodeLine w d = Inr (e, co) \<longrightarrow> w_transform w d = Inr c \<longrightarrow> w_members w c = Some ms \<longrightarrow>
        str_member w (member ''parent'' ms) = Inr (e_parent e) \<and>
        (\<exists>refs. parents_refs w (member ''parents'' ms) = Inr refs \<and>
          b_Parents (base_of e) = (case refs of None \<Rightarrow> [] | Some rs \<Rightarrow> rs)))"

lemma verifyLine_members:
  "verifyLine w c = Inr v \<Longrightarrow> \<exists>ms. w_members w c = Some ms \<and>
     str_member w (member ''parent'' ms) = Inr (le_parent v) \<and> le_parents v = member ''parents'' ms"
  by (auto simp: verifyLine_def bind_res_Inr then_res_Inr split: option.splits if_splits prod.splits)

lemma gateRedacted_base [simp]:
  "e_id (gateRedacted k f e) = e_id e" "e_parent (gateRedacted k f e) = e_parent e"
  "b_Parents (base_of (gateRedacted k f e)) = b_Parents (base_of e)"
  by (auto simp: gateRedacted_def demoteRedacted_def Let_def split: prod.splits if_splits)

lemma add_kept [simp]:
  "se_repeated (add e s) = se_repeated s" "se_truncated (add e s) = se_truncated s" "se_migrated (add e s) = se_migrated s"
proof -
  have "se_repeated (add_indexes e t) = se_repeated t" "se_truncated (add_indexes e t) = se_truncated t"
    "se_migrated (add_indexes e t) = se_migrated t" for t
    by (auto simp: add_indexes_def split: entry.split option.split item.split)
  moreover have "se_repeated (hold_gated e s) = se_repeated s" "se_truncated (hold_gated e s) = se_truncated s"
    "se_migrated (hold_gated e s) = se_migrated s"
    by (simp_all add: hold_gated_def)
  ultimately show "se_repeated (add e s) = se_repeated s" "se_truncated (add e s) = se_truncated s"
    "se_migrated (add e s) = se_migrated s"
    by (simp_all add: add_def Let_def)
qed

lemma scanLine_link:
  assumes law: "decodes_members w" and d: "w_decodeLine w data = Inr (e, co)" and ok: "ijson_refused w data = None"
    and l: "link k w None rule e data co s = Inr (s', m', rule')" and wf: "session_wf s" and h: "session = h_ID (se_header s)"
    and seen: "seen = set (map e_id (se_entries s))"
  obtains r where "scanLine w data session seen rule = Inr (r, set (map e_id (se_entries s')), rule')" "m' = None"
    "re_Repeat r \<longrightarrow> se_entries s' = se_entries s \<and> se_repeated s' = se_repeated s @ [re_ID r] \<and> rule' = rule"
    "\<not> re_Repeat r \<longrightarrow> se_repeated s' = se_repeated s \<and>
       (\<exists>e. se_entries s' = se_entries s @ [e] \<and> e_id e = re_ID r \<and> e_parent e = re_Parent r)"
    "re_Line r = data" "h_ID (se_header s') = h_ID (se_header s)" "h_Base (se_header s') = h_Base (se_header s)"
    "se_truncated s' = se_truncated s"
proof -
  have ij: "w_ijson w data = Inr ()"
    using ok law d by (auto simp: ijson_refused_def decodes_members_def split: sum.splits if_splits)
  from l obtain c v where c: "w_transform w data = Inr c" and v: "verifyLine w c = Inr v"
    and lc: "link_checked rule (upd_base (\<lambda>b. b\<lparr>b_ID := le_id v, b_content := le_content v\<rparr>) (gateRedacted k (se_declared s) e)) s
        = Inr (s', rule')" and m': "m' = None"
    using law d by (cases co) (auto simp: link_def Let_def bind_res_Inr decodes_members_def)
  let ?e = "upd_base (\<lambda>b. b\<lparr>b_ID := le_id v, b_content := le_content v\<rparr>) (gateRedacted k (se_declared s) e)"
  from verifyLine_members [OF v] obtain ms where ms: "w_members w c = Some ms"
      "str_member w (member ''parent'' ms) = Inr (le_parent v)" "le_parents v = member ''parents'' ms" by blast
  from law have "w_decodeLine w data = Inr (e, co) \<longrightarrow> w_transform w data = Inr c \<longrightarrow> w_members w c = Some ms \<longrightarrow>
        str_member w (member ''parent'' ms) = Inr (e_parent e) \<and>
        (\<exists>refs. parents_refs w (member ''parents'' ms) = Inr refs \<and>
          b_Parents (base_of e) = (case refs of None \<Rightarrow> [] | Some rs \<Rightarrow> rs))"
    unfolding decodes_members_def by blast
  with d c ms obtain refs where
    p: "le_parent v = e_parent e" "parents_refs w (le_parents v) = Inr refs"
      "b_Parents (base_of e) = (case refs of None \<Rightarrow> [] | Some rs \<Rightarrow> rs)"
    by auto
  have has: "se_byID s i = None \<longleftrightarrow> i \<notin> seen" for i
    using wf index_of_None by (simp add: session_wf_def seen)
  let ?r = "\<lparr>re_ID = le_id v, re_Parent = le_parent v, re_Type = le_typ v, re_Line = data, re_Repeat = (le_id v \<in> seen), re_format = []\<rparr>"
  show ?thesis
  proof (cases "le_id v \<in> seen")
    case True
    with lc has have "s' = s\<lparr>se_repeated := se_repeated s @ [le_id v]\<rparr>" "rule' = rule" by (auto simp: link_checked_def)
    with True ij c v seen m' show ?thesis by (intro that [of ?r]) (simp_all add: scanLine_def Let_def)
  next
    case False
    from lc False has have b: "base_line rule (le_id v) (e_parent e) = Inr rule'" "s' = add ?e s"
      and ch: "checkParents s (base_of ?e) = Inr ()" "e_parent e = [] \<or> e_parent e \<in> seen"
      by (auto simp: link_checked_def bind_res_Inr then_res_Inr split: if_splits)
    have rf: "(case refs of None \<Rightarrow> Inr () | Some rs \<Rightarrow> checkRefs (le_parent v) session rs (\<lambda>i. i \<in> seen)) = Inr ()"
      using ch(1) p(1,3) checkParents_file [OF wf, of "base_of ?e"] h seen by (cases refs) simp_all
    have "scanLine w data session seen rule = Inr (?r, insert (le_id v) seen, rule')"
      unfolding scanLine_def ij c v bind_res_simps then_res_simps Let_def p(2) rf
      using False ch(2) b(1) p(1) rf by auto
    with False p(1) b(2) m' seen show ?thesis by (intro that [of ?r]) auto
  qed
qed

section \<open>A whole file\<close>

definition entries_met :: "raw_entry list \<Rightarrow> (eid \<times> eid) list" where
  "entries_met rs = map (\<lambda>r. (re_ID r, re_Parent r)) (filter (\<lambda>r. \<not> re_Repeat r) rs)"

definition repeats_met :: "raw_entry list \<Rightarrow> eid list" where
  "repeats_met rs = map re_ID (filter re_Repeat rs)"

definition scan_end :: "header \<Rightarrow> session \<Rightarrow> error option" where
  "scan_end h s =
     (if base_missing h (set (map e_id (se_entries s))) \<noteq> None then Some ENoEntry
      else map_option (\<lambda>t. ETruncatedLine (tl_Line t) (tl_Data t)) (se_truncated s))"

lemma scan_follows_read:
  assumes k: "codec_ok k" "wire_hashes w" and law: "decodes_members w"
  shows "read_lines k w f st ls = Inr st' \<Longrightarrow> st_session st = Some s \<Longrightarrow> st_migration st = None \<Longrightarrow>
    building s (st_rule st) \<Longrightarrow> se_truncated s = None \<Longrightarrow> h_ID h = h_ID (se_header s) \<Longrightarrow> h_Base h = h_Base (se_header s) \<Longrightarrow>
    \<exists>s' rs. st_session st' = Some s' \<and> scan_lines w h (set (map e_id (se_entries s))) (st_rule st) ls = (rs, scan_end h s') \<and>
      map (\<lambda>e. (e_id e, e_parent e)) (se_entries s') = map (\<lambda>e. (e_id e, e_parent e)) (se_entries s) @ entries_met rs \<and>
      se_repeated s' = se_repeated s @ repeats_met rs \<and> h_ID (se_header s') = h_ID h \<and> h_Base (se_header s') = h_Base h"
proof (induction ls arbitrary: st s)
  case Nil
  then show ?case by (auto simp: scan_end_def base_missing_def entries_met_def repeats_met_def)
next
  case (Cons l ls)
  obtain n data final where l: "l = (n, data, final)" by (cases l)
  from Cons.prems(1) l obtain st1 stop where ok: "ijson_refused w data = None"
    and rl: "read_line k w f final data (st\<lparr>st_line := n\<rparr>) = Inr (st1, stop)"
    and rest: "if stop then st' = st1 else read_lines k w f st1 ls = Inr st'"
    by (auto simp: bind_res_Inr split: option.splits if_splits)
  let ?seen = "set (map e_id (se_entries s))"
  show ?case
  proof (cases "w_decodeLine w data")
    case (Inl x)
    with rl Cons.prems(2) have fin: "final" "\<not> w_valid w data" "stop" and st1: "st_session st1 =
        Some (s\<lparr>se_truncated := Some \<lparr>tl_Line = n, tl_Data = data, tl_Err = x\<rparr>\<rparr>)"
      by (auto simp: read_line_def split: if_splits)
    from law fin(2) obtain y where "w_ijson w data = Inl y" by (cases "w_ijson w data") (auto simp: decodes_members_def)
    then have "scanLine w data (h_ID h) ?seen (st_rule st) = Inl y" by (simp add: scanLine_def)
    with l fin have "scan_lines w h ?seen (st_rule st) (l # ls) =
        ([], scan_end h (s\<lparr>se_truncated := Some \<lparr>tl_Line = n, tl_Data = data, tl_Err = x\<rparr>\<rparr>))"
      by (auto simp: scan_end_def base_missing_def)
    with fin st1 rest Cons.prems(6,7) show ?thesis by (auto simp: entries_met_def repeats_met_def)
  next
    case (Inr p)
    obtain e co where p: "p = (e, co)" by (cases p)
    from rl Inr p Cons.prems(2,3) obtain s1 m1 rule1 where
      lk: "link k w None (st_rule st) e data co s = Inr (s1, m1, rule1)" and ns: "\<not> stop"
      and st1: "st1 = st\<lparr>st_line := n, st_session := Some s1, st_migration := m1, st_rule := rule1\<rparr>"
      by (auto simp: read_line_def bind_res_Inr)
    have wf: "session_wf s" using Cons.prems(4) by (simp add: building_def)
    have b1: "building s1 rule1" by (rule building_link [OF k Cons.prems(4) lk])
    obtain r where r: "scanLine w data (h_ID h) ?seen (st_rule st) = Inr (r, set (map e_id (se_entries s1)), rule1)" "m1 = None"
      "re_Repeat r \<longrightarrow> se_entries s1 = se_entries s \<and> se_repeated s1 = se_repeated s @ [re_ID r] \<and> rule1 = st_rule st"
      "\<not> re_Repeat r \<longrightarrow> se_repeated s1 = se_repeated s \<and>
         (\<exists>e. se_entries s1 = se_entries s @ [e] \<and> e_id e = re_ID r \<and> e_parent e = re_Parent r)"
      "re_Line r = data" "h_ID (se_header s1) = h_ID (se_header s)" "h_Base (se_header s1) = h_Base (se_header s)"
      "se_truncated s1 = se_truncated s"
      using scanLine_link [OF law Inr [unfolded p] ok lk wf Cons.prems(6) refl] by blast
    from rest ns have rd: "read_lines k w f st1 ls = Inr st'" by simp
    obtain s' rs where IH: "st_session st' = Some s'"
        "scan_lines w h (set (map e_id (se_entries s1))) rule1 ls = (rs, scan_end h s')"
        "map (\<lambda>e. (e_id e, e_parent e)) (se_entries s') = map (\<lambda>e. (e_id e, e_parent e)) (se_entries s1) @ entries_met rs"
        "se_repeated s' = se_repeated s1 @ repeats_met rs" "h_ID (se_header s') = h_ID h" "h_Base (se_header s') = h_Base h"
      using Cons.IH [OF rd, of s1] st1 b1 r(2,6-8) Cons.prems(5-7) by auto
    have "scan_lines w h ?seen (st_rule st) (l # ls) = (r\<lparr>re_format := h_Format h\<rparr> # rs, scan_end h s')"
      using l r(1) IH(2) by simp
    moreover have "map (\<lambda>e. (e_id e, e_parent e)) (se_entries s') =
        map (\<lambda>e. (e_id e, e_parent e)) (se_entries s) @ entries_met (r\<lparr>re_format := h_Format h\<rparr> # rs)"
      using IH(3) r(3,4) by (cases "re_Repeat r") (auto simp: entries_met_def)
    moreover have "se_repeated s' = se_repeated s @ repeats_met (r\<lparr>re_format := h_Format h\<rparr> # rs)"
      using IH(4) r(3,4) by (cases "re_Repeat r") (auto simp: repeats_met_def)
    ultimately show ?thesis using IH(1,5,6) by blast
  qed
qed

lemma link_migrated: "link k w m rule e data co s = Inr (s', m', rule') \<Longrightarrow> se_migrated s' = se_migrated s"
proof -
  have "link_checked rule x t = Inr (t', r') \<Longrightarrow> se_migrated t' = se_migrated t" for x t t' r'
    by (auto simp: link_checked_def bind_res_Inr then_res_Inr split: if_splits)
  moreover have "rewrite k w ids x t = Inr (x', ids', t') \<Longrightarrow> se_migrated t' = se_migrated t" for ids x t x' ids' t'
    using rewrite_state [of k w ids x t] by fastforce
  moreover assume "link k w m rule e data co s = Inr (s', m', rule')"
  ultimately show ?thesis
    by (fastforce simp: link_def Let_def bind_res_Inr split: option.splits)
qed

lemma read_lines_migrated:
  "read_lines k w f st ls = Inr st' \<Longrightarrow> st_session st = Some s \<Longrightarrow>
   \<exists>s'. st_session st' = Some s' \<and> se_migrated s' = se_migrated s"
proof (induction ls arbitrary: st s)
  case (Cons l ls)
  obtain n data final where l: "l = (n, data, final)" by (cases l)
  from Cons.prems(1) l obtain st1 stop where
    rl: "read_line k w f final data (st\<lparr>st_line := n\<rparr>) = Inr (st1, stop)"
    and rest: "if stop then st' = st1 else read_lines k w f st1 ls = Inr st'"
    by (auto simp: bind_res_Inr split: option.splits if_splits)
  have "\<exists>s1. st_session st1 = Some s1 \<and> se_migrated s1 = se_migrated s"
    using rl Cons.prems(2) link_migrated
    by (cases "w_decodeLine w data") (fastforce simp: read_line_def bind_res_Inr split: if_splits prod.splits)+
  with rest Cons.IH [of st1] show ?case by (auto split: if_splits)
qed simp

lemma migrate_same: "migrate h = Inr h' \<Longrightarrow> h_ID h' = h_ID h \<and> h_Base h' = h_Base h"
  by (auto simp: migrate_def bind_res_Inr then_res_Inr Raise_ok_iff split: if_splits sum.splits)

lemma Validate_ID: "Validate h = Inr u \<Longrightarrow> h_ID h \<noteq> []"
  by (auto simp: Validate_def bind_res_Inr then_res_Inr)

lemma read_finish_same:
  "read_finish s = Inr s' \<Longrightarrow> se_entries s' = se_entries s \<and> se_repeated s' = se_repeated s \<and>
     se_truncated s' = se_truncated s \<and> se_header s' = se_header s \<and> se_migrated s' = se_migrated s \<and>
     (h_Base (se_header s) = [] \<or> se_byID s (h_Base (se_header s)) \<noteq> None)"
  by (auto simp: read_finish_def Let_def split: if_splits)

lemma Scan_follows_Read:
  assumes k: "codec_ok k" "wire_hashes w" and law: "decodes_members w"
    and r: "Read k w f inp = Inr s" and m: "\<not> se_migrated s"
  shows "\<exists>h rs. Scan w inp = Inr (h, rs, map_option (\<lambda>t. ETruncatedLine (tl_Line t) (tl_Data t)) (se_truncated s)) \<and>
    entries_met rs = map (\<lambda>e. (e_id e, e_parent e)) (se_entries s) \<and> repeats_met rs = se_repeated s \<and>
    h_ID h = h_ID (se_header s) \<and> h_Base h = h_Base (se_header s)"
proof -
  from r obtain st s0 where rl: "read_lines k w f read_start (file_lines 0 inp) = Inr st"
      "st_session st = Some s0" "read_finish s0 = Inr s"
    by (auto simp: Read_lines session_of_def bind_res_Inr split: option.splits)
  note fin = read_finish_same [OF rl(3)]
  from rl obtain n data final ls where l: "file_lines 0 inp = (n, data, final) # ls"
    by (cases "file_lines 0 inp") (auto simp: read_start_def)
  from rl(1) l obtain h st1 where ok: "ijson_refused w data = None" "w_header w data = Inr h" "Validate h = Inr ()"
    and st1: "read_header w f data (read_start\<lparr>st_line := n\<rparr>) = Inr st1" "read_lines k w f st1 ls = Inr st"
    by (auto simp: bind_res_Inr read_line_def read_start_def read_header_def then_res_Inr split: option.splits)
  let ?m = "if minor_of (h_Format h) < hashedMinor then Some Map.empty else None"
  from st1(1) ok obtain h' where h': "migrate h = Inr h'" and s1: "st1 = (read_start\<lparr>st_line := n\<rparr>)
      \<lparr>st_session := Some ((New (f_payload f) (f_id f) (f_now f) h')\<lparr>se_migrated := (?m \<noteq> None), se_declared := h_Format h\<rparr>),
       st_migration := ?m, st_rule := newBaseRule (h_Base h')\<rparr>"
    by (auto simp: read_header_def bind_res_Inr Let_def)
  note same = migrate_same [OF h']
  from read_lines_migrated [OF st1(2)] s1 rl(2) fin m have nm: "\<not> minor_of (h_Format h) < hashedMinor" by auto
  let ?s = "(New (f_payload f) (f_id f) (f_now f) h')\<lparr>se_migrated := False, se_declared := h_Format h\<rparr>"
  have hid: "h_ID (se_header ?s) = h_ID h" "h_Base (se_header ?s) = h_Base h"
    using Validate_ID [OF ok(3)] same by (simp_all add: New_def empty_session_def fill_def)
  have e: "se_entries ?s = []" "se_repeated ?s = []" "se_truncated ?s = None"
    by (simp_all add: New_def empty_session_def)
  from s1 nm have s1': "st_session st1 = Some ?s" "st_migration st1 = None" "st_rule st1 = newBaseRule (h_Base h)"
    using same by simp_all
  have "building ?s (st_rule st1)" using building_New [where h = h'] s1'(3) same by simp
  from scan_follows_read [OF k law st1(2) s1'(1,2) this e(3), of h] hid s1'(3) rl(2) e obtain rs where
    rs: "scan_lines w h {} (newBaseRule (h_Base h)) ls = (rs, scan_end h s0)"
      "map (\<lambda>e. (e_id e, e_parent e)) (se_entries s0) = entries_met rs" "se_repeated s0 = repeats_met rs"
      "h_ID (se_header s0) = h_ID h" "h_Base (se_header s0) = h_Base h"
    by auto
  obtain rule where b0: "building s0 rule"
  proof -
    have "read_building read_start" by (simp add: read_building_def read_start_def)
    from read_lines_building [OF k this rl(1)] rl(2) that show ?thesis by (simp add: read_building_def)
  qed
  from b0 fin rs(5) have "base_missing h (set (map e_id (se_entries s0))) = None"
    using index_of_None [of "se_entries s0" "h_Base h"] by (auto simp: base_missing_def building_def session_wf_def)
  with rs(1) have "scan_lines w h {} (newBaseRule (h_Base h)) ls =
      (rs, map_option (\<lambda>t. ETruncatedLine (tl_Line t) (tl_Data t)) (se_truncated s0))" by (simp add: scan_end_def)
  moreover have "scan_header w data = Inr h" using ok nm by (simp add: scan_header_def)
  ultimately have "Scan w inp = Inr (h, rs, map_option (\<lambda>t. ETruncatedLine (tl_Line t) (tl_Data t)) (se_truncated s0))"
    using l by (simp add: Scan_lines)
  with fin rs(2-5) show ?thesis by (intro exI [of _ h] exI [of _ rs]) simp
qed

end
