(* ===== verification/Round_Trip.thy ===== *)
theory Round_Trip
  imports Scanning
begin

text \<open>
  Writing a session and reading it back (\<open>Write\<close>, \<open>Read\<close> of \<open>codec.go\<close>): the file a writer leaves is
  read back to the same header, the same entries and the leaf a reader resolves, and a line cut short
  after it is reported without touching any of that.
\<close>

section \<open>Entries up to what a read adds\<close>

text \<open>A read keeps the spelling of an entry's timestamp; everything else is the entry written.\<close>

definition bare :: "entry \<Rightarrow> entry" where
  "bare e = upd_base (\<lambda>b. b\<lparr>b_tsRaw := []\<rparr>) e"

lemma bare_simps [simp]:
  "e_id (bare e) = e_id e" "e_parent (bare e) = e_parent e" "is_leaf_label (bare e) = is_leaf_label e"
  "b_Parents (base_of (bare e)) = b_Parents (base_of e)"
  by (simp_all add: bare_def)

lemma bare_idem [simp]: "bare (upd_base (\<lambda>b. b\<lparr>b_tsRaw := r\<rparr>) e) = bare e"
  by (cases e) (simp_all add: bare_def)

lemma bare_eqD:
  assumes "bare e' = bare e"
  shows "e_id e' = e_id e" "e_parent e' = e_parent e" "is_leaf_label e' = is_leaf_label e"
    "b_Parents (base_of e') = b_Parents (base_of e)"
  using arg_cong [OF assms, of e_id] arg_cong [OF assms, of e_parent] arg_cong [OF assms, of is_leaf_label]
    arg_cong [OF assms, of "\<lambda>e. b_Parents (base_of e)"] by simp_all

lemma map_bare_eqD:
  assumes "map bare es' = map bare es" and "\<And>e. f (bare e) = f e"
  shows "map f es' = map f es"
proof -
  have "map f (map bare es') = map f (map bare es)" using assms(1) by simp
  then show ?thesis by (simp add: comp_def assms(2))
qed

lemma bare_option_cases:
  assumes "map_option bare x' = map_option bare x"
  obtains "x' = None" "x = None" | e' e where "x' = Some e'" "x = Some e" "bare e' = bare e"
  using assms by (cases x'; cases x) auto

lemma durable_bare: "durable may (map bare es) = durable may es"
proof (induction es rule: rev_induct)
  case (snoc e es)
  have "durable_step may (i, bare e) = durable_step may (i, e)" for i
    by (cases e) (simp_all add: durable_step_def bare_def fun_eq_iff)
  with snoc show ?case by (simp add: durable_snoc)
qed simp

lemma under_pass_bare: "under_pass m at (map bare es) = under_pass m at es"
proof (induction es rule: rev_induct)
  case (snoc e es)
  have "under_step at (i, bare e) = under_step at (i, e)" for i
    by (simp add: under_step_def fun_eq_iff Let_def)
  with snoc show ?case by (simp add: under_pass_snoc)
qed simp

lemma index_of_bare: "index_of (map bare es) i = map_option bare (index_of es i)"
  by (induction es) (simp_all add: index_of_def)

lemma off_label_bare:
  "\<forall>i. map_option bare (m' i) = map_option bare (m i) \<Longrightarrow> off_label n m' i = off_label n m i"
proof (induction n arbitrary: i)
  case (Suc n)
  from Suc.prems have "map_option bare (m' i) = map_option bare (m i)" by simp
  then show ?case
  proof (cases rule: bare_option_cases)
    case (2 e' e)
    then show ?thesis by (simp add: bare_eqD(2,3) [OF 2(3)] Suc.IH [OF Suc.prems])
  qed simp
qed simp

lemma walk_bare:
  "\<forall>i. map_option bare (m' i) = map_option bare (m i) \<Longrightarrow> map bare acc' = map bare acc \<Longrightarrow>
   map_option (map bare) (walk n m' i acc') = map_option (map bare) (walk n m i acc)"
proof (induction n arbitrary: i acc acc')
  case (Suc n)
  from Suc.prems have "map_option bare (m' i) = map_option bare (m i)" by simp
  then show ?case
  proof (cases rule: bare_option_cases)
    case (2 e' e)
    with Suc.prems(2) Suc.IH [OF Suc.prems(1), of "e' # acc'" "e # acc" "e_parent e"] show ?thesis
      by (simp add: bare_eqD(2) [OF 2(3)])
  qed (use Suc.prems(2) in simp)
qed simp

lemma path_bare:
  assumes "session_wf s" "session_wf s'" "map bare (se_entries s') = map bare (se_entries s)"
  shows "map bare (path s' i) = map bare (path s i)"
proof -
  have b: "\<forall>i. map_option bare (se_byID s' i) = map_option bare (se_byID s i)"
    using assms index_of_bare by (metis session_wf_def)
  have "length (se_entries s') = length (se_entries s)" using assms(3) by (rule map_eq_imp_length_eq)
  with walk_bare [OF b, of "[]" "[]" "Suc (length (se_entries s))" i] show ?thesis
    by (auto simp: path_def simp del: walk.simps split: option.splits)
qed

lemma resolveLeaf_bare:
  assumes wf: "session_wf s" "session_wf s'" and es: "map bare (se_entries s') = map bare (se_entries s)"
    and h: "h_Base (se_header s') = h_Base (se_header s)" and p: "se_prefix s' = se_prefix s"
  shows "resolveLeaf s' = resolveLeaf s"
proof -
  have b: "\<forall>i. map_option bare (se_byID s' i) = map_option bare (se_byID s i)"
    using wf es index_of_bare by (metis session_wf_def)
  have len: "length (se_entries s') = length (se_entries s)" using es by (rule map_eq_imp_length_eq)
  have may: "mayRestOn s' = mayRestOn s"
  proof
    fix i
    have "map_option bare (se_byID s' i) = map_option bare (se_byID s i)" using b by simp
    then show "mayRestOn s' i = mayRestOn s i"
    proof (cases rule: bare_option_cases)
      case (2 e' e)
      then show ?thesis by (simp add: mayRestOn_def h p bare_eqD(3) [OF 2(3)])
    qed (simp add: mayRestOn_def h)
  qed
  have n: "notOnLabel s' i = notOnLabel s i" for i
    using off_label_bare [OF b] h p len by (simp add: notOnLabel_def del: off_label.simps)
  have d: "durableLeafAt s' = durableLeafAt s"
    using durable_bare es may by (metis durableLeafAt_def)
  have u: "under_pass m at (se_entries s') = under_pass m at (se_entries s)" for m at
    using under_pass_bare es by metis
  have "se_entries s' \<noteq> [] \<Longrightarrow> e_id (last (se_entries s')) = e_id (last (se_entries s))"
    using es by (metis bare_simps(1) last_map map_is_Nil_conv)
  with d u n len show ?thesis unfolding resolveLeaf_def by (auto split: prod.splits)
qed

section \<open>The lines of a written file\<close>

lemma chunk_line: "LF \<notin> set l \<Longrightarrow> chunk (l @ LF # rest) = (l, Some rest)"
proof -
  assume "LF \<notin> set l"
  then have "\<forall>c\<in>set l. c \<noteq> LF" by auto
  then show ?thesis by (simp add: chunk_def takeWhile_append2 dropWhile_append2)
qed

lemma chunk_last: "LF \<notin> set l \<Longrightarrow> chunk l = (l, None)"
proof -
  assume "LF \<notin> set l"
  then have "dropWhile (\<lambda>c. c \<noteq> LF) l = []" "takeWhile (\<lambda>c. c \<noteq> LF) l = l"
    by (auto simp: dropWhile_eq_Nil_conv takeWhile_eq_all_conv)
  then show ?thesis by (simp only: chunk_def list.case)
qed

lemma TrimRight_plain: "l \<noteq> [] \<Longrightarrow> CR \<notin> set l \<Longrightarrow> LF \<notin> set l \<Longrightarrow> TrimRight l = l"
  by (cases l rule: rev_cases) (auto simp: TrimRight_def)

lemma TrimRight_Nil [simp]: "TrimRight [] = []"
  by (simp add: TrimRight_def)

lemma file_lines_Nil [simp]: "file_lines n [] = []"
  by (simp add: file_lines.simps chunk_def)

definition plain_line :: "string \<Rightarrow> bool" where
  "plain_line l \<longleftrightarrow> l \<noteq> [] \<and> LF \<notin> set l \<and> CR \<notin> set l"

fun numbered :: "nat \<Rightarrow> string list \<Rightarrow> (nat \<times> string \<times> bool) list" where
  "numbered n [] = []"
| "numbered n (l # ls) = (Suc n, l, ls = []) # numbered (Suc n) ls"

lemma file_lines_written:
  "list_all plain_line ls \<Longrightarrow> file_lines n (concat (map (\<lambda>l. l @ [LF]) ls)) = numbered n ls"
proof (induction ls arbitrary: n)
  case (Cons l ls)
  let ?rest = "concat (map (\<lambda>l. l @ [LF]) ls)"
  have l: "plain_line l" using Cons.prems by simp
  then have "chunk (l @ LF # ?rest) = (l, Some ?rest)" "TrimRight l = l" "l \<noteq> []"
    by (simp_all add: plain_line_def chunk_line TrimRight_plain)
  moreover have "?rest = [] \<longleftrightarrow> ls = []" by (cases ls) auto
  ultimately show ?case using Cons by (simp add: file_lines.simps [of n])
qed simp

section \<open>A last line cut short\<close>

definition opened :: "(nat \<times> string \<times> bool) list \<Rightarrow> (nat \<times> string \<times> bool) list" where
  "opened ls = map (\<lambda>(n, data, final). (n, data, False)) ls"

lemma file_lines_more:
  "b \<noteq> [] \<Longrightarrow> file_lines n (a @ LF # b) =
     opened (file_lines n (a @ [LF])) @ file_lines (n + length (filter (\<lambda>c. c = LF) (a @ [LF]))) b"
proof (induction a arbitrary: n rule: length_induct)
  case (1 a)
  show ?case
  proof (cases "LF \<in> set a")
    case True
    then obtain l a' where a: "a = l @ LF # a'" "LF \<notin> set l" by (meson split_list_first)
    from 1 a have "file_lines (Suc n) (a' @ LF # b) = opened (file_lines (Suc n) (a' @ [LF])) @
        file_lines (Suc n + length (filter (\<lambda>c. c = LF) (a' @ [LF]))) b" by simp
    moreover have "filter (\<lambda>c. c = LF) l = []" using a(2) by (auto simp: filter_empty_conv)
    ultimately show ?thesis
      using chunk_line [OF a(2), of "a' @ LF # b"] chunk_line [OF a(2), of "a' @ [LF]"]
      by (simp add: a file_lines.simps [of n] opened_def)
  next
    case False
    then have "filter (\<lambda>c. c = LF) a = []" by (auto simp: filter_empty_conv)
    with False 1(2) chunk_line [OF False, of b] chunk_line [OF False, of "[]"] show ?thesis
      by (simp add: file_lines.simps [of n] opened_def)
  qed
qed

lemma read_lines_opened:
  "read_lines k w f st ls = Inr st' \<Longrightarrow> st_session st' = Some s \<Longrightarrow> se_truncated s = None \<Longrightarrow>
   read_lines k w f st (opened ls @ ys) = read_lines k w f st' ys"
proof (induction ls arbitrary: st)
  case (Cons l ls)
  obtain n data final where l: "l = (n, data, final)" by (cases l)
  from Cons.prems(1) l obtain st1 stop where ok: "ijson_refused w data = None"
    and rl: "read_line k w f final data (st\<lparr>st_line := n\<rparr>) = Inr (st1, stop)"
    and rest: "if stop then st' = st1 else read_lines k w f st1 ls = Inr st'"
    by (auto simp: bind_res_Inr split: option.splits if_splits)
  have "\<not> stop"
  proof
    assume stop
    with rl rest Cons.prems(2,3) show False
      by (auto simp: read_line_def bind_res_Inr split: option.splits sum.splits if_splits prod.splits)
  qed
  moreover from this rl have "read_line k w f False data (st\<lparr>st_line := n\<rparr>) = Inr (st1, stop)"
    by (auto simp: read_line_def bind_res_Inr split: option.splits sum.splits if_splits prod.splits)
  ultimately show ?case
    using ok rest l Cons.IH [OF _ Cons.prems(2,3), of st1] by (simp add: opened_def)
qed (simp add: opened_def)

lemma read_finish_truncated:
  assumes "read_finish s = Inr s'"
  shows "read_finish (s\<lparr>se_truncated := x\<rparr>) = Inr (s'\<lparr>se_truncated := x\<rparr>)"
proof (cases "h_Base (se_header s) = []")
  case True
  have "resolveLeaf (s\<lparr>se_truncated := x\<rparr>) = resolveLeaf s" by (rule resolveLeaf_cong) simp_all
  with True assms show ?thesis by (auto simp: read_finish_def)
next
  case False
  let ?p = "set (map e_id (path s (h_Base (se_header s))))"
  have "path (s\<lparr>se_truncated := x\<rparr>) i = path s i" for i by (simp add: path_def)
  moreover have "resolveLeaf (s\<lparr>se_truncated := x, se_prefix := ?p\<rparr>) = resolveLeaf (s\<lparr>se_prefix := ?p\<rparr>)"
    by (rule resolveLeaf_cong) simp_all
  moreover from False assms have "se_byID s (h_Base (se_header s)) \<noteq> None" "s' = s\<lparr>se_prefix := ?p, se_leaf := resolveLeaf (s\<lparr>se_prefix := ?p\<rparr>)\<rparr>"
    by (auto simp: read_finish_def Let_def split: if_splits)
  ultimately show ?thesis using False by (simp add: read_finish_def Let_def)
qed

lemma Read_torn:
  assumes r: "Read k w f (inp @ [LF]) = Inr s" and whole: "se_truncated s = None"
    and torn: "LF \<notin> set torn" "TrimRight torn \<noteq> []"
    and bad: "w_decodeLine w (TrimRight torn) = Inl x" "\<not> w_valid w (TrimRight torn)"
  shows "Read k w f (inp @ LF # torn) =
    Inr (s\<lparr>se_truncated := Some \<lparr>tl_Line = Suc (length (filter (\<lambda>c. c = LF) (inp @ [LF]))),
              tl_Data = TrimRight torn, tl_Err = x\<rparr>\<rparr>)"
proof -
  let ?n = "length (filter (\<lambda>c. c = LF) (inp @ [LF]))"
  from r obtain st s0 where rl: "read_lines k w f read_start (file_lines 0 (inp @ [LF])) = Inr st"
      "st_session st = Some s0" "read_finish s0 = Inr s"
    by (auto simp: Read_lines session_of_def bind_res_Inr split: option.splits)
  from read_finish_same [OF rl(3)] whole have w0: "se_truncated s0 = None" by simp
  have ne: "torn \<noteq> []" using torn(2) by auto
  have "file_lines ?n torn = [(Suc ?n, TrimRight torn, True)]"
    using torn by (simp add: file_lines.simps chunk_last)
  with file_lines_more [OF ne, of 0 inp] have
    l: "file_lines 0 (inp @ LF # torn) = opened (file_lines 0 (inp @ [LF])) @ [(Suc ?n, TrimRight torn, True)]" by simp
  let ?s = "s0\<lparr>se_truncated := Some \<lparr>tl_Line = Suc ?n, tl_Data = TrimRight torn, tl_Err = x\<rparr>\<rparr>"
  have "ijson_refused w (TrimRight torn) = None" using bad(2) by (simp add: ijson_refused_def split: sum.split)
  with bad rl(2) have "session_of (read_lines k w f st [(Suc ?n, TrimRight torn, True)]) = Inr (Some ?s)"
    by (simp add: read_line_def)
  with l read_lines_opened [OF rl(1,2) w0] have
    "session_of (read_lines k w f read_start (file_lines 0 (inp @ LF # torn))) = Inr (Some ?s)" by simp
  with read_finish_truncated [OF rl(3)] show ?thesis by (simp add: Read_lines)
qed

section \<open>Writing and reading back\<close>

text \<open>
  What the round trip relies on in the encoders: a canonical line is one line that passes the readers'
  check and is its own canonical form, a header decodes to what was encoded, and the line of an entry
  holds its envelope, hashes as the entry does, and decodes to the entry.  Setting an entry's ID to
  its hash does not change the hash.
\<close>

definition canonical_lines :: "wire \<Rightarrow> bool" where
  "canonical_lines w \<longleftrightarrow>
     (\<forall>d c. w_transform w d = Inr c \<longrightarrow> plain_line c \<and> w_transform w c = Inr c \<and> w_ijson w c = Inr ())"

definition header_back :: "wire \<Rightarrow> header \<Rightarrow> bool" where
  "header_back w h \<longleftrightarrow>
     (\<forall>d c. w_marshalHeader w h = Inr d \<longrightarrow> w_transform w d = Inr c \<longrightarrow> w_header w c = Inr h)"

definition entry_back :: "codec \<Rightarrow> wire \<Rightarrow> entry \<Rightarrow> bool" where
  "entry_back k w e \<longleftrightarrow>
     (\<forall>d c. w_marshalEntry w e = Inr d \<longrightarrow> w_transform w d = Inr c \<longrightarrow>
        (\<exists>r n co. w_decodeLine w c = Inr (upd_base (\<lambda>b. b\<lparr>b_tsRaw := r, b_content := n\<rparr>) e, co) \<and> (co = None \<or> co = Some c)) \<and>
        (\<exists>ms typ ts. w_members w c = Some ms \<and> member ''content'' ms = None \<and>
          str_member w (member ''type'' ms) = Inr typ \<and> typ \<noteq> [] \<and>
          str_member w (member ''id'' ms) = Inr (e_id e) \<and> str_member w (member ''parent'' ms) = Inr (e_parent e) \<and>
          (e_parent e = [] \<longrightarrow> member ''parent'' ms = Some ''null'') \<and>
          str_member w (member ''ts'' ms) = Inr ts \<and> w_time w ts \<and>
          w_commonBody w (member ''legacy_id'' ms) (member ''normalised'' ms) = Inr ()) \<and>
        (\<forall>i n. k_EntryHashes k e = Inr (i, n) \<longrightarrow> w_memberHashes w c = (i, n)))"

definition hash_stable :: "codec \<Rightarrow> bool" where
  "hash_stable k \<longleftrightarrow>
     (\<forall>e e1 e2 i n. k_EntryHashes k e = Inr (i, n) \<longrightarrow> hashEntry k e = Inr e1 \<longrightarrow> rewrite_raw k e1 = Inr e2 \<longrightarrow>
        k_EntryHashes k e2 = Inr (i, n))"

lemma hashed_hashes:
  assumes st: "hash_stable k" and h: "hashed_by k e"
  shows "k_EntryHashes k e = Inr (e_id e, b_content (base_of e))"
proof -
  from h obtain e1 e2 where e: "hashEntry k e1 = Inr e2" "rewrite_raw k e2 = Inr e" by (auto simp: hashed_by_def)
  then obtain i n where i: "k_EntryHashes k e1 = Inr (i, n)" "b_ID (base_of e2) = i" "b_content (base_of e2) = n"
    by (auto simp: hashEntry_def bind_res_Inr)
  with st e have "k_EntryHashes k e = Inr (i, n)" unfolding hash_stable_def by blast
  with i rewrite_raw_base [OF e(2)] show ?thesis by simp
qed

lemma writeLine_ok:
  "writeLine w m = Inr l \<Longrightarrow> \<exists>d c. m = Inr d \<and> w_transform w d = Inr c \<and> l = c @ [LF]"
  by (auto simp: writeLine_def bind_res_Inr)

lemma write_entries_ok:
  "write_entries w es = Inr out \<Longrightarrow>
   \<exists>cs. out = concat (map (\<lambda>l. l @ [LF]) cs) \<and>
     list_all2 (\<lambda>e c. \<exists>d. w_marshalEntry w e = Inr d \<and> w_transform w d = Inr c) es cs"
proof (induction es arbitrary: out)
  case (Cons e es)
  from Cons.prems obtain l ls where o: "writeLine w (w_marshalEntry w e) = Inr l" "write_entries w es = Inr ls" "out = l @ ls"
    by (auto simp: bind_res_Inr)
  from Cons.IH [OF o(2)] obtain cs where cs: "ls = concat (map (\<lambda>l. l @ [LF]) cs)"
      "list_all2 (\<lambda>e c. \<exists>d. w_marshalEntry w e = Inr d \<and> w_transform w d = Inr c) es cs" by blast
  from writeLine_ok [OF o(1)] obtain d c where "w_marshalEntry w e = Inr d" "w_transform w d = Inr c" "l = c @ [LF]" by blast
  with cs o(3) show ?case by (intro exI [of _ "c # cs"]) auto
qed simp

lemma verifyLine_back:
  assumes b: "entry_back k w e" and c: "w_marshalEntry w e = Inr d" "w_transform w d = Inr c"
    and h: "k_EntryHashes k e = Inr (e_id e, n)" and i: "e_id e \<noteq> []"
  shows "\<exists>v. verifyLine w c = Inr v \<and> le_id v = e_id e \<and> le_content v = n"
proof -
  from b c obtain ms ty ts where m: "w_members w c = Some ms" "member ''content'' ms = None"
      "str_member w (member ''type'' ms) = Inr ty" "ty \<noteq> []"
      "str_member w (member ''id'' ms) = Inr (e_id e)" "str_member w (member ''parent'' ms) = Inr (e_parent e)"
      "e_parent e = [] \<longrightarrow> member ''parent'' ms = Some ''null''"
      "str_member w (member ''ts'' ms) = Inr ts" "w_time w ts"
      "w_commonBody w (member ''legacy_id'' ms) (member ''normalised'' ms) = Inr ()"
    unfolding entry_back_def by blast
  moreover from b c h have "w_memberHashes w c = (e_id e, n)" unfolding entry_back_def by blast
  ultimately show ?thesis using i by (auto simp: verifyLine_def)
qed

text \<open>One written entry, read: it is linked as written.\<close>

lemma read_line_back:
  assumes cl: "canonical_lines w" and b: "entry_back k w e" and c: "w_marshalEntry w e = Inr d" "w_transform w d = Inr c"
    and h: "k_EntryHashes k e = Inr (e_id e, b_content (base_of e))"
    and st: "st_session st = Some t" "st_migration st = None" "definesRedactedFrom (se_declared t)"
    and new: "addable t e" and rule: "base_line (st_rule st) (e_id e) (e_parent e) = Inr rule'"
    and refs: "checkParents t (base_of e) = Inr ()"
  shows "\<exists>e'. bare e' = bare e \<and>
    read_line k w f final c st = Inr (st\<lparr>st_session := Some (add e' t), st_rule := rule'\<rparr>, False)"
proof -
  from b c obtain r n co where dec: "w_decodeLine w c = Inr (upd_base (\<lambda>b. b\<lparr>b_tsRaw := r, b_content := n\<rparr>) e, co)"
    and co: "co = None \<or> co = Some c" unfolding entry_back_def by blast
  from new have i: "e_id e \<noteq> []" by (auto simp: addable_def)
  from verifyLine_back [OF b c h i] obtain v where v: "verifyLine w c = Inr v" "le_id v = e_id e" "le_content v = b_content (base_of e)"
    by blast
  let ?e = "upd_base (\<lambda>b. b\<lparr>b_tsRaw := r\<rparr>) e"
  have e: "upd_base (\<lambda>b. b\<lparr>b_ID := e_id e, b_content := b_content (base_of e)\<rparr>) (upd_base (\<lambda>b. b\<lparr>b_tsRaw := r, b_content := n\<rparr>) e) = ?e"
    by (cases e) simp_all
  have "(case co of None \<Rightarrow> w_transform w c | Some x \<Rightarrow> Inr x) = Inr c"
    using co cl c(2) by (auto simp: canonical_lines_def)
  with v e have "link k w None (st_rule st) (upd_base (\<lambda>b. b\<lparr>b_tsRaw := r, b_content := n\<rparr>) e) c co t =
      bind_res (link_checked (st_rule st) ?e t) (\<lambda>(s, rule). Inr (s, None, rule))"
    using st(3) by (simp add: link_def gateRedacted_def)
  moreover have "link_checked (st_rule st) ?e t = Inr (add ?e t, rule')"
    using new rule refs by (auto simp: link_checked_def addable_def checkParents_def)
  ultimately have "read_line k w f final c st = Inr (st\<lparr>st_session := Some (add ?e t), st_rule := rule'\<rparr>, False)"
    using st(1,2) dec by (simp add: read_line_def)
  then show ?thesis by (intro exI [of _ ?e]) simp
qed

text \<open>The entries that follow, one by one.\<close>

lemma add_header: "definesRedactedFrom (se_declared s) \<Longrightarrow> se_header (add e s) = se_header s"
  by (simp add: add_def Let_def) (simp add: hold_gated_def)

lemma tree_wf_prefix: "tree_wf (xs @ ys) \<Longrightarrow> tree_wf xs"
  by (induction ys rule: rev_induct) (simp_all add: tree_wf_snoc flip: append_assoc)

lemma read_lines_back:
  assumes cl: "canonical_lines w" and wf: "tree_wf (done @ es)" and refs: "refs_ok session (done @ es)"
    and b: "\<forall>e\<in>set es. entry_back k w e" and h: "\<forall>e\<in>set es. k_EntryHashes k e = Inr (e_id e, b_content (base_of e))"
    and cs: "list_all2 (\<lambda>e c. \<exists>d. w_marshalEntry w e = Inr d \<and> w_transform w d = Inr c) es cs"
    and st: "st_session st = Some t" "st_migration st = None" "definesRedactedFrom (se_declared t)" "h_ID (se_header t) = session"
    and t: "session_wf t" "map bare (se_entries t) = map bare done" and rule: "base_lines (st_rule st) es = Inr ro"
  shows "\<exists>st' t'. read_lines k w f st (numbered n cs) = Inr st' \<and> st_session st' = Some t' \<and>
    map bare (se_entries t') = map bare (done @ es) \<and> se_header t' = se_header t \<and>
    se_repeated t' = se_repeated t \<and> se_truncated t' = se_truncated t \<and> session_wf t' \<and> se_prefix t' = se_prefix t"
  using assms(2-13)
proof (induction es arbitrary: "done" cs st t n)
  case Nil
  then show ?case by simp
next
  case (Cons e es)
  from Cons.prems(5) obtain c cs' d where cs: "cs = c # cs'" "w_marshalEntry w e = Inr d" "w_transform w d = Inr c"
      "list_all2 (\<lambda>e c. \<exists>d. w_marshalEntry w e = Inr d \<and> w_transform w d = Inr c) es cs'"
    by (auto simp: list_all2_Cons1)
  let ?st = "st\<lparr>st_line := Suc n\<rparr>"
  have ids: "map e_id (se_entries t) = map e_id done" by (rule map_bare_eqD [OF Cons.prems(11)]) simp
  have wf1: "tree_wf (done @ [e])" using tree_wf_prefix [of "done @ [e]" es] Cons.prems(1) by simp
  have has: "se_byID t i = None \<longleftrightarrow> i \<notin> set (map e_id done)" for i
    using Cons.prems(10) index_of_None ids by (metis session_wf_def)
  have new: "addable t e" using wf1 has by (auto simp: addable_def tree_wf_snoc)
  have "checkRefs (e_parent e) session (b_Parents (base_of e)) (\<lambda>j. j \<in> set (map e_id done)) = Inr ()"
    using Cons.prems(2) by (rule refs_ok_split)
  then have ch: "checkParents t (base_of e) = Inr ()"
    using checkParents_file [OF Cons.prems(10)] ids Cons.prems(9) by simp
  from Cons.prems(12) obtain rule1 where r1: "base_line (st_rule st) (e_id e) (e_parent e) = Inr rule1" "base_lines rule1 es = Inr ro"
    by (auto simp: bind_res_Inr)
  from read_line_back [OF cl _ cs(2,3) _ _ _ _ new _ ch, where k = k and st = ?st and rule' = rule1 and f = f and final = "cs' = []"] Cons.prems(3,4,6-8) r1
  obtain e' where e': "bare e' = bare e"
      "read_line k w f (cs' = []) c ?st = Inr (?st\<lparr>st_session := Some (add e' t), st_rule := rule1\<rparr>, False)"
    by auto
  have ij: "ijson_refused w c = None" using cl cs(3) by (auto simp: canonical_lines_def ijson_refused_def)
  have add': "addable t e'" using new bare_eqD [OF e'(1)] by (simp add: addable_def)
  have "\<exists>st' t'. read_lines k w f (?st\<lparr>st_session := Some (add e' t), st_rule := rule1\<rparr>) (numbered (Suc n) cs') = Inr st' \<and>
      st_session st' = Some t' \<and> map bare (se_entries t') = map bare ((done @ [e]) @ es) \<and> se_header t' = se_header (add e' t) \<and>
      se_repeated t' = se_repeated (add e' t) \<and> se_truncated t' = se_truncated (add e' t) \<and> session_wf t' \<and>
      se_prefix t' = se_prefix (add e' t)"
    by (rule Cons.IH) (use Cons.prems cs(4) r1(2) e'(1) session_wf_add [OF Cons.prems(10) add'] in simp_all)
  with ij e'(2) cs(1) add_header [OF Cons.prems(8)] show ?case by auto
qed

lemma Validate_fill: "Validate h = Inr u \<Longrightarrow> fill p i n h = h"
proof -
  assume v: "Validate h = Inr u"
  have "ParseFormat [] = Inl EUnsupportedFormat" by (simp add: ParseFormat_def)
  with v have "h_Format h \<noteq> []" "h_ID h \<noteq> []" "h_CreatedAt h \<noteq> 0" "h_Payload h \<noteq> []"
    by (auto simp: Validate_def bind_res_Inr then_res_Inr)
  then show ?thesis by (simp add: fill_def)
qed

lemma read_header_back:
  assumes v: "Validate h = Inr ()" and f: "h_Format h = Format" and d: "w_header w c = Inr h"
  shows "read_header w f c st =
    Inr (st\<lparr>st_session := Some ((empty_session h)\<lparr>se_migrated := False, se_declared := Format\<rparr>),
            st_migration := None, st_rule := newBaseRule (h_Base h)\<rparr>)"
proof -
  have "migrate h = Inr h" using f by (simp add: migrate_def FormatMajor_def FormatMinor_def)
  moreover have "\<not> minor_of (h_Format h) < hashedMinor" using f by (simp add: minor_of_def hashedMinor_def)
  ultimately show ?thesis
    using v f d Validate_fill [OF v] by (simp add: read_header_def New_def)
qed

text \<open>Two sessions with the same header and entries resolve the same leaf once the prefix is set.\<close>

lemma read_finish_back:
  assumes wf: "session_wf s" "session_wf t" and es: "map bare (se_entries t) = map bare (se_entries s)"
    and h: "se_header t = se_header s" and p: "se_prefix t = {}" and b: "base_shape s"
    and ne: "h_Base (se_header s) = [] \<or> se_entries s \<noteq> []"
  shows "\<exists>s'. read_finish t = Inr s' \<and> se_header s' = se_header s \<and> se_entries s' = se_entries t \<and>
    se_leaf s' = resolveLeaf s \<and> se_prefix s' = se_prefix s \<and> se_repeated s' = se_repeated t \<and> se_truncated s' = se_truncated t"
proof -
  let ?b = "h_Base (se_header s)"
  define t1 where "t1 = (if ?b = [] then t else t\<lparr>se_prefix := set (map e_id (path t ?b))\<rparr>)"
  have ids: "map e_id (path t ?b) = map e_id (path s ?b)"
    by (rule map_bare_eqD [OF path_bare [OF wf es]]) simp
  have pre: "se_prefix t1 = se_prefix s" using b p ids ne by (auto simp: t1_def base_shape_def)
  have held: "?b = [] \<or> se_byID t ?b \<noteq> None"
  proof -
    have "map e_id (se_entries t) = map e_id (se_entries s)" by (rule map_bare_eqD [OF es]) simp
    moreover from b ne have "?b = [] \<or> se_byID s ?b \<noteq> None" by (auto simp: base_shape_def split: if_splits)
    ultimately show ?thesis using wf index_of_None by (metis session_wf_def)
  qed
  have "resolveLeaf t1 = resolveLeaf s"
    by (rule resolveLeaf_bare [OF wf(1)]) (use wf(2) es h pre in \<open>auto simp: t1_def\<close>)
  moreover have "read_finish t = Inr (t1\<lparr>se_leaf := resolveLeaf t1\<rparr>)"
    using held h by (auto simp: read_finish_def t1_def Let_def)
  ultimately show ?thesis using pre h by (intro exI [of _ "t1\<lparr>se_leaf := resolveLeaf t1\<rparr>"]) (simp add: t1_def)
qed

lemma Write_Read:
  assumes k: "codec_ok k" "hash_stable k" and w: "canonical_lines w" "header_back w (se_header s)" "\<forall>e\<in>set (se_entries s). entry_back k w e"
    and r: "reachable k s" and refs: "refs_ok (h_ID (se_header s)) (se_entries s)"
    and v: "Validate (se_header s) = Inr ()" "h_Format (se_header s) = Format"
    and ne: "h_Base (se_header s) = [] \<or> se_entries s \<noteq> []" and wr: "Write w s = Inr file"
  shows "\<exists>s'. Read k w f file = Inr s' \<and> se_header s' = se_header s \<and> map bare (se_entries s') = map bare (se_entries s) \<and>
    se_leaf s' = resolveLeaf s \<and> se_prefix s' = se_prefix s \<and> se_repeated s' = [] \<and> se_truncated s' = None"
proof -
  let ?h = "se_header s" and ?es = "se_entries s"
  have wf: "session_wf s" using reachable_inv [OF r k(1)] by (simp add: session_inv_def)
  have shape: "base_shape s" by (rule reachable_shape [OF r k(1)])
  from wr obtain hl out where o: "writeLine w (w_marshalHeader w ?h) = Inr hl" "write_entries w ?es = Inr out" "file = hl @ out"
    by (auto simp: Write_def bind_res_Inr split: if_splits)
  from writeLine_ok [OF o(1)] obtain d c where c: "w_marshalHeader w ?h = Inr d" "w_transform w d = Inr c" "hl = c @ [LF]" by blast
  from write_entries_ok [OF o(2)] obtain cs where cs: "out = concat (map (\<lambda>l. l @ [LF]) cs)"
      "list_all2 (\<lambda>e c. \<exists>d. w_marshalEntry w e = Inr d \<and> w_transform w d = Inr c) ?es cs" by blast
  have "plain_line (cs ! i)" if "i < length cs" for i
    using cs(2) w(1) that unfolding list_all2_conv_all_nth canonical_lines_def by metis
  then have "list_all plain_line cs" by (simp add: list_all_length)
  with w(1) c(2) have "list_all plain_line (c # cs)" by (auto simp: canonical_lines_def)
  from file_lines_written [OF this, of 0] have ls: "file_lines 0 file = (1, c, cs = []) # numbered 1 cs"
    using o(3) c(3) cs(1) by simp
  let ?t = "(empty_session ?h)\<lparr>se_migrated := False, se_declared := Format\<rparr>"
  let ?st = "(read_start\<lparr>st_line := 1\<rparr>)\<lparr>st_session := Some ?t, st_migration := None, st_rule := newBaseRule (h_Base ?h)\<rparr>"
  have "w_header w c = Inr ?h" using w(2) c by (auto simp: header_back_def)
  with read_header_back [OF v] have hd: "read_line k w f fin c (read_start\<lparr>st_line := 1\<rparr>) = Inr (?st, False)" for fin
    by (simp add: read_line_def read_start_def)
  have ij: "ijson_refused w c = None" using w(1) c(2) by (auto simp: canonical_lines_def ijson_refused_def)
  from base_shape_lines [OF wf shape] obtain ro where ro: "base_lines (newBaseRule (h_Base ?h)) ?es = Inr ro" by blast
  have t0: "session_wf ?t" using session_wf_New [of "[]" "[]" 0 ?h] Validate_fill [OF v(1)]
    by (simp add: New_def session_wf_def) (simp add: empty_session_def)
  have "\<forall>e\<in>set ?es. k_EntryHashes k e = Inr (e_id e, b_content (base_of e))"
    using hashed_hashes [OF k(2)] reachable_hashed [OF r k(1)] by blast
  then obtain st' t where t: "read_lines k w f ?st (numbered 1 cs) = Inr st'" "st_session st' = Some t"
      "map bare (se_entries t) = map bare ?es" "se_header t = ?h" "se_repeated t = []" "se_truncated t = None"
      "session_wf t" "se_prefix t = {}"
    using read_lines_back [OF w(1), of "[]" ?es "h_ID ?h" k cs ?st ?t ro f 1] wf refs w(3) cs(2) t0 ro
    by (auto simp: session_wf_def empty_session_def)
  from read_finish_back [OF wf t(7) t(3) t(4) t(8) shape ne] obtain s' where
    s': "read_finish t = Inr s'" "se_header s' = ?h" "se_entries s' = se_entries t" "se_leaf s' = resolveLeaf s"
      "se_prefix s' = se_prefix s" "se_repeated s' = []" "se_truncated s' = None"
    using t(5,6) by auto
  have "session_of (read_lines k w f read_start (file_lines 0 file)) = Inr (Some t)"
    unfolding ls using ij hd t(1,2) by simp
  with s' t(3) show ?thesis by (intro exI [of _ s']) (simp add: Read_lines)
qed

end
