(* ===== verification/File_Examples.thy ===== *)
theory File_Examples
  imports Examples Round_Trip
begin

text \<open>
  A wire format small enough to compute with, on which the laws the readers and the writer rely on
  hold: the header is the line \<open>H\<close>, an entry is the line \<open>E\<close> with its ID, any line that starts with
  another letter is not JSON, and the decoder knows the entries of one session.
\<close>

section \<open>A wire\<close>

definition quoted :: "string \<Rightarrow> json" where
  "quoted s = CHR 0x22 # s @ [CHR 0x22]"

definition ex_line :: "entry \<Rightarrow> string" where
  "ex_line e = CHR ''E'' # e_id e"

definition ex_valid :: "string \<Rightarrow> bool" where
  "ex_valid d \<longleftrightarrow> d \<noteq> [] \<and> LF \<notin> set d \<and> CR \<notin> set d \<and> (hd d = CHR ''E'' \<or> hd d = CHR ''H'')"

definition ex_find :: "entry list \<Rightarrow> string \<Rightarrow> entry option" where
  "ex_find es d = find (\<lambda>e. ex_line e = d) es"

definition ex_members :: "entry \<Rightarrow> (string \<times> json) list" where
  "ex_members e =
     [(''id'', quoted (e_id e)), (''parent'', if e_parent e = [] then ''null'' else quoted (e_parent e)),
      (''ts'', quoted ''t''), (''type'', quoted ''item'')]"

definition ex_wire :: "header \<Rightarrow> entry list \<Rightarrow> wire" where
  "ex_wire h es =
     \<lparr>w_ijson = (\<lambda>d. if ex_valid d then Inr () else Inl (EInvalid ''not JSON'')),
      w_valid = ex_valid,
      w_header = (\<lambda>d. if d = ''H'' then Inr h else Inl (EInvalid ''not a header'')),
      w_decodeLine = (\<lambda>d. if \<not> ex_valid d then Inl (EInvalid ''not JSON'')
         else case ex_find es d of None \<Rightarrow> Inl (EInvalid ''not an entry'') | Some e \<Rightarrow> Inr (e, None)),
      w_transform = (\<lambda>d. if ex_valid d then Inr d else Inl (EInvalid ''not JSON'')),
      w_members = (\<lambda>c. map_option ex_members (ex_find es c)),
      w_string = (\<lambda>_. None),
      w_time = (\<lambda>t. t = ''t''),
      w_commonBody = (\<lambda>_ _. Inr ()),
      w_memberHashes = (\<lambda>c. case ex_find es c of
         Some e \<Rightarrow> (''sha256:'' @ [char_of (96 + b_Timestamp (base_of e) mod 26)], [])
       | None \<Rightarrow> (''sha256:'', [])),
      w_refs = (\<lambda>_. Inr []),
      w_remapRefs = (\<lambda>_ e. Inr (e, False, [])),
      w_marshalHeader = (\<lambda>_. Inr ''H''),
      w_marshalEntry = (\<lambda>e. Inr (ex_line e))\<rparr>"

text \<open>Entries the wire can carry: distinct IDs of plain characters, no convergence.\<close>

definition plain_string :: "string \<Rightarrow> bool" where
  "plain_string s \<longleftrightarrow> LF \<notin> set s \<and> CR \<notin> set s \<and> CHR 0x5C \<notin> set s"

definition carried :: "entry list \<Rightarrow> bool" where
  "carried es \<longleftrightarrow> distinct (map e_id es) \<and>
     list_all (\<lambda>e. plain_string (e_id e) \<and> plain_string (e_parent e) \<and> b_Parents (base_of e) = []) es"

lemma quoted_back [simp]: "plain_string s \<Longrightarrow> str_member w (Some (quoted s)) = Inr s"
  by (auto simp: str_member_def quoted_def plain_string_def)

lemma quoted_not_null [simp]: "quoted s \<noteq> ''null''"
  by (simp add: quoted_def)

lemma ex_find_Some: "ex_find es d = Some e \<Longrightarrow> e \<in> set es \<and> d = ex_line e"
  by (auto simp: ex_find_def dest: find_Some_set)

lemma ex_find_mem: "carried es \<Longrightarrow> e \<in> set es \<Longrightarrow> ex_find es (ex_line e) = Some e"
proof -
  have "(\<lambda>x. ex_line x = ex_line e) = (\<lambda>x. e_id x = e_id e)" by (simp add: ex_line_def fun_eq_iff)
  moreover assume "carried es" "e \<in> set es"
  ultimately show ?thesis
    using index_of_mem [of es e] by (simp add: ex_find_def index_of_def carried_def)
qed

lemma ex_members_simps [simp]:
  "member ''content'' (ex_members e) = None" "member ''type'' (ex_members e) = Some (quoted ''item'')"
  "member ''id'' (ex_members e) = Some (quoted (e_id e))"
  "member ''parent'' (ex_members e) = Some (if e_parent e = [] then ''null'' else quoted (e_parent e))"
  "member ''ts'' (ex_members e) = Some (quoted ''t'')" "member ''parents'' (ex_members e) = None"
  by (simp_all add: member_def ex_members_def)

lemma ex_parent: "plain_string (e_parent e) \<Longrightarrow>
  str_member w (Some (if e_parent e = [] then ''null'' else quoted (e_parent e))) = Inr (e_parent e)"
  by (auto simp: str_member_def [of w "Some ''null''"])

section \<open>The laws hold of it\<close>

lemma ex_wire_hashes: "wire_hashes (ex_wire h es)"
proof -
  have "plain_id (''sha256:'' @ [char_of (96 + n mod 26)])" for n :: nat
    by (simp add: plain_id_def has_prefix_def)
  moreover have "plain_id ''sha256:''" by (simp add: plain_id_def has_prefix_def)
  ultimately show ?thesis unfolding wire_hashes_def ex_wire_def by (auto simp del: append_Cons append_Nil split: option.split)
qed

lemma ex_wire_lines: "canonical_lines (ex_wire h es)"
  by (auto simp: canonical_lines_def ex_wire_def ex_valid_def plain_line_def)

lemma ex_wire_header: "header_back (ex_wire h es) h"
  by (simp add: header_back_def ex_wire_def)

lemma ex_wire_decodes:
  assumes "carried es"
  shows "decodes_members (ex_wire h es)"
  unfolding decodes_members_def
proof (intro conjI allI impI)
  fix d e co c ms
  assume a: "w_decodeLine (ex_wire h es) d = Inr (e, co)" "w_transform (ex_wire h es) d = Inr c" "w_members (ex_wire h es) c = Some ms"
  then have f: "ex_find es d = Some e" "c = d" "ms = ex_members e"
    by (auto simp: ex_wire_def split: if_splits option.splits)
  with ex_find_Some [OF f(1)] assms have "plain_string (e_parent e)" "b_Parents (base_of e) = []"
    by (auto simp: carried_def list_all_iff)
  then show "str_member (ex_wire h es) (member ''parent'' ms) = Inr (e_parent e)"
      "\<exists>refs. parents_refs (ex_wire h es) (member ''parents'' ms) = Inr refs \<and>
        b_Parents (base_of e) = (case refs of None \<Rightarrow> [] | Some rs \<Rightarrow> rs)"
    using ex_parent by (auto simp: f(3) parents_refs_def)
qed (auto simp: ex_wire_def split: if_splits option.splits)

lemma ex_wire_entry:
  assumes c: "carried es" and e: "e \<in> set es" and b: "b_content (base_of e) = []"
  shows "entry_back ex_codec (ex_wire h es) e"
  unfolding entry_back_def
proof (intro allI impI)
  fix d x
  assume a: "w_marshalEntry (ex_wire h es) e = Inr d" "w_transform (ex_wire h es) d = Inr x"
  then have x: "x = ex_line e" "ex_valid x" by (auto simp: ex_wire_def split: if_splits)
  note f = ex_find_mem [OF c e]
  have p: "plain_string (e_id e)" "plain_string (e_parent e)" using c e by (auto simp: carried_def list_all_iff)
  have "upd_base (\<lambda>y. y\<lparr>b_tsRaw := b_tsRaw (base_of e), b_content := []\<rparr>) e = e"
    using b by (cases e) simp_all
  then have "w_decodeLine (ex_wire h es) x =
      Inr (upd_base (\<lambda>y. y\<lparr>b_tsRaw := b_tsRaw (base_of e), b_content := []\<rparr>) e, None)"
    using x f by (simp add: ex_wire_def)
  then have dec: "\<exists>r n co. w_decodeLine (ex_wire h es) x = Inr (upd_base (\<lambda>b. b\<lparr>b_tsRaw := r, b_content := n\<rparr>) e, co) \<and>
      (co = None \<or> co = Some x)" by blast
  have w: "w_members (ex_wire h es) x = Some (ex_members e)" "w_time (ex_wire h es) ''t''"
      "w_commonBody (ex_wire h es) = (\<lambda>_ _. Inr ())"
    using x f by (simp_all add: ex_wire_def)
  have q: "plain_string ''item''" "plain_string ''t''" by (simp_all add: plain_string_def LF_def CR_def)
  have mem: "\<exists>ms typ ts. w_members (ex_wire h es) x = Some ms \<and> member ''content'' ms = None \<and>
      str_member (ex_wire h es) (member ''type'' ms) = Inr typ \<and> typ \<noteq> [] \<and>
      str_member (ex_wire h es) (member ''id'' ms) = Inr (e_id e) \<and> str_member (ex_wire h es) (member ''parent'' ms) = Inr (e_parent e) \<and>
      (e_parent e = [] \<longrightarrow> member ''parent'' ms = Some ''null'') \<and>
      str_member (ex_wire h es) (member ''ts'' ms) = Inr ts \<and> w_time (ex_wire h es) ts \<and>
      w_commonBody (ex_wire h es) (member ''legacy_id'' ms) (member ''normalised'' ms) = Inr ()"
    using w q p by (intro exI [of _ "ex_members e"] exI [of _ "''item''"] exI [of _ "''t''"]) (simp add: ex_parent [OF p(2)])
  have "\<forall>i n. k_EntryHashes ex_codec e = Inr (i, n) \<longrightarrow> w_memberHashes (ex_wire h es) x = (i, n)"
    using x f by (simp add: ex_wire_def ex_codec_def)
  with dec mem show "(\<exists>r n co. w_decodeLine (ex_wire h es) x = Inr (upd_base (\<lambda>b. b\<lparr>b_tsRaw := r, b_content := n\<rparr>) e, co) \<and> (co = None \<or> co = Some x)) \<and>
        (\<exists>ms typ ts. w_members (ex_wire h es) x = Some ms \<and> member ''content'' ms = None \<and>
          str_member (ex_wire h es) (member ''type'' ms) = Inr typ \<and> typ \<noteq> [] \<and>
          str_member (ex_wire h es) (member ''id'' ms) = Inr (e_id e) \<and> str_member (ex_wire h es) (member ''parent'' ms) = Inr (e_parent e) \<and>
          (e_parent e = [] \<longrightarrow> member ''parent'' ms = Some ''null'') \<and>
          str_member (ex_wire h es) (member ''ts'' ms) = Inr ts \<and> w_time (ex_wire h es) ts \<and>
          w_commonBody (ex_wire h es) (member ''legacy_id'' ms) (member ''normalised'' ms) = Inr ()) \<and>
        (\<forall>i n. k_EntryHashes ex_codec e = Inr (i, n) \<longrightarrow> w_memberHashes (ex_wire h es) x = (i, n))"
    by blast
qed

lemma ex_hash_stable: "hash_stable ex_codec"
proof -
  have "k_EntryHashes ex_codec e2 = k_EntryHashes ex_codec e"
    if "hashEntry ex_codec e = Inr e1" "rewrite_raw ex_codec e1 = Inr e2" for e e1 e2
    using that rewrite_raw_base [OF that(2)] by (auto simp: hashEntry_def ex_codec_def)
  then show ?thesis by (simp add: hash_stable_def)
qed

section \<open>Files\<close>

definition ex_fresh :: fresh where
  "ex_fresh = \<lparr>f_payload = ''openresponses/1'', f_id = ''s9'', f_now = 9\<rparr>"

definition ex_w :: wire where
  "ex_w = ex_wire (se_header ex_session) (se_entries ex_session)"

definition ex_file :: string where
  "ex_file = ''H'' @ [LF] @ concat (map (\<lambda>e. ex_line e @ [LF]) (se_entries ex_session))"

lemma ex_carried: "carried (se_entries ex_session)"
  by code_simp

lemma ex_contents: "list_all (\<lambda>e. b_content (base_of e) = []) (se_entries ex_session)"
  by code_simp

lemma ex_write_entries:
  "list_all (\<lambda>e. ex_valid (ex_line e)) es \<Longrightarrow>
   write_entries (ex_wire h es0) es = Inr (concat (map (\<lambda>e. ex_line e @ [LF]) es))"
  by (induction es) (simp_all add: writeLine_def, simp add: ex_wire_def)

lemma ex_Write: "Write ex_w ex_session = Inr ex_file"
proof -
  have "list_all (\<lambda>e. ex_valid (ex_line e)) (se_entries ex_session)" by code_simp
  then have "write_entries ex_w (se_entries ex_session) = Inr (concat (map (\<lambda>e. ex_line e @ [LF]) (se_entries ex_session)))"
    unfolding ex_w_def by (rule ex_write_entries)
  moreover have "\<not> se_migrated ex_session" by code_simp
  moreover have "ex_valid ''H''" by code_simp
  ultimately show ?thesis by (simp add: Write_def writeLine_def ex_file_def) (simp add: ex_w_def ex_wire_def)
qed

end
