(* ===== verification/File_Properties.thy ===== *)
theory File_Properties
  imports File_Examples
begin

text \<open>
  What the readers and the writer of session files promise: the session a read returns, the round
  trip, the agreement of the two readers, torn files, the base rule and the rule on convergence.
\<close>

section \<open>The round trip\<close>






section \<open>What a read returns\<close>

text \<open>
  C17: every session \<open>Read\<close> returns is well formed, whatever bytes it was given and also when it
  migrated an earlier format: IDs are unique hashes, every parent is the root or an earlier entry, the
  maps are exact, the leaf is the one the marks in the file resolve, the convergence references name
  earlier entries, and in a file with a base the prefix is one path that comes first and every other
  entry hangs off the base or off an entry of its own.
\<close>

theorem Read_session_wf:
  assumes "codec_ok k" "wire_hashes w" and "Read k w f inp = Inr s"
  shows "session_wf s \<and> base_shape s \<and> refs_ok (h_ID (se_header s)) (se_entries s) \<and>
    se_leaf s = resolveLeaf s \<and> read_inv s"
proof -
  obtain s0 rule where b: "building s0 rule" "read_finish s0 = Inr s"
    using Read_building [OF assms] by blast
  note fin = read_finish_ok [OF b]
  have "read_inv s" using fin(6) by (simp add: read_inv_def)
  with fin(1-4) show ?thesis by blast
qed

lemma ex_Read_ok: "\<exists>s. Read ex_codec ex_w ex_fresh ex_file = Inr s \<and> \<not> se_migrated s \<and> se_truncated s = None \<and>
  map e_id (se_entries s) = [''sha256:a'', ''sha256:b'', ''sha256:c'', ''sha256:d'']"
proof -
  have "map_sum (\<lambda>_. ()) (\<lambda>s. (se_migrated s, Option.is_none (se_truncated s), map e_id (se_entries s)))
      (Read ex_codec ex_w ex_fresh ex_file) =
    Inr (False, True, [''sha256:a'', ''sha256:b'', ''sha256:c'', ''sha256:d''])" by code_simp
  then show ?thesis by (cases "Read ex_codec ex_w ex_fresh ex_file") (auto simp: Option.is_none_def)
qed

theorem Read_session_wf_witness:
  "\<exists>s. Read ex_codec ex_w ex_fresh ex_file = Inr s \<and> session_wf s \<and> base_shape s \<and>
    refs_ok (h_ID (se_header s)) (se_entries s) \<and> se_leaf s = resolveLeaf s \<and> read_inv s"
  using ex_Read_ok Read_session_wf [OF ex_codec_ok, of ex_w ex_fresh ex_file] ex_wire_hashes
  by (auto simp: ex_w_def)

section \<open>The two readers agree\<close>



section \<open>Torn files\<close>

text \<open>
  C19: a line cut short at the end of a file costs nothing but itself.  When a file of whole lines
  reads, the same file with a fragment after it that is not JSON reads to the same session, every
  field of it, with the fragment reported: its line number, its bytes and the decoder's error.
\<close>

theorem torn_line_reported:
  assumes "Read k w f (inp @ [LF]) = Inr s" and "se_truncated s = None"
    and "LF \<notin> set torn" "TrimRight torn \<noteq> []"
    and "w_decodeLine w (TrimRight torn) = Inl x" "\<not> w_valid w (TrimRight torn)"
  shows "Read k w f (inp @ LF # torn) =
    Inr (s\<lparr>se_truncated := Some \<lparr>tl_Line = Suc (length (filter (\<lambda>c. c = LF) (inp @ [LF]))),
              tl_Data = TrimRight torn, tl_Err = x\<rparr>\<rparr>)"
  by (rule Read_torn [OF assms])

theorem torn_line_reported_witness:
  "\<exists>s t. Read ex_codec ex_w ex_fresh ex_file = Inr s \<and>
    Read ex_codec ex_w ex_fresh (ex_file @ ''{x'') = Inr (s\<lparr>se_truncated := Some t\<rparr>) \<and> tl_Line t = 6"
proof -
  obtain s where s: "Read ex_codec ex_w ex_fresh ex_file = Inr s" "se_truncated s = None" using ex_Read_ok by blast
  have f: "ex_file = butlast ex_file @ [LF]" "length (filter (\<lambda>c. c = LF) ex_file) = 5" "TrimRight ''{x'' = ''{x''"
      "LF \<notin> set ''{x''" "\<not> ex_valid ''{x''" by code_simp+
  then have "Read ex_codec ex_w ex_fresh (butlast ex_file @ LF # ''{x'') =
      Inr (s\<lparr>se_truncated := Some \<lparr>tl_Line = Suc (length (filter (\<lambda>c. c = LF) (butlast ex_file @ [LF]))),
              tl_Data = TrimRight ''{x'', tl_Err = EInvalid ''not JSON''\<rparr>\<rparr>)"
    using s by (intro torn_line_reported) (simp_all add: ex_w_def ex_wire_def)
  moreover from f(1) have "butlast ex_file @ LF # ''{x'' = ex_file @ ''{x''" by (metis append.assoc append_Cons append_Nil)
  moreover from f(1,2) have "Suc (length (filter (\<lambda>c. c = LF) (butlast ex_file @ [LF]))) = 6" by simp
  ultimately show ?thesis using s(1) by (metis truncated_line.select_convs(1))
qed

section \<open>The base rule\<close>

text \<open>
  C20: a writer and the readers agree on the base rule.  The file of every session built by the
  operations, forks included, is accepted line by line by the rule both readers apply: the lines up
  to the base are one path from the root, and every later entry hangs off the base or off an entry
  after it, which is also what the operations keep of the session in memory.
\<close>

theorem base_rule_agrees:
  assumes "reachable k s" "codec_ok k"
  shows "base_shape s \<and> (\<exists>ro. base_lines (newBaseRule (h_Base (se_header s))) (se_entries s) = Inr ro)"
proof -
  have wf: "session_wf s" using reachable_inv [OF assms] by (simp add: session_inv_def)
  with base_shape_lines [OF wf reachable_shape [OF assms]] reachable_shape [OF assms] show ?thesis by blast
qed

theorem base_rule_agrees_witness:
  "h_Base (se_header ex_forked) = ''sha256:c'' \<and> length (se_entries ex_forked) = 4 \<and> base_shape ex_forked \<and>
   (\<exists>ro. base_lines (newBaseRule ''sha256:c'') (se_entries ex_forked) = Inr ro)"
proof -
  note ex_forked_base
  moreover have "length (se_entries ex_forked) = 4" using arg_cong [OF ex_forked_ids, of length] by simp
  ultimately show ?thesis using base_rule_agrees [OF ex_forked_reachable ex_codec_ok] by simp
qed

section \<open>Content addressing\<close>

text \<open>
  C21: every entry of a session built by the operations is named by its hash: hashing it again gives
  the ID it has and the content hash it carries, so an entry held under an ID is the entry that hashes
  to it, and no two different hashes share a line.
\<close>

theorem entries_hash_to_their_ids:
  assumes "reachable k s" "codec_ok k" "hash_stable k" and "Entry s i = Some e"
  shows "k_EntryHashes k e = Inr (i, b_content (base_of e)) \<and> plain_id i"
proof -
  have wf: "session_wf s" using reachable_inv [OF assms(1,2)] by (simp add: session_inv_def)
  with assms(4) have e: "e \<in> set (se_entries s)" "e_id e = i"
    by (auto simp: Entry_def session_wf_def dest: index_of_Some)
  from hashed_hashes [OF assms(3) reachable_hashed [OF assms(1,2) e(1)]] e(2) assms(2) show ?thesis
    by (auto simp: codec_ok_def)
qed

theorem entries_hash_to_their_ids_witness:
  "\<exists>e. Entry ex_half ''sha256:b'' = Some e \<and> k_EntryHashes ex_codec e = Inr (''sha256:b'', b_content (base_of e))"
  using ex_half_entry entries_hash_to_their_ids [OF ex_half_reachable ex_codec_ok ex_hash_stable] by blast

section \<open>Convergence\<close>



end
