(* ===== verification/Wake.thy ===== *)
theory Wake
  imports Prelude
begin

text \<open>
  The two pieces of waiting every follower shares (\<open>internal/wake/wake.go\<close>): the broadcast a writer
  rings, one channel per followed session that is closed and replaced at each change, and the
  interval a follower polls at.  A registration is a pointer to the hub's entry, so the entries are
  kept in a heap and the map holds pointers; every method holds the hub's lock throughout, so an
  interleaving of callers is a sequence of operations.
\<close>

section \<open>The hub\<close>

record hub_entry =
  he_ch :: nat
  he_refs :: int

record hub =
  hb_m :: "string \<rightharpoonup> nat"
  hb_heap :: "nat \<Rightarrow> hub_entry"
  hb_ptrs :: nat
  hb_chans :: nat
  hb_closed :: "nat set"

definition new_hub :: hub where
  "new_hub = \<lparr>hb_m = Map.empty, hb_heap = (\<lambda>_. \<lparr>he_ch = 0, he_refs = 0\<rparr>), hb_ptrs = 0, hb_chans = 0, hb_closed = {}\<rparr>"

text \<open>\<open>Watch\<close>: the entry of the session, made when there is none, with one more reference.\<close>

definition hub_entry_for :: "hub \<Rightarrow> string \<Rightarrow> hub \<times> nat" where
  "hub_entry_for h i =
     (case hb_m h i of
        Some p \<Rightarrow> (h, p)
      | None \<Rightarrow>
          let p = hb_ptrs h
          in (h\<lparr>hb_m := (hb_m h)(i \<mapsto> p), hb_heap := (hb_heap h)(p := \<lparr>he_ch = hb_chans h, he_refs = 0\<rparr>),
                hb_ptrs := p + 1, hb_chans := hb_chans h + 1\<rparr>, p))"

definition Watch :: "hub \<Rightarrow> string \<Rightarrow> hub \<times> nat" where
  "Watch h i =
     (case hub_entry_for h i of (h, p) \<Rightarrow>
        (h\<lparr>hb_heap := (hb_heap h)(p := (hb_heap h p)\<lparr>he_refs := he_refs (hb_heap h p) + 1\<rparr>)\<rparr>, p))"

text \<open>The two functions \<open>Watch\<close> returns: the channel to wait on, and the release.\<close>

definition watch_chan :: "hub \<Rightarrow> nat \<Rightarrow> nat" where
  "watch_chan h p = he_ch (hb_heap h p)"

definition watch_done :: "hub \<Rightarrow> string \<Rightarrow> nat \<Rightarrow> hub" where
  "watch_done h i p =
     (let e = (hb_heap h p)\<lparr>he_refs := he_refs (hb_heap h p) - 1\<rparr>;
          h = h\<lparr>hb_heap := (hb_heap h)(p := e)\<rparr>
      in if he_refs e = 0 \<and> hb_m h i = Some p then h\<lparr>hb_m := (hb_m h)(i := None)\<rparr> else h)"

definition Notify :: "hub \<Rightarrow> string \<Rightarrow> hub" where
  "Notify h i =
     (case hb_m h i of
        None \<Rightarrow> h
      | Some p \<Rightarrow>
          h\<lparr>hb_closed := insert (he_ch (hb_heap h p)) (hb_closed h),
            hb_heap := (hb_heap h)(p := (hb_heap h p)\<lparr>he_ch := hb_chans h\<rparr>),
            hb_chans := hb_chans h + 1\<rparr>)"

section \<open>Callers\<close>

text \<open>
  The registrations made, each with the session, the pointer and whether it was released; a second
  release does nothing (\<open>once.Do\<close>).
\<close>

record hub_sys =
  hs_hub :: hub
  hs_regs :: "(string \<times> nat \<times> bool) list"

datatype hub_op = HWatch string | HDone nat | HNotify string

definition hub_start :: hub_sys where
  "hub_start = \<lparr>hs_hub = new_hub, hs_regs = []\<rparr>"

fun hub_do :: "hub_op \<Rightarrow> hub_sys \<Rightarrow> hub_sys" where
  "hub_do (HWatch i) s =
     (case Watch (hs_hub s) i of (h, p) \<Rightarrow> \<lparr>hs_hub = h, hs_regs = hs_regs s @ [(i, p, False)]\<rparr>)"
| "hub_do (HDone n) s =
     (if n < length (hs_regs s)
      then (case hs_regs s ! n of (i, p, released) \<Rightarrow>
              if released then s
              else \<lparr>hs_hub = watch_done (hs_hub s) i p, hs_regs = (hs_regs s)[n := (i, p, True)]\<rparr>)
      else s)"
| "hub_do (HNotify i) s = s\<lparr>hs_hub := Notify (hs_hub s) i\<rparr>"

definition hub_run :: "hub_op list \<Rightarrow> hub_sys \<Rightarrow> hub_sys" where
  "hub_run ops s = fold hub_do ops s"

definition live :: "hub_sys \<Rightarrow> nat \<Rightarrow> (string \<times> nat) \<Rightarrow> bool" where
  "live s n ip \<longleftrightarrow> n < length (hs_regs s) \<and> hs_regs s ! n = (fst ip, snd ip, False)"

definition live_count :: "(string \<times> nat \<times> bool) list \<Rightarrow> nat \<Rightarrow> nat" where
  "live_count regs p = length (filter (\<lambda>(i, q, released). q = p \<and> \<not> released) regs)"

text \<open>
  The map holds exactly the sessions with a live registration, each registration's entry is the one
  in the map, and its reference count is the number of its live registrations.
\<close>

definition regs_ok :: "hub \<Rightarrow> (string \<times> nat \<times> bool) list \<Rightarrow> bool" where
  "regs_ok h regs \<longleftrightarrow>
     (\<forall>i p released. (i, p, released) \<in> set regs \<longrightarrow> p < hb_ptrs h \<and> (\<not> released \<longrightarrow> hb_m h i = Some p)) \<and>
     (\<forall>i p. hb_m h i = Some p \<longrightarrow>
        p < hb_ptrs h \<and> he_refs (hb_heap h p) = int (live_count regs p) \<and> 0 < live_count regs p \<and>
        (\<forall>j released. (j, p, released) \<in> set regs \<longrightarrow> j = i))"

text \<open>The channel of an entry in the map is open and its own.\<close>

definition chans_ok :: "hub \<Rightarrow> bool" where
  "chans_ok h \<longleftrightarrow>
     (\<forall>c\<in>hb_closed h. c < hb_chans h) \<and>
     (\<forall>i p. hb_m h i = Some p \<longrightarrow> watch_chan h p < hb_chans h \<and> watch_chan h p \<notin> hb_closed h) \<and>
     (\<forall>i j p q. hb_m h i = Some p \<longrightarrow> hb_m h j = Some q \<longrightarrow> watch_chan h p = watch_chan h q \<longrightarrow> p = q)"

definition hub_inv :: "hub_sys \<Rightarrow> bool" where
  "hub_inv s \<longleftrightarrow> regs_ok (hs_hub s) (hs_regs s) \<and> chans_ok (hs_hub s)"

lemmas hub_defs = Watch_def hub_entry_for_def watch_done_def Notify_def watch_chan_def Let_def

lemma live_count_pos: "0 < live_count regs p \<longleftrightarrow> (\<exists>i. (i, p, False) \<in> set regs)"
  by (force simp: live_count_def length_greater_0_conv filter_empty_conv)

lemma live_count_snoc [simp]: "live_count (regs @ [(i, p, False)]) q = live_count regs q + (if p = q then 1 else 0)"
  by (simp add: live_count_def)

lemma live_count_none: "\<forall>(i, q, released)\<in>set regs. q < p \<Longrightarrow> live_count regs p = 0"
  by (auto simp: live_count_def filter_empty_conv)

lemma live_count_released:
  assumes "n < length regs" "regs ! n = (i, p, False)"
  shows "live_count (regs[n := (i, p, True)]) q = live_count regs q - (if p = q then 1 else 0)"
proof -
  have r: "regs = take n regs @ (i, p, False) # drop (Suc n) regs" using id_take_nth_drop [OF assms(1)] assms(2) by simp
  have "regs[n := (i, p, True)] = take n regs @ (i, p, True) # drop (Suc n) regs"
    using assms(1) by (simp add: upd_conv_take_nth_drop)
  then show ?thesis by (subst (2) r) (simp add: live_count_def)
qed

lemma map_inj:
  assumes "regs_ok h regs" "hb_m h i = Some p" "hb_m h j = Some p"
  shows "i = j"
proof -
  from assms(1,2) have "0 < live_count regs p" by (simp add: regs_ok_def)
  then obtain k where "(k, p, False) \<in> set regs" by (auto simp: live_count_pos)
  with assms show ?thesis unfolding regs_ok_def by blast
qed

lemma hub_inv_start: "hub_inv hub_start"
  by (simp add: hub_inv_def hub_start_def new_hub_def regs_ok_def chans_ok_def)

section \<open>What an operation keeps\<close>

lemma regs_ok_Notify: "regs_ok h regs \<Longrightarrow> regs_ok (Notify h i) regs"
  by (auto simp: regs_ok_def Notify_def split: option.split)

lemma chans_ok_Notify:
  assumes "chans_ok h"
  shows "chans_ok (Notify h i)"
proof (cases "hb_m h i")
  case None
  with assms show ?thesis by (simp add: Notify_def)
next
  case (Some p)
  from assms have c: "\<forall>c\<in>hb_closed h. c < hb_chans h"
    and o: "\<And>j q. hb_m h j = Some q \<Longrightarrow> watch_chan h q < hb_chans h \<and> watch_chan h q \<notin> hb_closed h"
    and d: "\<And>j j' q q'. hb_m h j = Some q \<Longrightarrow> hb_m h j' = Some q' \<Longrightarrow> watch_chan h q = watch_chan h q' \<Longrightarrow> q = q'"
    unfolding chans_ok_def by blast+
  let ?h = "Notify h i"
  have h: "hb_m ?h = hb_m h" "hb_chans ?h = Suc (hb_chans h)" "hb_closed ?h = insert (watch_chan h p) (hb_closed h)"
    "watch_chan ?h q = (if q = p then hb_chans h else watch_chan h q)" for q
    using Some by (simp_all add: Notify_def watch_chan_def)
  show ?thesis
    unfolding chans_ok_def h(1-3)
  proof (intro conjI allI impI)
    show "\<forall>c\<in>insert (watch_chan h p) (hb_closed h). c < Suc (hb_chans h)" using c o [OF Some] by auto
  next
    fix j q assume q: "hb_m h j = Some q"
    show "watch_chan ?h q < Suc (hb_chans h)" using o [OF q] by (simp add: h(4))
    show "watch_chan ?h q \<notin> insert (watch_chan h p) (hb_closed h)"
      using o [OF q] o [OF Some] c d [OF q Some] by (auto simp: h(4))
  next
    fix j j' q q' assume q: "hb_m h j = Some q" "hb_m h j' = Some q'" "watch_chan ?h q = watch_chan ?h q'"
    with o [OF q(1)] o [OF q(2)] d [OF q(1,2)] show "q = q'" by (auto simp: h(4) split: if_splits)
  qed
qed

lemma Watch_cases:
  obtains (held) p where "hb_m h i = Some p"
      "Watch h i = (h\<lparr>hb_heap := (hb_heap h)(p := (hb_heap h p)\<lparr>he_refs := he_refs (hb_heap h p) + 1\<rparr>)\<rparr>, p)"
    | (new) "hb_m h i = None"
      "Watch h i = (h\<lparr>hb_m := (hb_m h)(i \<mapsto> hb_ptrs h),
         hb_heap := (hb_heap h)(hb_ptrs h := \<lparr>he_ch = hb_chans h, he_refs = 1\<rparr>),
         hb_ptrs := hb_ptrs h + 1, hb_chans := hb_chans h + 1\<rparr>, hb_ptrs h)"
  by (cases "hb_m h i") (auto simp: Watch_def hub_entry_for_def Let_def)

lemma regs_ok_Watch:
  assumes r: "regs_ok h regs" and w: "Watch h i = (h', p)"
  shows "regs_ok h' (regs @ [(i, p, False)])"
proof (cases rule: Watch_cases [of h i])
  case (held q)
  with w have h': "p = q" "hb_m h' = hb_m h" "hb_ptrs h' = hb_ptrs h"
    "\<And>x. he_refs (hb_heap h' x) = he_refs (hb_heap h x) + (if x = p then 1 else 0)" by auto
  from r have a: "\<And>j x b. (j, x, b) \<in> set regs \<Longrightarrow> x < hb_ptrs h \<and> (\<not> b \<longrightarrow> hb_m h j = Some x)"
    and b: "\<And>j x. hb_m h j = Some x \<Longrightarrow> x < hb_ptrs h \<and> he_refs (hb_heap h x) = int (live_count regs x) \<and> 0 < live_count regs x \<and>
        (\<forall>k b. (k, x, b) \<in> set regs \<longrightarrow> k = j)" unfolding regs_ok_def by blast+
  show ?thesis
    unfolding regs_ok_def h'(2,3)
  proof (intro conjI allI impI)
    fix j x c assume "(j, x, c) \<in> set (regs @ [(i, p, False)])"
    with a b held(1) h'(1) show "x < hb_ptrs h" "\<not> c \<Longrightarrow> hb_m h j = Some x" by auto
  next
    fix j x assume j: "hb_m h j = Some x"
    from b [OF j] show "x < hb_ptrs h" "he_refs (hb_heap h' x) = int (live_count (regs @ [(i, p, False)]) x)"
      "0 < live_count (regs @ [(i, p, False)]) x" by (auto simp: h'(4))
    fix k c assume "(k, x, c) \<in> set (regs @ [(i, p, False)])"
    with b [OF j] map_inj [OF r j] held(1) h'(1) show "k = j" by auto
  qed
next
  case new
  with w have h': "p = hb_ptrs h" "hb_m h' = (hb_m h)(i \<mapsto> p)" "hb_ptrs h' = Suc p"
    "\<And>x. he_refs (hb_heap h' x) = (if x = p then 1 else he_refs (hb_heap h x))" by auto
  from r have a: "\<And>j x b. (j, x, b) \<in> set regs \<Longrightarrow> x < hb_ptrs h \<and> (\<not> b \<longrightarrow> hb_m h j = Some x)"
    and b: "\<And>j x. hb_m h j = Some x \<Longrightarrow> x < hb_ptrs h \<and> he_refs (hb_heap h x) = int (live_count regs x) \<and> 0 < live_count regs x \<and>
        (\<forall>k b. (k, x, b) \<in> set regs \<longrightarrow> k = j)" unfolding regs_ok_def by blast+
  have z: "live_count regs p = 0" by (rule live_count_none) (use a h'(1) in auto)
  show ?thesis
    unfolding regs_ok_def h'(2,3)
  proof (intro conjI allI impI)
    fix j x c assume j: "(j, x, c) \<in> set (regs @ [(i, p, False)])"
    show "x < Suc p" using a [of j x c] j h'(1) by auto
    show "\<not> c \<Longrightarrow> ((hb_m h)(i \<mapsto> p)) j = Some x" using a j new(1) by (cases "j = i") auto
  next
    fix j x assume j: "((hb_m h)(i \<mapsto> p)) j = Some x"
    show "x < Suc p" "he_refs (hb_heap h' x) = int (live_count (regs @ [(i, p, False)]) x)"
      "0 < live_count (regs @ [(i, p, False)]) x"
      using b [of j x] j z h'(1) by (auto simp: h'(4) split: if_splits)
    fix k c assume "(k, x, c) \<in> set (regs @ [(i, p, False)])"
    with b [of j x] j a [of k x c] h'(1) show "k = j" by (auto split: if_splits)
  qed
qed

lemma chans_ok_Watch:
  assumes c: "chans_ok h" and r: "regs_ok h regs" and w: "Watch h i = (h', p)"
  shows "chans_ok h'"
proof (cases rule: Watch_cases [of h i])
  case (held q)
  with w have h': "hb_m h' = hb_m h" "hb_chans h' = hb_chans h" "hb_closed h' = hb_closed h" "watch_chan h' = watch_chan h"
    by (auto simp: watch_chan_def fun_eq_iff)
  with c show ?thesis by (simp add: chans_ok_def)
next
  case new
  with w have h': "hb_m h' = (hb_m h)(i \<mapsto> hb_ptrs h)" "hb_chans h' = Suc (hb_chans h)" "hb_closed h' = hb_closed h"
    "\<And>x. watch_chan h' x = (if x = hb_ptrs h then hb_chans h else watch_chan h x)"
    by (auto simp: watch_chan_def)
  from r have lt: "\<And>j x. hb_m h j = Some x \<Longrightarrow> x \<noteq> hb_ptrs h" unfolding regs_ok_def by blast
  from c have c': "\<forall>c\<in>hb_closed h. c < hb_chans h"
    and o: "\<And>j q. hb_m h j = Some q \<Longrightarrow> watch_chan h q < hb_chans h \<and> watch_chan h q \<notin> hb_closed h"
    and d: "\<And>j j' q q'. hb_m h j = Some q \<Longrightarrow> hb_m h j' = Some q' \<Longrightarrow> watch_chan h q = watch_chan h q' \<Longrightarrow> q = q'"
    unfolding chans_ok_def by blast+
  show ?thesis
    unfolding chans_ok_def h'(1-3)
  proof (intro conjI allI impI)
    show "\<forall>c\<in>hb_closed h. c < Suc (hb_chans h)" using c' by auto
  next
    fix j q assume q: "((hb_m h)(i \<mapsto> hb_ptrs h)) j = Some q"
    show "watch_chan h' q < Suc (hb_chans h)" "watch_chan h' q \<notin> hb_closed h"
      using o [of j q] q c' lt by (auto simp: h'(4) split: if_splits)
  next
    fix j j' q q' assume q: "((hb_m h)(i \<mapsto> hb_ptrs h)) j = Some q" "((hb_m h)(i \<mapsto> hb_ptrs h)) j' = Some q'" "watch_chan h' q = watch_chan h' q'"
    with o [of j q] o [of j' q'] d [of j q j' q'] lt show "q = q'" by (auto simp: h'(4) split: if_splits)
  qed
qed

lemma regs_ok_done:
  assumes r: "regs_ok h regs" and n: "n < length regs" "regs ! n = (i, p, False)"
  shows "regs_ok (watch_done h i p) (regs[n := (i, p, True)])"
proof -
  let ?h = "watch_done h i p" and ?regs = "regs[n := (i, p, True)]"
  from r have a: "\<And>j x b. (j, x, b) \<in> set regs \<Longrightarrow> x < hb_ptrs h \<and> (\<not> b \<longrightarrow> hb_m h j = Some x)"
    and b: "\<And>j x. hb_m h j = Some x \<Longrightarrow> x < hb_ptrs h \<and> he_refs (hb_heap h x) = int (live_count regs x) \<and> 0 < live_count regs x \<and>
        (\<forall>k b. (k, x, b) \<in> set regs \<longrightarrow> k = j)" unfolding regs_ok_def by blast+
  have mem: "(i, p, False) \<in> set regs" using n nth_mem by metis
  have m: "hb_m h i = Some p" using a [OF mem] by simp
  note cnt = live_count_released [OF n]
  have one: "he_refs (hb_heap h p) = 1 \<longleftrightarrow> live_count ?regs p = 0" using b [OF m] cnt [of p] by auto
  have h: "hb_ptrs ?h = hb_ptrs h" "hb_m ?h = (if live_count ?regs p = 0 then (hb_m h)(i := None) else hb_m h)"
    "\<And>x. he_refs (hb_heap ?h x) = he_refs (hb_heap h x) - (if x = p then 1 else 0)"
    using m one by (auto simp: watch_done_def Let_def)
  have sub: "(j, x, c) \<in> set ?regs \<Longrightarrow> (j, x, c) \<in> set regs \<or> (j, x, c) = (i, p, True)" for j x c
    using set_update_subset_insert [of regs n] by fastforce
  have dead: "(j, p, False) \<notin> set ?regs" if "live_count ?regs p = 0" for j
    using that live_count_pos [of ?regs p] by auto
  show ?thesis
    unfolding regs_ok_def h(1)
  proof (intro conjI allI impI)
    fix j x c assume j: "(j, x, c) \<in> set ?regs"
    show "x < hb_ptrs h" using sub [OF j] a [of j x c] a [OF mem] by auto
    show "hb_m ?h j = Some x" if "\<not> c"
    proof -
      from sub [OF j] that a [of j x c] have jx: "hb_m h j = Some x" by auto
      show ?thesis
      proof (cases "live_count ?regs p = 0 \<and> j = i")
        case True
        with jx m j that dead show ?thesis by auto
      qed (use jx h(2) in auto)
    qed
  next
    fix j x assume j: "hb_m ?h j = Some x"
    then have jx: "hb_m h j = Some x" by (auto simp: h(2) split: if_splits)
    have px: "live_count ?regs p \<noteq> 0" if "x = p"
      using j map_inj [OF r jx] m that by (auto simp: h(2) split: if_splits)
    show "x < hb_ptrs h" "he_refs (hb_heap ?h x) = int (live_count ?regs x)" "0 < live_count ?regs x"
      using b [OF jx] cnt [of x] px by (auto simp: h(3))
    fix k c assume "(k, x, c) \<in> set ?regs"
    from sub [OF this] b [OF jx] mem show "k = j" by auto
  qed
qed

lemma chans_ok_done: "chans_ok h \<Longrightarrow> chans_ok (watch_done h i p)"
proof -
  assume c: "chans_ok h"
  have h: "hb_chans (watch_done h i p) = hb_chans h" "hb_closed (watch_done h i p) = hb_closed h"
    "watch_chan (watch_done h i p) = watch_chan h" "\<And>j x. hb_m (watch_done h i p) j = Some x \<Longrightarrow> hb_m h j = Some x"
    by (auto simp: watch_done_def Let_def watch_chan_def fun_eq_iff split: if_splits)
  show ?thesis unfolding chans_ok_def h(1-3) using c h(4) unfolding chans_ok_def by blast
qed

lemma hub_inv_do: "hub_inv s \<Longrightarrow> hub_inv (hub_do op s)"
proof (cases op)
  case (HWatch i)
  assume "hub_inv s"
  with HWatch regs_ok_Watch [of "hs_hub s" "hs_regs s" i] chans_ok_Watch [of "hs_hub s" "hs_regs s" i] show ?thesis
    by (cases "Watch (hs_hub s) i") (simp add: hub_inv_def)
next
  case (HDone n)
  assume "hub_inv s"
  with HDone regs_ok_done [of "hs_hub s" "hs_regs s" n] chans_ok_done [of "hs_hub s"] show ?thesis
    by (cases "hs_regs s ! n") (auto simp: hub_inv_def)
next
  case (HNotify i)
  assume "hub_inv s"
  with HNotify regs_ok_Notify chans_ok_Notify show ?thesis by (simp add: hub_inv_def)
qed

lemma hub_run_simps [simp]: "hub_run [] s = s" "hub_run (op # ops) s = hub_run ops (hub_do op s)"
  by (simp_all add: hub_run_def)

lemma hub_inv_run: "hub_inv s \<Longrightarrow> hub_inv (hub_run ops s)"
  by (induction ops arbitrary: s) (auto dest: hub_inv_do)

section \<open>Waking\<close>

text \<open>A registration that stays live: its channel is the entry's until the first notification closes it.\<close>

lemma live_entry: "hub_inv s \<Longrightarrow> live s n (i, p) \<Longrightarrow> hb_m (hs_hub s) i = Some p \<and> p < hb_ptrs (hs_hub s)"
  unfolding hub_inv_def regs_ok_def live_def by (metis fst_conv nth_mem snd_conv)

lemma live_do:
  assumes l: "live s n (i, p)" and d: "op \<noteq> HDone n"
  shows "live (hub_do op s) n (i, p)"
proof (cases op)
  case (HWatch j)
  with l show ?thesis by (cases "Watch (hs_hub s) j") (auto simp: live_def nth_append)
next
  case (HDone m)
  with l d show ?thesis by (cases "hs_regs s ! m") (auto simp: live_def nth_list_update)
qed (use l in \<open>simp add: live_def\<close>)

lemma chan_do:
  assumes inv: "hub_inv s" and l: "live s n (i, p)"
  shows "hb_closed (hs_hub s) \<subseteq> hb_closed (hs_hub (hub_do op s))"
    "if op = HNotify i then watch_chan (hs_hub s) p \<in> hb_closed (hs_hub (hub_do op s))
     else watch_chan (hs_hub (hub_do op s)) p = watch_chan (hs_hub s) p"
proof -
  note e = live_entry [OF inv l]
  have regs: "regs_ok (hs_hub s) (hs_regs s)" using inv by (simp add: hub_inv_def)
  show "hb_closed (hs_hub s) \<subseteq> hb_closed (hs_hub (hub_do op s))"
    by (cases op) (auto simp: hub_defs split: option.splits prod.splits if_splits)
  show "if op = HNotify i then watch_chan (hs_hub s) p \<in> hb_closed (hs_hub (hub_do op s))
     else watch_chan (hs_hub (hub_do op s)) p = watch_chan (hs_hub s) p"
  proof (cases op)
    case (HNotify j)
    show ?thesis
    proof (cases "j = i")
      case True
      with e HNotify show ?thesis by (simp add: Notify_def watch_chan_def)
    next
      case False
      with e map_inj [OF regs, of i p j] have "hb_m (hs_hub s) j \<noteq> Some p" by blast
      then have "watch_chan (Notify (hs_hub s) j) p = watch_chan (hs_hub s) p"
        by (cases "hb_m (hs_hub s) j") (simp_all add: Notify_def watch_chan_def)
      with False HNotify show ?thesis by simp
    qed
  next
    case (HWatch j)
    with e show ?thesis by (auto simp: hub_defs split: option.splits)
  next
    case (HDone m)
    with e show ?thesis by (auto simp: watch_done_def watch_chan_def Let_def split: prod.splits)
  qed
qed

lemma closed_run: "hub_inv s \<Longrightarrow> live s n (i, p) \<Longrightarrow> HDone n \<notin> set ops \<Longrightarrow>
  c \<in> hb_closed (hs_hub s) \<Longrightarrow> c \<in> hb_closed (hs_hub (hub_run ops s))"
proof (induction ops arbitrary: s)
  case (Cons op ops)
  with chan_do(1) [of s n i p op] hub_inv_do [of s op] live_do [of s n i p op] show ?case by auto
qed simp

lemma wake_exact:
  "hub_inv s \<Longrightarrow> live s n (i, p) \<Longrightarrow> HDone n \<notin> set ops \<Longrightarrow>
   watch_chan (hs_hub s) p \<in> hb_closed (hs_hub (hub_run ops s)) \<longleftrightarrow> HNotify i \<in> set ops"
proof (induction ops arbitrary: s)
  case Nil
  with live_entry [of s n i p] show ?case by (auto simp: hub_inv_def chans_ok_def)
next
  case (Cons op ops)
  note nx = hub_inv_do [OF Cons.prems(1), of op] live_do [OF Cons.prems(2), of op]
  note cd = chan_do [OF Cons.prems(1,2), of op]
  show ?case
  proof (cases "op = HNotify i")
    case True
    with cd(2) closed_run [OF nx(1), of n i p ops "watch_chan (hs_hub s) p"] nx(2) Cons.prems(3) show ?thesis by auto
  next
    case False
    with Cons.IH [OF nx(1)] nx(2) cd(2) Cons.prems(3) show ?thesis by auto
  qed
qed

section \<open>The poll interval\<close>

text \<open>A \<open>time.Duration\<close> is a signed 64-bit integer, so doubling it wraps.\<close>

definition wrap64 :: "int \<Rightarrow> int" where
  "wrap64 x = (x + 2 ^ 63) mod 2 ^ 64 - 2 ^ 63"

record poll =
  po_Min :: int
  po_Max :: int
  po_cur :: int

definition poll_Next :: "poll \<Rightarrow> int \<times> poll" where
  "poll_Next p =
     (let cur = (if po_cur p < po_Min p then po_Min p else po_cur p);
          twice = wrap64 (cur * 2)
      in (cur, p\<lparr>po_cur := (if twice > po_Max p then po_Max p else twice)\<rparr>))"

definition poll_Reset :: "poll \<Rightarrow> poll" where
  "poll_Reset p = p\<lparr>po_cur := 0\<rparr>"

text \<open>The waits of a run of \<open>Next\<close> and \<open>Reset\<close>, \<open>True\<close> for a \<open>Next\<close>.\<close>

fun poll_waits :: "bool list \<Rightarrow> poll \<Rightarrow> int list" where
  "poll_waits [] p = []"
| "poll_waits (True # ops) p = (case poll_Next p of (d, p) \<Rightarrow> d # poll_waits ops p)"
| "poll_waits (False # ops) p = poll_waits ops (poll_Reset p)"

lemma wrap64_id: "- (2 ^ 63) \<le> x \<Longrightarrow> x < 2 ^ 63 \<Longrightarrow> wrap64 x = x"
  by (simp add: wrap64_def)

lemma wrap64_double:
  assumes "0 \<le> x" "x < 2 ^ 63"
  shows "wrap64 (x * 2) = (if x < 2 ^ 62 then x * 2 else x * 2 - 2 ^ 64)"
proof (cases "x < 2 ^ 62")
  case True
  with assms show ?thesis by (simp add: wrap64_id)
next
  case False
  have "(x * 2 + 2 ^ 63) mod 2 ^ 64 = (x * 2 + 2 ^ 63 - 2 ^ 64) mod 2 ^ 64"
    by (simp only: minus_mod_self2)
  also have "\<dots> = x * 2 + 2 ^ 63 - 2 ^ 64" using False assms by simp
  finally show ?thesis using False by (simp add: wrap64_def)
qed

lemma poll_Next_bounds:
  assumes "0 \<le> po_Min p" "po_Min p \<le> po_Max p" "po_Max p < 2 ^ 63" "po_cur p \<le> po_Max p"
  shows "po_Min p \<le> fst (poll_Next p)" "fst (poll_Next p) \<le> po_Max p"
    "po_cur (snd (poll_Next p)) \<le> po_Max p" "po_Min (snd (poll_Next p)) = po_Min p" "po_Max (snd (poll_Next p)) = po_Max p"
  using assms by (simp_all add: poll_Next_def Let_def)

lemma poll_waits_bounds:
  "0 \<le> po_Min p \<Longrightarrow> po_Min p \<le> po_Max p \<Longrightarrow> po_Max p < 2 ^ 63 \<Longrightarrow> po_cur p \<le> po_Max p \<Longrightarrow>
   d \<in> set (poll_waits ops p) \<Longrightarrow> po_Min p \<le> d \<and> d \<le> po_Max p"
proof (induction ops p rule: poll_waits.induct)
  case (2 ops p)
  note b = poll_Next_bounds [OF "2.prems"(1-4)]
  from 2 b show ?case by (cases "poll_Next p") auto
qed (auto simp: poll_Reset_def)

lemma poll_waits_backoff:
  assumes "0 < po_Min p" "po_Min p \<le> po_Max p" "po_Max p < 2 ^ 62" "po_cur p < po_Min p"
  shows "poll_waits (replicate n True) p = map (\<lambda>i. min (po_Min p * 2 ^ i) (po_Max p)) [0..<n]"
proof -
  have "poll_waits (replicate n True) p = map (\<lambda>i. min (c * 2 ^ i) (po_Max p)) [0..<n]"
    if "po_Min p \<le> c \<and> c \<le> po_Max p \<and> (po_cur p = c \<or> po_cur p < po_Min p \<and> c = po_Min p)" "0 < po_Min p" "po_Max p < 2 ^ 62" for c p
    using that
  proof (induction n arbitrary: c p)
    case (Suc n)
    let ?c = "if c * 2 > po_Max p then po_Max p else c * 2" and ?p = "snd (poll_Next p)"
    have tw: "wrap64 (c * 2) = c * 2" using Suc.prems by (simp add: wrap64_double)
    have nx: "poll_Next p = (c, p\<lparr>po_cur := ?c\<rparr>)" using Suc.prems tw by (auto simp: poll_Next_def Let_def)
    have "poll_waits (replicate n True) ?p = map (\<lambda>i. min (?c * 2 ^ i) (po_Max ?p)) [0..<n]"
      by (rule Suc.IH) (use Suc.prems nx in auto)
    moreover have "min (?c * 2 ^ i) (po_Max p) = min (c * 2 ^ Suc i) (po_Max p)" for i
    proof (cases "c * 2 > po_Max p")
      case True
      have "1 \<le> (2 :: int) ^ i" by simp
      then have "po_Max p * 1 \<le> po_Max p * 2 ^ i" "c * 2 * 1 \<le> c * 2 * 2 ^ i"
        using Suc.prems by (intro mult_left_mono; simp)+
      with True show ?thesis by (simp add: min_def mult.assoc)
    qed (simp add: mult.assoc)
    ultimately have "poll_waits (replicate n True) ?p = map (\<lambda>i. min (c * 2 ^ Suc i) (po_Max p)) [0..<n]"
      using nx by simp
    then have "poll_waits (replicate (Suc n) True) p = c # map (\<lambda>i. min (c * 2 ^ Suc i) (po_Max p)) [0..<n]"
      using nx by simp
    also have "\<dots> = map (\<lambda>i. min (c * 2 ^ i) (po_Max p)) (0 # map Suc [0..<n])" using Suc.prems by (simp add: comp_def)
    also have "0 # map Suc [0..<n] = [0..<Suc n]" by (simp add: map_Suc_upt upt_conv_Cons)
    finally show ?case .
  qed simp
  from this [of p "po_Min p"] assms show ?thesis by simp
qed

end
