(* ===== verification/Ref_Names.thy ===== *)
theory Ref_Names
  imports Headers
begin

text \<open>
  The names of refs (\<open>refs.go\<close>): segments joined by slashes, checked alone by \<open>ValidRefName\<close> and
  against the refs a store holds by \<open>RefConflict\<close>, so that a store on a case-insensitive file system
  can keep each ref as a file.  A name is a byte string; names that validate are ASCII, so folding case
  is folding the ASCII letters.
\<close>

section \<open>Segments\<close>

text \<open>\<open>strings.Split\<close> at one character, and \<open>strings.Join\<close>.\<close>

fun split_on :: "char \<Rightarrow> string \<Rightarrow> string list" where
  "split_on c [] = [[]]"
| "split_on c (x # xs) =
     (if x = c then [] # split_on c xs
      else case split_on c xs of [] \<Rightarrow> [[x]] | s # ss \<Rightarrow> (x # s) # ss)"

fun join_with :: "char \<Rightarrow> string list \<Rightarrow> string" where
  "join_with c [] = []"
| "join_with c [s] = s"
| "join_with c (s # ss) = s @ c # join_with c ss"

definition fold_char :: "char \<Rightarrow> char" where
  "fold_char c = (let n = (of_char c :: nat) in if 65 \<le> n \<and> n \<le> 90 then char_of (n + 32) else c)"

definition EqualFold :: "string \<Rightarrow> string \<Rightarrow> bool" where
  "EqualFold a b \<longleftrightarrow> map fold_char a = map fold_char b"

section \<open>A name alone\<close>

definition MaxRefName :: nat where "MaxRefName = 200"

definition refNameChar :: "char \<Rightarrow> bool" where
  "refNameChar c \<longleftrightarrow>
     (let n = (of_char c :: nat)
      in 97 \<le> n \<and> n \<le> 122 \<or> 65 \<le> n \<and> n \<le> 90 \<or> 48 \<le> n \<and> n \<le> 57 \<or>
         c = CHR ''.'' \<or> c = CHR ''_'' \<or> c = CHR ''-'')"

definition upper_char :: "char \<Rightarrow> char" where
  "upper_char c = (let n = (of_char c :: nat) in if 97 \<le> n \<and> n \<le> 122 then char_of (n - 32) else c)"

definition windowsReserved :: "string \<Rightarrow> bool" where
  "windowsReserved seg =
     (let stem = map upper_char (takeWhile (\<lambda>c. c \<noteq> CHR ''.'') seg)
      in stem = ''CON'' \<or> stem = ''PRN'' \<or> stem = ''AUX'' \<or> stem = ''NUL'' \<or>
         length stem = 4 \<and> (has_prefix ''COM'' stem \<or> has_prefix ''LPT'' stem) \<and>
         (let n = (of_char (stem ! 3) :: nat) in 49 \<le> n \<and> n \<le> 57))"

definition valid_segment :: "string \<Rightarrow> unit res" where
  "valid_segment seg =
     (if seg = [] then Inl ERefName
      else if seg = ''.'' \<or> seg = ''..'' then Inl ERefName
      else if \<not> list_all refNameChar seg then Inl ERefName
      else if last seg = CHR ''.'' then Inl ERefName
      else if windowsReserved seg then Inl ERefName
      else Inr ())"

definition ValidRefName :: "string \<Rightarrow> unit res" where
  "ValidRefName name =
     (if name = [] then Inl ERefName
      else if length name > MaxRefName then Inl ERefName
      else each_res valid_segment (split_on (CHR ''/'') name))"

definition ValidRefPrefix :: "string \<Rightarrow> unit res" where
  "ValidRefPrefix pre =
     (if length pre > MaxRefName then Inl ERefName
      else if list_ex (\<lambda>c. c \<noteq> CHR ''/'' \<and> \<not> refNameChar c) pre then Inl ERefName
      else Inr ())"

section \<open>A name beside others\<close>

text \<open>The loop over the segments two names have in common; the flag says it met a difference in case only.\<close>

fun case_clash :: "string list \<Rightarrow> string list \<Rightarrow> bool" where
  "case_clash (s # ss) (t # ts) = (if s = t then case_clash ss ts else EqualFold s t)"
| "case_clash _ _ = False"

definition conflicts :: "string \<Rightarrow> string \<Rightarrow> bool" where
  "conflicts name other =
     (let segs = split_on (CHR ''/'') name; osegs = split_on (CHR ''/'') other;
          n = min (length segs) (length osegs)
      in case_clash segs osegs \<or>
         length segs \<noteq> length osegs \<and>
         EqualFold (join_with (CHR ''/'') (take n segs)) (join_with (CHR ''/'') (take n osegs)))"

definition RefConflict :: "string \<Rightarrow> string list \<Rightarrow> unit res" where
  "RefConflict name existing =
     each_res (\<lambda>other. refuse (other \<noteq> name \<and> conflicts name other) ERefName) existing"

section \<open>Splitting and joining\<close>

lemma split_on_ne [simp]: "split_on c s \<noteq> []"
  by (induction s) (auto split: list.split)

lemma join_split: "join_with c (split_on c s) = s"
proof (induction s)
  case (Cons x s)
  obtain t ts where "split_on c s = t # ts" using split_on_ne by (meson neq_Nil_conv)
  with Cons show ?case by (cases ts) auto
qed simp

lemma split_on_sep: "t \<in> set (split_on c s) \<Longrightarrow> c \<notin> set t"
  by (induction s arbitrary: t) (auto split: if_splits list.splits)

lemma split_on_plain: "c \<notin> set s \<Longrightarrow> split_on c s = [s]"
  by (induction s) auto

lemma split_on_append: "c \<notin> set s \<Longrightarrow> split_on c (s @ c # r) = s # split_on c r"
  by (induction s) (auto split: list.split)

lemma split_join: "ss \<noteq> [] \<Longrightarrow> \<forall>s\<in>set ss. c \<notin> set s \<Longrightarrow> split_on c (join_with c ss) = ss"
  by (induction c ss rule: join_with.induct) (auto simp: split_on_plain split_on_append)

lemma split_on_inj: "split_on c a = split_on c b \<Longrightarrow> a = b"
  by (metis join_split)

lemma fold_slash: "fold_char x = CHR ''/'' \<longleftrightarrow> x = CHR ''/''"
proof
  assume f: "fold_char x = CHR ''/''"
  show "x = CHR ''/''"
  proof (cases "65 \<le> (of_char x :: nat) \<and> (of_char x :: nat) \<le> 90")
    case True
    let ?n = "of_char x :: nat"
    from True have "?n + 32 < 256" by simp
    then have "of_char (char_of (?n + 32) :: char) = ?n + 32" by (simp add: of_char_of)
    moreover from f True have "char_of (?n + 32) = CHR ''/''" by (simp add: fold_char_def Let_def)
    ultimately have "?n + 32 = of_char (CHR ''/'')" by simp
    with True show ?thesis by simp
  qed (use f in \<open>auto simp: fold_char_def Let_def\<close>)
qed (simp add: fold_char_def)

lemma fold_join: "map fold_char (join_with (CHR ''/'') ss) = join_with (CHR ''/'') (map (map fold_char) ss)"
  by (induction "CHR ''/''" ss rule: join_with.induct) (simp_all add: fold_char_def [of "CHR ''/''"])

lemma EqualFold_join:
  assumes "ss \<noteq> []" "length ss = length ts" "\<forall>s\<in>set ss. CHR ''/'' \<notin> set s" "\<forall>t\<in>set ts. CHR ''/'' \<notin> set t"
  shows "EqualFold (join_with (CHR ''/'') ss) (join_with (CHR ''/'') ts) \<longleftrightarrow> map (map fold_char) ss = map (map fold_char) ts"
proof -
  have sep: "\<forall>s\<in>set (map (map fold_char) xs). CHR ''/'' \<notin> set s" if "\<forall>s\<in>set xs. CHR ''/'' \<notin> set s" for xs :: "string list"
    using that fold_slash by force
  from assms(1,2) have "ts \<noteq> []" by auto
  then have "split_on (CHR ''/'') (join_with (CHR ''/'') (map (map fold_char) ss)) = map (map fold_char) ss"
      "split_on (CHR ''/'') (join_with (CHR ''/'') (map (map fold_char) ts)) = map (map fold_char) ts"
    using assms(1) by (intro split_join sep assms(3,4); simp)+
  then show ?thesis unfolding EqualFold_def fold_join by metis
qed

section \<open>What a conflict is\<close>

text \<open>Names apart: where the segments first differ, they differ in more than case.\<close>

fun apart :: "string list \<Rightarrow> string list \<Rightarrow> bool" where
  "apart (s # ss) (t # ts) = (if s = t then apart ss ts else \<not> EqualFold s t)"
| "apart _ _ = False"

lemma apart_sym: "apart xs ys = apart ys xs"
  by (induction xs ys rule: apart.induct) (auto simp: EqualFold_def)

lemma apart_not_clash: "apart xs ys \<Longrightarrow> \<not> case_clash xs ys"
  by (induction xs ys rule: apart.induct) (auto split: if_splits)

lemma apart_folded:
  "apart xs ys \<Longrightarrow> map (map fold_char) (take n xs) \<noteq> map (map fold_char) (take n ys) \<or> n < min (length xs) (length ys)"
  by (induction xs ys arbitrary: n rule: apart.induct) (force simp: EqualFold_def take_Cons' split: if_splits)+

lemma not_apart: "\<not> apart xs ys \<Longrightarrow> \<not> case_clash xs ys \<Longrightarrow>
  take (min (length xs) (length ys)) xs = take (min (length xs) (length ys)) ys"
  by (induction xs ys rule: apart.induct) (auto split: if_splits)

lemma conflicts_iff:
  assumes "a \<noteq> b"
  shows "conflicts a b \<longleftrightarrow> \<not> apart (split_on (CHR ''/'') a) (split_on (CHR ''/'') b)"
proof -
  let ?xs = "split_on (CHR ''/'') a" and ?ys = "split_on (CHR ''/'') b"
  let ?n = "min (length ?xs) (length ?ys)"
  have ne: "?xs \<noteq> ?ys" using assms split_on_inj by metis
  have pos: "0 < ?n" by (simp add: length_greater_0_conv)
  have ef: "EqualFold (join_with (CHR ''/'') (take ?n ?xs)) (join_with (CHR ''/'') (take ?n ?ys)) \<longleftrightarrow>
      map (map fold_char) (take ?n ?xs) = map (map fold_char) (take ?n ?ys)"
    by (rule EqualFold_join) (use pos in \<open>auto dest!: in_set_takeD split_on_sep\<close>)
  show ?thesis
  proof (cases "apart ?xs ?ys")
    case True
    with apart_not_clash [OF True] apart_folded [OF True, of ?n] ef show ?thesis by (simp add: conflicts_def Let_def)
  next
    case False
    show ?thesis
    proof (cases "case_clash ?xs ?ys")
      case clash: False
      from not_apart [OF False clash] have tk: "take ?n ?xs = take ?n ?ys" .
      have "length ?xs \<noteq> length ?ys" using tk ne by auto
      with tk False show ?thesis by (simp add: conflicts_def Let_def EqualFold_def)
    qed (use False in \<open>simp add: conflicts_def Let_def\<close>)
  qed
qed

lemma RefConflict_iff:
  "RefConflict name existing = Inr () \<longleftrightarrow>
     (\<forall>other\<in>set existing. other = name \<or> apart (split_on (CHR ''/'') name) (split_on (CHR ''/'') other))"
proof -
  have "\<not> (other \<noteq> name \<and> conflicts name other) \<longleftrightarrow>
      other = name \<or> apart (split_on (CHR ''/'') name) (split_on (CHR ''/'') other)" for other
    by (cases "other = name") (simp_all add: conflicts_iff)
  then show ?thesis by (simp only: RefConflict_def each_res_Inr refuse_Inr)
qed

text \<open>As paths of a file system that folds case, names apart are neither equal nor one under the other.\<close>

lemma apart_paths: "apart xs ys \<Longrightarrow> take (length xs) (map (map fold_char) ys) \<noteq> map (map fold_char) xs"
  by (induction xs ys rule: apart.induct) (auto simp: EqualFold_def split: if_splits)

end
