(* ===== verification/Stores.thy ===== *)
theory Stores
  imports Lines Wake Ref_Names "HOL-Library.AList"
begin

text \<open>
  The reference store (\<open>MemoryStore\<close> of \<open>store.go\<close> and \<open>refs.go\<close>): sessions by ID with the generation
  each was created in, the broadcast its followers wait on, refs with their logs, and sidecar blobs.
  Every call holds the locks it needs throughout, but for the pick of a fork's origin, which is made
  outside the lock and checked again under it.  The hashes and the JSON decoders the store calls are
  the fields of \<open>deps\<close>; the clock, a fresh ID and the caller's context are arguments.
\<close>

section \<open>What the store asks of others\<close>

record deps =
  d_codec :: codec
  d_wire :: wire
  d_ident :: "header \<Rightarrow> string res"
  d_HashBytes :: "string \<Rightarrow> string"
  d_SidecarBlobs :: "entry \<Rightarrow> (string list) res"
  d_redactedFrom :: "json \<Rightarrow> redacted_from option"
  d_true :: "json \<Rightarrow> bool"
  d_harnessName :: "json \<Rightarrow> string"

record ctx =
  cx_Err :: "error option"
  cx_readable :: "string \<Rightarrow> bool"

definition ctx_check :: "ctx \<Rightarrow> unit res" where
  "ctx_check cx = (case cx_Err cx of None \<Rightarrow> Inr () | Some x \<Rightarrow> Inl x)"

section \<open>The state\<close>

record ref_target =
  rt_Session :: string
  rt_Entry :: eid

definition no_target :: ref_target where
  "no_target = \<lparr>rt_Session = [], rt_Entry = []\<rparr>"

definition IsZero :: "ref_target \<Rightarrow> bool" where
  "IsZero t \<longleftrightarrow> t = no_target"

record ref_update =
  ru_Name :: string
  ru_Old :: ref_target
  ru_New :: ref_target
  ru_Time :: timestamp
  ru_Reason :: string

record mem_blob =
  mb_data :: string
  mb_mediaType :: string
  mb_at :: timestamp

record mem_store =
  ms_sessions :: "(string \<times> session) list"
  ms_gens :: "(string \<times> nat) list"
  ms_hub :: hub
  ms_refs :: "(string \<times> ref_target) list"
  ms_idents :: "(string \<times> string) list"
  ms_logs :: "(string \<times> ref_update list) list"
  ms_redactedOnly :: bool
  ms_blobs :: "(string \<times> mem_blob) list"
  ms_blobTypes :: "(string \<times> (string \<times> string) list) list"
  ms_gen :: nat

text \<open>\<open>ms_gen\<close> is the counter \<open>memoryGen\<close> of the package.\<close>

definition NewMemoryStore :: "bool \<Rightarrow> nat \<Rightarrow> mem_store" where
  "NewMemoryStore redactedOnly gen =
     \<lparr>ms_sessions = [], ms_gens = [], ms_hub = new_hub, ms_refs = [], ms_idents = [], ms_logs = [],
      ms_redactedOnly = redactedOnly, ms_blobs = [], ms_blobTypes = [], ms_gen = gen\<rparr>"

definition set_session :: "string \<Rightarrow> session \<Rightarrow> mem_store \<Rightarrow> mem_store" where
  "set_session i s m = m\<lparr>ms_sessions := AList.update i s (ms_sessions m)\<rparr>"

definition notify :: "string \<Rightarrow> mem_store \<Rightarrow> mem_store" where
  "notify i m = m\<lparr>ms_hub := Notify (ms_hub m) i\<rparr>"

section \<open>Redacted sessions\<close>

text \<open>\<open>redactedstore.go\<close>: what a store that holds only redacted entries refuses.\<close>

definition ValidHash :: "string \<Rightarrow> bool" where
  "ValidHash s \<longleftrightarrow>
     length s = 71 \<and> take 7 s = ''sha256:'' \<and>
     list_all (\<lambda>c. let n = (of_char c :: nat) in 48 \<le> n \<and> n \<le> 57 \<or> 97 \<le> n \<and> n \<le> 102) (drop 7 s)"

definition extraRedactedFrom :: "deps \<Rightarrow> header \<Rightarrow> redacted_from option" where
  "extraRedactedFrom d h =
     (case map_of (h_Extra h) ''redacted_from'' of
        None \<Rightarrow> None
      | Some raw \<Rightarrow>
          if definesRedactedFrom (if h_Format h = [] then Format else h_Format h) then d_redactedFrom d raw else None)"

definition CheckCreate :: "deps \<Rightarrow> header \<Rightarrow> bool \<Rightarrow> unit res" where
  "CheckCreate d h redactedOnly =
     (let r = (case h_RedactedFrom h of None \<Rightarrow> extraRedactedFrom d h | Some r \<Rightarrow> Some r)
      in if \<not> h_Redacted h \<and> r \<noteq> None then Inl ERedactedFrom
         else if (case r of None \<Rightarrow> False | Some r \<Rightarrow> rf_Session r = []) then Inl ERedactedFrom
         else if (case r of None \<Rightarrow> False | Some r \<Rightarrow> h_ID h \<noteq> [] \<and> rf_Session r = h_ID h) then Inl ERedactedFrom
         else if redactedOnly \<and> \<not> h_Redacted h then Inl ENotRedacted
         else Inr ())"

definition HeadMove :: "entry \<Rightarrow> (eid \<Rightarrow> bool) \<Rightarrow> bool" where
  "HeadMove e holds =
     (case e of
        LabelEntry l \<Rightarrow>
          lb_Label l = Some LeafLabel \<and> holds (lb_Target l) \<and> (lb_Target l = [] \<or> ValidHash (lb_Target l)) \<and>
          (let b = lb_base l in b_Unknown b = [] \<and> b_Parents b = [] \<and> b_LegacyID b = [] \<and> b_Normalised b = [])
      | _ \<Rightarrow> False)"

definition checkRedacted :: "header \<Rightarrow> entry list \<Rightarrow> session option \<Rightarrow> unit res" where
  "checkRedacted h entries so =
     (let ids = set (map e_id entries) - {[]};
          holds = (\<lambda>i. if i = [] then h_Base h = [] else i \<in> ids \<or> (case so of None \<Rightarrow> False | Some s \<Rightarrow> se_byID s i \<noteq> None))
      in if \<not> h_Redacted h then Inl ENotRedacted
         else each_res (\<lambda>e. refuse (\<not> HeadMove e holds \<and> RedactedOf (Some e) = None) ENotRedacted) entries)"

definition CheckRedacted :: "header \<Rightarrow> entry list \<Rightarrow> unit res" where
  "CheckRedacted h entries = checkRedacted h entries None"

definition CheckRedactedIn :: "session \<Rightarrow> entry list \<Rightarrow> unit res" where
  "CheckRedactedIn s entries = checkRedacted (se_header s) entries (Some s)"

section \<open>The origin of a fork\<close>

text \<open>\<open>internal/origin\<close>: the sessions that may be the origin, and the pick among those a caller may read.\<close>

record candidates =
  ca_Chain :: "string list"
  ca_Ends :: bool
  ca_Owners :: "string list"
  ca_OnPrefix :: "string list"

text \<open>The chain is walked while its sessions are admitted; its end is the pick only when the walk got there.\<close>

fun pick_chain :: "(string \<Rightarrow> bool) \<Rightarrow> bool \<Rightarrow> string list \<Rightarrow> string option" where
  "pick_chain readable ends [] = None"
| "pick_chain readable ends (i # ids) =
     (if \<not> readable i then None
      else if ids = [] \<and> ends then Some i
      else pick_chain readable ends ids)"

definition Pick :: "candidates \<Rightarrow> (string \<Rightarrow> bool) \<Rightarrow> string" where
  "Pick c readable =
     (case pick_chain readable (ca_Ends c) (ca_Chain c) of
        Some i \<Rightarrow> i
      | None \<Rightarrow>
          (case find readable (ca_Owners c) of
             Some i \<Rightarrow> i
           | None \<Rightarrow> (case find readable (ca_OnPrefix c) of Some i \<Rightarrow> i | None \<Rightarrow> [])))"

definition Prefix :: "session \<Rightarrow> eid \<Rightarrow> bool" where
  "Prefix s i \<longleftrightarrow> i \<in> se_prefix s"

text \<open>The walk up the \<open>parent_session\<close> line: 64 sessions at most.\<close>

fun origin_chain :: "nat \<Rightarrow> (string \<rightharpoonup> session) \<Rightarrow> eid \<Rightarrow> string \<Rightarrow> string list \<Rightarrow> string list \<times> bool" where
  "origin_chain 0 sessions base named acc = (acc, False)"
| "origin_chain (Suc n) sessions base named acc =
     (if named = [] then (acc, False)
      else case sessions named of
          None \<Rightarrow> (acc, False)
        | Some s \<Rightarrow>
            if Entry s base = None then (acc, False)
            else if \<not> Prefix s base \<or> h_ParentSession (se_header s) = [] then (acc @ [named], True)
            else origin_chain n sessions base (h_ParentSession (se_header s)) (acc @ [named]))"

definition pickOrigin :: "ctx \<Rightarrow> string \<Rightarrow> eid \<Rightarrow> mem_store \<Rightarrow> string" where
  "pickOrigin cx named base m =
     (let sessions = map_of (ms_sessions m);
          (chain, ends) = origin_chain 64 sessions base named [];
          holders = filter (\<lambda>i. Entry (the (sessions i)) base \<noteq> None) (sort (map fst (ms_sessions m)))
      in Pick \<lparr>ca_Chain = chain, ca_Ends = ends,
               ca_Owners = filter (\<lambda>i. \<not> Prefix (the (sessions i)) base) holders,
               ca_OnPrefix = filter (\<lambda>i. Prefix (the (sessions i)) base) holders\<rparr> (cx_readable cx))"

definition heldOrigin :: "string \<Rightarrow> eid \<Rightarrow> mem_store \<Rightarrow> session option" where
  "heldOrigin i base m =
     (case map_of (ms_sessions m) i of
        None \<Rightarrow> None
      | Some s \<Rightarrow> if Entry s base = None then None else Some s)"

text \<open>
  \<open>lockOrigin\<close>: up to eight rounds, each a pick made in one state of the store and checked in the
  state met once the lock is taken; other callers run between the two.  It ends with the lock held, in
  the state the caller goes on from.
\<close>

fun lock_rounds :: "ctx \<Rightarrow> string \<Rightarrow> eid \<Rightarrow> (mem_store \<times> mem_store) list \<Rightarrow> mem_store \<Rightarrow> mem_store \<times> session option" where
  "lock_rounds cx named base [] m = (m, None)"
| "lock_rounds cx named base ((m0, m1) # rounds) m =
     (let i = pickOrigin cx named base m0
      in if i = [] then (m1, None)
         else case heldOrigin i base m1 of
             Some s \<Rightarrow> (m1, Some s)
           | None \<Rightarrow> lock_rounds cx named base rounds m)"

definition lockOrigin :: "ctx \<Rightarrow> string \<Rightarrow> eid \<Rightarrow> (mem_store \<times> mem_store) list \<Rightarrow> mem_store \<Rightarrow> mem_store \<times> session option" where
  "lockOrigin cx named base rounds m = lock_rounds cx named base (take 8 rounds) m"

section \<open>Create, Import, Open, Read, Delete\<close>

definition add_session :: "session \<Rightarrow> mem_store \<Rightarrow> mem_store" where
  "add_session s m =
     (let i = h_ID (se_header s)
      in m\<lparr>ms_sessions := AList.update i s (ms_sessions m), ms_gen := ms_gen m + 1,
           ms_gens := AList.update i (ms_gen m + 1) (ms_gens m)\<rparr>)"

definition Create ::
    "deps \<Rightarrow> ctx \<Rightarrow> fresh \<Rightarrow> header \<Rightarrow> (mem_store \<times> mem_store) list \<Rightarrow> mem_store \<Rightarrow> mem_store \<times> session res" where
  "Create d cx f h rounds m =
     (case CheckCreate d h (ms_redactedOnly m) of
        Inl x \<Rightarrow> (m, Inl x)
      | Inr _ \<Rightarrow>
          (case (if h_Base h \<noteq> [] then lockOrigin cx (h_ParentSession h) (h_Base h) rounds m else (m, None)) of
             (m, origin) \<Rightarrow>
               (case (if h_Base h = [] then Inr (New (f_payload f) (f_id f) (f_now f) h)
                      else case origin of
                          None \<Rightarrow> Inl ENoEntry
                        | Some org \<Rightarrow>
                            bind_res (Fork (f_payload f) (f_id f) (f_now f) org (h_Base h) h) (\<lambda>s.
                              then_res (if ms_redactedOnly m then CheckRedacted (se_header s) (se_entries s) else Inr ())
                                (Inr s))) of
                  Inl x \<Rightarrow> (m, Inl x)
                | Inr s \<Rightarrow>
                    if map_of (ms_sessions m) (h_ID (se_header s)) \<noteq> None then (m, Inl ESessionExists)
                    else (add_session s m, Inr s))))"

text \<open>\<open>ReadForImport\<close> and \<open>CheckImportMedia\<close> of \<open>import.go\<close>.\<close>

definition synthetic :: "deps \<Rightarrow> label_entry \<Rightarrow> bool" where
  "synthetic d l = (case map_of (b_Unknown (lb_base l)) ''synthetic'' of None \<Rightarrow> False | Some raw \<Rightarrow> d_true d raw)"

definition import_entry_ok :: "deps \<Rightarrow> session \<Rightarrow> entry \<Rightarrow> unit res" where
  "import_entry_ok d s e =
     (if (case e of LabelEntry l \<Rightarrow> synthetic d l | _ \<Rightarrow> False) then Inl ESyntheticMarker
      else if h_Base (se_header s) = [] \<or> Prefix s (e_id e) then Inr ()
      else if e_parent e \<noteq> h_Base (se_header s) \<and> (e_parent e = [] \<or> Prefix s (e_parent e)) then Inl EBaseRule
      else Inr ())"

definition ReadForImport :: "deps \<Rightarrow> fresh \<Rightarrow> string \<Rightarrow> session res" where
  "ReadForImport d f inp =
     bind_res (Read (d_codec d) (d_wire d) f inp) (\<lambda>s.
       case se_truncated s of
         Some t \<Rightarrow> Inl (ETruncatedLine (tl_Line t) (tl_Data t))
       | None \<Rightarrow>
           if se_migrated s \<and> se_unresolved s \<noteq> [] then Inl EUnresolvedMigration
           else then_res (each_res (import_entry_ok d s) (se_entries s)) (Inr s))"

definition CheckImportMedia :: "header \<Rightarrow> session option \<Rightarrow> unit res" where
  "CheckImportMedia h origin =
     (case origin of
        None \<Rightarrow> Inr ()
      | Some org \<Rightarrow>
          if h_Base h = [] then Inr ()
          else refuse (mediaForm (h_Media h) \<noteq> mediaForm (h_Media (se_header org))) EMediaDiffers)"

definition Import ::
    "deps \<Rightarrow> ctx \<Rightarrow> fresh \<Rightarrow> string \<Rightarrow> (mem_store \<times> mem_store) list \<Rightarrow> mem_store \<Rightarrow> mem_store \<times> session res" where
  "Import d cx f inp rounds m =
     (case then_res (ctx_check cx) (bind_res (ReadForImport d f inp) (\<lambda>s.
             then_res (if ms_redactedOnly m then CheckRedacted (se_header s) (se_entries s) else Inr ()) (Inr s))) of
        Inl x \<Rightarrow> (m, Inl x)
      | Inr s \<Rightarrow>
          let h = se_header s
          in case (if h_Base h \<noteq> [] then lockOrigin cx (h_ParentSession h) (h_Base h) rounds m else (m, None)) of
              (m, origin) \<Rightarrow>
                if map_of (ms_sessions m) (h_ID h) \<noteq> None then (m, Inl ESessionExists)
                else case (if h_Base h \<noteq> [] then CheckImportMedia h origin else Inr ()) of
                    Inl x \<Rightarrow> (m, Inl x)
                  | Inr _ \<Rightarrow> (notify (h_ID h) (add_session s m), Inr s))"

definition Open :: "mem_store \<Rightarrow> string \<Rightarrow> session res" where
  "Open m i = (case map_of (ms_sessions m) i of None \<Rightarrow> Inl ENoSession | Some s \<Rightarrow> Inr s)"

definition store_Read :: "deps \<Rightarrow> fresh \<Rightarrow> mem_store \<Rightarrow> string \<Rightarrow> session res" where
  "store_Read d f m i =
     bind_res (Open m i) (\<lambda>live. bind_res (Write (d_wire d) live) (Read (d_codec d) (d_wire d) f))"

definition Delete :: "string \<Rightarrow> mem_store \<Rightarrow> mem_store \<times> unit res" where
  "Delete i m =
     (if map_of (ms_sessions m) i = None then (m, Inl ENoSession)
      else (notify i (m\<lparr>ms_sessions := AList.delete i (ms_sessions m), ms_gens := AList.delete i (ms_gens m),
                        ms_blobTypes := AList.delete i (ms_blobTypes m)\<rparr>), Inr ()))"

section \<open>Append and SetHead\<close>

definition MarshalEntry :: "wire \<Rightarrow> entry \<Rightarrow> string res" where
  "MarshalEntry w e = w_marshalEntry w e"

definition UnmarshalEntry :: "wire \<Rightarrow> string \<Rightarrow> entry res" where
  "UnmarshalEntry w data = bind_res (w_decodeLine w data) (\<lambda>(e, c). Inr e)"

text \<open>A raise of the header is kept when a later step of the call fails.\<close>

definition store_Append :: "deps \<Rightarrow> timestamp \<Rightarrow> string \<Rightarrow> entry \<Rightarrow> mem_store \<Rightarrow> mem_store \<times> eid res" where
  "store_Append d now i e m =
     (let k = d_codec d; w = d_wire d
      in case bind_res (Open m i) (\<lambda>s.
             then_res (if ms_redactedOnly m then CheckRedactedIn s [e] else Inr ())
               (bind_res (Prepare k now s (Some e)) (\<lambda>(e, pre).
                  bind_res (if r_Outcome pre \<noteq> Held then raiseHeader s Format else Inr s) (\<lambda>s. Inr (e, s))))) of
          Inl x \<Rightarrow> (m, Inl x)
        | Inr (e, s) \<Rightarrow>
            let m = set_session i s m
            in case bind_res (MarshalEntry w e) (UnmarshalEntry w) of
                Inl x \<Rightarrow> (m, Inl x)
              | Inr own \<Rightarrow>
                  (case Commit k now s (Some own) of
                     (s, r) \<Rightarrow> (notify i (set_session i s m), bind_res r (\<lambda>r. Inr (r_ID r)))))"

definition HeadLabel :: "session \<Rightarrow> eid \<Rightarrow> eid \<Rightarrow> label_entry res" where
  "HeadLabel s expected to = headLabel s expected to"

definition SetHead :: "deps \<Rightarrow> ctx \<Rightarrow> timestamp \<Rightarrow> string \<Rightarrow> eid \<Rightarrow> eid \<Rightarrow> mem_store \<Rightarrow> mem_store \<times> unit res" where
  "SetHead d cx now i expected to m =
     (case then_res (ctx_check cx) (bind_res (Open m i) (\<lambda>s.
             bind_res (HeadLabel s expected to) (\<lambda>_. raiseHeader s Format))) of
        Inl x \<Rightarrow> (m, Inl x)
      | Inr s \<Rightarrow>
          (case commitHead (d_codec d) now s expected to of
             (s, r) \<Rightarrow> (notify i (set_session i s m), bind_res r (\<lambda>_. Inr ()))))"

section \<open>List\<close>

record list_filter =
  lf_CWD :: string
  lf_ParentSession :: string
  lf_Harness :: string
  lf_Extra :: "(string \<times> json) list"
  lf_TopLevel :: bool
  lf_After :: timestamp
  lf_Before :: timestamp
  lf_Limit :: int
  lf_Current :: bool

record summary =
  su_Header :: header
  su_Name :: string
  su_SupersededBy :: string

definition sameCanonical :: "wire \<Rightarrow> json \<Rightarrow> json \<Rightarrow> bool" where
  "sameCanonical w a b =
     (case w_transform w a of
        Inl _ \<Rightarrow> False
      | Inr ca \<Rightarrow> (case w_transform w b of Inl _ \<Rightarrow> False | Inr cb \<Rightarrow> ca = cb))"

definition Matches :: "deps \<Rightarrow> list_filter \<Rightarrow> header \<Rightarrow> bool" where
  "Matches d f h \<longleftrightarrow>
     \<not> (lf_CWD f \<noteq> [] \<and> h_CWD h \<noteq> lf_CWD f) \<and>
     \<not> (lf_ParentSession f \<noteq> [] \<and> h_ParentSession h \<noteq> lf_ParentSession f) \<and>
     \<not> (lf_Harness f \<noteq> [] \<and> (case h_Harness h of None \<Rightarrow> True | Some j \<Rightarrow> d_harnessName d j \<noteq> lf_Harness f)) \<and>
     \<not> (lf_TopLevel f \<and> h_SpawnedBy h \<noteq> []) \<and>
     list_all (\<lambda>(key, want). case map_of (h_Extra h) key of None \<Rightarrow> False | Some got \<Rightarrow> sameCanonical (d_wire d) want got) (lf_Extra f) \<and>
     \<not> (lf_After f \<noteq> 0 \<and> \<not> h_CreatedAt h > lf_After f) \<and>
     \<not> (lf_Before f \<noteq> 0 \<and> \<not> h_CreatedAt h < lf_Before f)"

definition Keep :: "deps \<Rightarrow> list_filter \<Rightarrow> summary \<Rightarrow> bool" where
  "Keep d f su \<longleftrightarrow> Matches d f (su_Header su) \<and> \<not> (lf_Current f \<and> su_SupersededBy su \<noteq> [])"

definition summary_of :: "session \<Rightarrow> summary" where
  "summary_of s = \<lparr>su_Header = se_header s, su_Name = Name s, su_SupersededBy = SupersededBy s\<rparr>"

text \<open>Sessions created at the same instant come in no set order; the model takes the map's.\<close>

definition store_List :: "deps \<Rightarrow> list_filter \<Rightarrow> mem_store \<Rightarrow> summary list" where
  "store_List d f m =
     (let out = filter (Keep d f) (map (\<lambda>(i, s). summary_of s) (ms_sessions m));
          out = sort_key (\<lambda>su. - int (h_CreatedAt (su_Header su))) out
      in if lf_Limit f > 0 \<and> int (length out) > lf_Limit f then take (nat (lf_Limit f)) out else out)"

section \<open>Refs\<close>

definition ResolveRef :: "deps \<Rightarrow> string \<Rightarrow> mem_store \<Rightarrow> ref_target \<times> error option" where
  "ResolveRef d name m =
     (case ValidRefName name of
        Inl x \<Rightarrow> (no_target, Some x)
      | Inr _ \<Rightarrow>
          (case map_of (ms_refs m) name of
             None \<Rightarrow> (no_target, Some ENoRef)
           | Some t \<Rightarrow>
               (case map_of (ms_sessions m) (rt_Session t) of
                  None \<Rightarrow> (t, Some ENoSession)
                | Some s \<Rightarrow>
                    if d_ident d (se_header s) \<noteq> Inr (case map_of (ms_idents m) name of None \<Rightarrow> [] | Some i \<Rightarrow> i)
                    then (t, Some ENoSession) else (t, None))))"

text \<open>The target a ref is moved to must be there.\<close>

definition target_held :: "ref_target \<Rightarrow> mem_store \<Rightarrow> unit res" where
  "target_held t m =
     (if IsZero t then Inr ()
      else case map_of (ms_sessions m) (rt_Session t) of
          None \<Rightarrow> Inl ENoSession
        | Some s \<Rightarrow> if rt_Entry t \<noteq> [] \<and> Entry s (rt_Entry t) = None then Inl ENoEntry else Inr ())"

definition ref_now :: "mem_store \<Rightarrow> string \<Rightarrow> ref_target" where
  "ref_now m name = (case map_of (ms_refs m) name of None \<Rightarrow> no_target | Some t \<Rightarrow> t)"

definition log_of :: "mem_store \<Rightarrow> string \<Rightarrow> ref_update list" where
  "log_of m name = (case map_of (ms_logs m) name of None \<Rightarrow> [] | Some l \<Rightarrow> l)"

definition put_ref :: "string \<Rightarrow> ref_target \<Rightarrow> string \<Rightarrow> mem_store \<Rightarrow> mem_store" where
  "put_ref name next ident m =
     (if IsZero next
      then m\<lparr>ms_refs := AList.delete name (ms_refs m), ms_idents := AList.delete name (ms_idents m)\<rparr>
      else m\<lparr>ms_refs := AList.update name next (ms_refs m), ms_idents := AList.update name ident (ms_idents m)\<rparr>)"

definition log_ref :: "ref_update \<Rightarrow> mem_store \<Rightarrow> mem_store" where
  "log_ref u m = m\<lparr>ms_logs := AList.update (ru_Name u) (log_of m (ru_Name u) @ [u]) (ms_logs m)\<rparr>"

definition UpdateRef ::
    "deps \<Rightarrow> timestamp \<Rightarrow> string \<Rightarrow> ref_target \<Rightarrow> ref_target \<Rightarrow> string \<Rightarrow> mem_store \<Rightarrow> mem_store \<times> unit res" where
  "UpdateRef d now name expected next reason m =
     (case ValidRefName name of
        Inl x \<Rightarrow> (m, Inl x)
      | Inr _ \<Rightarrow>
          let cur = ref_now m name
          in if cur \<noteq> expected then (m, Inl (ERefMoved (rt_Session cur) (rt_Entry cur)))
             else case then_res (target_held next m)
                     (if IsZero next then Inr [] else d_ident d (se_header (the (map_of (ms_sessions m) (rt_Session next))))) of
                 Inl x \<Rightarrow> (m, Inl x)
               | Inr ident \<Rightarrow>
                   if cur = next
                   then (m, if \<not> IsZero next \<and> (case map_of (ms_idents m) name of None \<Rightarrow> False | Some i \<Rightarrow> i \<noteq> [] \<and> i \<noteq> ident)
                            then Inl ENoSession else Inr ())
                   else case (if IsZero cur then RefConflict name (map fst (ms_refs m)) else Inr ()) of
                       Inl x \<Rightarrow> (m, Inl x)
                     | Inr _ \<Rightarrow>
                         (log_ref \<lparr>ru_Name = name, ru_Old = cur, ru_New = next, ru_Time = now, ru_Reason = reason\<rparr>
                            (put_ref name next ident m), Inr ()))"

definition ListRefs :: "string \<Rightarrow> mem_store \<Rightarrow> (string \<times> ref_target) list res" where
  "ListRefs pre m =
     then_res (ValidRefPrefix pre)
       (Inr (sort_key fst (filter (\<lambda>(n, t). has_prefix pre n) (ms_refs m))))"

definition RefLog :: "string \<Rightarrow> mem_store \<Rightarrow> (ref_update list) res" where
  "RefLog name m = then_res (ValidRefName name) (Inr (rev (log_of m name)))"

section \<open>Blobs\<close>

definition isToken :: "string \<Rightarrow> bool" where
  "isToken s \<longleftrightarrow>
     s \<noteq> [] \<and>
     list_all (\<lambda>c. let n = (of_char c :: nat)
                   in 32 < n \<and> n < 127 \<and> c \<notin> set (''()<>@,;:'' @ [CHR 0x5C, CHR 0x22] @ ''/[]?='')) s"

definition BlobMediaType :: "string \<Rightarrow> string res" where
  "BlobMediaType t =
     (if t = [] \<or> EqualFold t ''application/octet-stream'' then Inr []
      else if length t > 1024 then Inl (EInvalid ''bad media type'')
      else let parts = split_on (CHR '';'') t
           in then_res (case cut (CHR ''/'') (hd parts) of
                  None \<Rightarrow> Inl (EInvalid ''bad media type'')
                | Some (ty, sub) \<Rightarrow> refuse (\<not> isToken ty \<or> \<not> isToken sub) (EInvalid ''bad media type''))
              (then_res (each_res (\<lambda>p. case cut (CHR ''='') p of
                  None \<Rightarrow> Inl (EInvalid ''bad media type'')
                | Some (attr, val) \<Rightarrow> refuse (\<not> isToken attr \<or> \<not> isToken val) (EInvalid ''bad media type'')) (tl parts))
              (Inr t)))"

definition PutTypedBlob :: "deps \<Rightarrow> ctx \<Rightarrow> timestamp \<Rightarrow> string \<Rightarrow> string \<Rightarrow> mem_store \<Rightarrow> mem_store \<times> string res" where
  "PutTypedBlob d cx now data mediaType m =
     (case then_res (ctx_check cx) (BlobMediaType mediaType) of
        Inl x \<Rightarrow> (m, Inl x)
      | Inr mt \<Rightarrow>
          let h = d_HashBytes d data;
              b = (case map_of (ms_blobs m) h of None \<Rightarrow> \<lparr>mb_data = data, mb_mediaType = [], mb_at = 0\<rparr> | Some b \<Rightarrow> b);
              b = b\<lparr>mb_mediaType := (if mb_mediaType b = [] then mt else mb_mediaType b), mb_at := now\<rparr>
          in (m\<lparr>ms_blobs := AList.update h b (ms_blobs m)\<rparr>, Inr h))"

definition TypedBlob :: "ctx \<Rightarrow> string \<Rightarrow> mem_store \<Rightarrow> (string \<times> string) res" where
  "TypedBlob cx hash m =
     then_res (ctx_check cx)
       (case map_of (ms_blobs m) hash of None \<Rightarrow> Inl ENoBlob | Some b \<Rightarrow> Inr (mb_data b, mb_mediaType b))"

text \<open>The blobs the entries of a session name, and those any session names.\<close>

fun blobs_named :: "deps \<Rightarrow> entry list \<Rightarrow> (string list) res" where
  "blobs_named d [] = Inr []"
| "blobs_named d (e # es) = bind_res (d_SidecarBlobs d e) (\<lambda>bs. bind_res (blobs_named d es) (\<lambda>more_bs. Inr (bs @ more_bs)))"

definition SessionBlobs :: "deps \<Rightarrow> session \<Rightarrow> (string list) res" where
  "SessionBlobs d s = bind_res (blobs_named d (se_entries s)) (\<lambda>bs. Inr (rev (remdups (rev bs))))"

fun named_blobs :: "deps \<Rightarrow> (string \<times> session) list \<Rightarrow> (string set) res" where
  "named_blobs d [] = Inr {}"
| "named_blobs d ((i, s) # ss) = bind_res (SessionBlobs d s) (\<lambda>bs. bind_res (named_blobs d ss) (\<lambda>rest. Inr (set bs \<union> rest)))"

text \<open>A blob stored before \<open>now - grace\<close>; the difference of instants may be negative.\<close>

definition blob_old :: "timestamp \<Rightarrow> int \<Rightarrow> mem_blob \<Rightarrow> bool" where
  "blob_old now grace b \<longleftrightarrow> int (mb_at b) < int now - grace"

definition SweepBlobs :: "deps \<Rightarrow> ctx \<Rightarrow> timestamp \<Rightarrow> int \<Rightarrow> mem_store \<Rightarrow> mem_store \<times> nat res" where
  "SweepBlobs d cx now grace m =
     (case ctx_check cx of
        Inl x \<Rightarrow> (m, Inl x)
      | Inr _ \<Rightarrow>
          if \<not> list_ex (\<lambda>(h, b). blob_old now grace b) (ms_blobs m) then (m, Inr 0)
          else case named_blobs d (ms_sessions m) of
              Inl x \<Rightarrow> (m, Inl x)
            | Inr named \<Rightarrow>
                let keep = filter (\<lambda>(h, b). \<not> (blob_old now grace b \<and> h \<notin> named)) (ms_blobs m)
                in (m\<lparr>ms_blobs := keep\<rparr>, Inr (length (ms_blobs m) - length keep)))"

text \<open>\<open>CheckBlobTypes\<close>, and a session's own types for its blobs: the first one given stays.\<close>

fun CheckBlobTypes :: "(string \<times> string) list \<Rightarrow> ((string \<times> string) list) res" where
  "CheckBlobTypes [] = Inr []"
| "CheckBlobTypes ((h, t) # ts) =
     then_res (refuse (\<not> ValidHash h) (EInvalid ''not a hash''))
       (bind_res (BlobMediaType t) (\<lambda>mt. bind_res (CheckBlobTypes ts) (\<lambda>rest.
          Inr (if mt = [] then rest else (h, mt) # rest))))"

definition types_of :: "mem_store \<Rightarrow> string \<Rightarrow> (string \<times> string) list" where
  "types_of m session = (case map_of (ms_blobTypes m) session of None \<Rightarrow> [] | Some ts \<Rightarrow> ts)"

definition SetSessionBlobTypes :: "ctx \<Rightarrow> string \<Rightarrow> (string \<times> string) list \<Rightarrow> mem_store \<Rightarrow> mem_store \<times> unit res" where
  "SetSessionBlobTypes cx session types m =
     (case then_res (ctx_check cx) (CheckBlobTypes types) of
        Inl x \<Rightarrow> (m, Inl x)
      | Inr new \<Rightarrow>
          if map_of (ms_sessions m) session = None then (m, Inl ENoSession)
          else (m\<lparr>ms_blobTypes := AList.update session
                    (fold (\<lambda>(h, t) held. if map_of held h = None then held @ [(h, t)] else held) new (types_of m session))
                    (ms_blobTypes m)\<rparr>, Inr ()))"

definition SessionBlobTypes :: "ctx \<Rightarrow> string \<Rightarrow> mem_store \<Rightarrow> ((string \<times> string) list) res" where
  "SessionBlobTypes cx session m =
     then_res (ctx_check cx)
       (if map_of (ms_sessions m) session = None then Inl ENoSession else Inr (types_of m session))"

definition SessionBlob :: "ctx \<Rightarrow> string \<Rightarrow> string \<Rightarrow> mem_store \<Rightarrow> (string \<times> string) res" where
  "SessionBlob cx session hash m =
     bind_res (TypedBlob cx hash m) (\<lambda>(data, mt).
       Inr (data, case map_of (types_of m session) hash of Some t \<Rightarrow> t | None \<Rightarrow> mt))"

end
