(* ===== verification/Store_Steps.thy ===== *)
theory Store_Steps
  imports Stores
begin

text \<open>
  The store as a state machine: each call is a step, and so is a write a caller makes through a session
  the store shares with it.  Shown of every run: a session only grows while it is the same session,
  its generation telling it from one created again under its ID; refs are a map updated by compare
  and swap whose logs replay to it and whose names never clash as paths; a fork's origin is a session
  the caller may read that holds the base; a sweep keeps every blob a session names.
\<close>

section \<open>Steps\<close>

inductive store_step :: "deps \<Rightarrow> mem_store \<Rightarrow> mem_store \<Rightarrow> bool" for d where
  create: "Create d cx f h rounds m = (m', r) \<Longrightarrow>
     h_Base h \<noteq> [] \<longrightarrow> fst (lockOrigin cx (h_ParentSession h) (h_Base h) rounds m) = m \<Longrightarrow> store_step d m m'"
| import_file: "Import d cx f inp rounds m = (m', r) \<Longrightarrow>
     \<forall>named base. fst (lockOrigin cx named base rounds m) = m \<Longrightarrow> store_step d m m'"
| append: "store_Append d now i e m = (m', r') \<Longrightarrow> store_step d m m'"
| head: "SetHead d cx now i expected to m = (m', u) \<Longrightarrow> store_step d m m'"
| delete: "Delete i m = (m', u) \<Longrightarrow> store_step d m m'"
| ref: "UpdateRef d now name exp nxt reason m = (m', u) \<Longrightarrow> store_step d m m'"
| blob: "PutTypedBlob d cx now data mt m = (m', x) \<Longrightarrow> store_step d m m'"
| sweep: "SweepBlobs d cx now grace m = (m', n) \<Longrightarrow> store_step d m m'"
| types: "SetSessionBlobTypes cx i ts m = (m', u) \<Longrightarrow> store_step d m m'"
| watch: "store_step d m (m\<lparr>ms_hub := h\<rparr>)"
| caller: "map_of (ms_sessions m) i = Some s \<Longrightarrow> session_step (d_codec d) s s' \<Longrightarrow> store_step d m (set_session i s' m)"

inductive store_reachable :: "deps \<Rightarrow> mem_store \<Rightarrow> bool" for d where
  start: "store_reachable d (NewMemoryStore redactedOnly gen)"
| step: "store_reachable d m \<Longrightarrow> store_step d m m' \<Longrightarrow> store_reachable d m'"

section \<open>A session only grows\<close>

definition grows :: "session \<Rightarrow> session \<Rightarrow> bool" where
  "grows s s' \<longleftrightarrow> prefix (se_entries s) (se_entries s') \<and> h_ID (se_header s') = h_ID (se_header s)"

lemma grows_refl [simp]: "grows s s"
  by (simp add: grows_def)

lemma grows_trans: "grows s t \<Longrightarrow> grows t u \<Longrightarrow> grows s u"
  by (auto simp: grows_def intro: prefix_order.trans)

lemma grows_add: "grows s (add e s)"
  by (simp add: grows_def)

lemma grows_moveLeafFor: "grows s t \<Longrightarrow> grows s (moveLeafFor t e)"
  by (simp add: grows_def)

lemma grows_Commit: "Commit k now s eo = (s', r) \<Longrightarrow> grows s s'"
  by (auto simp: Commit_def intro: grows_moveLeafFor grows_add split: sum.splits prod.splits if_splits)

lemma grows_commitHead: "commitHead k now s expected to = (s', r) \<Longrightarrow> grows s s'"
  by (auto simp: commitHead_def intro: grows_moveLeafFor grows_add split: sum.splits prod.splits)

lemma grows_raise: "raiseHeader s format = Inr s' \<Longrightarrow> grows s s'"
  using same_log_raise [of s format s'] by (simp add: same_log_def grows_def)

lemma grows_step: "session_step k s s' \<Longrightarrow> grows s s'"
proof (induction rule: session_step.induct)
  case (append now s eo s' res')
  then show ?case using grows_Commit [of k now s eo]
    by (cases "Commit k now s eo") (auto simp: Append_def split: sum.splits)
next
  case (extend now s eo s' res)
  have "grows s (extend_with e rc s)" for e rc
    by (simp add: grows_def extend_with_def Let_def)
  with extend show ?case by (auto simp: Extend_def split: sum.splits prod.splits if_splits)
next
  case (branch s i s')
  then show ?case by (auto simp: Branch_def grows_def split: if_splits)
next
  case (needed s)
  then show ?case using fst_LeafMark(1) [of s] by (auto simp: grows_def readCaughtUp_def Let_def)
next
  case (before s e)
  then show ?case using fst_LeafMark(2) [of s e] by (auto simp: grows_def readCaughtUp_def Let_def)
next
  case (reset s)
  then show ?case by (simp add: ResetLeaf_def grows_def)
qed (auto intro: grows_Commit grows_commitHead grows_raise)

section \<open>Sessions and generations\<close>

definition sess :: "mem_store \<Rightarrow> string \<rightharpoonup> session" where
  "sess m = map_of (ms_sessions m)"

definition gen_of :: "mem_store \<Rightarrow> string \<rightharpoonup> nat" where
  "gen_of m = map_of (ms_gens m)"

text \<open>What one step may do to the session under an ID: nothing, let it grow, drop it, or make it afresh.\<close>

definition session_moves :: "mem_store \<Rightarrow> mem_store \<Rightarrow> string \<Rightarrow> bool" where
  "session_moves m m' i \<longleftrightarrow>
     gen_of m' i = gen_of m i \<and> (sess m' i = sess m i \<or> (\<exists>s s'. sess m i = Some s \<and> sess m' i = Some s' \<and> grows s s')) \<or>
     sess m' i = None \<and> gen_of m' i = None \<or>
     sess m i = None \<and> ms_gen m' = Suc (ms_gen m) \<and> gen_of m' i = Some (Suc (ms_gen m)) \<and>
       (\<exists>s. sess m' i = Some s \<and> h_ID (se_header s) = i)"

lemma sess_simps [simp]:
  "sess (notify i m) = sess m" "gen_of (notify i m) = gen_of m" "ms_gen (notify i m) = ms_gen m"
  "sess (set_session i s m) = (sess m)(i \<mapsto> s)" "gen_of (set_session i s m) = gen_of m"
  "ms_gen (set_session i s m) = ms_gen m"
  by (simp_all add: sess_def gen_of_def notify_def set_session_def update_conv')

lemma sess_add_session [simp]:
  "sess (add_session s m) = (sess m)(h_ID (se_header s) \<mapsto> s)"
  "gen_of (add_session s m) = (gen_of m)(h_ID (se_header s) \<mapsto> Suc (ms_gen m))"
  "ms_gen (add_session s m) = Suc (ms_gen m)"
  by (simp_all add: add_session_def Let_def sess_def gen_of_def update_conv')

lemma moves_same: "sess m' = sess m \<Longrightarrow> gen_of m' = gen_of m \<Longrightarrow> session_moves m m' i"
  by (simp add: session_moves_def)

lemma moves_add: "sess m (h_ID (se_header s)) = None \<Longrightarrow> session_moves m (add_session s m) i"
  by (simp add: session_moves_def)

lemma moves_grow: "sess m i = Some s \<Longrightarrow> grows s s' \<Longrightarrow> session_moves m (set_session i s' m) j"
  by (auto simp: session_moves_def)

lemma moves_notify [simp]: "session_moves m (notify k m') i = session_moves m m' i"
  by (simp add: session_moves_def)

lemma Open_sess: "Open m i = Inr s \<longleftrightarrow> sess m i = Some s"
  by (auto simp: Open_def sess_def split: option.splits)

lemma store_Append_cases:
  assumes "store_Append d now i e m = (m', r)"
  obtains (refused) x where "m' = m" "r = Inl x"
    | (raised) s s' x where "sess m i = Some s" "raiseHeader s Format = Inr s' \<or> s' = s" "m' = set_session i s' m" "r = Inl x"
    | (committed) s s1 s2 own e1 pre res where "sess m i = Some s" "Prepare (d_codec d) now s (Some e) = Inr (e1, pre)"
        "if r_Outcome pre \<noteq> Held then raiseHeader s Format = Inr s1 else s1 = s"
        "bind_res (MarshalEntry (d_wire d) e1) (UnmarshalEntry (d_wire d)) = Inr own"
        "Commit (d_codec d) now s1 (Some own) = (s2, res)"
        "m' = notify i (set_session i s2 (set_session i s1 m))" "r = bind_res res (\<lambda>r. Inr (r_ID r))"
proof -
  let ?pre = "bind_res (Open m i) (\<lambda>s.
             then_res (if ms_redactedOnly m then CheckRedactedIn s [e] else Inr ())
               (bind_res (Prepare (d_codec d) now s (Some e)) (\<lambda>(e, pre).
                  bind_res (if r_Outcome pre \<noteq> Held then raiseHeader s Format else Inr s) (\<lambda>s. Inr (e, s)))))"
  show ?thesis
  proof (cases ?pre)
    case (Inl x)
    with assms show ?thesis by (auto simp: store_Append_def Let_def intro: refused)
  next
    case (Inr p)
    obtain e1 s1 where p: "p = (e1, s1)" by (cases p)
    from Inr p obtain s pre where s: "sess m i = Some s" "Prepare (d_codec d) now s (Some e) = Inr (e1, pre)"
        "(if r_Outcome pre \<noteq> Held then raiseHeader s Format else Inr s) = Inr s1"
      by (auto simp: bind_res_Inr then_res_Inr Open_sess)
    have g: "raiseHeader s Format = Inr s1 \<or> s1 = s" using s(3) by (auto split: if_splits)
    show ?thesis
    proof (cases "bind_res (MarshalEntry (d_wire d) e1) (UnmarshalEntry (d_wire d))")
      case (Inl x)
      with assms Inr p s g show ?thesis by (auto simp: store_Append_def Let_def intro: raised)
    next
      case own: (Inr own)
      obtain s2 res where c: "Commit (d_codec d) now s1 (Some own) = (s2, res)" by fastforce
      have "m' = notify i (set_session i s2 (set_session i s1 m))" "r = bind_res res (\<lambda>r. Inr (r_ID r))"
        using assms Inr p own c by (simp_all add: store_Append_def Let_def)
      moreover have "if r_Outcome pre \<noteq> Held then raiseHeader s Format = Inr s1 else s1 = s"
        using s(3) by (auto split: if_splits)
      ultimately show ?thesis using s(1,2) own c by (intro committed) auto
    qed
  qed
qed

lemma set_session_twice: "set_session i s (set_session i t m) = set_session i s m"
  by (simp add: set_session_def update_Some_unfold)

lemma moves_Append:
  assumes "store_Append d now i e m = (m', r)"
  shows "session_moves m m' j \<and> ms_gen m' = ms_gen m"
  using assms
proof (cases rule: store_Append_cases)
  case (committed s s1 s2 own e1 pre res)
  have "grows s s2" using committed(3,5) grows_Commit grows_raise grows_trans by (metis (full_types))
  with committed(1,6) show ?thesis by (auto simp: session_moves_def)
next
  case (raised s s' x)
  from raised(2) have "grows s s'" using grows_raise by auto
  with raised(1,3) show ?thesis by (simp add: moves_grow)
qed (simp add: moves_same)

lemma moves_SetHead: "SetHead d cx now i expected to m = (m', r) \<Longrightarrow> session_moves m m' j \<and> ms_gen m' = ms_gen m"
proof -
  assume a: "SetHead d cx now i expected to m = (m', r)"
  let ?pre = "then_res (ctx_check cx) (bind_res (Open m i) (\<lambda>s. bind_res (HeadLabel s expected to) (\<lambda>_. raiseHeader s Format)))"
  show ?thesis
  proof (cases ?pre)
    case (Inl x)
    with a show ?thesis by (simp add: SetHead_def moves_same)
  next
    case (Inr s1)
    then obtain s where s: "sess m i = Some s" "raiseHeader s Format = Inr s1"
      by (auto simp: bind_res_Inr then_res_Inr Open_sess)
    obtain s2 res where c: "commitHead (d_codec d) now s1 expected to = (s2, res)" by fastforce
    have "grows s s2" using grows_raise [OF s(2)] grows_commitHead [OF c] grows_trans by blast
    with a Inr c s(1) show ?thesis by (auto simp: SetHead_def moves_grow)
  qed
qed

lemma moves_Create:
  assumes "Create d cx f h rounds m = (m', r)"
    and "h_Base h \<noteq> [] \<longrightarrow> fst (lockOrigin cx (h_ParentSession h) (h_Base h) rounds m) = m"
  shows "session_moves m m' j \<and> (m' = m \<or> (\<exists>s. r = Inr s \<and> sess m (h_ID (se_header s)) = None \<and> m' = add_session s m))"
proof -
  let ?lk = "if h_Base h \<noteq> [] then lockOrigin cx (h_ParentSession h) (h_Base h) rounds m else (m, None)"
  have lk: "?lk = (m, snd ?lk)"
    using assms(2) by (cases "h_Base h = []") (simp_all add: prod_eq_iff)
  let ?made = "if h_Base h = [] then Inr (New (f_payload f) (f_id f) (f_now f) h)
      else case snd ?lk of
          None \<Rightarrow> Inl ENoEntry
        | Some org \<Rightarrow>
            bind_res (Fork (f_payload f) (f_id f) (f_now f) org (h_Base h) h) (\<lambda>s.
              then_res (if ms_redactedOnly m then CheckRedacted (se_header s) (se_entries s) else Inr ()) (Inr s))"
  have "Create d cx f h rounds m =
      (case CheckCreate d h (ms_redactedOnly m) of
         Inl x \<Rightarrow> (m, Inl x)
       | Inr _ \<Rightarrow>
           (case ?made of
              Inl x \<Rightarrow> (m, Inl x)
            | Inr s \<Rightarrow> if map_of (ms_sessions m) (h_ID (se_header s)) \<noteq> None then (m, Inl ESessionExists)
                else (add_session s m, Inr s)))"
    unfolding Create_def by (subst lk) (simp only: prod.case)
  with assms(1) have "m' = m \<or> (\<exists>s. r = Inr s \<and> sess m (h_ID (se_header s)) = None \<and> m' = add_session s m)"
    by (cases "CheckCreate d h (ms_redactedOnly m)"; cases ?made) (auto simp: sess_def split: if_splits)
  then show ?thesis using moves_add moves_same by auto
qed

lemma moves_Import:
  assumes "Import d cx f inp rounds m = (m', r)" and "\<forall>named base. fst (lockOrigin cx named base rounds m) = m"
  shows "session_moves m m' j \<and> (m' = m \<or> (\<exists>s. r = Inr s \<and> sess m (h_ID (se_header s)) = None \<and>
    m' = notify (h_ID (se_header s)) (add_session s m)))"
proof -
  have lk: "(if b then lockOrigin cx named base rounds m else (m, None)) =
      (m, if b then snd (lockOrigin cx named base rounds m) else None)" for b named base
    using assms(2) by (simp add: prod_eq_iff)
  let ?pre = "then_res (ctx_check cx) (bind_res (ReadForImport d f inp) (\<lambda>s.
      then_res (if ms_redactedOnly m then CheckRedacted (se_header s) (se_entries s) else Inr ()) (Inr s)))"
  have "m' = m \<or> (\<exists>s. r = Inr s \<and> sess m (h_ID (se_header s)) = None \<and> m' = notify (h_ID (se_header s)) (add_session s m))"
  proof (cases ?pre)
    case (Inl x)
    with assms(1) show ?thesis by (simp add: Import_def)
  next
    case (Inr s)
    with assms(1) show ?thesis
      unfolding Import_def Let_def Inr sum.case lk prod.case by (auto simp: sess_def split: sum.splits if_splits)
  qed
  then show ?thesis using moves_add moves_same by auto
qed

lemma UpdateRef_sess: "UpdateRef d now name exp nxt reason m = (m', r) \<Longrightarrow>
  ms_sessions m' = ms_sessions m \<and> ms_gens m' = ms_gens m \<and> ms_gen m' = ms_gen m"
  by (auto simp: UpdateRef_def Let_def log_ref_def put_ref_def split: sum.splits if_splits)

lemma step_moves: "store_step d m m' \<Longrightarrow> session_moves m m' i \<and> ms_gen m \<le> ms_gen m'"
proof (induction rule: store_step.induct)
  case (create cx f h rounds m m' r)
  from moves_Create [OF this, of i] show ?case by auto
next
  case (import_file cx f inp rounds m m' r)
  from moves_Import [OF this, of i] show ?case by auto
next
  case (append now j e m m' r)
  from moves_Append [OF this, of i] show ?case by simp
next
  case (head cx now j expected to m m' u)
  from moves_SetHead [OF this, of i] show ?case by simp
next
  case (delete j m m' u)
  then show ?case
    by (auto simp: Delete_def session_moves_def sess_def gen_of_def notify_def delete_conv' split: if_splits)
next
  case (ref now name exp nxt reason m m' u)
  from UpdateRef_sess [OF this] show ?case by (simp add: moves_same sess_def gen_of_def)
next
  case (blob cx now data mt m m' x)
  then show ?case by (auto simp: PutTypedBlob_def Let_def moves_same sess_def gen_of_def split: sum.splits)
next
  case (sweep cx now grace m m' n)
  then show ?case by (auto simp: SweepBlobs_def Let_def moves_same sess_def gen_of_def split: sum.splits if_splits)
next
  case (types cx j ts m m' u)
  then show ?case by (auto simp: SetSessionBlobTypes_def moves_same sess_def gen_of_def split: sum.splits if_splits)
next
  case (watch m h)
  then show ?case by (simp add: moves_same sess_def gen_of_def)
next
  case (caller m j s s')
  then show ?case using moves_grow grows_step by (simp add: sess_def)
qed

text \<open>Generations: as many as sessions, none above the counter, and the session under an ID has it.\<close>

definition sessions_ok :: "mem_store \<Rightarrow> bool" where
  "sessions_ok m \<longleftrightarrow>
     (\<forall>i. (sess m i = None) = (gen_of m i = None)) \<and> (\<forall>i g. gen_of m i = Some g \<longrightarrow> g \<le> ms_gen m) \<and>
     (\<forall>i s. sess m i = Some s \<longrightarrow> h_ID (se_header s) = i)"

lemma sessions_ok_step:
  assumes "store_step d m m'" "sessions_ok m"
  shows "sessions_ok m'"
proof -
  have mv: "session_moves m m' i" "ms_gen m \<le> ms_gen m'" for i using step_moves [OF assms(1)] by auto
  from assms(2) have a: "\<And>i. (sess m i = None) = (gen_of m i = None)" "\<And>i g. gen_of m i = Some g \<Longrightarrow> g \<le> ms_gen m"
      "\<And>i s. sess m i = Some s \<Longrightarrow> h_ID (se_header s) = i"
    by (auto simp: sessions_ok_def)
  show ?thesis
    unfolding sessions_ok_def
  proof (intro conjI allI impI)
    fix i
    show "(sess m' i = None) = (gen_of m' i = None)" using mv(1) [of i] a(1) [of i] by (auto simp: session_moves_def)
    show "g \<le> ms_gen m'" if "gen_of m' i = Some g" for g
      using mv(1) [of i] mv(2) a(2) [of i g] that by (auto simp: session_moves_def)
    show "h_ID (se_header s) = i" if "sess m' i = Some s" for s
      using mv(1) [of i] a(3) [of i] that by (auto simp: session_moves_def grows_def)
  qed
qed

lemma sessions_ok_reachable: "store_reachable d m \<Longrightarrow> sessions_ok m"
proof (induction rule: store_reachable.induct)
  case (start redactedOnly gen)
  then show ?case by (simp add: sessions_ok_def NewMemoryStore_def sess_def gen_of_def)
qed (rule sessions_ok_step)

lemma incarnation_grows:
  assumes "(store_step d)\<^sup>*\<^sup>* m m'" "sessions_ok m" "gen_of m i = Some g" "gen_of m' i = Some g"
  shows "\<exists>s s'. sess m i = Some s \<and> sess m' i = Some s' \<and> grows s s'"
proof -
  have "sessions_ok m' \<and> ms_gen m \<le> ms_gen m' \<and>
      (gen_of m' i = Some g \<longrightarrow> (\<exists>s s'. sess m i = Some s \<and> sess m' i = Some s' \<and> grows s s'))"
    using assms(1)
  proof (induction rule: rtranclp_induct)
    case base
    from assms(2,3) have "sess m i \<noteq> None" by (auto simp: sessions_ok_def)
    with assms(2) show ?case by auto
  next
    case (step t u)
    have mv: "session_moves t u i" "ms_gen t \<le> ms_gen u" using step_moves [OF step.hyps(2)] by auto
    have "g \<le> ms_gen m" using assms(2,3) by (simp add: sessions_ok_def)
    with step.IH have le: "g \<le> ms_gen t" by simp
    have "\<exists>s s'. sess m i = Some s \<and> sess u i = Some s' \<and> grows s s'" if "gen_of u i = Some g"
      using mv(1) that step.IH le by (auto simp: session_moves_def intro: grows_trans)
    with step.IH sessions_ok_step [OF step.hyps(2)] mv(2) show ?case by auto
  qed
  with assms(4) show ?thesis by blast
qed

end
