(* ===== verification/Store_Refs.thy ===== *)
theory Store_Refs
  imports Store_Steps
begin

text \<open>
  Refs of the store against their specification: a map from names to targets changed by compare and
  swap, whose log replays to it, under names that stay apart as paths of a file system that folds case.
\<close>

section \<open>The map and the log\<close>

text \<open>The updates of a log, each from where the one before left the ref.\<close>

fun log_chain :: "ref_target \<Rightarrow> ref_update list \<Rightarrow> ref_target \<Rightarrow> bool" where
  "log_chain t [] t' \<longleftrightarrow> t = t'"
| "log_chain t (u # us) t' \<longleftrightarrow> ru_Old u = t \<and> ru_New u \<noteq> t \<and> log_chain (ru_New u) us t'"

lemma log_chain_snoc [simp]:
  "log_chain t (us @ [u]) t' \<longleftrightarrow> log_chain t us (ru_Old u) \<and> ru_New u \<noteq> ru_Old u \<and> t' = ru_New u"
  by (induction us arbitrary: t) auto

lemma ref_now_put: "ref_now (put_ref name next ident m) = (ref_now m)(name := next)"
  by (auto simp: ref_now_def put_ref_def fun_eq_iff update_conv' delete_conv' IsZero_def)

lemma log_of_log_ref: "log_of (log_ref u m) = (log_of m)(ru_Name u := log_of m (ru_Name u) @ [u])"
  by (auto simp: log_of_def log_ref_def fun_eq_iff update_conv' split: option.splits)

lemma ref_simps [simp]:
  "ref_now (log_ref u m) = ref_now m" "log_of (put_ref name next ident m) = log_of m"
  "ms_refs (log_ref u m) = ms_refs m" "ms_idents (log_ref u m) = ms_idents m"
  by (auto simp: ref_now_def log_ref_def log_of_def put_ref_def fun_eq_iff)

lemma UpdateRef_cases:
  assumes "UpdateRef d now name exp nxt reason m = (m', r)"
  obtains (refused) x where "m' = m" "r = Inl x"
    | (kept) "m' = m" "r = Inr ()" "ref_now m name = exp" "nxt = exp" "ValidRefName name = Inr ()"
    | (moved) ident where "r = Inr ()" "ref_now m name = exp" "nxt \<noteq> exp" "ValidRefName name = Inr ()"
        "target_held nxt m = Inr ()" "IsZero exp \<longrightarrow> RefConflict name (map fst (ms_refs m)) = Inr ()"
        "m' = log_ref \<lparr>ru_Name = name, ru_Old = exp, ru_New = nxt, ru_Time = now, ru_Reason = reason\<rparr> (put_ref name nxt ident m)"
proof (cases "ValidRefName name")
  case (Inl x)
  with assms have "m' = m" "r = Inl x" by (simp_all add: UpdateRef_def)
  then show ?thesis by (rule refused)
next
  case v: (Inr u)
  show ?thesis
  proof (cases "ref_now m name = exp")
    case False
    with assms v have "m' = m" "r = Inl (ERefMoved (rt_Session (ref_now m name)) (rt_Entry (ref_now m name)))"
      by (auto simp: UpdateRef_def Let_def)
    then show ?thesis by (rule refused)
  next
    case cur: True
    let ?id = "then_res (target_held nxt m)
        (if IsZero nxt then Inr [] else d_ident d (se_header (the (map_of (ms_sessions m) (rt_Session nxt)))))"
    show ?thesis
    proof (cases ?id)
      case (Inl x)
      with assms v cur have "m' = m" "r = Inl x" by (simp_all add: UpdateRef_def Let_def)
      then show ?thesis by (rule refused)
    next
      case (Inr ident)
      then have held: "target_held nxt m = Inr ()" by (simp add: then_res_Inr)
      show ?thesis
      proof (cases "exp = nxt")
        case True
        with assms v cur Inr have "m' = m" "r = Inr () \<or> (\<exists>x. r = Inl x)"
          by (auto simp: UpdateRef_def Let_def split: if_splits)
        with True cur v show ?thesis by (auto intro: refused kept)
      next
        case False
        let ?c = "if IsZero exp then RefConflict name (map fst (ms_refs m)) else Inr ()"
        show ?thesis
        proof (cases ?c)
          case (Inl x)
          with assms v cur False \<open>?id = Inr ident\<close> have "m' = m" "r = Inl x" by (simp_all add: UpdateRef_def Let_def)
          then show ?thesis by (rule refused)
        next
          case c: (Inr y)
          with assms v cur False \<open>?id = Inr ident\<close> have "r = Inr ()"
              "m' = log_ref \<lparr>ru_Name = name, ru_Old = exp, ru_New = nxt, ru_Time = now, ru_Reason = reason\<rparr> (put_ref name nxt ident m)"
            by (simp_all add: UpdateRef_def Let_def)
          with c v cur False held show ?thesis by (intro moved) (auto split: if_splits)
        qed
      qed
    qed
  qed
qed

section \<open>Names\<close>

definition paths_apart :: "string \<Rightarrow> string \<Rightarrow> bool" where
  "paths_apart a b \<longleftrightarrow> apart (split_on (CHR ''/'') a) (split_on (CHR ''/'') b)"

lemma paths_apart_sym: "paths_apart a b = paths_apart b a"
  unfolding paths_apart_def by (rule apart_sym)

lemma RefConflict_paths:
  "RefConflict name existing = Inr () \<longleftrightarrow> (\<forall>other\<in>set existing. other = name \<or> paths_apart name other)"
  unfolding paths_apart_def by (rule RefConflict_iff)

definition names_ok :: "(string \<times> ref_target) list \<Rightarrow> bool" where
  "names_ok refs \<longleftrightarrow>
     distinct (map fst refs) \<and> (\<forall>(n, t)\<in>set refs. ValidRefName n = Inr () \<and> \<not> IsZero t) \<and>
     (\<forall>a\<in>fst ` set refs. \<forall>b\<in>fst ` set refs. a \<noteq> b \<longrightarrow> paths_apart a b)"

lemma names_ok_apart:
  assumes "names_ok refs" "a \<in> fst ` set refs" "b \<in> fst ` set refs" "a \<noteq> b"
  shows "paths_apart a b"
proof -
  from assms(1) have "\<forall>a\<in>fst ` set refs. \<forall>b\<in>fst ` set refs. a \<noteq> b \<longrightarrow> paths_apart a b" unfolding names_ok_def by (elim conjE)
  from bspec [OF bspec [OF this assms(2)] assms(3)] assms(4) show ?thesis by (rule mp)
qed

lemma names_okI:
  assumes "distinct (map fst refs)" "\<And>n t. (n, t) \<in> set refs \<Longrightarrow> ValidRefName n = Inr () \<and> \<not> IsZero t"
    and "\<And>a b. a \<in> fst ` set refs \<Longrightarrow> b \<in> fst ` set refs \<Longrightarrow> a \<noteq> b \<Longrightarrow> paths_apart a b"
  shows "names_ok refs"
  unfolding names_ok_def using assms by (intro conjI ballI impI) (simp, clarify, simp)

lemma names_okD: "names_ok refs \<Longrightarrow> (n, t) \<in> set refs \<Longrightarrow> ValidRefName n = Inr () \<and> \<not> IsZero t"
  unfolding names_ok_def by (elim conjE) (drule (1) bspec, simp)

lemma names_ok_delete:
  assumes "names_ok refs"
  shows "names_ok (AList.delete n refs)"
proof (rule names_okI)
  show "distinct (map fst (AList.delete n refs))"
    using assms by (simp add: names_ok_def AList.delete_eq distinct_map_filter)
  show "ValidRefName x = Inr () \<and> \<not> IsZero y" if "(x, y) \<in> set (AList.delete n refs)" for x y
    using that names_okD [OF assms, of x y] by (simp add: AList.delete_eq)
  show "paths_apart a b" if "a \<in> fst ` set (AList.delete n refs)" "b \<in> fst ` set (AList.delete n refs)" "a \<noteq> b" for a b
    using that names_ok_apart [OF assms, of a b] by (auto simp: AList.delete_eq)
qed

lemma names_ok_update:
  assumes ok: "names_ok refs" and v: "ValidRefName n = Inr ()" and z: "\<not> IsZero t"
    and c: "n \<notin> fst ` set refs \<longrightarrow> RefConflict n (map fst refs) = Inr ()"
  shows "names_ok (AList.update n t refs)"
proof (rule names_okI)
  show "distinct (map fst (AList.update n t refs))" using ok by (simp add: names_ok_def distinct_update)
  have sub: "set (AList.update n t refs) \<subseteq> insert (n, t) (set refs)"
    by (induction refs) (auto split: if_splits)
  show "ValidRefName x = Inr () \<and> \<not> IsZero y" if "(x, y) \<in> set (AList.update n t refs)" for x y
    using subsetD [OF sub that] v z names_okD [OF ok, of x y] by auto
  have ap: "paths_apart n b" if "b \<in> fst ` set refs" "b \<noteq> n" for b
  proof (cases "n \<in> fst ` set refs")
    case True
    from names_ok_apart [OF ok True that(1)] that(2) show ?thesis by simp
  next
    case False
    with c that show ?thesis by (auto simp: RefConflict_paths)
  qed
  show "paths_apart a b" if ab: "a \<in> fst ` set (AList.update n t refs)" "b \<in> fst ` set (AList.update n t refs)" "a \<noteq> b" for a b
  proof -
    from ab consider "a = n" "b \<in> fst ` set refs" | "b = n" "a \<in> fst ` set refs" | "a \<in> fst ` set refs" "b \<in> fst ` set refs"
      unfolding dom_update by (cases "a = n"; cases "b = n") simp_all
    then show ?thesis
    proof cases
      case 1
      with ab(3) ap [of b] show ?thesis by simp
    next
      case 2
      with ab(3) ap [of a] show ?thesis by (simp add: paths_apart_sym [of a])
    next
      case 3
      from names_ok_apart [OF ok 3 ab(3)] show ?thesis .
    qed
  qed
qed

lemma ref_now_zero: "names_ok (ms_refs m) \<Longrightarrow> IsZero (ref_now m name) \<longleftrightarrow> name \<notin> fst ` set (ms_refs m)"
proof (cases "map_of (ms_refs m) name")
  case None
  then have "ref_now m name = no_target" by (simp add: ref_now_def)
  with None show ?thesis by (simp add: IsZero_def map_of_eq_None_iff)
next
  case (Some t)
  assume "names_ok (ms_refs m)"
  with map_of_SomeD [OF Some] have "\<not> IsZero t" "name \<in> fst ` set (ms_refs m)"
    by (auto simp: names_ok_def intro: image_eqI [of _ _ "(name, t)"])
  with Some show ?thesis by (simp add: ref_now_def)
qed

section \<open>Every run\<close>

definition refs_inv :: "mem_store \<Rightarrow> bool" where
  "refs_inv m \<longleftrightarrow> names_ok (ms_refs m) \<and> (\<forall>name. log_chain no_target (log_of m name) (ref_now m name))"

lemma refs_inv_cong: "ms_refs m' = ms_refs m \<Longrightarrow> ms_logs m' = ms_logs m \<Longrightarrow> refs_inv m' = refs_inv m"
  by (simp add: refs_inv_def log_of_def ref_now_def)

lemma refs_inv_UpdateRef:
  assumes u: "UpdateRef d now name exp nxt reason m = (m', r)" and inv: "refs_inv m"
  shows "refs_inv m'"
  using u
proof (cases rule: UpdateRef_cases)
  case (moved ident)
  let ?p = "put_ref name nxt ident m"
  from inv have ok: "names_ok (ms_refs m)" and lg: "\<And>n. log_chain no_target (log_of m n) (ref_now m n)"
    by (auto simp: refs_inv_def)
  have "names_ok (ms_refs ?p)"
  proof (cases "IsZero nxt")
    case True
    with ok show ?thesis by (simp add: put_ref_def names_ok_delete)
  next
    case False
    with names_ok_update [OF ok moved(4) False] moved(2,6) ref_now_zero [OF ok, of name] show ?thesis
      by (simp add: put_ref_def)
  qed
  moreover have "log_chain no_target (log_of m' n) (ref_now m' n)" for n
    using lg [of n] moved(2,3) by (cases "n = name") (simp_all add: moved(7) log_of_log_ref ref_now_put)
  ultimately show ?thesis by (simp add: refs_inv_def moved(7))
qed (use inv in simp_all)

lemma step_refs:
  assumes "store_step d m m'"
  shows "ms_refs m' = ms_refs m \<and> ms_logs m' = ms_logs m \<or> (\<exists>now name exp nxt reason r. UpdateRef d now name exp nxt reason m = (m', r))"
  using assms
proof cases
  case (create cx f h rounds r)
  from moves_Create [OF this, of "[]"] show ?thesis by (auto simp: add_session_def Let_def)
next
  case (import_file cx f inp rounds r)
  from moves_Import [OF this, of "[]"] show ?thesis by (auto simp: add_session_def Let_def notify_def)
next
  case (append now i e r)
  then show ?thesis by (cases rule: store_Append_cases) (auto simp: set_session_def notify_def)
next
  case (head cx now i expected to r)
  then show ?thesis by (auto simp: SetHead_def set_session_def notify_def split: sum.splits prod.splits)
next
  case (delete i r)
  then show ?thesis by (auto simp: Delete_def notify_def split: if_splits)
next
  case (blob cx now data mt r)
  then show ?thesis by (auto simp: PutTypedBlob_def Let_def split: sum.splits)
next
  case (sweep cx now grace r)
  then show ?thesis by (auto simp: SweepBlobs_def Let_def split: sum.splits if_splits)
next
  case (types cx i ts r)
  then show ?thesis by (auto simp: SetSessionBlobTypes_def split: sum.splits if_splits)
qed (auto simp: set_session_def)

lemma refs_inv_reachable: "store_reachable d m \<Longrightarrow> refs_inv m"
proof (induction rule: store_reachable.induct)
  case (start redactedOnly gen)
  then show ?case by (simp add: refs_inv_def names_ok_def NewMemoryStore_def log_of_def ref_now_def)
next
  case (step m m')
  from step_refs [OF step.hyps(2)] step.IH refs_inv_UpdateRef refs_inv_cong show ?case by metis
qed

end
