(* ===== verification/Store_Sessions.thy ===== *)
theory Store_Sessions
  imports Store_Refs
begin

text \<open>
  The sessions a store holds are well formed, wherever they came from: made by \<open>Create\<close>, forked from
  another session of the store, read from an imported file, and grown by every call since.
\<close>

section \<open>The origin of a fork\<close>

lemma heldOrigin_Some: "heldOrigin i base m = Some s \<Longrightarrow> sess m i = Some s \<and> Entry s base \<noteq> None"
  by (auto simp: heldOrigin_def sess_def split: option.splits if_splits)

lemma pick_chain_Some: "pick_chain readable ends ids = Some i \<Longrightarrow> readable i"
  by (induction readable ends ids rule: pick_chain.induct) (auto split: if_splits)

lemma Pick_readable: "Pick c readable \<noteq> [] \<Longrightarrow> readable (Pick c readable)"
  by (auto simp: Pick_def dest: pick_chain_Some split: option.splits dest!: find_Some_iff [THEN iffD1])

lemma pickOrigin_readable: "pickOrigin cx named base m \<noteq> [] \<Longrightarrow> cx_readable cx (pickOrigin cx named base m)"
  unfolding pickOrigin_def Let_def by (cases "origin_chain 64 (map_of (ms_sessions m)) base named []") (auto dest: Pick_readable)

lemma lock_rounds_Some:
  "lock_rounds cx named base rounds m = (m', Some s) \<Longrightarrow>
   \<exists>i m0. (m0, m') \<in> set rounds \<and> i = pickOrigin cx named base m0 \<and> cx_readable cx i \<and> sess m' i = Some s \<and> Entry s base \<noteq> None"
proof (induction rounds)
  case (Cons r rounds)
  obtain m0 m1 where r: "r = (m0, m1)" by (cases r)
  show ?case
  proof (cases "pickOrigin cx named base m0 = []")
    case False
    show ?thesis
    proof (cases "heldOrigin (pickOrigin cx named base m0) base m1")
      case None
      with Cons r False show ?thesis by (auto simp: Let_def)
    next
      case (Some t)
      with Cons.prems r False have "m' = m1" "s = t" by (auto simp: Let_def)
      with heldOrigin_Some [OF Some] pickOrigin_readable [OF False] r show ?thesis by auto
    qed
  qed (use Cons.prems r in \<open>simp add: Let_def\<close>)
qed simp

lemma lockOrigin_Some:
  assumes "lockOrigin cx named base rounds m = (m', Some s)"
  shows "\<exists>i. cx_readable cx i \<and> sess m' i = Some s \<and> Entry s base \<noteq> None"
  using lock_rounds_Some [OF assms [unfolded lockOrigin_def]] by blast

section \<open>Every session of a store\<close>

definition all_core :: "deps \<Rightarrow> mem_store \<Rightarrow> bool" where
  "all_core d m \<longleftrightarrow> (\<forall>i s. sess m i = Some s \<longrightarrow> session_core (d_codec d) s)"

text \<open>No session holds an ID twice: what a head label already held would break.\<close>

definition no_repeats :: "mem_store \<Rightarrow> bool" where
  "no_repeats m \<longleftrightarrow> (\<forall>i s. sess m i = Some s \<longrightarrow> distinct (map e_id (se_entries s)))"

lemma all_core_cong: "sess m' = sess m \<Longrightarrow> all_core d m' = all_core d m"
  by (simp add: all_core_def)

lemma all_core_set: "all_core d m \<Longrightarrow> session_core (d_codec d) s \<Longrightarrow> all_core d (set_session i s m)"
  by (auto simp: all_core_def)

lemma all_core_add: "all_core d m \<Longrightarrow> session_core (d_codec d) s \<Longrightarrow> all_core d (add_session s m)"
  by (auto simp: all_core_def)

lemma all_core_notify [simp]: "all_core d (notify i m) = all_core d m"
  by (rule all_core_cong) simp

lemma session_core_New [simp]: "codec_ok k \<Longrightarrow> session_core k (New payload newID now h)"
  using session_inv_New [of k payload newID now h] by (simp add: session_inv_core)

lemma session_core_Read:
  assumes "codec_ok k" "wire_hashes w" "Read k w f inp = Inr s"
  shows "session_core k s"
proof -
  obtain s0 rule where b: "building s0 rule" "read_finish s0 = Inr s" using Read_building [OF assms] by blast
  note fin = read_finish_ok [OF b]
  from fin(2) have "base_held s" by (auto simp: base_shape_def base_held_def held_def split: if_splits)
  with assms(1) fin(1,6) show ?thesis by (simp add: session_core_def tip_held_def)
qed

lemma session_core_raise: "raiseHeader s format = Inr s' \<Longrightarrow> session_core k s \<Longrightarrow> session_core k s'"
  by (blast intro: session_core_step session_step.raise)

lemma session_core_Commit: "Commit k now s eo = (s', r) \<Longrightarrow> session_core k s \<Longrightarrow> session_core k s'"
  by (blast intro: session_core_step session_step.commit)

lemma commitHead_Inl: "commitHead k now s expected to = (s', Inl x) \<Longrightarrow> s' = s"
  by (auto simp: commitHead_def split: sum.splits prod.splits)

lemma commitHead_entries: "commitHead k now s expected to = (s', Inr e) \<Longrightarrow> se_entries s' = se_entries s @ [e]"
  by (auto simp: commitHead_def split: sum.splits prod.splits)

lemma session_core_commitHead:
  assumes c: "commitHead k now s expected to = (s', r)" and inv: "session_core k s" and d: "distinct (map e_id (se_entries s'))"
  shows "session_core k s'"
proof (cases r)
  case (Inl x)
  with c inv commitHead_Inl show ?thesis by metis
next
  case (Inr e)
  with commitHead_entries [of k now s expected to s' e] c d have "e_id e \<notin> set (map e_id (se_entries s))" by auto
  with inv have "se_byID s (e_id e) = None" by (simp add: session_core_def session_wf_def index_of_None)
  with c Inr inv show ?thesis by (blast intro: session_core_step session_step.head)
qed

section \<open>The calls\<close>

lemma all_core_Append:
  assumes a: "store_Append d now i e m = (m', r)" and inv: "all_core d m"
  shows "all_core d m'"
  using a
proof (cases rule: store_Append_cases)
  case (raised s s' x)
  from raised(1) inv have s: "session_core (d_codec d) s" by (simp add: all_core_def)
  with raised(2) session_core_raise have "session_core (d_codec d) s'" by blast
  with raised(3) inv show ?thesis by (simp add: all_core_set)
next
  case (committed s s1 s2 own e1 pre res)
  from committed(1) inv have s: "session_core (d_codec d) s" by (simp add: all_core_def)
  with committed(3) session_core_raise have "session_core (d_codec d) s1" by (auto split: if_splits)
  with session_core_Commit [OF committed(5)] have "session_core (d_codec d) s2" by blast
  with committed(6) inv show ?thesis by (simp add: all_core_set set_session_twice)
qed (use inv in simp)

lemma all_core_SetHead:
  assumes a: "SetHead d cx now i expected to m = (m', r)" and inv: "all_core d m" and nr: "no_repeats m'"
  shows "all_core d m'"
proof -
  let ?pre = "then_res (ctx_check cx) (bind_res (Open m i) (\<lambda>s. bind_res (HeadLabel s expected to) (\<lambda>_. raiseHeader s Format)))"
  show ?thesis
  proof (cases ?pre)
    case (Inl x)
    with a inv show ?thesis by (simp add: SetHead_def)
  next
    case (Inr s1)
    then obtain s where s: "sess m i = Some s" "raiseHeader s Format = Inr s1"
      by (auto simp: bind_res_Inr then_res_Inr Open_sess)
    obtain s2 res where c: "commitHead (d_codec d) now s1 expected to = (s2, res)" by fastforce
    from s inv have s1: "session_core (d_codec d) s1" by (auto simp: all_core_def intro: session_core_raise)
    have m': "m' = notify i (set_session i s2 m)" using a Inr c by (simp add: SetHead_def)
    then have "sess m' i = Some s2" by simp
    with nr have "distinct (map e_id (se_entries s2))" unfolding no_repeats_def by blast
    with session_core_commitHead [OF c s1] have "session_core (d_codec d) s2" .
    with m' inv show ?thesis by (simp add: all_core_set)
  qed
qed

lemma Create_session:
  assumes c: "Create d cx f h rounds m = (m', Inr s)" and k: "codec_ok (d_codec d)"
    and lk: "h_Base h \<noteq> [] \<longrightarrow> fst (lockOrigin cx (h_ParentSession h) (h_Base h) rounds m) = m" and inv: "all_core d m"
  shows "session_core (d_codec d) s"
proof (cases "h_Base h = []")
  case True
  with c have "s = New (f_payload f) (f_id f) (f_now f) h" by (auto simp: Create_def split: sum.splits if_splits)
  with k show ?thesis by simp
next
  case False
  obtain origin where o: "lockOrigin cx (h_ParentSession h) (h_Base h) rounds m = (m, origin)"
    using lk False by (metis prod.collapse)
  with c False obtain org where org: "origin = Some org" "Fork (f_payload f) (f_id f) (f_now f) org (h_Base h) h = Inr s"
    by (auto simp: Create_def bind_res_def then_res_def split: sum.splits if_splits option.splits)
  with lockOrigin_Some o inv have "session_core (d_codec d) org" by (fastforce simp: all_core_def)
  with org(2) show ?thesis by (rule session_core_Fork [rotated])
qed

lemma Import_session:
  assumes i: "Import d cx f inp rounds m = (m', Inr s)" and k: "codec_ok (d_codec d)" "wire_hashes (d_wire d)"
  shows "session_core (d_codec d) s"
proof -
  let ?pre = "then_res (ctx_check cx) (bind_res (ReadForImport d f inp) (\<lambda>s.
      then_res (if ms_redactedOnly m then CheckRedacted (se_header s) (se_entries s) else Inr ()) (Inr s)))"
  from i obtain s0 where p: "?pre = Inr s0" by (cases ?pre) (auto simp: Import_def)
  with i have "s0 = s" by (auto simp: Import_def Let_def split: sum.splits if_splits prod.splits)
  with p have "ReadForImport d f inp = Inr s" by (auto simp: then_res_Inr bind_res_Inr)
  then have "Read (d_codec d) (d_wire d) f inp = Inr s"
    by (auto simp: ReadForImport_def then_res_Inr bind_res_Inr split: option.splits if_splits)
  with k show ?thesis by (rule session_core_Read)
qed

lemma all_core_step:
  assumes st: "store_step d m m'" and k: "codec_ok (d_codec d)" "wire_hashes (d_wire d)" and inv: "all_core d m" and nr: "no_repeats m'"
  shows "all_core d m'"
  using st
proof cases
  case (create cx f h rounds r)
  from moves_Create [OF this, of "[]"] Create_session [of d cx f h rounds m m'] create k inv show ?thesis
    by (auto intro: all_core_add)
next
  case (import_file cx f inp rounds r)
  from moves_Import [OF this, of "[]"] Import_session [of d cx f inp rounds m m'] import_file k inv show ?thesis
    by (auto intro: all_core_add)
next
  case (append now i e r')
  with inv show ?thesis by (rule all_core_Append [rotated])
next
  case (head cx now i expected to u)
  from all_core_SetHead [OF this inv nr] show ?thesis .
next
  case (delete i u)
  with inv show ?thesis by (auto simp: Delete_def all_core_def sess_def notify_def delete_conv' split: if_splits)
next
  case (ref now name exp nxt reason u)
  from UpdateRef_sess [OF this] inv show ?thesis by (simp add: all_core_def sess_def)
next
  case (blob cx now data mt x)
  with inv show ?thesis by (auto simp: PutTypedBlob_def Let_def all_core_def sess_def split: sum.splits)
next
  case (sweep cx now grace n)
  with inv show ?thesis by (auto simp: SweepBlobs_def Let_def all_core_def sess_def split: sum.splits if_splits)
next
  case (types cx i ts u)
  with inv show ?thesis by (auto simp: SetSessionBlobTypes_def all_core_def sess_def split: sum.splits if_splits)
next
  case (watch h)
  with inv show ?thesis by (simp add: all_core_def sess_def)
next
  case (caller i s s')
  then have "session_core (d_codec d) s" using inv by (simp add: all_core_def sess_def)
  with caller session_core_step inv show ?thesis by (auto intro: all_core_set)
qed

text \<open>Runs in which no call left a session with an ID twice.\<close>

inductive repeat_free :: "deps \<Rightarrow> mem_store \<Rightarrow> bool" for d where
  start: "repeat_free d (NewMemoryStore redactedOnly gen)"
| step: "repeat_free d m \<Longrightarrow> store_step d m m' \<Longrightarrow> no_repeats m' \<Longrightarrow> repeat_free d m'"

lemma repeat_free_core:
  assumes "repeat_free d m" "codec_ok (d_codec d)" "wire_hashes (d_wire d)"
  shows "all_core d m"
  using assms(1)
proof induction
  case (start redactedOnly gen)
  then show ?case by (simp add: all_core_def NewMemoryStore_def sess_def)
next
  case (step m m')
  with all_core_step [OF step.hyps(2) assms(2,3)] show ?case by blast
qed

end
