(* ===== verification/Store_Examples.thy ===== *)
theory Store_Examples
  imports Store_Sessions File_Examples
begin

text \<open>
  A store to compute with: the codec and the wire of the other examples, an identity that is the
  session's ID, a hash of blobs that spells the bytes, and no media in any entry.
\<close>

definition ex_call :: "entry list" where
  "ex_call = take 1 ex_calls"

definition ex_w1 :: wire where
  "ex_w1 = ex_wire (se_header ex_one) (se_entries ex_one)"

definition ex_deps :: deps where
  "ex_deps = \<lparr>d_codec = ex_codec, d_wire = ex_w1, d_ident = (\<lambda>h. Inr (h_ID h)), d_HashBytes = (\<lambda>s. ''sha256:'' @ s),
     d_SidecarBlobs = (\<lambda>e. Inr (if e_parent e = [] then [''sha256:x''] else [])), d_redactedFrom = (\<lambda>_. None),
     d_true = (\<lambda>raw. raw = ''true''), d_harnessName = (\<lambda>j. j)\<rparr>"

definition ex_cx :: ctx where
  "ex_cx = \<lparr>cx_Err = None, cx_readable = (\<lambda>_. True)\<rparr>"

lemma ex_deps_simps [simp]: "d_codec ex_deps = ex_codec" "d_wire ex_deps = ex_w1"
  by (simp_all add: ex_deps_def)

text \<open>A session created and appended to at the ticks of the clock.\<close>

definition ex_made :: mem_store where
  "ex_made = fst (Create ex_deps ex_cx (ex_fresh\<lparr>f_id := ''s1'', f_now := 1\<rparr>) ex_header [] (NewMemoryStore False 7))"

fun ex_fill :: "nat \<Rightarrow> entry list \<Rightarrow> mem_store \<Rightarrow> mem_store" where
  "ex_fill t [] m = m"
| "ex_fill t (e # es) m = ex_fill (Suc t) es (fst (store_Append ex_deps t ''s1'' e m))"

definition ex_store :: mem_store where
  "ex_store = ex_fill 1 ex_call ex_made"

definition ex_target :: ref_target where
  "ex_target = \<lparr>rt_Session = ''s1'', rt_Entry = ''sha256:a''\<rparr>"

definition ex_reffed :: mem_store where
  "ex_reffed = fst (UpdateRef ex_deps 9 ''runs/main'' no_target ex_target ''start'' ex_store)"

definition ex_blobbed :: mem_store where
  "ex_blobbed = fst (PutTypedBlob ex_deps ex_cx 20 ''y'' [] (fst (PutTypedBlob ex_deps ex_cx 10 ''x'' [] ex_reffed)))"

text \<open>The values of the stores, each computed once from the one before.\<close>

lemma ex_made_value [code]:
  "ex_made = (NewMemoryStore False 8)\<lparr>ms_sessions := [(''s1'', ex_start)], ms_gens := [(''s1'', 8)]\<rparr>"
  by (rule by_value) (code_simp, rule impI, assumption)

lemma ex_store_value [code]:
  "ex_store = (NewMemoryStore False 8)\<lparr>ms_sessions := [(''s1'', ex_one)], ms_gens := [(''s1'', 8)]\<rparr>"
  by (rule by_value) (code_simp, rule impI, assumption)

lemma ex_reffed_value [code]:
  "ex_reffed = ex_store\<lparr>ms_refs := [(''runs/main'', ex_target)], ms_idents := [(''runs/main'', ''s1'')],
     ms_logs := [(''runs/main'', [\<lparr>ru_Name = ''runs/main'', ru_Old = no_target, ru_New = ex_target, ru_Time = 9,
       ru_Reason = ''start''\<rparr>])]\<rparr>"
  by (rule by_value) (code_simp, rule impI, assumption)

lemma ex_made_reachable: "store_reachable ex_deps ex_made"
proof -
  have "store_step ex_deps (NewMemoryStore False 7) ex_made"
    unfolding ex_made_def by (rule store_step.create [OF prod.collapse [symmetric]]) (simp add: ex_header_def)
  from store_reachable.step [OF store_reachable.start this] show ?thesis .
qed

lemma ex_fill_steps: "(store_step ex_deps)\<^sup>*\<^sup>* m (ex_fill t es m)"
proof (induction es arbitrary: t m)
  case (Cons e es)
  have "store_step ex_deps m (fst (store_Append ex_deps t ''s1'' e m))"
    by (rule store_step.append [OF prod.collapse [symmetric]])
  with Cons [of "fst (store_Append ex_deps t ''s1'' e m)" "Suc t"] show ?case by simp
qed simp

lemma store_reachable_steps: "(store_step d)\<^sup>*\<^sup>* m m' \<Longrightarrow> store_reachable d m \<Longrightarrow> store_reachable d m'"
  by (induction rule: rtranclp_induct) (auto intro: store_reachable.step)

lemma ex_store_reachable: "store_reachable ex_deps ex_store"
  unfolding ex_store_def by (rule store_reachable_steps [OF ex_fill_steps ex_made_reachable])

lemma ex_reffed_step: "store_step ex_deps ex_store ex_reffed"
  unfolding ex_reffed_def by (rule store_step.ref [OF prod.collapse [symmetric]])

lemma ex_reffed_reachable: "store_reachable ex_deps ex_reffed"
  by (rule store_reachable.step [OF ex_store_reachable ex_reffed_step])

lemma ex_store_ids:
  "map (\<lambda>(i, s). (i, map e_id (se_entries s))) (ms_sessions ex_store) = [(''s1'', [''sha256:a''])]"
  by code_simp

lemma ex_store_gens: "ms_gens ex_store = [(''s1'', 8)]" "ms_gens ex_made = [(''s1'', 8)]"
  by (simp_all add: ex_store_value ex_made_value)

lemma ex_reffed_refs: "ms_refs ex_reffed = [(''runs/main'', ex_target)]" "map ru_New (log_of ex_reffed ''runs/main'') = [ex_target]"
  by (simp_all add: ex_reffed_value log_of_def)

end
