(* ===== verification/Store_Properties.thy ===== *)
theory Store_Properties
  imports Store_Examples
begin

text \<open>
  What the memory store, its refs, its blobs and the broadcast its followers wait on promise, over
  every sequence of calls.
\<close>

section \<open>Waking followers\<close>

text \<open>
  C23: no wakeup is lost and none is spurious.  Whatever registrations, releases and notifications
  came before, the channel a follower took while its registration is live is closed by what follows
  exactly when one of those calls notifies its session, however many other followers of that session
  or of others come, go or are woken in between.
\<close>

theorem woken_exactly:
  assumes "s = hub_run before hub_start" and "live s n (i, p)" and "HDone n \<notin> set after"
  shows "watch_chan (hs_hub s) p \<in> hb_closed (hs_hub (hub_run after s)) \<longleftrightarrow> HNotify i \<in> set after"
  using wake_exact [OF _ assms(2,3)] hub_inv_run [OF hub_inv_start, of before] assms(1) by simp

theorem woken_exactly_witness:
  "watch_chan (hs_hub (hub_run [HWatch ''s1'', HWatch ''s2'', HNotify ''s1''] hub_start)) 0
     \<in> hb_closed (hs_hub (hub_run [HDone 1, HNotify ''s2'', HNotify ''s1''] (hub_run [HWatch ''s1'', HWatch ''s2'', HNotify ''s1''] hub_start))) \<and>
   watch_chan (hs_hub (hub_run [HWatch ''s1'', HWatch ''s2'', HNotify ''s1''] hub_start)) 0
     \<notin> hb_closed (hs_hub (hub_run [HDone 1, HNotify ''s2''] (hub_run [HWatch ''s1'', HWatch ''s2'', HNotify ''s1''] hub_start)))"
proof -
  have l: "live (hub_run [HWatch ''s1'', HWatch ''s2'', HNotify ''s1''] hub_start) 0 (''s1'', 0)" by code_simp
  show ?thesis
    using woken_exactly [OF refl l, of "[HDone 1, HNotify ''s2'', HNotify ''s1'']"]
      woken_exactly [OF refl l, of "[HDone 1, HNotify ''s2'']"] by simp
qed

text \<open>
  The broadcast keeps nothing for followers that left.  After any calls, the hub has an entry
  for a session exactly when some registration for it is not released, all live registrations of a
  session share that entry, and its reference count is their number.
\<close>

theorem hub_holds_live_only:
  "(hb_m (hs_hub (hub_run ops hub_start)) i = Some p \<longleftrightarrow> (i, p, False) \<in> set (hs_regs (hub_run ops hub_start))) \<and>
   (case hb_m (hs_hub (hub_run ops hub_start)) i of
     None \<Rightarrow> True
   | Some p \<Rightarrow> he_refs (hb_heap (hs_hub (hub_run ops hub_start)) p) = int (live_count (hs_regs (hub_run ops hub_start)) p))"
proof -
  let ?s = "hub_run ops hub_start"
  have inv: "regs_ok (hs_hub ?s) (hs_regs ?s)" using hub_inv_run [OF hub_inv_start, of ops] by (simp add: hub_inv_def)
  have "hb_m (hs_hub ?s) i = Some p \<longleftrightarrow> (i, p, False) \<in> set (hs_regs ?s)"
  proof
    assume m: "hb_m (hs_hub ?s) i = Some p"
    with inv have "0 < live_count (hs_regs ?s) p" "\<forall>j b. (j, p, b) \<in> set (hs_regs ?s) \<longrightarrow> j = i" unfolding regs_ok_def by blast+
    with live_count_pos [of "hs_regs ?s" p] show "(i, p, False) \<in> set (hs_regs ?s)" by blast
  qed (use inv in \<open>unfold regs_ok_def, blast\<close>)
  moreover have "case hb_m (hs_hub ?s) i of None \<Rightarrow> True | Some p \<Rightarrow> he_refs (hb_heap (hs_hub ?s) p) = int (live_count (hs_regs ?s) p)"
    using inv unfolding regs_ok_def by (auto split: option.split)
  ultimately show ?thesis by blast
qed

text \<open>
  C25: the wait between two looks of a follower.  As long as the bounds are a duration, not negative
  and in order, every wait of every run of \<open>Next\<close> and \<open>Reset\<close> lies between them, although the doubling
  is done in 64 bits and may wrap to a negative duration.
\<close>

theorem waits_bounded:
  assumes "0 \<le> po_Min p" "po_Min p \<le> po_Max p" "po_Max p < 2 ^ 63" "po_cur p \<le> po_Max p" and "d \<in> set (poll_waits ops p)"
  shows "po_Min p \<le> d \<and> d \<le> po_Max p"
  using poll_waits_bounds [OF assms] .

definition ex_poll :: poll where
  "ex_poll = \<lparr>po_Min = 2 ^ 62, po_Max = 2 ^ 63 - 1, po_cur = 0\<rparr>"

theorem waits_bounded_witness:
  "poll_waits [True, True, True] ex_poll = [2 ^ 62, 2 ^ 62, 2 ^ 62] \<and> po_Min ex_poll \<le> 2 ^ 62 \<and> 2 ^ 62 \<le> po_Max ex_poll"
proof -
  have w: "poll_waits [True, True, True] ex_poll = [2 ^ 62, 2 ^ 62, 2 ^ 62]" by code_simp
  have "po_Min ex_poll \<le> 2 ^ 62 \<and> 2 ^ 62 \<le> po_Max ex_poll"
    by (rule waits_bounded [of ex_poll "2 ^ 62" "[True, True, True]"]) (simp_all only: w, simp_all add: ex_poll_def)
  with w show ?thesis by simp
qed

text \<open>
  The backoff.  From rest, with bounds far enough from the end of the range, the i-th wait in a
  row is the lower bound doubled i times, cut at the upper one.
\<close>

theorem backoff_doubles:
  assumes "0 < po_Min p" "po_Min p \<le> po_Max p" "po_Max p < 2 ^ 62" "po_cur p < po_Min p"
  shows "poll_waits (replicate n True) p = map (\<lambda>i. min (po_Min p * 2 ^ i) (po_Max p)) [0..<n]"
  by (rule poll_waits_backoff [OF assms])

theorem backoff_doubles_witness:
  "poll_waits (replicate 5 True) \<lparr>po_Min = 100, po_Max = 1000, po_cur = 0\<rparr> = [100, 200, 400, 800, 1000]"
  using backoff_doubles [of "\<lparr>po_Min = 100, po_Max = 1000, po_cur = 0\<rparr>" 5] by (simp add: upt_rec)

section \<open>Refs\<close>

text \<open>
  C27: \<open>UpdateRef\<close> is a compare and swap on a map from names to targets, the zero target standing for
  no ref.  A call that succeeds found the ref at the target the caller expected and leaves the map
  with the new target under that name and every other name as it was; a call that fails, whatever the
  reason, changes nothing in the store.
\<close>

theorem UpdateRef_refines_cas:
  assumes "UpdateRef d now name expected target reason m = (m', r)"
  shows "case r of
      Inl _ \<Rightarrow> m' = m
    | Inr _ \<Rightarrow> ref_now m name = expected \<and> ref_now m' = (ref_now m)(name := target) \<and>
        target_held target m = Inr () \<and> sess m' = sess m"
proof -
  have "sess m' = sess m" using UpdateRef_sess [OF assms] by (simp add: sess_def)
  show ?thesis
    using assms
  proof (cases rule: UpdateRef_cases)
    case kept
    then have "target_held target m = Inr ()"
      using assms by (auto simp: UpdateRef_def Let_def then_res_Inr split: sum.splits if_splits)
    with kept show ?thesis by auto
  next
    case (moved ident)
    with \<open>sess m' = sess m\<close> show ?thesis by (simp add: ref_now_put)
  qed simp
qed

theorem UpdateRef_refines_cas_witness:
  "ref_now ex_reffed = (ref_now ex_store)(''runs/main'' := ex_target) \<and> sess ex_reffed = sess ex_store"
proof -
  let ?u = "UpdateRef ex_deps 9 ''runs/main'' no_target ex_target ''start'' ex_store"
  have "\<not> isl (snd ?u)" by code_simp
  moreover obtain r where u: "?u = (ex_reffed, r)" by (simp add: ex_reffed_def prod_eq_iff)
  ultimately obtain x where "r = Inr x" by (cases r) auto
  with UpdateRef_refines_cas [OF u] show ?thesis by simp
qed

text \<open>
  C28: the log of a ref tells its whole story.  In every store a run of calls leaves, the log of a
  name starts where there is no ref, each update begins where the one before ended and changes the
  target, and the last ends at the target the name has now.
\<close>

theorem ref_log_replays:
  assumes "store_reachable d m"
  shows "log_chain no_target (log_of m name) (ref_now m name)"
  using refs_inv_reachable [OF assms] by (simp add: refs_inv_def)

theorem ref_log_replays_witness:
  "log_chain no_target (log_of ex_reffed ''runs/main'') ex_target \<and> length (log_of ex_reffed ''runs/main'') = 1"
proof -
  have "ref_now ex_reffed ''runs/main'' = ex_target" by (simp add: ref_now_def ex_reffed_refs)
  moreover have "length (log_of ex_reffed ''runs/main'') = 1" using arg_cong [OF ex_reffed_refs(2), of length] by simp
  ultimately show ?thesis using ref_log_replays [OF ex_reffed_reachable, of "''runs/main''"] by simp
qed

text \<open>
  C29: the refs of a store fit on any file system.  In every store a run of calls leaves, every ref
  has a valid name, and of two different names neither is the other, nor a path under it, once case
  is folded, so each can be a file of its own where case does not tell files apart.
\<close>

theorem ref_names_fit:
  assumes "store_reachable d m" and "a \<in> fst ` set (ms_refs m)" "b \<in> fst ` set (ms_refs m)" "a \<noteq> b"
  shows "ValidRefName a = Inr () \<and>
    take (length (split_on (CHR ''/'') a)) (map (map fold_char) (split_on (CHR ''/'') b)) \<noteq> map (map fold_char) (split_on (CHR ''/'') a)"
proof -
  have ok: "names_ok (ms_refs m)" using refs_inv_reachable [OF assms(1)] by (simp add: refs_inv_def)
  obtain t where "(a, t) \<in> set (ms_refs m)" using assms(2) by auto
  from names_okD [OF ok this] have "ValidRefName a = Inr ()" by simp
  moreover have "apart (split_on (CHR ''/'') a) (split_on (CHR ''/'') b)"
    using names_ok_apart [OF ok assms(2-4)] by (simp add: paths_apart_def)
  ultimately show ?thesis using apart_paths by blast
qed

definition ex_two_refs :: mem_store where
  "ex_two_refs = fst (UpdateRef ex_deps 9 ''runs/side'' no_target ex_target [] ex_reffed)"

theorem ref_names_fit_witness:
  "map fst (ms_refs ex_two_refs) = [''runs/main'', ''runs/side''] \<and>
   take (length (split_on (CHR ''/'') ''runs/main'')) (map (map fold_char) (split_on (CHR ''/'') ''runs/side'')) \<noteq>
     map (map fold_char) (split_on (CHR ''/'') ''runs/main'') \<and>
   snd (UpdateRef ex_deps 9 ''Runs/other'' no_target ex_target [] ex_reffed) = Inl ERefName"
proof -
  have refs: "map fst (ms_refs ex_two_refs) = [''runs/main'', ''runs/side'']" by code_simp
  have "fst ` set (ms_refs ex_two_refs) = set (map fst (ms_refs ex_two_refs))" by simp
  then have keys: "''runs/main'' \<in> fst ` set (ms_refs ex_two_refs)" "''runs/side'' \<in> fst ` set (ms_refs ex_two_refs)"
    unfolding refs by simp_all
  have "store_step ex_deps ex_reffed ex_two_refs"
    unfolding ex_two_refs_def by (rule store_step.ref [OF prod.collapse [symmetric]])
  from store_reachable.step [OF ex_reffed_reachable this] have r: "store_reachable ex_deps ex_two_refs" .
  have "snd (UpdateRef ex_deps 9 ''Runs/other'' no_target ex_target [] ex_reffed) = Inl ERefName" by code_simp
  with refs ref_names_fit [OF r keys] show ?thesis by simp
qed

section \<open>Sessions\<close>

text \<open>
  C30: an incarnation of a session only grows.  Between any two states of a store in which an ID has
  the same generation, whatever calls came between, the session under it is there in both, and the
  second holds every entry of the first, unchanged and in the same order; a session deleted and
  created again has another generation, so a cursor never continues into it.
\<close>

theorem incarnation_only_grows:
  assumes "store_reachable d m" and "(store_step d)\<^sup>*\<^sup>* m m'" and "gen_of m i = Some g" "gen_of m' i = Some g"
  shows "\<exists>s s'. sess m i = Some s \<and> sess m' i = Some s' \<and> grows s s'"
  by (rule incarnation_grows [OF assms(2) sessions_ok_reachable [OF assms(1)] assms(3,4)])

theorem incarnation_only_grows_witness:
  "\<exists>s s'. sess ex_made ''s1'' = Some s \<and> sess ex_store ''s1'' = Some s' \<and> grows s s' \<and> length (se_entries s') = 1"
proof -
  have "(store_step ex_deps)\<^sup>*\<^sup>* ex_made ex_store" unfolding ex_store_def by (rule ex_fill_steps)
  from incarnation_only_grows [OF ex_made_reachable this, of "''s1''" 8]
  obtain s s' where s: "sess ex_made ''s1'' = Some s" "sess ex_store ''s1'' = Some s'" "grows s s'"
    by (auto simp: gen_of_def ex_store_gens)
  have "map_option (\<lambda>s. length (se_entries s)) (sess ex_store ''s1'') = Some 1" by code_simp
  with s show ?thesis by simp
qed




lemma store_Append_frame:
  assumes "store_Append d now i e m = (m', r)"
  shows "ms_refs m' = ms_refs m \<and> ms_blobs m' = ms_blobs m \<and> (\<forall>j. j \<noteq> i \<longrightarrow> sess m' j = sess m j)"
  using assms by (cases rule: store_Append_cases) (auto simp: set_session_def notify_def sess_def update_conv')

text \<open>
  C32: what an append through the store leaves.  When it returns an ID, the session under the given
  ID holds an entry with it, whose ID is its hash, either held before or added at the end; no other
  session changes, nor any ref or blob; and every follower of the session is notified.  When it
  fails, every session keeps its entries.
\<close>

theorem store_Append_effect:
  assumes k: "codec_ok (d_codec d)" and a: "store_Append d now i e m = (m', r)"
  shows "ms_refs m' = ms_refs m \<and> ms_blobs m' = ms_blobs m \<and> (\<forall>j. j \<noteq> i \<longrightarrow> sess m' j = sess m j) \<and>
    (case r of
       Inl _ \<Rightarrow> map_option se_entries (sess m' i) = map_option se_entries (sess m i)
     | Inr eid \<Rightarrow> ms_hub m' = Notify (ms_hub m) i \<and>
        (\<exists>s s'. sess m i = Some s \<and> sess m' i = Some s' \<and>
          (se_byID s eid \<noteq> None \<and> se_entries s' = se_entries s \<or>
           (\<exists>e'. se_byID s eid = None \<and> se_entries s' = se_entries s @ [e'] \<and> e_id e' = eid \<and> hashed_by (d_codec d) e'))))"
proof -
  have body: "case r of
       Inl _ \<Rightarrow> map_option se_entries (sess m' i) = map_option se_entries (sess m i)
     | Inr eid \<Rightarrow> ms_hub m' = Notify (ms_hub m) i \<and>
        (\<exists>s s'. sess m i = Some s \<and> sess m' i = Some s' \<and>
          (se_byID s eid \<noteq> None \<and> se_entries s' = se_entries s \<or>
           (\<exists>e'. se_byID s eid = None \<and> se_entries s' = se_entries s @ [e'] \<and> e_id e' = eid \<and> hashed_by (d_codec d) e')))"
    using a
  proof (cases rule: store_Append_cases)
    case (raised s s' x)
    with same_log_raise [of s Format s'] show ?thesis by (auto simp: same_log_def)
  next
    case (committed s s1 s2 own e1 pre res)
    have s1: "same_log s s1" using committed(3) same_log_raise by (auto split: if_splits)
    have m': "sess m' i = Some s2" "ms_hub m' = Notify (ms_hub m) i"
      using committed(6) by simp_all (simp add: notify_def set_session_def)
    show ?thesis
      using k committed(5)
    proof (cases rule: Commit_cases)
      case (refused x)
      with committed(1,7) m' s1 show ?thesis by (simp add: bind_res_def same_log_def)
    next
      case (held r1)
      with committed(1,7) m' s1 show ?thesis by (simp add: bind_res_def same_log_def)
    next
      case (added e' r1)
      with committed(1,7) m' s1 show ?thesis by (auto simp: bind_res_def same_log_def admitted_def)
    qed
  qed simp
  with store_Append_frame [OF a] show ?thesis by blast
qed

theorem store_Append_effect_witness:
  "\<exists>s s' e'. sess ex_made ''s1'' = Some s \<and> sess ex_store ''s1'' = Some s' \<and> se_entries s' = se_entries s @ [e'] \<and> e_id e' = ''sha256:a''"
proof -
  let ?a = "store_Append ex_deps 1 ''s1'' (hd ex_calls) ex_made"
  have r: "snd ?a = Inr ''sha256:a''" by code_simp
  have m: "fst ?a = ex_store" by (simp add: ex_store_def ex_call_def ex_calls_def)
  have n: "map_option (\<lambda>s. length (se_entries s)) (sess ex_made ''s1'') = Some 0"
      "map_option (\<lambda>s. length (se_entries s)) (sess ex_store ''s1'') = Some 1" by code_simp+
  have "?a = (ex_store, Inr ''sha256:a'')" using r m by (simp add: prod_eq_iff)
  from store_Append_effect [OF _ this] ex_codec_ok n show ?thesis by auto
qed

text \<open>
  C33: the origin of a fork.  When \<open>Create\<close> makes a session with a base, the new session is a fork of
  a session the caller may read, held by the store at the moment the new one is added, that holds the
  base, however the store changed while the origin was being picked.
\<close>

theorem fork_origin_held:
  assumes "Create d cx f h rounds m = (m', Inr s)" and "h_Base h \<noteq> []"
  shows "\<exists>m1 i origin. cx_readable cx i \<and> sess m1 i = Some origin \<and> Entry origin (h_Base h) \<noteq> None \<and>
    Fork (f_payload f) (f_id f) (f_now f) origin (h_Base h) h = Inr s \<and>
    sess m1 (h_ID (se_header s)) = None \<and> m' = add_session s m1"
proof -
  obtain m1 so where o: "lockOrigin cx (h_ParentSession h) (h_Base h) rounds m = (m1, so)" by fastforce
  with assms obtain origin where org: "so = Some origin" "Fork (f_payload f) (f_id f) (f_now f) origin (h_Base h) h = Inr s"
    by (auto simp: Create_def bind_res_def then_res_def split: sum.splits if_splits option.splits)
  have "sess m1 (h_ID (se_header s)) = None \<and> m' = add_session s m1"
    using assms o org by (auto simp: Create_def bind_res_def then_res_def sess_def split: sum.splits if_splits)
  with lockOrigin_Some [OF o [unfolded org(1)]] org(2) show ?thesis by blast
qed

definition ex_created :: "mem_store \<times> session res" where
  "ex_created = Create ex_deps ex_cx (ex_fresh\<lparr>f_id := ''s2''\<rparr>) (ex_header\<lparr>h_ID := ''s2'', h_Base := ''sha256:a'', h_ParentSession := ''s1''\<rparr>)
     [(ex_store, ex_store)] ex_store"

theorem fork_origin_held_witness:
  "\<exists>s m1 origin i. snd ex_created = Inr s \<and> sess m1 i = Some origin \<and> Entry origin ''sha256:a'' \<noteq> None \<and> fst ex_created = add_session s m1"
proof -
  have "\<not> isl (snd ex_created)" by code_simp
  then obtain s where s: "snd ex_created = Inr s" by (cases "snd ex_created") auto
  then have "Create ex_deps ex_cx (ex_fresh\<lparr>f_id := ''s2''\<rparr>) (ex_header\<lparr>h_ID := ''s2'', h_Base := ''sha256:a'', h_ParentSession := ''s1''\<rparr>)
     [(ex_store, ex_store)] ex_store = (fst ex_created, Inr s)" by (simp add: ex_created_def prod_eq_iff)
  from fork_origin_held [OF this] s show ?thesis by auto
qed

section \<open>Blobs\<close>

lemma blobs_named_set:
  "blobs_named d es = Inr xs \<Longrightarrow> h \<in> set xs \<longleftrightarrow> (\<exists>e\<in>set es. \<exists>bs. d_SidecarBlobs d e = Inr bs \<and> h \<in> set bs)"
proof (induction es arbitrary: xs)
  case (Cons e es)
  then obtain bs ys where "d_SidecarBlobs d e = Inr bs" "blobs_named d es = Inr ys" "xs = bs @ ys" by (auto simp: bind_res_Inr)
  with Cons.IH show ?case by simp
qed simp

lemma named_blobs_set:
  "named_blobs d ss = Inr named \<Longrightarrow>
   h \<in> named \<longleftrightarrow> (\<exists>(i, s)\<in>set ss. \<exists>e\<in>set (se_entries s). \<exists>bs. d_SidecarBlobs d e = Inr bs \<and> h \<in> set bs)"
proof (induction ss arbitrary: named)
  case (Cons a ss)
  obtain i s where a: "a = (i, s)" by (cases a)
  with Cons.prems obtain bs rest where "blobs_named d (se_entries s) = Inr bs" "named_blobs d ss = Inr rest" "named = set bs \<union> rest"
    by (auto simp: SessionBlobs_def bind_res_Inr)
  with Cons.IH a blobs_named_set [of d "se_entries s" bs h] show ?case by simp
qed simp

lemma SweepBlobs_cases:
  assumes "SweepBlobs d cx now grace m = (m', Inr n)"
  obtains (none) "m' = m" "n = 0" "\<not> list_ex (\<lambda>(h, b). blob_old now grace b) (ms_blobs m)"
    | (swept) named where "named_blobs d (ms_sessions m) = Inr named"
        "m' = m\<lparr>ms_blobs := filter (\<lambda>(h, b). \<not> (blob_old now grace b \<and> h \<notin> named)) (ms_blobs m)\<rparr>"
        "n = length (ms_blobs m) - length (ms_blobs m')"
  using assms by (auto simp: SweepBlobs_def Let_def split: sum.splits if_splits)

text \<open>
  C34: a sweep takes exactly the blobs nothing needs.  When \<open>SweepBlobs\<close> succeeds, a blob is kept
  exactly when it was stored within the grace period or an entry of some session names it, whatever
  branch the entry is on; the count is the number taken; and nothing else in the store changes.
\<close>

theorem sweep_exact:
  assumes "SweepBlobs d cx now grace m = (m', Inr n)"
  shows "((hash, b) \<in> set (ms_blobs m') \<longleftrightarrow> (hash, b) \<in> set (ms_blobs m) \<and>
      (\<not> blob_old now grace b \<or>
       (\<exists>(i, s)\<in>set (ms_sessions m). \<exists>e\<in>set (se_entries s). \<exists>bs. d_SidecarBlobs d e = Inr bs \<and> hash \<in> set bs))) \<and>
    n + length (ms_blobs m') = length (ms_blobs m) \<and> m'\<lparr>ms_blobs := ms_blobs m\<rparr> = m"
  using assms
proof (cases rule: SweepBlobs_cases)
  case none
  then show ?thesis by (auto simp: list_ex_iff)
next
  case (swept named)
  from swept(2) have "n + length (ms_blobs m') = length (ms_blobs m)" "m'\<lparr>ms_blobs := ms_blobs m\<rparr> = m"
    using swept(3) by simp_all
  moreover have "(hash, b) \<in> set (ms_blobs m') \<longleftrightarrow> (hash, b) \<in> set (ms_blobs m) \<and> (\<not> blob_old now grace b \<or> hash \<in> named)"
    unfolding swept(2) by auto
  ultimately show ?thesis using named_blobs_set [OF swept(1), of hash] by simp
qed

theorem sweep_exact_witness:
  "\<exists>m' b. SweepBlobs ex_deps ex_cx 25 4 ex_blobbed = (m', Inr 1) \<and> map fst (ms_blobs ex_blobbed) = [''sha256:x'', ''sha256:y''] \<and>
    map fst (ms_blobs m') = [''sha256:x''] \<and> (''sha256:x'', b) \<in> set (ms_blobs m') \<and> 1 + length (ms_blobs m') = 2"
proof -
  let ?w = "SweepBlobs ex_deps ex_cx 25 4 ex_blobbed"
  have "snd ?w = Inr 1" by code_simp
  then have w: "?w = (fst ?w, Inr 1)" by (simp add: prod_eq_iff)
  have f: "map fst (ms_blobs ex_blobbed) = [''sha256:x'', ''sha256:y'']" "map fst (ms_blobs (fst ?w)) = [''sha256:x'']" by code_simp+
  then obtain b where "(''sha256:x'', b) \<in> set (ms_blobs (fst ?w))" by (auto simp: map_eq_Cons_conv)
  moreover have "length (ms_blobs ex_blobbed) = 2" using arg_cong [OF f(1), of length] by simp
  ultimately show ?thesis using conjunct1 [OF conjunct2 [OF sweep_exact [OF w]]] f w by metis
qed

end
