(* ===== verification/Follow.thy ===== *)
theory Follow
  imports Store_Sessions Scanning
begin

text \<open>
  Following a session: the memory store's loop (\<open>follow.go\<close>) and the one the other stores share
  (\<open>internal/follow\<close>).  A follower holds a session of its own, read once and extended by every entry
  the store accepts, and yields a change for each.  A look is one turn of the loop, a function of what
  the store holds when each lock is taken; between looks the follower waits to be woken.  A consumer
  that breaks off, or a context that is done, ends the loop after a prefix of the changes.
\<close>

section \<open>Cursors\<close>

text \<open>\<open>strconv.ParseUint\<close> in base ten and 64 bits.\<close>

definition ParseUint :: "string \<Rightarrow> nat option" where
  "ParseUint s =
     (if s = [] then None
      else case digits_val s 0 of None \<Rightarrow> None | Some n \<Rightarrow> if n < 2 ^ 64 then Some n else None)"

definition memoryCursor :: "nat \<Rightarrow> nat \<Rightarrow> string" where
  "memoryCursor gen n = decimal gen @ CHR '':'' # decimal n"

section \<open>Changes\<close>

datatype change_kind = Snapshot | Appended | Head | Reset

record change =
  ch_Kind :: change_kind
  ch_Session :: session
  ch_ID :: eid
  ch_Entry :: "entry option"
  ch_Leaf :: eid
  ch_Cursor :: string

definition new_change :: "change_kind \<Rightarrow> session \<Rightarrow> string \<Rightarrow> change" where
  "new_change kind s cur = \<lparr>ch_Kind = kind, ch_Session = s, ch_ID = [], ch_Entry = None, ch_Leaf = [], ch_Cursor = cur\<rparr>"

section \<open>The memory store's follower\<close>

definition trim_newlines :: "string \<Rightarrow> string" where
  "trim_newlines s = rev (dropWhile (\<lambda>c. c = LF) (rev s))"

text \<open>How many lines of the file to take, and whether the cursor named a place in it.\<close>

definition cursor_take :: "nat \<Rightarrow> string \<Rightarrow> nat \<Rightarrow> nat \<times> bool \<times> change_kind" where
  "cursor_take gen from len =
     (if from = [] then (len, False, Snapshot)
      else case cut (CHR '':'') from of
          None \<Rightarrow> (len, False, Reset)
        | Some (g, c) \<Rightarrow>
            (case (ParseUint g, Atoi c) of
               (Some gn, Some nn) \<Rightarrow>
                 if gn = gen \<and> nn \<ge> 0 \<and> nn < int len then (nat nn + 1, True, Snapshot) else (len, False, Reset)
             | _ \<Rightarrow> (len, False, Reset)))"

definition memoryStart :: "deps \<Rightarrow> fresh \<Rightarrow> session \<Rightarrow> nat \<Rightarrow> string \<Rightarrow> (session \<times> nat \<times> bool \<times> change_kind) res" where
  "memoryStart d f lv gen from =
     bind_res (Write (d_wire d) lv) (\<lambda>buf.
       let lines = split_on LF (trim_newlines buf);
           (taken, resumed, kind) = cursor_take gen from (length lines)
       in bind_res (Read (d_codec d) (d_wire d) f (join_with LF (take taken lines))) (\<lambda>s.
            Inr (s, taken - 1, resumed, kind)))"

record follower =
  fo_sess :: session
  fo_n :: nat
  fo_gen :: nat

text \<open>The entry a call of \<open>Extend\<close> leaves with its caller: the one it was given, filled in place.\<close>

definition extended_entry :: "codec \<Rightarrow> timestamp \<Rightarrow> session \<Rightarrow> entry \<Rightarrow> entry" where
  "extended_entry k now s e = fst (prepare k now s (gateRedacted k (se_declared s) e))"

text \<open>The entries not yet seen, each copied through its encoding and added to the follower's session.\<close>

fun follow_entries ::
    "deps \<Rightarrow> timestamp \<Rightarrow> nat \<Rightarrow> session \<Rightarrow> nat \<Rightarrow> entry list \<Rightarrow> change list \<times> session \<times> nat \<times> error option" where
  "follow_entries d now gen s n [] = ([], s, n, None)"
| "follow_entries d now gen s n (x # xs) =
     (case bind_res (MarshalEntry (d_wire d) x) (UnmarshalEntry (d_wire d)) of
        Inl err \<Rightarrow> ([], s, n, Some err)
      | Inr e \<Rightarrow>
          (case Extend (d_codec d) now s (Some e) of
             (s', Inl err) \<Rightarrow> ([], s', n, Some err)
           | (s', Inr r) \<Rightarrow>
               let cur = memoryCursor gen (n + 1);
                   c = (new_change Appended s' cur)\<lparr>ch_ID := r_ID r, ch_Entry := Some (extended_entry (d_codec d) now s e)\<rparr>;
                   l = se_leaf s';
                   head = (if l \<noteq> r_ID r \<and> l \<noteq> se_leaf s then [(new_change Head s' cur)\<lparr>ch_Leaf := l\<rparr>] else []);
                   (cs, rest) = follow_entries d now gen s' (n + 1) xs
               in (c # head @ cs, rest)))"

text \<open>
  One look.  The store is \<open>m\<close> when the follower checks that the session is still the one it follows;
  pointers to sessions are told apart by their generation, which no two creations share.  The lv
  session is \<open>lv\<close> when its entries are taken and \<open>lv'\<close> when, after that, its header is looked at.
\<close>

definition follow_look ::
    "deps \<Rightarrow> fresh \<Rightarrow> timestamp \<Rightarrow> string \<Rightarrow> mem_store \<Rightarrow> session \<Rightarrow> session \<Rightarrow> follower \<Rightarrow> change list \<times> follower \<times> error option" where
  "follow_look d f now i m lv lv' fo =
     (if map_of (ms_sessions m) i = None \<or> map_of (ms_gens m) i \<noteq> Some (fo_gen fo) then ([], fo, Some ENoSession)
      else if h_Format (se_header lv') \<noteq> se_declared (fo_sess fo)
      then (case memoryStart d f lv' (fo_gen fo) [] of
              Inl err \<Rightarrow> ([], fo, Some err)
            | Inr (s, n, _, _) \<Rightarrow>
                ([new_change Reset s (memoryCursor (fo_gen fo) n)], fo\<lparr>fo_sess := s, fo_n := n\<rparr>, None))
      else case follow_entries d now (fo_gen fo) (fo_sess fo) (fo_n fo) (drop (fo_n fo) (se_entries lv)) of
          (cs, s, n, err) \<Rightarrow> (cs, fo\<lparr>fo_sess := s, fo_n := n\<rparr>, err))"

text \<open>The start of a follow, up to the loop.\<close>

definition follow_start ::
    "deps \<Rightarrow> fresh \<Rightarrow> string \<Rightarrow> string \<Rightarrow> mem_store \<Rightarrow> change list \<times> follower res" where
  "follow_start d f i from m =
     (case map_of (ms_sessions m) i of
        None \<Rightarrow> ([], Inl ENoSession)
      | Some lv \<Rightarrow>
          let gen = (case map_of (ms_gens m) i of None \<Rightarrow> 0 | Some g \<Rightarrow> g)
          in case memoryStart d f lv gen from of
              Inl err \<Rightarrow> ([], Inl err)
            | Inr (s, n, resumed, kind) \<Rightarrow>
                (if resumed then [] else [new_change kind s (memoryCursor gen n)],
                 Inr \<lparr>fo_sess = s, fo_n = n, fo_gen = gen\<rparr>))"

section \<open>The follower the other stores share\<close>

record item_rec =
  im_Entry :: "entry option"
  im_Leaf :: eid
  im_Skip :: bool
  im_Cursor :: string
  im_Format :: string

definition apply_head :: "session \<Rightarrow> item_rec \<Rightarrow> session \<times> (change list) res" where
  "apply_head s it =
     (case (if im_Leaf it \<noteq> [] then Branch s (im_Leaf it) else Inr (ResetLeaf s)) of
        Inl x \<Rightarrow> (s, Inl x)
      | Inr s' \<Rightarrow>
          (s', Inr (if im_Leaf it = se_leaf s then []
                    else [(new_change Head s' (im_Cursor it))\<lparr>ch_Leaf := im_Leaf it\<rparr>])))"

definition apply_entry :: "codec \<Rightarrow> timestamp \<Rightarrow> session \<Rightarrow> item_rec \<Rightarrow> bool \<Rightarrow> entry \<Rightarrow> session \<times> (change list) res" where
  "apply_entry k now s it fileLeaf e =
     (let e = (if fileLeaf then e else the (GateEntry k (se_declared s) (Some e)))
      in case (if fileLeaf then Extend k now s (Some e) else Commit k now s (Some e)) of
          (s', Inl x) \<Rightarrow> (s', Inl x)
        | (s', Inr r) \<Rightarrow>
            if r_Outcome r = Held then (s', Inr [])
            else let filled = (if fileLeaf then extended_entry k now s e else fst (prepare k now s e));
                     moved = (if fileLeaf then se_leaf s' \<noteq> r_ID r else r_Outcome r = LeafMoved)
                 in (s', Inr ((new_change Appended s' (im_Cursor it))\<lparr>ch_ID := r_ID r, ch_Entry := Some filled\<rparr> #
                       (if moved \<and> se_leaf s' \<noteq> se_leaf s
                        then [(new_change Head s' (im_Cursor it))\<lparr>ch_Leaf := se_leaf s'\<rparr>] else []))))"

definition apply_item :: "codec \<Rightarrow> timestamp \<Rightarrow> session \<Rightarrow> item_rec \<Rightarrow> bool \<Rightarrow> session \<times> (change list) res" where
  "apply_item k now s it fileLeaf =
     (if im_Skip it then (s, Inr [])
      else case im_Entry it of
          None \<Rightarrow> apply_head s it
        | Some e \<Rightarrow> apply_entry k now s it fileLeaf e)"

text \<open>The items of one \<open>Tail\<close>: the changes, and the follower, or \<open>None\<close> when it must read the session again.\<close>

fun run_items ::
    "codec \<Rightarrow> timestamp \<Rightarrow> bool \<Rightarrow> session \<Rightarrow> string \<Rightarrow> item_rec list \<Rightarrow> change list \<times> (session \<times> string) option" where
  "run_items k now fileLeaf s cur [] = ([], Some (s, cur))"
| "run_items k now fileLeaf s cur (it # its) =
     (if im_Format it \<noteq> [] \<and> im_Format it \<noteq> se_declared s then ([], None)
      else case apply_item k now s it fileLeaf of
          (s', Inl x) \<Rightarrow> ([], None)
        | (s', Inr cs) \<Rightarrow> (case run_items k now fileLeaf s' (im_Cursor it) its of (ds, st) \<Rightarrow> (cs @ ds, st)))"

datatype run_result = RunOn session string | RunEnd error

text \<open>A reload, yielded as a change of the given kind, and the start of \<open>Run\<close>: what \<open>Load\<close> answers for the cursor and for none.\<close>

definition run_reload :: "change_kind \<Rightarrow> (session \<times> string) res \<Rightarrow> change list \<times> run_result" where
  "run_reload kind load =
     (case load of
        Inl x \<Rightarrow> ([], RunEnd x)
      | Inr (s, cur) \<Rightarrow> ([new_change kind s cur], RunOn s cur))"

definition run_start :: "string \<Rightarrow> (session \<times> string) res \<Rightarrow> (session \<times> string) res \<Rightarrow> change list \<times> run_result" where
  "run_start from load_from load =
     (if from = [] then run_reload Snapshot load
      else case load_from of
          Inr (s, cur) \<Rightarrow> ([], RunOn s cur)
        | Inl x \<Rightarrow> if x = EStaleLog then run_reload Reset load else ([], RunEnd x))"

text \<open>
  One turn of \<open>Run\<close>: what \<open>Tail\<close> answered at the cursor, and what a reload answers when there is need of
  one.  \<open>EStaleLog\<close> says that the log was replaced.
\<close>

definition run_turn ::
    "codec \<Rightarrow> timestamp \<Rightarrow> bool \<Rightarrow> (session \<times> string) res \<Rightarrow> item_rec list \<times> error option \<Rightarrow> session \<Rightarrow> string \<Rightarrow> change list \<times> run_result" where
  "run_turn k now fileLeaf load tl_ans s cur =
     (let (items, tailErr) = tl_ans
      in if tailErr = Some EStaleLog then run_reload Reset load
         else case run_items k now fileLeaf s cur items of
             (cs, None) \<Rightarrow> (case run_reload Reset load of (rs, r) \<Rightarrow> (cs @ rs, r))
           | (cs, Some (s', cur')) \<Rightarrow>
               (cs, case tailErr of None \<Rightarrow> RunOn s' cur' | Some x \<Rightarrow> RunEnd x))"

section \<open>What a follower delivers\<close>

lemma prepareEntry_given:
  assumes k: "codec_ok k" and p: "prepareEntry k now s e0 = (e, Inr r)" and i: "e_id e0 \<noteq> []"
  shows "e_id e = e_id e0 \<and> e_parent e = e_parent e0"
proof -
  let ?e2 = "stamp now (fill_parent s e0)"
  let ?e3 = "upd_base (\<lambda>b. b\<lparr>b_ID := []\<rparr>) ?e2"
  have f: "fill_parent s e0 = e0" "e_id ?e2 = e_id e0" "e_parent ?e2 = e_parent e0"
    using i by (simp_all add: fill_parent_def stamp_def)
  from p obtain e4 e5 e6 where e4: "rewrite_raw k ?e3 = Inr e4" and e5: "k_normaliseEntry k e4 = Inr e5"
    and e6: "hashEntry k e5 = Inr e6" and want: "e_id ?e2 = e_id e6" and e7: "rewrite_raw k e6 = Inr e"
    unfolding prepareEntry_def Let_def using f i by (auto split: if_splits sum.splits)
  then show ?thesis
    using rewrite_raw_base [OF e4] rewrite_raw_base [OF e7] hashEntry_base [OF e6] k f by (auto simp: codec_ok_def)
qed

definition bone :: "entry \<Rightarrow> eid \<times> eid" where
  "bone e = (e_id e, e_parent e)"

lemma Extend_given:
  assumes k: "codec_ok k" and x: "Extend k now s (Some e) = (s', Inr r)" and i: "e_id e \<noteq> []" and new: "se_byID s (e_id e) = None"
  shows "r_ID r = e_id e \<and> map bone (se_entries s') = map bone (se_entries s) @ [bone e] \<and> se_declared s' = se_declared s"
proof -
  let ?g = "gateRedacted k (se_declared s) e"
  from x obtain e1 where p: "prepareEntry k now s ?g = (e1, Inr r)"
    by (auto simp: Extend_def prepare_def split: sum.splits prod.splits if_splits)
  from prepareEntry_given [OF k p] i have e1: "e_id e1 = e_id e" "e_parent e1 = e_parent e" by simp_all
  from prepareEntry_ok [OF k p] e1 new have r: "r_ID r = e_id e" "r_Outcome r \<noteq> Held" by auto
  with x p have "s' = extend_with e1 (read_current s) s"
    by (auto simp: Extend_def prepare_def split: sum.splits prod.splits if_splits)
  then show ?thesis using r e1 by (simp add: extend_with_def Let_def bone_def)
qed

text \<open>Encoding an entry and decoding it gives back its ID and its parent.\<close>

definition copies :: "wire \<Rightarrow> entry \<Rightarrow> bool" where
  "copies w e \<longleftrightarrow> (\<forall>data e' c. w_marshalEntry w e = Inr data \<longrightarrow> w_decodeLine w data = Inr (e', c) \<longrightarrow> bone e' = bone e)"

definition mirrors :: "codec \<Rightarrow> session \<Rightarrow> nat \<Rightarrow> entry list \<Rightarrow> bool" where
  "mirrors k s n es \<longleftrightarrow> session_core k s \<and> n \<le> length es \<and> map bone (se_entries s) = map bone (take n es)"

lemma mirrors_grow: "mirrors k s n es \<Longrightarrow> prefix es es' \<Longrightarrow> mirrors k s n es'"
  by (auto simp: mirrors_def prefix_def)

lemma map_bone_ids: "map bone xs = map bone ys \<Longrightarrow> map e_id xs = map e_id ys"
  by (drule arg_cong [of _ _ "map fst"]) (simp add: bone_def comp_def)

lemma follow_entries_mirrors:
  assumes k: "codec_ok (d_codec d)" and dst: "distinct (map e_id es)" "\<forall>e\<in>set es. e_id e \<noteq> [] \<and> copies (d_wire d) e"
  shows "mirrors (d_codec d) s n es \<Longrightarrow> follow_entries d now gen s n (drop n es) = (cs, s', n', None) \<Longrightarrow>
    mirrors (d_codec d) s' (length es) es \<and> n' = length es \<and> se_declared s' = se_declared s \<and>
    map (\<lambda>c. (ch_ID c, ch_Cursor c)) (filter (\<lambda>c. ch_Kind c = Appended) cs) =
      map (\<lambda>i. (e_id (es ! i), memoryCursor gen (i + 1))) [n..<length es]"
proof (induction "length es - n" arbitrary: s n cs)
  case 0
  then have "n = length es" by (simp add: mirrors_def)
  with 0 show ?case by simp
next
  case (Suc j)
  then have n: "n < length es" by simp
  let ?x = "es ! n"
  have dr: "drop n es = ?x # drop (Suc n) es" using n by (simp add: Cons_nth_drop_Suc)
  from Suc.prems(2) obtain e s1 r cs1 where e: "bind_res (MarshalEntry (d_wire d) ?x) (UnmarshalEntry (d_wire d)) = Inr e"
    and x: "Extend (d_codec d) now s (Some e) = (s1, Inr r)"
    and rest: "follow_entries d now gen s1 (n + 1) (drop (Suc n) es) = (cs1, s', n', None)"
    and cs: "filter (\<lambda>c. ch_Kind c = Appended) cs =
      (new_change Appended s1 (memoryCursor gen (n + 1)))\<lparr>ch_ID := r_ID r, ch_Entry := Some (extended_entry (d_codec d) now s e)\<rparr> #
      filter (\<lambda>c. ch_Kind c = Appended) cs1"
    unfolding dr by (auto simp: Let_def new_change_def split: sum.splits prod.splits if_splits)
  have mem: "?x \<in> set es" using n by simp
  have b: "bone e = bone ?x" using e dst(2) mem by (auto simp: copies_def MarshalEntry_def UnmarshalEntry_def bind_res_Inr)
  have ids: "map e_id (se_entries s) = map e_id (take n es)" and core: "session_core (d_codec d) s"
    using Suc.prems(1) map_bone_ids [of "se_entries s" "take n es"] by (simp_all add: mirrors_def)
  have "distinct (map e_id (take (Suc n) es))" using dst(1) by (simp add: take_map [symmetric])
  then have "e_id ?x \<notin> set (map e_id (take n es))" using n by (simp add: take_Suc_conv_app_nth)
  with ids core b have new: "se_byID s (e_id e) = None" by (simp add: session_core_def session_wf_def index_of_None bone_def)
  have ne: "e_id e \<noteq> []" using b dst(2) mem by (simp add: bone_def)
  note g = Extend_given [OF k x ne new]
  have "session_core (d_codec d) s1" using core x by (blast intro: session_core_step session_step.extend)
  with g b Suc.prems(1) n have m1: "mirrors (d_codec d) s1 (n + 1) es"
    by (simp add: mirrors_def take_Suc_conv_app_nth)
  have "j = length es - (n + 1)" using Suc.hyps(2) by simp
  from Suc.hyps(1) [OF this m1] rest g cs b n show ?case
    by (simp add: new_change_def bone_def upt_conv_Cons)
qed

text \<open>Looks one after the other, until one ends the follow.\<close>

fun follow_looks ::
    "deps \<Rightarrow> fresh \<Rightarrow> timestamp \<Rightarrow> string \<Rightarrow> (mem_store \<times> session \<times> session) list \<Rightarrow> follower \<Rightarrow> change list \<times> follower \<times> error option" where
  "follow_looks d f now i [] fo = ([], fo, None)"
| "follow_looks d f now i ((m, lv, lv') # ls) fo =
     (case follow_look d f now i m lv lv' fo of
        (cs, fo', Some err) \<Rightarrow> (cs, fo', Some err)
      | (cs, fo', None) \<Rightarrow> (case follow_looks d f now i ls fo' of (ds, r) \<Rightarrow> (cs @ ds, r)))"

definition followable :: "deps \<Rightarrow> session \<Rightarrow> bool" where
  "followable d s \<longleftrightarrow> distinct (map e_id (se_entries s)) \<and> (\<forall>e\<in>set (se_entries s). e_id e \<noteq> [] \<and> copies (d_wire d) e)"

definition delivered :: "change list \<Rightarrow> (eid \<times> string) list" where
  "delivered cs = map (\<lambda>c. (ch_ID c, ch_Cursor c)) (filter (\<lambda>c. ch_Kind c = Appended) cs)"

definition due :: "nat \<Rightarrow> entry list \<Rightarrow> nat \<Rightarrow> (eid \<times> string) list" where
  "due gen es n = map (\<lambda>i. (e_id (es ! i), memoryCursor gen (i + 1))) [n..<length es]"

lemma due_grow: "n \<le> length es \<Longrightarrow> prefix es es' \<Longrightarrow> due gen es n @ due gen es' (length es) = due gen es' n"
proof -
  assume n: "n \<le> length es" and p: "prefix es es'"
  then have l: "length es \<le> length es'" by (simp add: prefix_length_le)
  have "due gen es n = map (\<lambda>i. (e_id (es' ! i), memoryCursor gen (i + 1))) [n..<length es]"
    using p by (auto simp: due_def prefix_def nth_append)
  moreover have "[n..<length es'] = [n..<length es] @ [length es..<length es']" using n l by (metis le_iff_add upt_add_eq_append)
  ultimately show ?thesis by (simp add: due_def)
qed

lemma follow_look_delivers:
  assumes k: "codec_ok (d_codec d)" and lv: "followable d lv" and fmt: "h_Format (se_header lv') = se_declared (fo_sess fo)"
    and m: "mirrors (d_codec d) (fo_sess fo) (fo_n fo) (se_entries lv)"
    and l: "follow_look d f now i st lv lv' fo = (cs, fo', None)"
  shows "mirrors (d_codec d) (fo_sess fo') (fo_n fo') (se_entries lv) \<and> fo_n fo' = length (se_entries lv) \<and>
    fo_gen fo' = fo_gen fo \<and> se_declared (fo_sess fo') = se_declared (fo_sess fo) \<and>
    delivered cs = due (fo_gen fo) (se_entries lv) (fo_n fo)"
proof -
  obtain s n where e: "follow_entries d now (fo_gen fo) (fo_sess fo) (fo_n fo) (drop (fo_n fo) (se_entries lv)) = (cs, s, n, None)"
    and fo': "fo' = fo\<lparr>fo_sess := s, fo_n := n\<rparr>"
    using l fmt by (auto simp: follow_look_def split: if_splits prod.splits)
  from follow_entries_mirrors [OF k _ _ m e] lv show ?thesis
    by (auto simp: followable_def fo' delivered_def due_def)
qed

lemma follow_looks_delivers:
  assumes k: "codec_ok (d_codec d)"
  shows "mirrors (d_codec d) (fo_sess fo) (fo_n fo) (se_entries l0) \<Longrightarrow>
    sorted_wrt (\<lambda>a b. prefix (se_entries a) (se_entries b)) (l0 # map (\<lambda>(m, lv, lv'). lv) ls) \<Longrightarrow>
    \<forall>(m, lv, lv')\<in>set ls. followable d lv \<and> h_Format (se_header lv') = se_declared (fo_sess fo) \<Longrightarrow>
    follow_looks d f now i ls fo = (cs, fo', None) \<Longrightarrow> ls \<noteq> [] \<Longrightarrow>
    (\<exists>lv. lv = fst (snd (last ls)) \<and> mirrors (d_codec d) (fo_sess fo') (length (se_entries lv)) (se_entries lv) \<and>
      fo_n fo' = length (se_entries lv) \<and> delivered cs = due (fo_gen fo) (se_entries lv) (fo_n fo))"
proof (induction ls arbitrary: fo l0 cs)
  case (Cons a ls)
  obtain m lv lv' where a: "a = (m, lv, lv')" by (cases a)
  from Cons.prems(4) a obtain cs1 fo1 ds where look: "follow_look d f now i m lv lv' fo = (cs1, fo1, None)"
    and rest: "follow_looks d f now i ls fo1 = (ds, fo', None)" and cs: "cs = cs1 @ ds"
    by (auto split: prod.splits option.splits)
  from Cons.prems(2) a have grow: "prefix (se_entries l0) (se_entries lv)" by simp
  have f: "followable d lv" "h_Format (se_header lv') = se_declared (fo_sess fo)" using Cons.prems(3) a by auto
  have n: "fo_n fo \<le> length (se_entries lv)"
    using Cons.prems(1) prefix_length_le [OF grow] by (simp add: mirrors_def)
  note one = follow_look_delivers [OF k f mirrors_grow [OF Cons.prems(1) grow] look]
  show ?case
  proof (cases "ls = []")
    case True
    with one a cs rest show ?thesis by auto
  next
    case False
    have "(\<exists>l. l = fst (snd (last ls)) \<and> mirrors (d_codec d) (fo_sess fo') (length (se_entries l)) (se_entries l) \<and>
        fo_n fo' = length (se_entries l) \<and> delivered ds = due (fo_gen fo1) (se_entries l) (fo_n fo1))"
      by (rule Cons.IH [of fo1 lv ds]) (use one Cons.prems(2,3) a rest False in auto)
    moreover have "prefix (se_entries lv) (se_entries (fst (snd (last ls))))"
      using Cons.prems(2) a last_in_set [OF False] by (auto simp: split_beta)
    ultimately show ?thesis using one cs False due_grow [OF n] by (auto simp: delivered_def)
  qed
qed simp

section \<open>Cursors come back\<close>

lemma ParseUint_decimal: "n < 2 ^ 64 \<Longrightarrow> ParseUint (decimal n) = Some n"
  by (simp add: ParseUint_def decimal_back)

lemma Atoi_decimal: "n < 2 ^ 63 \<Longrightarrow> Atoi (decimal n) = Some (int n)"
  using decimal_plain [of "hd (decimal n)" n] by (simp add: Atoi_def Let_def decimal_back)

lemma cut_plain: "c \<notin> set a \<Longrightarrow> cut c (a @ c # b) = Some (a, b)"
  by (induction a) auto

lemma cursor_back:
  assumes "gen < 2 ^ 64" "n < 2 ^ 63" "n < len"
  shows "cursor_take gen (memoryCursor gen n) len = (n + 1, True, Snapshot)"
proof -
  have "CHR '':'' \<notin> set (decimal gen)" using decimal_plain by blast
  then have "cut (CHR '':'') (memoryCursor gen n) = Some (decimal gen, decimal n)"
    unfolding memoryCursor_def by (rule cut_plain)
  with assms ParseUint_decimal Atoi_decimal show ?thesis by (simp add: cursor_take_def memoryCursor_def)
qed

text \<open>A cursor of another incarnation never resumes.\<close>

lemma cursor_other:
  assumes "gen' < 2 ^ 64" "gen' \<noteq> gen"
  shows "cursor_take gen (memoryCursor gen' n) len = (len, False, Reset)"
proof -
  have "CHR '':'' \<notin> set (decimal gen')" using decimal_plain by blast
  then have "cut (CHR '':'') (memoryCursor gen' n) = Some (decimal gen', decimal n)"
    unfolding memoryCursor_def by (rule cut_plain)
  with assms ParseUint_decimal [of gen'] show ?thesis
    by (auto simp: cursor_take_def memoryCursor_def split: option.split)
qed

end
