(* ===== verification/Continuation.thy ===== *)
theory Continuation
  imports Store_Sessions
begin

text \<open>
  Working over a store: the config entry that carries the settings in force into a successor
  (\<open>record.go\<close>), the roll-over of a session (\<open>continue.go\<close>), the end of a chain of continuations
  (\<open>refs.go\<close>), and the dispatches of a call in the sessions a fork was made from (\<open>origin.go\<close>).
\<close>

section \<open>A config of the settings in force\<close>

definition requestOnlyKeys :: "string set" where
  "requestOnlyKeys = {''input'', ''previous_response_id'', ''store'', ''stream'', ''stream_options'', ''background''}"

definition settingsKeys :: "string set" where
  "settingsKeys = {''model'', ''instructions'', ''reasoning'', ''text'', ''tools''}"

definition configFromSettings :: "settings \<Rightarrow> config_entry" where
  "configFromSettings s =
     (let whole = s_InstructionsParts s \<noteq> [] \<and> \<not> list_ex part_Unresolved (s_InstructionsParts s)
      in \<lparr>c_base = new_base, c_Model = s_Model s,
          c_Instructions = (if \<not> whole \<and> s_Instructions s \<noteq> [] then Some (s_Instructions s) else None),
          c_Reasoning = (if s_Reasoning s \<noteq> [] then Some (s_Reasoning s) else None),
          c_Text = (if s_Text s \<noteq> [] then Some (s_Text s) else None),
          c_InstructionsParts =
            (if whole then map (\<lambda>p. p\<lparr>ip_Hash := [], ip_Keep := 0\<rparr>) (s_InstructionsParts s) else []),
          c_InstructionsOmitted = None, c_ToolsAdded = s_Tools s, c_ToolsRemoved = [],
          c_Extra = filter (\<lambda>(k, raw). k \<notin> requestOnlyKeys \<union> settingsKeys) (s_Extra s),
          c_Replace = True, c_Omit = None\<rparr>)"

section \<open>Settings a replay leaves\<close>

text \<open>Parts are resolved or marked, the string is the parts joined, tools have one name each, and members one value.\<close>

definition part_settled :: "instruction_part \<Rightarrow> bool" where
  "part_settled p \<longleftrightarrow>
     part_Unresolved p \<or> ip_ID p \<noteq> [] \<and> ip_Hash p = [] \<and> ip_Keep p = 0 \<and> \<not> ip_unresolved p"

definition tool_names :: "tool list \<Rightarrow> string list" where
  "tool_names ts = map tl_Name (filter (\<lambda>t. tl_Name t \<noteq> []) ts)"

definition settled :: "settings \<Rightarrow> bool" where
  "settled s \<longleftrightarrow>
     list_all part_settled (s_InstructionsParts s) \<and>
     (s_InstructionsParts s \<noteq> [] \<and> \<not> unresolvedParts (s_InstructionsParts s) \<longrightarrow> s_Instructions s = JoinInstructions (s_InstructionsParts s)) \<and>
     distinct (tool_names (s_Tools s)) \<and>
     distinct (map fst (s_Extra s)) \<and> list_all (\<lambda>kv. \<not> isNull (snd kv)) (s_Extra s)"

lemma settled_zero [simp]: "settled zero_settings"
  by (simp add: settled_def zero_settings_def tool_names_def)

lemma resolve_hash_settled: "ip_ID p \<noteq> [] \<Longrightarrow> part_settled (resolve_hash hash prev left p)"
  by (auto simp: resolve_hash_def part_settled_def part_Unresolved_def no_part_def Let_def split: option.splits)

lemma apply_parts_settled:
  "list_all part_settled prev \<Longrightarrow> list_all part_settled (map snd (apply_parts hash prev named left ps cursor))"
proof (induction hash prev named left ps cursor rule: apply_parts.induct)
  case (2 hash prev named left p ps cursor)
  have s: "list_all part_settled (map snd (map (\<lambda>q. (True, q)) (slice prev cursor n)))" for n
    using 2(4) by (auto simp: slice_def list_all_iff dest!: in_set_takeD in_set_dropD)
  have u: "part_settled (no_part\<lparr>ip_Keep := k\<rparr>)" if "k > 0" for k
    using that by (simp add: part_settled_def part_Unresolved_def no_part_def)
  have v: "part_settled (no_part\<lparr>ip_Keep := k, ip_unresolved := True\<rparr>)" for k
    by (simp add: part_settled_def part_Unresolved_def)
  show ?case
    using 2 s u v resolve_hash_settled by (simp add: Let_def)
qed simp

lemma tool_names_simps:
  "tool_names (removeTool ts n) = filter (\<lambda>x. x \<noteq> n) (tool_names ts)" "tool_names (ts @ us) = tool_names ts @ tool_names us"
  "tool_names [t] = (if tl_Name t = [] then [] else [tl_Name t])" "tool_names [] = []"
  by (simp_all add: tool_names_def removeTool_def filter_map comp_def conj_commute)

lemma fold_tools:
  "distinct (tool_names ts) \<Longrightarrow> distinct (tool_names (foldl addTool ts new))"
  "distinct (tool_names ts) \<Longrightarrow> distinct (tool_names (foldl removeTool ts names))"
proof -
  show "distinct (tool_names ts) \<Longrightarrow> distinct (tool_names (foldl addTool ts new))"
    by (induction new arbitrary: ts) (simp_all add: addTool_def tool_names_simps)
  show "distinct (tool_names ts) \<Longrightarrow> distinct (tool_names (foldl removeTool ts names))"
    by (induction names arbitrary: ts) (simp_all add: tool_names_simps)
qed

lemma fold_extra:
  "distinct (map fst ex) \<and> list_all (\<lambda>kv. \<not> isNull (snd kv)) ex \<Longrightarrow>
   distinct (map fst (foldl set_extra ex new)) \<and> list_all (\<lambda>kv. \<not> isNull (snd kv)) (foldl set_extra ex new)"
proof (induction new arbitrary: ex)
  case (Cons kv new)
  have "distinct (map fst (set_extra ex kv)) \<and> list_all (\<lambda>kv. \<not> isNull (snd kv)) (set_extra ex kv)"
    using Cons.prems by (auto simp: set_extra_def distinct_map_filter list_all_iff)
  from Cons.IH [OF this] show ?case by simp
qed simp

lemma apply_instructions_settled:
  assumes "settled s" and "s_InstructionsParts out = (if c_Replace c then [] else s_InstructionsParts s)"
    "s_Instructions out = (if c_Replace c then [] else s_Instructions s)"
  shows "let r = apply_instructions hash s c out in list_all part_settled (s_InstructionsParts r) \<and>
    (s_InstructionsParts r \<noteq> [] \<and> \<not> unresolvedParts (s_InstructionsParts r) \<longrightarrow> s_Instructions r = JoinInstructions (s_InstructionsParts r)) \<and>
    s_Tools r = s_Tools out \<and> s_Extra r = s_Extra out"
proof (cases "c_InstructionsParts c = []")
  case True
  with assms show ?thesis by (auto simp: apply_instructions_def Let_def settled_def split: option.splits)
next
  case False
  let ?prev = "if c_Replace c then [] else s_InstructionsParts s"
  have "list_all part_settled (map snd (applyInstructionParts hash ?prev (c_InstructionsParts c) (s_left out)))"
    unfolding applyInstructionParts_def by (rule apply_parts_settled) (use assms(1) in \<open>simp add: settled_def\<close>)
  with False show ?thesis by (simp add: apply_instructions_def Let_def split: option.split)
qed

text \<open>\<open>Apply\<close> in three parts: before the instructions, the instructions, and after.\<close>

definition apply_first :: "settings \<Rightarrow> config_entry \<Rightarrow> settings" where
  "apply_first s c =
     (let out = (if c_Replace c then zero_settings else s\<lparr>s_Omit := omit_clone (s_Omit s)\<rparr>);
          out = apply_omitted s c out;
          out = (case c_Omit c of None \<Rightarrow> out | Some d \<Rightarrow> out\<lparr>s_Omit := omit_merged (s_Omit out) d\<rparr>)
      in if c_Model c \<noteq> [] then out\<lparr>s_Model := c_Model c\<rparr> else out)"

definition apply_rest :: "config_entry \<Rightarrow> settings \<Rightarrow> settings" where
  "apply_rest c out =
     (let out = (case c_Reasoning c of None \<Rightarrow> out | Some r \<Rightarrow> out\<lparr>s_Reasoning := r\<rparr>);
          out = (case c_Text c of None \<Rightarrow> out | Some r \<Rightarrow> out\<lparr>s_Text := r\<rparr>);
          out = out\<lparr>s_Tools := foldl removeTool (s_Tools out) (c_ToolsRemoved c)\<rparr>;
          out = out\<lparr>s_Tools := foldl addTool (s_Tools out) (c_ToolsAdded c)\<rparr>
      in out\<lparr>s_Extra := foldl set_extra (s_Extra out) (c_Extra c)\<rparr>)"

lemma Apply_split: "Apply hash s c = apply_rest c (apply_instructions hash s c (apply_first s c))"
  by (simp only: Apply_def apply_first_def apply_rest_def Let_def)

lemma apply_first_fields:
  "s_InstructionsParts (apply_first s c) = (if c_Replace c then [] else s_InstructionsParts s)"
  "s_Instructions (apply_first s c) = (if c_Replace c then [] else s_Instructions s)"
  "s_Tools (apply_first s c) = (if c_Replace c then [] else s_Tools s)"
  "s_Extra (apply_first s c) = (if c_Replace c then [] else s_Extra s)"
  "c_Replace c \<Longrightarrow> s_Model (apply_first s c) = c_Model c"
  "c_Replace c \<Longrightarrow> s_Reasoning (apply_first s c) = []" "c_Replace c \<Longrightarrow> s_Text (apply_first s c) = []"
  by (simp_all add: apply_first_def Let_def apply_omitted_def zero_settings_def split: option.split)

lemma apply_rest_fields:
  "s_InstructionsParts (apply_rest c r) = s_InstructionsParts r" "s_Instructions (apply_rest c r) = s_Instructions r"
  "s_Model (apply_rest c r) = s_Model r"
  "s_Reasoning (apply_rest c r) = (case c_Reasoning c of None \<Rightarrow> s_Reasoning r | Some x \<Rightarrow> x)"
  "s_Text (apply_rest c r) = (case c_Text c of None \<Rightarrow> s_Text r | Some x \<Rightarrow> x)"
  "s_Tools (apply_rest c r) = foldl addTool (foldl removeTool (s_Tools r) (c_ToolsRemoved c)) (c_ToolsAdded c)"
  "s_Extra (apply_rest c r) = foldl set_extra (s_Extra r) (c_Extra c)"
  by (simp_all add: apply_rest_def Let_def split: option.split)

lemma settled_Apply:
  assumes "settled s"
  shows "settled (Apply hash s c)"
proof -
  let ?r = "apply_instructions hash s c (apply_first s c)"
  note i = apply_instructions_settled [OF assms apply_first_fields(1,2), of hash, unfolded Let_def]
  have t: "distinct (tool_names (foldl addTool (foldl removeTool (s_Tools ?r) (c_ToolsRemoved c)) (c_ToolsAdded c)))"
    using assms i by (intro fold_tools) (simp add: settled_def tool_names_simps apply_first_fields)
  have e: "distinct (map fst (s_Extra ?r)) \<and> list_all (\<lambda>kv. \<not> isNull (snd kv)) (s_Extra ?r)"
    using assms i by (simp add: settled_def apply_first_fields)
  from i t fold_extra [OF e, of "c_Extra c"] show ?thesis
    by (simp add: settled_def Apply_split apply_rest_fields)
qed

lemma settled_replay: "settled (foldl (Apply hash) zero_settings cs)"
proof -
  have "settled s \<Longrightarrow> settled (foldl (Apply hash) s cs)" for s
    by (induction cs arbitrary: s) (simp_all add: settled_Apply)
  then show ?thesis by simp
qed

section \<open>The config restores them\<close>

lemma add_tools_back: "distinct (tool_names (ts @ us)) \<Longrightarrow> foldl addTool ts us = ts @ us"
proof (induction us arbitrary: ts)
  case (Cons u us)
  have "tl_Name t \<noteq> tl_Name u" if "t \<in> set ts" "tl_Name u \<noteq> []" for t
  proof -
    have "tl_Name u \<notin> set (tool_names ts)" using Cons.prems that(2) by (auto simp: tool_names_def)
    with that show ?thesis by (auto simp: tool_names_def image_iff)
  qed
  then have "addTool ts u = ts @ [u]" by (auto simp: addTool_def removeTool_def filter_id_conv)
  with Cons show ?case by simp
qed (simp add: tool_names_def)

lemma set_extra_back:
  "distinct (map fst (ex @ new)) \<Longrightarrow> list_all (\<lambda>kv. \<not> isNull (snd kv)) new \<Longrightarrow> foldl set_extra ex new = ex @ new"
proof (induction new arbitrary: ex)
  case (Cons kv new)
  have "fst x \<noteq> fst kv" if "x \<in> set ex" for x
  proof -
    from that have "fst x \<in> fst ` set ex" by (rule imageI)
    moreover have "fst kv \<notin> fst ` set ex" using Cons.prems(1) by simp
    ultimately show ?thesis by metis
  qed
  then have "set_extra ex kv = ex @ [kv]" using Cons.prems(2) by (simp add: set_extra_def filter_id_conv)
  with Cons show ?case by simp
qed simp

lemma apply_whole_parts:
  "\<forall>p\<in>set ps. ip_ID p \<noteq> [] \<and> ip_Hash p = [] \<and> ip_Keep p = 0 \<and> \<not> ip_unresolved p \<Longrightarrow>
   map snd (apply_parts hash [] named left ps n) = ps"
proof (induction ps arbitrary: n)
  case (Cons p ps)
  have "resolve_hash hash [] left p = p" using Cons.prems by (simp add: resolve_hash_def no_part_def Let_def)
  with Cons show ?case by simp
qed simp

lemma config_restores:
  assumes st: "settled s" and keys: "\<forall>k\<in>fst ` set (s_Extra s). k \<notin> requestOnlyKeys \<union> settingsKeys"
    and r_def: "r = Apply hash t (configFromSettings s)"
  shows "s_Model r = s_Model s" "s_Instructions r = s_Instructions s" "s_Reasoning r = s_Reasoning s" "s_Text r = s_Text s"
    "s_Tools r = s_Tools s" "s_Extra r = s_Extra s"
    "s_InstructionsParts r = (if unresolvedParts (s_InstructionsParts s) then [] else s_InstructionsParts s)"
proof -
  let ?c = "configFromSettings s" and ?ps = "s_InstructionsParts s"
  let ?whole = "?ps \<noteq> [] \<and> \<not> unresolvedParts ?ps"
  have c: "c_Replace ?c" "c_Model ?c = s_Model s" "c_ToolsAdded ?c = s_Tools s" "c_ToolsRemoved ?c = []" "c_Omit ?c = None"
    "c_InstructionsOmitted ?c = None" "c_Reasoning ?c = (if s_Reasoning s \<noteq> [] then Some (s_Reasoning s) else None)"
    "c_Text ?c = (if s_Text s \<noteq> [] then Some (s_Text s) else None)"
    "c_Instructions ?c = (if \<not> ?whole \<and> s_Instructions s \<noteq> [] then Some (s_Instructions s) else None)"
    "c_InstructionsParts ?c = (if ?whole then map (\<lambda>p. p\<lparr>ip_Hash := [], ip_Keep := 0\<rparr>) ?ps else [])"
    by (simp_all add: configFromSettings_def Let_def unresolvedParts_def)
  have "filter (\<lambda>(k, raw). k \<notin> requestOnlyKeys \<union> settingsKeys) (s_Extra s) = s_Extra s"
    unfolding filter_id_conv using keys by (auto intro: rev_image_eqI)
  then have x: "c_Extra ?c = s_Extra s" by (simp add: configFromSettings_def Let_def)
  have tools: "foldl addTool [] (s_Tools s) = s_Tools s" using add_tools_back [of "[]"] st by (simp add: settled_def)
  have extra: "foldl set_extra [] (s_Extra s) = s_Extra s" using set_extra_back [of "[]"] st by (simp add: settled_def)
  have whole: "map snd (applyInstructionParts hash [] (map (\<lambda>p. p\<lparr>ip_Hash := [], ip_Keep := 0\<rparr>) ?ps) left) = ?ps \<and>
      s_Instructions s = JoinInstructions ?ps"
    if "?ps \<noteq> []" "\<not> unresolvedParts ?ps" for left
  proof -
    have p: "ip_ID p \<noteq> [] \<and> ip_Hash p = [] \<and> ip_Keep p = 0 \<and> \<not> ip_unresolved p" if "p \<in> set ?ps" for p
      using st that \<open>\<not> unresolvedParts ?ps\<close> by (auto simp: settled_def part_settled_def unresolvedParts_def list_all_iff list_ex_iff)
    then have "map (\<lambda>p. p\<lparr>ip_Hash := [], ip_Keep := 0\<rparr>) ?ps = ?ps" by (intro map_idI) simp
    with p apply_whole_parts [of ?ps] that st show ?thesis by (simp add: applyInstructionParts_def settled_def)
  qed
  let ?i = "apply_instructions hash t ?c (apply_first t ?c)"
  have i: "s_InstructionsParts ?i = (if unresolvedParts ?ps then [] else ?ps)" "s_Instructions ?i = s_Instructions s"
    using whole by (auto simp: apply_instructions_def apply_first_fields c Let_def unresolvedParts_def)
  have j: "s_Model ?i = s_Model s" "s_Reasoning ?i = []" "s_Text ?i = []" "s_Tools ?i = []" "s_Extra ?i = []"
    by (simp_all add: apply_instructions_def apply_first_fields c Let_def split: option.split)
  show "s_Model r = s_Model s" "s_Instructions r = s_Instructions s" "s_Reasoning r = s_Reasoning s" "s_Text r = s_Text s"
    "s_Tools r = s_Tools s" "s_Extra r = s_Extra s"
    "s_InstructionsParts r = (if unresolvedParts ?ps then [] else ?ps)"
    unfolding r_def Apply_split apply_rest_fields i j c x using tools extra by simp_all
qed

section \<open>Rolling a session over\<close>

definition NewLinkEntry :: "string \<Rightarrow> string \<Rightarrow> link_entry" where
  "NewLinkEntry rel session = \<lparr>ln_base = new_base, ln_Rel = rel, ln_Session = session, ln_CallID = [], ln_SpawnID = [],
     ln_Target = [], ln_URL = [], ln_Task = [], ln_Context = [], ln_Cancel = []\<rparr>"

definition continued_config :: "settings \<Rightarrow> config_entry" where
  "continued_config s =
     (configFromSettings s)\<lparr>
        c_InstructionsOmitted := (if s_InstructionsOmitted s = [] then None else Some (s_InstructionsOmitted s)),
        c_Omit := (if omit_IsZero (s_Omit s) then None else Some (s_Omit s))\<rparr>"

definition continued_header :: "header \<Rightarrow> header" where
  "continued_header h =
     \<lparr>h_Format = [], h_ID = [], h_CreatedAt = 0, h_Payload = [], h_Harness = h_Harness h, h_Records = h_Records h,
      h_CWD = h_CWD h, h_ParentSession = h_ID h, h_SpawnedBy = [], h_Base = [], h_Media = h_Media h,
      h_Redacted = False, h_RedactedFrom = None, h_Extra = []\<rparr>"

text \<open>The entries the successor starts with: the config, the summary, the name.\<close>

definition continued_entries :: "session_context \<Rightarrow> item option \<Rightarrow> string \<Rightarrow> entry list" where
  "continued_entries cx summary name =
     ConfigEntry (continued_config (x_Settings cx)) #
     (case summary of None \<Rightarrow> [] | Some i \<Rightarrow> [ItemEntry ((NewItemEntry i)\<lparr>it_Trust := x_Trust cx\<rparr>)]) @
     (if name = [] then [] else [InfoEntry \<lparr>in_base = new_base, in_Name = name\<rparr>])"

fun append_all :: "deps \<Rightarrow> timestamp \<Rightarrow> string \<Rightarrow> entry list \<Rightarrow> mem_store \<Rightarrow> mem_store \<times> unit res" where
  "append_all d now i [] m = (m, Inr ())"
| "append_all d now i (e # es) m =
     (case store_Append d now i e m of (m, Inl x) \<Rightarrow> (m, Inl x) | (m, Inr _) \<Rightarrow> append_all d now i es m)"

text \<open>\<open>Continue\<close> over the memory store, with no other call between its own.\<close>

definition Continue ::
    "deps \<Rightarrow> ctx \<Rightarrow> fresh \<Rightarrow> timestamp \<Rightarrow> string \<Rightarrow> item option \<Rightarrow> mem_store \<Rightarrow> mem_store \<times> string res" where
  "Continue d cx f now i summary m =
     (case bind_res (Open m i) (\<lambda>old.
             if SupersededBy old \<noteq> [] then Inl ESuperseded
             else bind_res (ContextAt (d_codec d) old (se_leaf old)) (\<lambda>c. Inr (old, c))) of
        Inl x \<Rightarrow> (m, Inl x)
      | Inr (old, c) \<Rightarrow>
          (case Create d cx f (continued_header (se_header old)) [] m of
             (m, Inl x) \<Rightarrow> (m, Inl x)
           | (m, Inr nxt) \<Rightarrow>
               let nextID = h_ID (se_header nxt)
               in case append_all d now nextID (continued_entries c summary (Name old)) m of
                   (m, Inl x) \<Rightarrow> (m, Inl x)
                 | (m, Inr _) \<Rightarrow>
                     (case store_Append d now i (LinkEntry (NewLinkEntry RelContinuedIn nextID)) m of
                        (m, Inl x) \<Rightarrow> (if x = ESuperseded then fst (Delete nextID m) else m, Inl x)
                      | (m, Inr _) \<Rightarrow> (m, Inr nextID))))"

text \<open>A session that names a successor takes no link to another one, whoever appends it.\<close>

lemma second_link_refused:
  assumes s: "sess m i = Some s" "SupersededBy s \<noteq> []" and l: "ln_Rel l = RelContinuedIn" "ln_Session l \<noteq> SupersededBy s"
  shows "\<exists>x. store_Append d now i (LinkEntry l) m = (m, Inl x)"
proof -
  have "check_link s l = Inl ESuperseded" using s l by (simp add: check_link_def refuse_def)
  then have "\<exists>x. checkNew (d_codec d) s (Some (LinkEntry l)) = Inl x"
    by (auto simp: checkNew_def then_res_def bind_res_def split: sum.splits)
  then have "\<exists>x. Prepare (d_codec d) now s (Some (LinkEntry l)) = Inl x"
    by (auto simp: Prepare_def then_res_def bind_res_def split: sum.splits)
  with s(1) show ?thesis
    by (auto simp: store_Append_def Let_def Open_def sess_def then_res_def bind_res_Inr split: sum.splits)
qed

section \<open>The end of a chain of continuations\<close>

text \<open>\<open>chainEnd\<close>, with as many turns as the fuel allows; \<open>None\<close> when they do not suffice.\<close>

fun chain_end :: "nat \<Rightarrow> (string \<Rightarrow> session res) \<Rightarrow> string set \<Rightarrow> bool \<Rightarrow> string \<Rightarrow> (string \<times> bool) res option" where
  "chain_end 0 r seen moved i = None"
| "chain_end (Suc n) r seen moved i =
     (if i \<in> seen then Some (Inl (EInvalid ''continued_in cycle''))
      else case r i of
          Inl x \<Rightarrow> Some (Inl x)
        | Inr s \<Rightarrow>
            if SupersededBy s = [] then Some (Inr (i, moved))
            else chain_end n r (insert i seen) True (SupersededBy s))"

definition chainEnd :: "nat \<Rightarrow> (string \<Rightarrow> session res) \<Rightarrow> string \<Rightarrow> (string \<times> bool) res option" where
  "chainEnd fuel r i = chain_end fuel r {} False i"

definition ResolveCurrent :: "nat \<Rightarrow> deps \<Rightarrow> fresh \<Rightarrow> string \<Rightarrow> mem_store \<Rightarrow> (string \<times> bool) res option" where
  "ResolveCurrent fuel d f name m =
     (case ResolveRef d name m of
        (t, Some x) \<Rightarrow> Some (Inl x)
      | (t, None) \<Rightarrow> chainEnd fuel (store_Read d f m) (rt_Session t))"

lemma chain_end_returns:
  "finite {i. \<exists>s. r i = Inr s} \<Longrightarrow> card ({i. \<exists>s. r i = Inr s} - seen) < fuel \<Longrightarrow> \<exists>y. chain_end fuel r seen moved i = Some y"
proof (induction fuel arbitrary: seen moved i)
  case (Suc n)
  show ?case
  proof (cases "i \<in> seen \<or> (\<exists>x. r i = Inl x)")
    case False
    then obtain s where s: "r i = Inr s" "i \<notin> seen" by (cases "r i") auto
    let ?A = "{i. \<exists>s. r i = Inr s}"
    have "i \<in> ?A - seen" using s by auto
    then have "card (?A - insert i seen) < card (?A - seen)" using Suc.prems(1) by (intro psubset_card_mono) auto
    with Suc s show ?thesis by simp
  qed auto
qed simp

text \<open>Where it ends: at the end of the line of successors, each read from the store.\<close>

inductive succeeded_by :: "(string \<Rightarrow> session res) \<Rightarrow> string \<Rightarrow> string \<Rightarrow> bool" for r where
  here: "succeeded_by r i i"
| further: "r i = Inr s \<Longrightarrow> SupersededBy s \<noteq> [] \<Longrightarrow> succeeded_by r (SupersededBy s) j \<Longrightarrow> succeeded_by r i j"

lemma chain_end_line:
  "chain_end fuel r seen moved i = Some (Inr (e, moved')) \<Longrightarrow>
   succeeded_by r i e \<and> (\<exists>s. r e = Inr s \<and> SupersededBy s = []) \<and> (moved' \<longleftrightarrow> moved \<or> e \<noteq> i)"
proof (induction fuel r seen moved i rule: chain_end.induct)
  case (2 n r seen moved i)
  show ?case
  proof (cases "r i")
    case (Inr s)
    show ?thesis
    proof (cases "SupersededBy s = []")
      case True
      with 2 Inr show ?thesis by (auto intro: succeeded_by.here split: if_splits)
    next
      case False
      with 2 Inr have ih: "succeeded_by r (SupersededBy s) e" "\<exists>s. r e = Inr s \<and> SupersededBy s = []" "moved'"
        by (auto split: if_splits)
      moreover have "e \<noteq> i" using ih(2) Inr False by auto
      ultimately show ?thesis using succeeded_by.further [of r i s e] Inr False by simp
    qed
  qed (use 2 in \<open>auto split: if_splits\<close>)
qed simp

section \<open>Dispatches of a call in a fork's prefix\<close>

definition MaxOriginDepth :: nat where "MaxOriginDepth = 64"

text \<open>The walk up the sessions a fork was made from, with the reads it has left.\<close>

fun origin_walk ::
    "nat \<Rightarrow> (string \<Rightarrow> session res) option \<Rightarrow> string set \<Rightarrow> eid \<Rightarrow> session \<Rightarrow> (session \<times> dispatch_entry list) option res" where
  "origin_walk left r visited call s =
     (if Dispatches s call \<noteq> [] then Inr (Some (s, Dispatches s call))
      else if \<not> Prefix s call \<or> r = None then Inr None
      else let h = se_header s; visited = insert (h_ID h) visited
           in if h_ParentSession h = [] then Inr None
              else if h_ParentSession h \<in> visited then Inl EOriginChain
              else case left of
                  0 \<Rightarrow> Inl EOriginChain
                | Suc left' \<Rightarrow>
                    (case the r (h_ParentSession h) of
                       Inl x \<Rightarrow> if x = ENoSession then Inr None else Inl x
                     | Inr origin \<Rightarrow> origin_walk left' r visited call origin))"

declare origin_walk.simps [simp del]

definition OriginDispatches ::
    "(string \<Rightarrow> session res) option \<Rightarrow> session \<Rightarrow> eid \<Rightarrow> (session \<times> dispatch_entry list) option res" where
  "OriginDispatches r s call = origin_walk MaxOriginDepth r {} call s"

text \<open>The line of sessions above one: the session each names as its parent.\<close>

fun parent_line :: "(string \<Rightarrow> session res) \<Rightarrow> session \<Rightarrow> nat \<Rightarrow> session option" where
  "parent_line r s 0 = Some s"
| "parent_line r s (Suc n) =
     (if h_ParentSession (se_header s) = [] then None
      else case r (h_ParentSession (se_header s)) of Inl _ \<Rightarrow> None | Inr t \<Rightarrow> parent_line r t n)"

text \<open>Sessions the walk passes: they hold the call on their prefix and have no dispatch of it.\<close>

definition passed :: "eid \<Rightarrow> session \<Rightarrow> bool" where
  "passed call s \<longleftrightarrow> Dispatches s call = [] \<and> Prefix s call"

definition first_dispatched :: "(string \<Rightarrow> session res) \<Rightarrow> eid \<Rightarrow> session \<Rightarrow> nat \<Rightarrow> session \<Rightarrow> bool" where
  "first_dispatched r call s n t \<longleftrightarrow>
     parent_line r s n = Some t \<and> Dispatches t call \<noteq> [] \<and> (\<forall>m<n. \<forall>u. parent_line r s m = Some u \<longrightarrow> passed call u)"

lemma first_dispatched_Suc:
  "first_dispatched r call s (Suc n) t \<longleftrightarrow>
   (\<exists>u. h_ParentSession (se_header s) \<noteq> [] \<and> r (h_ParentSession (se_header s)) = Inr u \<and> passed call s \<and> first_dispatched r call u n t)"
  unfolding first_dispatched_def by (auto simp: All_less_Suc2 split: if_splits sum.splits)

lemma origin_walk_sound:
  "origin_walk left (Some r) visited call s = Inr (Some (t, ds)) \<Longrightarrow> \<exists>n\<le>left. first_dispatched r call s n t \<and> ds = Dispatches t call"
proof (induction left "Some r" visited call s rule: origin_walk.induct)
  case (1 left visited call s)
  let ?h = "se_header s"
  show ?case
  proof (cases "Dispatches s call = []")
    case False
    with 1(2) have "t = s" "ds = Dispatches s call" by (auto simp: origin_walk.simps)
    with False show ?thesis by (intro exI [of _ 0]) (simp add: first_dispatched_def)
  next
    case True
    with 1(2) obtain left' u where w: "Prefix s call" "h_ParentSession ?h \<noteq> []" "left = Suc left'"
        "h_ParentSession ?h \<notin> insert (h_ID ?h) visited" "r (h_ParentSession ?h) = Inr u"
        "origin_walk left' (Some r) (insert (h_ID ?h) visited) call u = Inr (Some (t, ds))"
      by (subst (asm) origin_walk.simps) (auto simp: Let_def split: if_splits nat.splits sum.splits)
    from 1(1) [OF _ _ refl refl] True w obtain n where "n \<le> left'" "first_dispatched r call u n t" "ds = Dispatches t call" by auto
    with w True show ?thesis by (intro exI [of _ "Suc n"]) (auto simp: first_dispatched_Suc passed_def)
  qed
qed

lemma parent_line_add:
  "parent_line r s (a + b) = (case parent_line r s a of None \<Rightarrow> None | Some u \<Rightarrow> parent_line r u b)"
  by (induction r s a rule: parent_line.induct) (auto split: sum.split)

text \<open>A reader that returns a session under its own ID.\<close>

definition reads_by_id :: "(string \<Rightarrow> session res) \<Rightarrow> bool" where
  "reads_by_id r \<longleftrightarrow> (\<forall>i s. r i = Inr s \<longrightarrow> h_ID (se_header s) = i)"

lemma parent_line_read: "reads_by_id r \<Longrightarrow> parent_line r s (Suc m) = Some w \<Longrightarrow> r (h_ID (se_header w)) = Inr w"
proof (induction m arbitrary: s)
  case 0
  then show ?case by (auto simp: reads_by_id_def split: if_splits sum.splits)
next
  case (Suc m)
  from Suc.prems(2) obtain u where "parent_line r u (Suc m) = Some w"
    by (subst (asm) parent_line.simps(2)) (auto simp del: parent_line.simps(2) split: if_splits sum.splits)
  with Suc show ?case by blast
qed

text \<open>On the way to the first session with a dispatch, no session is met twice.\<close>

lemma no_return:
  assumes f: "first_dispatched r call s n t" and m: "0 < m" "m \<le> n" and ret: "parent_line r s m = Some s"
  shows False
proof -
  have "parent_line r s (m + (n - m)) = parent_line r s (n - m)" unfolding parent_line_add ret by simp
  with f m have "parent_line r s (n - m) = Some t" "n - m < n" by (auto simp: first_dispatched_def)
  with f show False by (auto simp: first_dispatched_def passed_def)
qed

lemma origin_walk_complete:
  "reads_by_id r \<Longrightarrow> r (h_ID (se_header s)) = Inr s \<Longrightarrow> first_dispatched r call s n t \<Longrightarrow> n \<le> left \<Longrightarrow>
   (\<And>m u. 0 < m \<Longrightarrow> m \<le> n \<Longrightarrow> parent_line r s m = Some u \<Longrightarrow> h_ID (se_header u) \<notin> visited) \<Longrightarrow>
   origin_walk left (Some r) visited call s = Inr (Some (t, Dispatches t call))"
proof (induction n arbitrary: s left visited)
  case 0
  then show ?case by (simp add: first_dispatched_def origin_walk.simps)
next
  case (Suc n)
  let ?h = "se_header s"
  obtain u where u: "h_ParentSession ?h \<noteq> []" "r (h_ParentSession ?h) = Inr u" "passed call s" "first_dispatched r call u n t"
    using Suc.prems(3) by (auto simp: first_dispatched_Suc)
  obtain left' where l: "left = Suc left'" "n \<le> left'" using Suc.prems(4) by (cases left) auto
  have id: "h_ParentSession ?h = h_ID (se_header u)" using Suc.prems(1) u(2) by (simp add: reads_by_id_def)
  have up: "parent_line r s (Suc m) = parent_line r u m" for m using u by simp
  have ids: "h_ID (se_header w) \<noteq> h_ID ?h" if "m \<le> n" "parent_line r u m = Some w" for m w
  proof
    assume eq: "h_ID (se_header w) = h_ID ?h"
    from that(2) up have w: "parent_line r s (Suc m) = Some w" by simp
    from parent_line_read [OF Suc.prems(1) w] eq Suc.prems(2) have "w = s" by simp
    with no_return [OF Suc.prems(3), of "Suc m"] that(1) w show False by simp
  qed
  have new: "h_ParentSession ?h \<notin> insert (h_ID ?h) visited"
    using ids [of 0 u] Suc.prems(5) [of 1 u] up [of 0] id by simp
  have "origin_walk left' (Some r) (insert (h_ID ?h) visited) call u = Inr (Some (t, Dispatches t call))"
  proof (rule Suc.IH [OF Suc.prems(1) _ u(4) l(2)])
    show "r (h_ID (se_header u)) = Inr u" using u(2) id by simp
    show "h_ID (se_header w) \<notin> insert (h_ID ?h) visited" if "0 < m" "m \<le> n" "parent_line r u m = Some w" for m w
      using ids [of m w] Suc.prems(5) [of "Suc m" w] up [of m] that by simp
  qed
  with u new l show ?case by (subst origin_walk.simps) (simp add: passed_def Let_def)
qed

section \<open>Readers\<close>

text \<open>
  What the walk relies on in a store it reads from: in a good state, a session is returned under its
  own ID.  The memory store keeps that by its invariant on sessions and generations.
\<close>

locale session_reader =
  fixes good :: "'s \<Rightarrow> bool" and read :: "'s \<Rightarrow> string \<Rightarrow> session res"
  assumes by_id: "good m \<Longrightarrow> read m i = Inr s \<Longrightarrow> h_ID (se_header s) = i"
begin

lemma reads: "good m \<Longrightarrow> reads_by_id (read m)"
  using by_id by (auto simp: reads_by_id_def)

lemma origin_found:
  assumes "good m" "read m (h_ID (se_header s)) = Inr s" "first_dispatched (read m) call s n t" "n \<le> MaxOriginDepth"
  shows "OriginDispatches (Some (read m)) s call = Inr (Some (t, Dispatches t call))"
  unfolding OriginDispatches_def by (rule origin_walk_complete [OF reads [OF assms(1)] assms(2-4)]) simp

end

interpretation memory_reader: session_reader sessions_ok Open
  by unfold_locales (auto simp: sessions_ok_def Open_sess)

end
