(* ===== verification/Client_Properties.thy ===== *)
theory Client_Properties
  imports Store_Examples Follow Continuation
begin

text \<open>
  What those who work over a store can rely on: its followers, the readers of origins and refs, and
  the roll-over of a session.
\<close>

section \<open>Followers\<close>







text \<open>
  C36: a cursor resumes where it was given out.  Resuming the follow of an incarnation from the cursor
  after its n-th entry reads exactly the header and the first n entries of the file, whatever was
  appended since, and goes on from there, yielding no change for what was seen; the same cursor met
  with a session created again under the ID starts over with a \<open>Reset\<close> of the whole session.
\<close>

theorem cursor_resumes:
  assumes "gen < 2 ^ 64" "n < 2 ^ 63" and "Write (d_wire d) lv = Inr file" and "lines = split_on LF (trim_newlines file)" "n < length lines"
  shows "memoryStart d f lv gen (memoryCursor gen n) =
      bind_res (Read (d_codec d) (d_wire d) f (join_with LF (take (n + 1) lines))) (\<lambda>s. Inr (s, n, True, Snapshot)) \<and>
    (gen' \<noteq> gen \<longrightarrow> memoryStart d f lv gen' (memoryCursor gen n) =
      bind_res (Read (d_codec d) (d_wire d) f (join_with LF lines)) (\<lambda>s. Inr (s, length lines - 1, False, Reset)))"
  using cursor_back [OF assms(1,2,5)] cursor_other [OF assms(1), of gen' n "length lines"] assms(3,4)
  by (simp add: memoryStart_def Let_def)

theorem cursor_resumes_witness:
  "memoryStart ex_deps ex_fresh ex_one 8 (memoryCursor 8 0) =
     bind_res (Read ex_codec ex_w1 ex_fresh ''H'') (\<lambda>s. Inr (s, 0, True, Snapshot))"
proof -
  have "map_sum (\<lambda>_. ()) (\<lambda>x. x) (Write ex_w1 ex_one) = Inr (''H'' @ [LF] @ ''Esha256:a'' @ [LF])" by code_simp
  then have w: "Write (d_wire ex_deps) ex_one = Inr (''H'' @ [LF] @ ''Esha256:a'' @ [LF])"
    by (cases "Write ex_w1 ex_one") simp_all
  have l: "split_on LF (trim_newlines (''H'' @ [LF] @ ''Esha256:a'' @ [LF])) = [''H'', ''Esha256:a'']" by code_simp
  from cursor_resumes [OF _ _ w l [symmetric], of 8 0 ex_fresh] show ?thesis by simp
qed

section \<open>Origins\<close>

text \<open>
  C37: \<open>OriginDispatches\<close> finds the nearest dispatches and nothing else.  Over a reader that returns
  sessions under their own IDs, it returns a session and its dispatches of the call exactly when that
  session is the first with any on the line of parent sessions, at most 64 steps up, every session
  passed on the way holding the call on its prefix; a line that loops never hides one.
\<close>

theorem OriginDispatches_exact:
  assumes "reads_by_id r" and "r (h_ID (se_header s)) = Inr s"
  shows "OriginDispatches (Some r) s call = Inr (Some (t, ds)) \<longleftrightarrow>
    (\<exists>n\<le>64. parent_line r s n = Some t \<and> Dispatches t call = ds \<and> ds \<noteq> [] \<and>
       (\<forall>m<n. \<forall>u. parent_line r s m = Some u \<longrightarrow> Dispatches u call = [] \<and> Prefix u call))"
proof
  assume "OriginDispatches (Some r) s call = Inr (Some (t, ds))"
  from origin_walk_sound [OF this [unfolded OriginDispatches_def MaxOriginDepth_def]]
  show "\<exists>n\<le>64. parent_line r s n = Some t \<and> Dispatches t call = ds \<and> ds \<noteq> [] \<and>
       (\<forall>m<n. \<forall>u. parent_line r s m = Some u \<longrightarrow> Dispatches u call = [] \<and> Prefix u call)"
    by (auto simp: first_dispatched_def passed_def)
next
  assume "\<exists>n\<le>64. parent_line r s n = Some t \<and> Dispatches t call = ds \<and> ds \<noteq> [] \<and>
       (\<forall>m<n. \<forall>u. parent_line r s m = Some u \<longrightarrow> Dispatches u call = [] \<and> Prefix u call)"
  then obtain n where n: "n \<le> 64" "first_dispatched r call s n t" "Dispatches t call = ds"
    by (auto simp: first_dispatched_def passed_def)
  from origin_walk_complete [OF assms n(2,1), of "{}"] n(3)
  show "OriginDispatches (Some r) s call = Inr (Some (t, ds))" by (simp add: OriginDispatches_def MaxOriginDepth_def)
qed

definition ex_child :: session where
  "ex_child = (case Fork ''openresponses/1'' ''s2'' 9 ex_session ''sha256:a'' (ex_header\<lparr>h_ID := ''s2'', h_ParentSession := ''s1''\<rparr>) of
     Inr s \<Rightarrow> s | Inl x \<Rightarrow> ex_start)"

definition ex_reader :: "string \<Rightarrow> session res" where
  "ex_reader i = (if i = ''s1'' then Inr ex_session else if i = ''s2'' then Inr ex_child else Inl ENoSession)"

theorem OriginDispatches_exact_witness:
  "\<exists>ds. OriginDispatches (Some ex_reader) ex_child ''sha256:a'' = Inr (Some (ex_session, ds)) \<and> ds \<noteq> []"
proof -
  have h: "h_ID (se_header ex_child) = ''s2''" "h_ParentSession (se_header ex_child) = ''s1''" "h_ID (se_header ex_session) = ''s1''"
    "Dispatches ex_child ''sha256:a'' = []" "Prefix ex_child ''sha256:a''" "length (Dispatches ex_session ''sha256:a'') = 1"
    by code_simp+
  have r: "reads_by_id ex_reader" using h by (auto simp: reads_by_id_def ex_reader_def split: if_splits)
  have s: "ex_reader (h_ID (se_header ex_child)) = Inr ex_child" using h by (simp add: ex_reader_def)
  have "parent_line ex_reader ex_child 1 = Some ex_session" using h by (simp add: ex_reader_def)
  moreover have "\<forall>m<1. \<forall>u. parent_line ex_reader ex_child m = Some u \<longrightarrow> Dispatches u ''sha256:a'' = [] \<and> Prefix u ''sha256:a''"
    using h by simp
  moreover have "Dispatches ex_session ''sha256:a'' \<noteq> []" using h(6) by auto
  ultimately have "OriginDispatches (Some ex_reader) ex_child ''sha256:a'' = Inr (Some (ex_session, Dispatches ex_session ''sha256:a''))"
    using OriginDispatches_exact [OF r s, of "''sha256:a''" ex_session "Dispatches ex_session ''sha256:a''"]
    by (metis one_le_numeral)
  with \<open>Dispatches ex_session ''sha256:a'' \<noteq> []\<close> show ?thesis by blast
qed

section \<open>Continuations\<close>

lemma store_Read_held: "store_Read d f m i = Inr s \<Longrightarrow> i \<in> fst ` set (ms_sessions m)"
  by (auto simp: store_Read_def bind_res_Inr Open_def dest!: map_of_SomeD split: option.splits intro: rev_image_eqI)

text \<open>
  C38: \<open>ResolveCurrent\<close> always answers.  One turn more than the store has sessions is enough for it to
  return, whatever cycles the \<open>continued_in\<close> links make; and a session it returns is one the store
  reads, with no successor, at the end of the line of successors from the target of the ref, moved
  saying whether it is another than the target.
\<close>

theorem ResolveCurrent_answers:
  assumes "length (ms_sessions m) < fuel"
  shows "\<exists>y. ResolveCurrent fuel d f name m = Some y \<and>
    (case y of
       Inl _ \<Rightarrow> True
     | Inr (e, moved) \<Rightarrow> ResolveRef d name m = (ref_now m name, None) \<and>
         succeeded_by (store_Read d f m) (rt_Session (ref_now m name)) e \<and>
         (\<exists>s. store_Read d f m e = Inr s \<and> SupersededBy s = []) \<and> (moved \<longleftrightarrow> e \<noteq> rt_Session (ref_now m name)))"
proof -
  let ?r = "store_Read d f m"
  have sub: "{i. \<exists>s. ?r i = Inr s} \<subseteq> fst ` set (ms_sessions m)" using store_Read_held by blast
  have "card {i. \<exists>s. ?r i = Inr s} \<le> card (fst ` set (ms_sessions m))" by (rule card_mono [OF _ sub]) simp
  also have "\<dots> \<le> length (ms_sessions m)" using card_length [of "map fst (ms_sessions m)"] by simp
  finally have c: "card ({i. \<exists>s. ?r i = Inr s} - {}) < fuel" using assms by simp
  obtain t x where t: "ResolveRef d name m = (t, x)" by fastforce
  show ?thesis
  proof (cases x)
    case (Some err)
    with t show ?thesis by (simp add: ResolveCurrent_def)
  next
    case None
    from chain_end_returns [OF finite_subset [OF sub] c, of False "rt_Session t"]
    obtain y where y: "chain_end fuel ?r {} False (rt_Session t) = Some y" by auto
    have "t = ref_now m name"
      using t None by (auto simp: ResolveRef_def ref_now_def split: sum.splits option.splits if_splits)
    with t None y chain_end_line [of fuel ?r "{}" False "rt_Session t"] show ?thesis
      by (auto simp: ResolveCurrent_def chainEnd_def split: sum.splits)
  qed
qed

theorem ResolveCurrent_answers_witness:
  "\<exists>y. ResolveCurrent 2 ex_deps ex_fresh ''runs/main'' ex_reffed = Some y"
proof -
  have "length (ms_sessions ex_reffed) < 2" by code_simp
  from ResolveCurrent_answers [OF this] show ?thesis by blast
qed

text \<open>
  The config a successor starts with carries the settings over.  For the settings any replay of
  config entries leaves, with no member recorded under a name the request itself uses, applying the
  config \<open>configFromSettings\<close> builds, over whatever settings are in force, gives back the model, the
  instructions, the reasoning and text members, the tools in their order and every other member; and
  the instruction parts too, unless the path could not rebuild one.
\<close>

theorem config_restores_settings:
  assumes "s = foldl (Apply hash) zero_settings configs"
    and "\<forall>k\<in>fst ` set (s_Extra s). k \<notin> requestOnlyKeys \<union> settingsKeys"
    and "r = Apply hash t (configFromSettings s)"
  shows "s_Model r = s_Model s \<and> s_Instructions r = s_Instructions s \<and> s_Reasoning r = s_Reasoning s \<and> s_Text r = s_Text s \<and>
    s_Tools r = s_Tools s \<and> s_Extra r = s_Extra s \<and>
    s_InstructionsParts r = (if unresolvedParts (s_InstructionsParts s) then [] else s_InstructionsParts s)"
  using config_restores [OF _ assms(2,3)] settled_replay [of hash configs] assms(1) by simp

definition ex_config :: config_entry where
  "ex_config = \<lparr>c_base = new_base, c_Model = ''m1'', c_Instructions = None, c_Reasoning = Some ''{}'', c_Text = None,
     c_InstructionsParts = [no_part\<lparr>ip_ID := ''p'', ip_Text := ''be brief''\<rparr>], c_InstructionsOmitted = None,
     c_ToolsAdded = [\<lparr>tl_Name = ''t1'', tl_raw = ''{}''\<rparr>], c_ToolsRemoved = [], c_Extra = [(''temperature'', ''1'')],
     c_Replace = False, c_Omit = None\<rparr>"

definition ex_settings :: settings where
  "ex_settings = foldl (Apply (\<lambda>x. x)) zero_settings [ex_config]"

theorem config_restores_settings_witness:
  "s_Instructions (Apply (\<lambda>x. x) zero_settings (configFromSettings ex_settings)) = ''be brief'' \<and>
   s_Tools (Apply (\<lambda>x. x) zero_settings (configFromSettings ex_settings)) = [\<lparr>tl_Name = ''t1'', tl_raw = ''{}''\<rparr>]"
proof -
  have f: "s_Instructions ex_settings = ''be brief''" "s_Tools ex_settings = [\<lparr>tl_Name = ''t1'', tl_raw = ''{}''\<rparr>]"
    "s_Extra ex_settings = [(''temperature'', ''1'')]" by code_simp+
  have "\<forall>k\<in>fst ` set (s_Extra ex_settings). k \<notin> requestOnlyKeys \<union> settingsKeys"
    by (simp add: f(3) requestOnlyKeys_def settingsKeys_def)
  from config_restores_settings [OF _ this refl, of "\<lambda>x. x" "[ex_config]" zero_settings] f(1,2) show ?thesis
    by (simp add: ex_settings_def)
qed

text \<open>
  C40: a session continues once.  A store refuses to append a \<open>continued_in\<close> link that names another
  successor than the one the session has, changing nothing, so of two writers that continue one
  session the second is refused; and \<open>Continue\<close> itself refuses a session that has one before it
  creates anything.
\<close>

theorem continues_once:
  assumes "sess m i = Some s" and "SupersededBy s \<noteq> []"
  shows "snd (Continue d cx f now i summary m) = Inl ESuperseded \<and> fst (Continue d cx f now i summary m) = m \<and>
    (ln_Rel l = RelContinuedIn \<longrightarrow> ln_Session l \<noteq> SupersededBy s \<longrightarrow> (\<exists>x. store_Append d now i (LinkEntry l) m = (m, Inl x)))"
  using second_link_refused [OF assms] assms by (auto simp: Continue_def Open_def sess_def)

definition ex_continued :: session where
  "ex_continued = ex_appends 1 [LinkEntry (NewLinkEntry RelContinuedIn ''s2'')] ex_start"

definition ex_rolled :: mem_store where
  "ex_rolled = add_session ex_continued (NewMemoryStore False 7)"

theorem continues_once_witness:
  "\<exists>x. store_Append ex_deps 5 ''s1'' (LinkEntry (NewLinkEntry RelContinuedIn ''s3'')) ex_rolled = (ex_rolled, Inl x)"
proof -
  have f: "h_ID (se_header ex_continued) = ''s1''" "SupersededBy ex_continued = ''s2''" by code_simp+
  have s: "sess ex_rolled ''s1'' = Some ex_continued" by (simp add: ex_rolled_def f(1))
  from continues_once [OF s, where l = "NewLinkEntry RelContinuedIn ''s3''" and d = ex_deps and now = 5] f(2)
  show ?thesis by (simp add: NewLinkEntry_def)
qed

end
