(* ===== verification/Runes.thy ===== *)
theory Runes
  imports Prelude
begin

text \<open>
  Text as Go holds it: a string is a list of bytes (a \<open>char\<close> is a byte), a rune a natural number.
  \<open>decodeRune\<close>, \<open>runes\<close>, \<open>utf8_Valid\<close> and \<open>AppendRune\<close> are what \<open>internal/jcs\<close> and \<open>internal/ijson\<close> use of
  Go's \<open>unicode/utf8\<close> and of the conversion to \<open>[]rune\<close>, \<open>utf16_Encode\<close>, \<open>IsSurrogate\<close> and \<open>DecodePair\<close> of
  \<open>unicode/utf16\<close>.  The order of member names in \<open>internal/jcs\<close> follows: by UTF-16 code units
  (\<open>LessUTF16\<close>), and by bytes where no name needs the conversion (\<open>lessKey\<close>).  The lemmas show that
  decoding undoes encoding on valid text and that the two orders agree.
\<close>

abbreviation byte :: "char \<Rightarrow> nat" where
  "byte c \<equiv> of_char c"

lemma byte_le [simp]: "byte c < 256"
  by (metis of_char_mod_256 mod_less_divisor zero_less_numeral)

lemma byte_char_of [simp]: "n < 256 \<Longrightarrow> byte (char_of n) = n"
  by simp

lemma char_of_byte: "byte c = n \<Longrightarrow> char_of n = c"
  by auto

section \<open>UTF-8\<close>

definition RuneError :: nat where
  "RuneError = 0xFFFD"

definition scalar :: "nat \<Rightarrow> bool" where
  "scalar r \<longleftrightarrow> r < 0xD800 \<or> 0xE000 \<le> r \<and> r \<le> 0x10FFFF"

definition tail_byte :: "char \<Rightarrow> bool" where
  "tail_byte c \<longleftrightarrow> 0x80 \<le> byte c \<and> byte c \<le> 0xBF"

text \<open>The first rune of a string and what follows it; \<open>None\<close> where the bytes are not valid UTF-8.\<close>

definition second_ok :: "nat \<Rightarrow> nat \<Rightarrow> bool" where
  "second_ok b0 b1 \<longleftrightarrow>
     (if b0 = 0xE0 then 0xA0 \<le> b1 \<and> b1 \<le> 0xBF
      else if b0 = 0xED then 0x80 \<le> b1 \<and> b1 \<le> 0x9F
      else if b0 = 0xF0 then 0x90 \<le> b1 \<and> b1 \<le> 0xBF
      else if b0 = 0xF4 then 0x80 \<le> b1 \<and> b1 \<le> 0x8F
      else 0x80 \<le> b1 \<and> b1 \<le> 0xBF)"

definition decodeRune :: "string \<Rightarrow> (nat \<times> string) option" where
  "decodeRune s =
     (case s of
        [] \<Rightarrow> None
      | c # cs \<Rightarrow>
          if byte c < 0x80 then Some (byte c, cs)
          else if 0xC2 \<le> byte c \<and> byte c \<le> 0xDF then
            (case cs of c1 # cs \<Rightarrow>
                if tail_byte c1 then Some (64 * (byte c - 0xC0) + (byte c1 - 0x80), cs) else None
              | _ \<Rightarrow> None)
          else if 0xE0 \<le> byte c \<and> byte c \<le> 0xEF then
            (case cs of c1 # c2 # cs \<Rightarrow>
                if second_ok (byte c) (byte c1) \<and> tail_byte c2
                then Some (4096 * (byte c - 0xE0) + 64 * (byte c1 - 0x80) + (byte c2 - 0x80), cs) else None
              | _ \<Rightarrow> None)
          else if 0xF0 \<le> byte c \<and> byte c \<le> 0xF4 then
            (case cs of c1 # c2 # c3 # cs \<Rightarrow>
                if second_ok (byte c) (byte c1) \<and> tail_byte c2 \<and> tail_byte c3
                then Some (262144 * (byte c - 0xF0) + 4096 * (byte c1 - 0x80) + 64 * (byte c2 - 0x80) + (byte c3 - 0x80), cs)
                else None
              | _ \<Rightarrow> None)
          else None)"

lemma decodeRune_shorter: "decodeRune s = Some (r, t) \<Longrightarrow> length t < length s"
  by (auto simp: decodeRune_def split: list.splits if_splits)

text \<open>\<open>[]rune(s)\<close> and a range over a string: a byte that starts no valid rune reads as U+FFFD.\<close>

function runes :: "string \<Rightarrow> nat list" where
  "runes [] = []"
| "runes (c # cs) =
     (case decodeRune (c # cs) of Some (r, t) \<Rightarrow> r # runes t | None \<Rightarrow> RuneError # runes cs)"
  by pat_completeness auto
termination
  by (relation "measure length") (auto dest: decodeRune_shorter)

function utf8_Valid :: "string \<Rightarrow> bool" where
  "utf8_Valid [] = True"
| "utf8_Valid (c # cs) = (case decodeRune (c # cs) of Some (r, t) \<Rightarrow> utf8_Valid t | None \<Rightarrow> False)"
  by pat_completeness auto
termination
  by (relation "measure length") (auto dest: decodeRune_shorter)

definition AppendRune :: "nat \<Rightarrow> string" where
  "AppendRune r =
     (let q = (if scalar r then r else RuneError)
      in map char_of
        (if q < 0x80 then [q]
         else if q < 0x800 then [0xC0 + q div 64, 0x80 + q mod 64]
         else if q < 0x10000 then [0xE0 + q div 4096, 0x80 + q div 64 mod 64, 0x80 + q mod 64]
         else [0xF0 + q div 262144, 0x80 + q div 4096 mod 64, 0x80 + q div 64 mod 64, 0x80 + q mod 64]))"

lemma sextet_split:
  fixes r :: nat
  obtains q b where "r = 64 * q + b" "b < 64"
  by (metis mod_less_divisor mult_div_mod_eq zero_less_numeral)

lemma sextet_div [simp]:
  fixes q b :: nat
  assumes "b < 64"
  shows "(64 * q + b) div 64 = q" "(64 * q + b) mod 64 = b" "(64 * q + b) div 4096 = q div 64" "(64 * q + b) div 262144 = q div 4096"
proof -
  show 1: "(64 * q + b) div 64 = q" using assms by simp
  show "(64 * q + b) mod 64 = b" using assms by simp
  show "(64 * q + b) div 4096 = q div 64" using 1 div_mult2_eq [of "64 * q + b" 64 64] by simp
  show "(64 * q + b) div 262144 = q div 4096" using 1 div_mult2_eq [of "64 * q + b" 64 4096] by simp
qed

lemma AppendRune_1: "r < 0x80 \<Longrightarrow> AppendRune r = [char_of r]"
  by (simp add: AppendRune_def scalar_def)

lemma AppendRune_2:
  assumes "2 \<le> a" "a < 32" "b < 64"
  shows "AppendRune (64 * a + b) = [char_of (0xC0 + a), char_of (0x80 + b)]"
  using assms by (simp add: AppendRune_def scalar_def)

lemma sextet_div3:
  fixes a b c :: nat
  assumes "b < 64" "c < 64"
  shows "(4096 * a + 64 * b + c) div 4096 = a" "(4096 * a + 64 * b + c) div 64 mod 64 = b" "(4096 * a + 64 * b + c) mod 64 = c"
proof -
  have e: "4096 * a + 64 * b + c = 64 * (64 * a + b) + c" by simp
  show "(4096 * a + 64 * b + c) div 4096 = a" "(4096 * a + 64 * b + c) div 64 mod 64 = b" "(4096 * a + 64 * b + c) mod 64 = c"
    unfolding e sextet_div [OF assms(2)] using sextet_div [OF assms(1)] by blast+
qed

lemma sextet_div4:
  fixes a b c d :: nat
  assumes "b < 64" "c < 64" "d < 64"
  shows "(262144 * a + 4096 * b + 64 * c + d) div 262144 = a" "(262144 * a + 4096 * b + 64 * c + d) div 4096 mod 64 = b"
    "(262144 * a + 4096 * b + 64 * c + d) div 64 mod 64 = c" "(262144 * a + 4096 * b + 64 * c + d) mod 64 = d"
proof -
  have e: "262144 * a + 4096 * b + 64 * c + d = 64 * (64 * (64 * a + b) + c) + d" by simp
  show "(262144 * a + 4096 * b + 64 * c + d) div 262144 = a" "(262144 * a + 4096 * b + 64 * c + d) div 4096 mod 64 = b"
    "(262144 * a + 4096 * b + 64 * c + d) div 64 mod 64 = c" "(262144 * a + 4096 * b + 64 * c + d) mod 64 = d"
    unfolding e sextet_div [OF assms(3)] using sextet_div [OF assms(1)] sextet_div [OF assms(2)] by metis+
qed

lemma AppendRune_3:
  assumes "a < 16" "b < 64" "c < 64" "0x800 \<le> 4096 * a + 64 * b + c" "scalar (4096 * a + 64 * b + c)"
  shows "AppendRune (4096 * a + 64 * b + c) = [char_of (0xE0 + a), char_of (0x80 + b), char_of (0x80 + c)]"
  using assms sextet_div3 [OF assms(2,3), of a] by (simp add: AppendRune_def Let_def)

lemma AppendRune_4:
  assumes "a < 5" "b < 64" "c < 64" "d < 64" "16 \<le> 64 * a + b" "64 * a + b < 272"
  shows "AppendRune (262144 * a + 4096 * b + 64 * c + d) =
    [char_of (0xF0 + a), char_of (0x80 + b), char_of (0x80 + c), char_of (0x80 + d)]"
  using assms sextet_div4 [OF assms(2-4), of a] by (simp add: AppendRune_def Let_def scalar_def)

text \<open>The four shapes of a scalar value.\<close>

lemma scalar_cases:
  assumes "scalar r"
  obtains (one) "r < 0x80"
  | (two) a b where "r = 64 * a + b" "2 \<le> a" "a < 32" "b < 64"
  | (three) a b c where "r = 4096 * a + 64 * b + c" "a < 16" "b < 64" "c < 64" "0x800 \<le> 4096 * a + 64 * b + c"
  | (four) a b c d where "r = 262144 * a + 4096 * b + 64 * c + d" "a < 5" "b < 64" "c < 64" "d < 64"
      "16 \<le> 64 * a + b" "64 * a + b < 272"
proof -
  obtain q d where q: "r = 64 * q + d" "d < 64" by (rule sextet_split)
  obtain p c where p: "q = 64 * p + c" "c < 64" by (rule sextet_split)
  obtain a b where a: "p = 64 * a + b" "b < 64" by (rule sextet_split)
  consider "r < 0x80" | "0x80 \<le> r" "r < 0x800" | "0x800 \<le> r" "r < 0x10000" | "0x10000 \<le> r" by linarith
  then show ?thesis
  proof cases
    case 1 then show ?thesis by (rule one)
  next
    case 2
    with q show ?thesis by (intro two [of q d]) auto
  next
    case 3
    with q p show ?thesis by (intro three [of p c d]) auto
  next
    case 4
    from assms have "r \<le> 0x10FFFF" by (auto simp: scalar_def)
    with 4 q p a show ?thesis by (intro four [of a b c d]) auto
  qed
qed

lemma decode_AppendRune [simp]:
  assumes "scalar r"
  shows "decodeRune (AppendRune r @ s) = Some (r, s)"
  using assms
proof (cases rule: scalar_cases)
  case one
  then show ?thesis by (simp add: AppendRune_1 decodeRune_def)
next
  case (two a b)
  then show ?thesis by (simp add: AppendRune_2 decodeRune_def tail_byte_def)
next
  case (three a b c)
  moreover from this assms have "second_ok (0xE0 + a) (0x80 + b)"
    by (auto simp: second_ok_def scalar_def)
  ultimately show ?thesis using assms by (simp add: AppendRune_3 decodeRune_def tail_byte_def)
next
  case (four a b c d)
  moreover from this have "second_ok (0xF0 + a) (0x80 + b)" by (auto simp: second_ok_def)
  ultimately show ?thesis by (simp add: AppendRune_4 decodeRune_def tail_byte_def)
qed

lemma decodeRune_cases:
  assumes "decodeRune s = Some (r, t)"
  obtains (one) c where "s = c # t" "r = byte c" "byte c < 0x80"
  | (two) c c1 where "s = c # c1 # t" "0xC2 \<le> byte c" "byte c \<le> 0xDF" "tail_byte c1"
      "r = 64 * (byte c - 0xC0) + (byte c1 - 0x80)"
  | (three) c c1 c2 where "s = c # c1 # c2 # t" "0xE0 \<le> byte c" "byte c \<le> 0xEF" "second_ok (byte c) (byte c1)"
      "tail_byte c2" "r = 4096 * (byte c - 0xE0) + 64 * (byte c1 - 0x80) + (byte c2 - 0x80)"
  | (four) c c1 c2 c3 where "s = c # c1 # c2 # c3 # t" "0xF0 \<le> byte c" "byte c \<le> 0xF4" "second_ok (byte c) (byte c1)"
      "tail_byte c2" "tail_byte c3"
      "r = 262144 * (byte c - 0xF0) + 4096 * (byte c1 - 0x80) + 64 * (byte c2 - 0x80) + (byte c3 - 0x80)"
  using assms unfolding decodeRune_def by (force split: list.splits if_splits)

lemma decodeRune_enc:
  assumes "decodeRune s = Some (r, t)"
  shows "s = AppendRune r @ t \<and> scalar r"
  using assms
proof (cases rule: decodeRune_cases)
  case (one c)
  then show ?thesis by (simp add: AppendRune_1 scalar_def)
next
  case (two c c1)
  define a b where "a = byte c - 0xC0" and "b = byte c1 - 0x80"
  with two have "r = 64 * a + b" "2 \<le> a" "a < 32" "b < 64" "byte c = 0xC0 + a" "byte c1 = 0x80 + b"
    by (auto simp: tail_byte_def)
  with two(1) AppendRune_2 [of a b] show ?thesis
    by (simp add: scalar_def char_of_byte [of c] char_of_byte [of c1])
next
  case (three c c1 c2)
  define a b d where "a = byte c - 0xE0" and "b = byte c1 - 0x80" and "d = byte c2 - 0x80"
  with three have e: "r = 4096 * a + 64 * b + d" "a < 16" "b < 64" "d < 64" "byte c = 0xE0 + a" "byte c1 = 0x80 + b" "byte c2 = 0x80 + d"
    by (auto simp: tail_byte_def second_ok_def split: if_splits)
  moreover from e three(4) have "0x800 \<le> r" "scalar r" by (auto simp: second_ok_def scalar_def split: if_splits)
  ultimately show ?thesis using three(1) AppendRune_3 [of a b d]
    by (simp add: char_of_byte [of c] char_of_byte [of c1] char_of_byte [of c2])
next
  case (four c c1 c2 c3)
  define a b d e where "a = byte c - 0xF0" and "b = byte c1 - 0x80" and "d = byte c2 - 0x80" and "e = byte c3 - 0x80"
  with four have f: "r = 262144 * a + 4096 * b + 64 * d + e" "a < 5" "b < 64" "d < 64" "e < 64" "byte c = 0xF0 + a" "byte c1 = 0x80 + b"
      "byte c2 = 0x80 + d" "byte c3 = 0x80 + e"
    by (auto simp: tail_byte_def second_ok_def split: if_splits)
  moreover from f four(4) have "16 \<le> 64 * a + b" "64 * a + b < 272" by (auto simp: second_ok_def split: if_splits)
  ultimately show ?thesis using four(1) AppendRune_4 [of a b d e]
    by (simp add: scalar_def char_of_byte [of c] char_of_byte [of c1] char_of_byte [of c2] char_of_byte [of c3])
qed

lemma AppendRune_nonempty [simp]: "AppendRune r \<noteq> []"
  by (simp add: AppendRune_def Let_def)

lemma runes_AppendRune [simp]: "scalar r \<Longrightarrow> runes (AppendRune r @ s) = r # runes s"
  using decode_AppendRune [of r s] by (cases "AppendRune r @ s") auto

lemma Valid_AppendRune [simp]: "scalar r \<Longrightarrow> utf8_Valid (AppendRune r @ s) = utf8_Valid s"
  using decode_AppendRune [of r s] by (cases "AppendRune r @ s") auto

text \<open>Induction over the runes of valid text.\<close>

lemma Valid_induct [consumes 1, case_names Nil Rune]:
  assumes "utf8_Valid s" and "P []"
    and step: "\<And>r s. scalar r \<Longrightarrow> utf8_Valid s \<Longrightarrow> P s \<Longrightarrow> P (AppendRune r @ s)"
  shows "P s"
  using assms(1)
proof (induction s rule: utf8_Valid.induct)
  case 1
  show ?case by (rule assms(2))
next
  case (2 c cs)
  then obtain r t where d: "decodeRune (c # cs) = Some (r, t)" "utf8_Valid t" by (auto split: option.splits)
  from decodeRune_enc [OF d(1)] step [of r t] 2(1) [OF d(1) refl d(2)] d(2) show ?case by simp
qed

lemma Valid_cases [consumes 1, case_names Nil Rune]:
  assumes "utf8_Valid s"
  obtains "s = []" | r t where "s = AppendRune r @ t" "scalar r" "utf8_Valid t"
  using assms by (induction s rule: Valid_induct) auto

lemma Valid_encode: "list_all scalar rs \<Longrightarrow> utf8_Valid (concat (map AppendRune rs))"
  by (induction rs) simp_all

lemma runes_encode [simp]: "list_all scalar rs \<Longrightarrow> runes (concat (map AppendRune rs)) = rs"
  by (induction rs) simp_all

lemma Valid_runes:
  assumes "utf8_Valid s"
  shows "concat (map AppendRune (runes s)) = s" and "list_all scalar (runes s)"
  using assms by (induction s rule: Valid_induct) simp_all

lemma runes_inject:
  assumes "utf8_Valid s" "utf8_Valid t" "runes s = runes t"
  shows "s = t"
  using assms Valid_runes(1) by metis

lemma AppendRune_ascii [simp]: "r < 128 \<Longrightarrow> AppendRune r = [char_of r]"
  by (simp add: AppendRune_1)

lemma scalar_ascii [simp]: "r < 128 \<Longrightarrow> scalar r"
  by (simp add: scalar_def)

lemma Valid_ascii [simp]: "byte c < 128 \<Longrightarrow> utf8_Valid (c # s) = utf8_Valid s"
  by (simp add: decodeRune_def)

lemma runes_ascii [simp]: "byte c < 128 \<Longrightarrow> runes (c # s) = byte c # runes s"
  by (simp add: decodeRune_def)

lemma AppendRune_high:
  assumes "scalar r" "128 \<le> r" "c \<in> set (AppendRune r)"
  shows "128 \<le> byte c"
  using assms(1)
proof (cases rule: scalar_cases)
  case one
  with assms show ?thesis by simp
next
  case (two a b)
  with assms(3) show ?thesis by (auto simp: AppendRune_2)
next
  case (three a b d)
  with assms(1,3) AppendRune_3 [of a b d] show ?thesis by auto
next
  case (four a b d e)
  with assms(3) AppendRune_4 [of a b d e] show ?thesis by auto
qed

lemma Valid_append: "utf8_Valid s \<Longrightarrow> utf8_Valid (s @ t) = utf8_Valid t"
  by (induction s rule: Valid_induct) simp_all

section \<open>UTF-16\<close>

definition IsSurrogate :: "nat \<Rightarrow> bool" where
  "IsSurrogate r \<longleftrightarrow> 0xD800 \<le> r \<and> r < 0xE000"

text \<open>\<open>utf16.DecodeRune\<close>: the rune of a surrogate pair, U+FFFD where the two are not one.\<close>

definition DecodePair :: "nat \<Rightarrow> nat \<Rightarrow> nat" where
  "DecodePair r1 r2 =
     (if 0xD800 \<le> r1 \<and> r1 < 0xDC00 \<and> 0xDC00 \<le> r2 \<and> r2 < 0xE000
      then (r1 - 0xD800) * 1024 + (r2 - 0xDC00) + 0x10000 else RuneError)"

definition utf16_rune :: "nat \<Rightarrow> nat list" where
  "utf16_rune r =
     (if r < 0xD800 \<or> 0xE000 \<le> r \<and> r < 0x10000 then [r]
      else if 0x10000 \<le> r \<and> r \<le> 0x10FFFF then [0xD800 + (r - 0x10000) div 1024, 0xDC00 + (r - 0x10000) mod 1024]
      else [RuneError])"

definition utf16_Encode :: "nat list \<Rightarrow> nat list" where
  "utf16_Encode rs = concat (map utf16_rune rs)"

section \<open>The order of member names\<close>

text \<open>The loop of \<open>LessUTF16\<close> over two lists of code units.\<close>

fun less_units :: "nat list \<Rightarrow> nat list \<Rightarrow> bool" where
  "less_units (u # us) (v # vs) = (if u \<noteq> v then u < v else less_units us vs)"
| "less_units us vs = (length us < length vs)"

definition LessUTF16 :: "string \<Rightarrow> string \<Rightarrow> bool" where
  "LessUTF16 a b = less_units (utf16_Encode (runes a)) (utf16_Encode (runes b))"

definition hasSupplementary :: "string \<Rightarrow> bool" where
  "hasSupplementary s \<longleftrightarrow> list_ex (\<lambda>c. 0xF0 \<le> byte c) s"

text \<open>\<open>bytes.Compare(a, b) < 0\<close> is the lexicographic order of the bytes.\<close>

definition lessKey :: "string \<Rightarrow> string \<Rightarrow> bool" where
  "lessKey a b = (if \<not> hasSupplementary a \<and> \<not> hasSupplementary b then a < b else LessUTF16 a b)"

lemma Nil_less [simp]: "([] < (xs :: 'a :: order list)) = (xs \<noteq> [])"
  by (cases xs) simp_all

lemma same_prefix_less [simp]: "(xs @ ys < xs @ zs) = (ys < (zs :: 'a :: order list))"
  by (induction xs) simp_all

lemma less_units_lex: "less_units us vs \<longleftrightarrow> us < vs"
  by (induction us vs rule: less_units.induct) (auto simp: not_less_iff_gr_or_eq)

lemma utf16_rune_nonempty [simp]: "utf16_rune r \<noteq> []"
  by (simp add: utf16_rune_def)

lemma utf16_rune_eq:
  assumes "scalar r" "scalar q" "utf16_rune r @ us = utf16_rune q @ vs"
  shows "r = q \<and> us = vs"
proof -
  have d: "x = y" if "x div 1024 = y div 1024" "x mod 1024 = y mod 1024" for x y :: nat
    using that by (metis div_mult_mod_eq)
  have b: "x div 1024 < 1024" if "x \<le> 0xFFFFF" for x :: nat using that by simp
  from assms d [of "r - 0x10000" "q - 0x10000"] b [of "r - 0x10000"] b [of "q - 0x10000"] show ?thesis
    by (auto simp: utf16_rune_def scalar_def split: if_splits)
qed

lemma utf16_Encode_inject:
  assumes "list_all scalar rs" "list_all scalar qs" "utf16_Encode rs = utf16_Encode qs"
  shows "rs = qs"
  using assms
proof (induction rs arbitrary: qs)
  case Nil
  then show ?case by (cases qs) (auto simp: utf16_Encode_def)
next
  case (Cons r rs)
  have "utf16_Encode (r # rs) \<noteq> []" by (simp add: utf16_Encode_def)
  with Cons.prems(3) obtain q qs' where q: "qs = q # qs'" by (cases qs) (simp_all add: utf16_Encode_def)
  have "utf16_rune r @ utf16_Encode rs = utf16_rune q @ utf16_Encode qs'"
    using Cons.prems(3) by (simp add: q utf16_Encode_def)
  with utf16_rune_eq [of r q] Cons.prems(1,2) q have "r = q" "utf16_Encode rs = utf16_Encode qs'" by simp_all
  with Cons.IH [of qs'] Cons.prems(1,2) q show ?case by simp
qed

text \<open>On valid text the order is a strict linear one.\<close>

lemma LessUTF16_irrefl [simp]: "\<not> LessUTF16 a a"
  by (simp add: LessUTF16_def less_units_lex)

lemma LessUTF16_trans: "LessUTF16 a b \<Longrightarrow> LessUTF16 b c \<Longrightarrow> LessUTF16 a c"
  by (simp add: LessUTF16_def less_units_lex)

lemma LessUTF16_total:
  assumes "utf8_Valid a" "utf8_Valid b" "a \<noteq> b"
  shows "LessUTF16 a b \<or> LessUTF16 b a"
  using assms utf16_Encode_inject [OF Valid_runes(2) [OF assms(1)] Valid_runes(2) [OF assms(2)]] runes_inject [of a b]
  by (auto simp: LessUTF16_def less_units_lex not_less_iff_gr_or_eq neq_iff)

lemma char_of_less: "x < 256 \<Longrightarrow> y < 256 \<Longrightarrow> (char_of x < char_of y) = (x < (y :: nat))"
  by (simp add: less_char_def)

text \<open>UTF-8 keeps the order of the runes.\<close>

lemma AppendRune_less:
  assumes "scalar r" "scalar q" "r < q"
  shows "AppendRune r @ s < AppendRune q @ t"
  using assms(2)
proof (cases rule: scalar_cases)
  case one
  with assms show ?thesis by (simp add: char_of_less)
next
  case (two a b)
  note q = this AppendRune_2 [OF two(2-4)]
  from assms(1) show ?thesis
  proof (cases rule: scalar_cases)
    case one
    with q show ?thesis by (simp add: char_of_less)
  next
    case (two a' b')
    with assms(3) q show ?thesis using AppendRune_2 [OF two(2-4)] by (auto simp: char_of_less)
  qed (use assms(3) q in auto)
next
  case (three a b c)
  have q: "AppendRune q = [char_of (0xE0 + a), char_of (0x80 + b), char_of (0x80 + c)]"
    using AppendRune_3 [of a b c] three assms(2) by simp
  from assms(1) show ?thesis
  proof (cases rule: scalar_cases)
    case one
    with q three show ?thesis by (simp add: char_of_less)
  next
    case (two a' b')
    with q three show ?thesis using AppendRune_2 [OF two(2-4)] by (simp add: char_of_less)
  next
    case (three a' b' c')
    with q \<open>a < 16\<close> \<open>b < 64\<close> \<open>c < 64\<close> \<open>q = 4096 * a + 64 * b + c\<close> assms(1,3) AppendRune_3 [of a' b' c'] show ?thesis
      by (auto simp: char_of_less)
  qed (use assms(3) three in auto)
next
  case (four a b c d)
  note q = this AppendRune_4 [OF four(2-7)]
  from assms(1) show ?thesis
  proof (cases rule: scalar_cases)
    case one
    with q show ?thesis by (simp add: char_of_less)
  next
    case (two a' b')
    with q show ?thesis using AppendRune_2 [OF two(2-4)] by (simp add: char_of_less)
  next
    case (three a' b' c')
    with q assms(1) AppendRune_3 [of a' b' c'] show ?thesis by (simp add: char_of_less)
  next
    case (four a' b' c' d')
    with q assms(3) AppendRune_4 [OF four(2-7)] show ?thesis by (auto simp: char_of_less)
  qed
qed

lemma bytes_less_runes:
  assumes "utf8_Valid a" "utf8_Valid b"
  shows "a < b \<longleftrightarrow> runes a < runes b"
  using assms
proof (induction a arbitrary: b rule: Valid_induct)
  case Nil
  then show ?case by (cases b rule: Valid_cases) auto
next
  case (Rune r s)
  from Rune.prems show ?case
  proof (cases b rule: Valid_cases)
    case Nil
    then show ?thesis by simp
  next
    case (Rune q t)
    consider "r < q" | "r = q" | "q < r" by linarith
    then show ?thesis
    proof cases
      case 2
      with Rune \<open>scalar r\<close> Rune.IH [of t] show ?thesis by simp
    next
      case 3
      with AppendRune_less [OF \<open>scalar q\<close> \<open>scalar r\<close> 3, of t s] Rune \<open>scalar r\<close> show ?thesis by (simp add: order.asym)
    qed (use AppendRune_less [OF \<open>scalar r\<close>, of q s t] Rune \<open>scalar r\<close> in simp)
  qed
qed

lemma AppendRune_supplementary:
  assumes "scalar r" "\<not> hasSupplementary (AppendRune r)"
  shows "r < 0x10000"
  using assms(1)
proof (cases rule: scalar_cases)
  case (four a b c d)
  with assms(2) AppendRune_4 [OF four(2-7)] show ?thesis by (simp add: hasSupplementary_def)
qed simp_all

lemma plain_units:
  assumes "utf8_Valid a" "\<not> hasSupplementary a"
  shows "utf16_Encode (runes a) = runes a"
  using assms
proof (induction a rule: Valid_induct)
  case (Rune r s)
  then have "r < 0x10000" using AppendRune_supplementary by (auto simp: hasSupplementary_def)
  with Rune show ?case by (auto simp: utf16_Encode_def utf16_rune_def scalar_def hasSupplementary_def)
qed (simp add: utf16_Encode_def)

lemma lessKey_UTF16: "utf8_Valid a \<Longrightarrow> utf8_Valid b \<Longrightarrow> lessKey a b = LessUTF16 a b"
  by (simp add: lessKey_def LessUTF16_def less_units_lex bytes_less_runes plain_units)

declare runes.simps(2) [simp del] utf8_Valid.simps(2) [simp del]

end
