(* ===== verification/Numbers.thy ===== *)
theory Numbers
  imports Complex_Main Runes
begin

text \<open>
  Numbers as the canonical form writes them.  A \<open>float64\<close> is a rational number (or one of the values
  JSON cannot carry); \<open>round_double\<close> is the rounding to binary64, to nearest and ties to even, that
  \<open>strconv.ParseFloat\<close> makes, and \<open>FormatFloat_e\<close> the shortest digits that read back as the number, as
  \<open>strconv.FormatFloat(f, 'e', -1, 64)\<close> gives them.  \<open>FormatNumber\<close> is the function of \<open>internal/jcs/jcs.go\<close>.
  The lemmas show that what it writes reads back as the number, and that an integer of at most
  fifteen digits is written as it stands, on which the byte-level path of the canonical form rests.
\<close>

section \<open>Logarithms\<close>

fun nlen :: "nat \<Rightarrow> nat \<Rightarrow> nat" where
  "nlen b n = (if n = 0 \<or> b < 2 then 0 else Suc (nlen b (n div b)))"

declare nlen.simps [simp del]

text \<open>The exponent of the leading digit of a positive number in a base.\<close>

definition ilog :: "nat \<Rightarrow> rat \<Rightarrow> int" where
  "ilog b x =
     (case quotient_of x of (p, q) \<Rightarrow>
        let e = int (nlen b (nat p)) - int (nlen b (nat q)) in if of_nat b powi e \<le> x then e else e - 1)"

lemma nlen_bounds:
  assumes "2 \<le> b" "0 < n"
  shows "b ^ (nlen b n - 1) \<le> n \<and> n < b ^ nlen b n \<and> 0 < nlen b n"
  using assms
proof (induction b n rule: nlen.induct)
  case (1 b n)
  show ?case
  proof (cases "n < b")
    case True
    with 1(2,3) show ?thesis by (simp add: nlen.simps [of b n] nlen.simps [of b 0])
  next
    case False
    with 1(2) have "0 < n div b" by (simp add: div_greater_zero_iff)
    with 1 have IH: "b ^ (nlen b (n div b) - 1) \<le> n div b" "n div b < b ^ nlen b (n div b)" "0 < nlen b (n div b)" by auto
    have l: "nlen b n = Suc (nlen b (n div b))" using 1(2,3) by (simp add: nlen.simps [of b n])
    from IH(3) obtain k where k: "nlen b (n div b) = Suc k" by (cases "nlen b (n div b)") auto
    from IH(1) k have "b ^ k * b \<le> n div b * b" by (intro mult_right_mono) simp_all
    also have "\<dots> \<le> n" by simp
    finally have "b ^ Suc k \<le> n" by (simp add: mult.commute)
    moreover have "n < b ^ Suc (Suc k)" using IH(2) k 1(2) by (simp add: div_less_iff_less_mult mult.commute)
    ultimately show ?thesis by (simp add: l k del: power_Suc)
  qed
qed

lemma nlen_powi:
  assumes "2 \<le> b" "0 < p"
  shows "rat_of_nat b powi (int (nlen b (nat p)) - 1) \<le> of_int p" "of_int p < rat_of_nat b powi int (nlen b (nat p))"
proof -
  define P where "P = nlen b (nat p)"
  from nlen_bounds [OF assms(1), of "nat p"] assms(2) have n: "b ^ (P - 1) \<le> nat p" "nat p < b ^ P" "0 < P"
    by (simp_all add: P_def)
  have e: "rat_of_nat (nat p) = of_int p" using assms(2) by simp
  have i: "int P - 1 = int (P - 1)" using n(3) by simp
  from n(1) have "rat_of_nat (b ^ (P - 1)) \<le> rat_of_nat (nat p)" by (simp only: of_nat_le_iff)
  then show "rat_of_nat b powi (int (nlen b (nat p)) - 1) \<le> of_int p"
    unfolding P_def [symmetric] i power_int_of_nat e of_nat_power .
  from n(2) have "rat_of_nat (nat p) < rat_of_nat (b ^ P)" by (simp only: of_nat_less_iff)
  then show "of_int p < rat_of_nat b powi int (nlen b (nat p))"
    unfolding P_def [symmetric] power_int_of_nat e of_nat_power .
qed

lemma ilog_bounds:
  assumes "2 \<le> b" "0 < x"
  shows "of_nat b powi ilog b x \<le> x" "x < of_nat b powi (ilog b x + 1)"
proof -
  obtain p q where pq: "quotient_of x = (p, q)" by fastforce
  have q: "0 < q" by (rule quotient_of_denom_pos [OF pq])
  have x: "x = of_int p / of_int q" by (rule quotient_of_div [OF pq])
  with assms(2) q have p: "0 < p" by (simp add: zero_less_divide_iff)
  define P Q where "P = nlen b (nat p)" and "Q = nlen b (nat q)"
  let ?b = "rat_of_nat b"
  have b: "1 < ?b" "0 < ?b" "?b \<noteq> 0" using assms(1) by auto
  have P: "?b powi (int P - 1) \<le> of_int p" "of_int p < ?b powi int P"
    unfolding P_def by (rule nlen_powi [OF assms(1) p])+
  have Q: "?b powi (int Q - 1) \<le> of_int q" "of_int q < ?b powi int Q"
    unfolding Q_def by (rule nlen_powi [OF assms(1) q])+
  have "?b powi (int P - int Q - 1) = ?b powi (int P - 1) / ?b powi int Q"
    using b by (simp add: power_int_diff)
  also have "\<dots> \<le> x" unfolding x using P(1) Q(2) p q b by (intro frac_le) auto
  finally have lo: "?b powi (int P - int Q - 1) \<le> x" .
  have "x < ?b powi int P / ?b powi (int Q - 1)"
    unfolding x using P(2) Q(1) p b by (intro frac_less) auto
  also have "\<dots> = ?b powi (int P - int Q + 1)" using b by (simp add: power_int_diff power_int_add)
  finally have hi: "x < ?b powi (int P - int Q + 1)" .
  from lo hi show "?b powi ilog b x \<le> x" "x < ?b powi (ilog b x + 1)"
    by (auto simp: ilog_def pq Let_def P_def [symmetric] Q_def [symmetric])
qed

lemma ilog_unique:
  assumes "2 \<le> b" "of_nat b powi e \<le> x" "x < of_nat b powi (e + 1)"
  shows "ilog b x = e"
proof -
  let ?b = "rat_of_nat b"
  have b: "1 < ?b" using assms(1) by simp
  have "0 < ?b powi e" using assms(1) by (intro zero_less_power_int) simp
  with assms(2) have "0 < x" by linarith
  note l = ilog_bounds [OF assms(1) this]
  have "?b powi ilog b x < ?b powi (e + 1)" using l(1) assms(3) by simp
  then have "ilog b x < e + 1" using power_int_increasing [of "e + 1" "ilog b x" ?b] b by (meson not_le order_less_imp_le linorder_not_less)
  moreover have "?b powi e < ?b powi (ilog b x + 1)" using l(2) assms(2) by simp
  then have "e < ilog b x + 1" using power_int_increasing [of "ilog b x + 1" e ?b] b by (meson not_le order_less_imp_le linorder_not_less)
  ultimately show ?thesis by simp
qed

section \<open>Rounding to binary64\<close>

definition round_even :: "rat \<Rightarrow> int" where
  "round_even x = (let k = \<lfloor>x\<rfloor>; d = x - of_int k in if d < 1 / 2 \<or> d = 1 / 2 \<and> even k then k else k + 1)"

definition overflows :: "rat \<Rightarrow> bool" where
  "overflows v \<longleftrightarrow> 2 ^ 1024 \<le> v"

text \<open>The nearest double of a rational number, \<open>None\<close> where it overflows.\<close>

definition round_double :: "rat \<Rightarrow> rat option" where
  "round_double x =
     (if x = 0 then Some 0
      else let e = max (- 1074) (ilog 2 \<bar>x\<bar> - 52);
               v = of_int (round_even (\<bar>x\<bar> / 2 powi e)) * 2 powi e
           in if overflows v then None else Some (if x < 0 then - v else v))"

lemma round_even_int [simp]: "round_even (of_int k) = k"
  by (simp add: round_even_def)

lemma round_even_bound: "x < of_int k \<Longrightarrow> round_even x \<le> k"
  by (auto simp: round_even_def Let_def floor_less_iff le_floor_iff intro: order_less_imp_le)

lemma round_even_nonneg: "0 \<le> x \<Longrightarrow> 0 \<le> round_even x"
  by (auto simp: round_even_def Let_def)

definition double_of :: "nat \<Rightarrow> int \<Rightarrow> rat" where
  "double_of m e = of_nat m * 2 powi e"

lemma two_powi_add: "(2 :: rat) powi (a + b) = 2 powi a * 2 powi b"
  by (simp add: power_int_add)

lemma two_powi_mono: "a \<le> b \<Longrightarrow> (2 :: rat) powi a \<le> 2 powi b"
  by (simp add: power_int_increasing)

text \<open>A number of at most 53 bits is a double, and rounds to itself.\<close>

lemma round_double_exact:
  assumes "0 < m" "m \<le> 2 ^ 53" "- 1074 \<le> e" "\<not> overflows (double_of m e)"
  shows "round_double (double_of m e) = Some (double_of m e)"
proof -
  let ?x = "double_of m e"
  have x: "0 < ?x" using assms(1) by (simp add: double_of_def)
  note l = ilog_bounds [of 2 ?x, OF _ x]
  define e' where "e' = max (- 1074) (ilog 2 ?x - 52)"
  have "\<exists>k. ?x / 2 powi e' = of_int k"
  proof (cases "m = 2 ^ 53")
    case True
    have "?x = 2 powi (53 + e)" unfolding True double_of_def by (simp add: two_powi_add)
    then have "ilog 2 ?x = 53 + e" by (intro ilog_unique) (simp_all add: two_powi_add)
    then have "e' = e + 1" using assms(3) by (simp add: e'_def)
    then have "?x / 2 powi e' = of_int (2 ^ 52)" unfolding True double_of_def by (simp add: two_powi_add)
    then show ?thesis by blast
  next
    case False
    with assms(2) have "rat_of_nat m < rat_of_nat (2 ^ 53)" by (simp only: of_nat_less_iff)
    then have "?x < 2 powi (53 + e)" by (simp add: double_of_def two_powi_add)
    with l(1) have "(2 :: rat) powi ilog 2 ?x < 2 powi (53 + e)" by simp
    then have "ilog 2 ?x < 53 + e" using two_powi_mono [of "53 + e" "ilog 2 ?x"] by linarith
    then have "e' \<le> e" using assms(3) by (simp add: e'_def)
    then have "?x / 2 powi e' = of_int (int m * 2 ^ nat (e - e'))"
      by (simp add: double_of_def power_int_diff [symmetric] power_int_def [of _ "e - e'"] flip: times_divide_eq_right)
    then show ?thesis by blast
  qed
  then obtain k where k: "?x / 2 powi e' = of_int k" ..
  then have "of_int k * 2 powi e' = ?x" by (simp add: field_simps)
  with k x assms(4) show ?thesis by (simp add: round_double_def Let_def e'_def [symmetric])
qed

lemma round_double_shape:
  assumes "round_double x = Some f" "f \<noteq> 0"
  obtains m e where "0 < m" "m \<le> 2 ^ 53" "- 1074 \<le> e" "\<bar>f\<bar> = double_of m e" "\<not> overflows (double_of m e)"
proof -
  from assms have x: "x \<noteq> 0" by (auto simp: round_double_def)
  define e where "e = max (- 1074) (ilog 2 \<bar>x\<bar> - 52)"
  define k where "k = round_even (\<bar>x\<bar> / 2 powi e)"
  have f: "f = (if x < 0 then - (of_int k * 2 powi e) else of_int k * 2 powi e)" "\<not> overflows (of_int k * 2 powi e)"
    using assms(1) x unfolding round_double_def Let_def e_def [symmetric] k_def [symmetric] by (auto split: if_splits)
  have "\<bar>x\<bar> < 2 powi (ilog 2 \<bar>x\<bar> + 1)" using ilog_bounds(2) [of 2 "\<bar>x\<bar>"] x by simp
  also have "\<dots> \<le> 2 powi (53 + e)" by (intro two_powi_mono) (simp add: e_def)
  finally have "\<bar>x\<bar> / 2 powi e < of_int (2 ^ 53)" by (simp add: two_powi_add divide_less_eq)
  then have "k \<le> 2 ^ 53" unfolding k_def by (rule round_even_bound)
  moreover have "0 \<le> k" unfolding k_def by (intro round_even_nonneg) simp
  moreover have "k \<noteq> 0" using f(1) assms(2) by (auto split: if_splits)
  ultimately show ?thesis using f by (intro that [of "nat k" e]) (auto simp: double_of_def e_def abs_mult)
qed

lemma round_double_minus: "round_double (- x) = map_option uminus (round_double x)"
  by (simp add: round_double_def Let_def)

lemma round_double_idem:
  assumes "round_double x = Some f"
  shows "round_double f = Some f"
proof (cases "f = 0")
  case False
  then obtain m e where m: "0 < m" "m \<le> 2 ^ 53" "- 1074 \<le> e" "\<bar>f\<bar> = double_of m e" "\<not> overflows (double_of m e)"
    using round_double_shape [OF assms] by blast
  from round_double_exact [OF m(1-3,5)] m(4) have "round_double \<bar>f\<bar> = Some \<bar>f\<bar>" by simp
  then show ?thesis using round_double_minus [of "\<bar>f\<bar>"] by (cases "f < 0") auto
qed (simp add: round_double_def)

lemma round_double_nat: "n < 2 ^ 53 \<Longrightarrow> round_double (of_nat n) = Some (of_nat n)"
proof (cases "n = 0")
  case False
  assume n: "n < 2 ^ 53"
  have "rat_of_nat n < rat_of_nat (2 ^ 53)" using n by (simp only: of_nat_less_iff)
  then have "rat_of_nat n < 2 ^ 1024" by (rule order_less_trans) simp
  then have "\<not> overflows (of_nat n)" by (simp only: overflows_def not_le)
  with round_double_exact [of n 0] n False show ?thesis by (simp add: double_of_def)
qed (simp add: round_double_def)

section \<open>Literals\<close>

definition is_digit :: "char \<Rightarrow> bool" where
  "is_digit c \<longleftrightarrow> 48 \<le> byte c \<and> byte c \<le> 57"

definition dec_nat :: "string \<Rightarrow> nat" where
  "dec_nat ds = foldl (\<lambda>n c. 10 * n + (byte c - 48)) 0 ds"

definition exponent_of :: "string \<Rightarrow> int" where
  "exponent_of s =
     (case s of
        [] \<Rightarrow> 0
      | c # t \<Rightarrow>
          if c = CHR ''e'' \<or> c = CHR ''E'' then
            (case t of
               [] \<Rightarrow> 0
             | d # u \<Rightarrow> if d = CHR ''-'' then - int (dec_nat u) else if d = CHR ''+'' then int (dec_nat u) else int (dec_nat t))
          else 0)"

text \<open>The exact value of a number literal without its sign, and with it.\<close>

definition magnitude :: "string \<Rightarrow> rat" where
  "magnitude s =
     (let ip = takeWhile is_digit s;
          s' = dropWhile is_digit s;
          fp = (case s' of [] \<Rightarrow> [] | c # t \<Rightarrow> if c = CHR ''.'' then takeWhile is_digit t else []);
          s'' = (case s' of [] \<Rightarrow> [] | c # t \<Rightarrow> if c = CHR ''.'' then dropWhile is_digit t else s')
      in of_nat (dec_nat (ip @ fp)) * 10 powi (exponent_of s'' - int (length fp)))"

definition lit_value :: "string \<Rightarrow> rat" where
  "lit_value s = (case s of [] \<Rightarrow> 0 | c # t \<Rightarrow> if c = CHR ''-'' then - magnitude t else magnitude s)"

text \<open>\<open>strconv.ParseFloat(lit, 64)\<close> on a JSON number: the nearest double, or a range error.\<close>

definition ParseFloat :: "string \<Rightarrow> rat res" where
  "ParseFloat lit = (case round_double (lit_value lit) of None \<Rightarrow> Inl (EInvalid ''value out of range'') | Some f \<Rightarrow> Inr f)"

section \<open>The shortest digits\<close>

text \<open>
  The number of \<open>k\<close> digits, with the leading one at the exponent \<open>e\<close>, that is nearest to \<open>f\<close> among those
  that read back as \<open>f\<close>, ties to even.
\<close>

definition candidate :: "rat \<Rightarrow> int \<Rightarrow> nat \<Rightarrow> nat option" where
  "candidate f e k =
     (let s = 10 powi (e - int k + 1);
          q = nat \<lfloor>f / s\<rfloor>;
          r = f / s - of_nat q;
          lo = (round_double (of_nat q * s) = Some f);
          hi = (round_double (of_nat (Suc q) * s) = Some f)
      in if r = 0 then Some q
         else if lo \<and> hi then Some (if r < 1 / 2 \<or> r = 1 / 2 \<and> even q then q else Suc q)
         else if lo then Some q
         else if hi then Some (Suc q)
         else None)"

text \<open>
  The search for the least number of digits.  Every double is a multiple of \<open>2 powi - 1074\<close> and below
  \<open>10 powi 309\<close>, so that at most 1400 digits write it exactly and the search ends.
\<close>

fun shortest_from :: "nat \<Rightarrow> nat \<Rightarrow> rat \<Rightarrow> int \<Rightarrow> nat \<times> int" where
  "shortest_from 0 k f e = (0, 0)"
| "shortest_from (Suc n) k f e =
     (case candidate f e k of Some d \<Rightarrow> (d, e - int k + 1) | None \<Rightarrow> shortest_from n (Suc k) f e)"

definition strip0 :: "string \<Rightarrow> string" where
  "strip0 ds = rev (dropWhile (\<lambda>c. c = CHR ''0'') (rev ds))"

text \<open>\<open>strconv.FormatFloat(f, 'e', -1, 64)\<close> for \<open>f > 0\<close>: the digits and the exponent of the first.\<close>

definition FormatFloat_e :: "rat \<Rightarrow> string \<times> int" where
  "FormatFloat_e f =
     (case shortest_from 1400 1 f (ilog 10 f) of (d, x) \<Rightarrow>
        (strip0 (decimal d), x + int (length (decimal d)) - 1))"

section \<open>FormatNumber\<close>

datatype float64 = NaN | Inf bool | Finite rat

definition int_Itoa :: "int \<Rightarrow> string" where
  "int_Itoa i = (if i < 0 then CHR ''-'' # decimal (nat (- i)) else decimal (nat i))"

definition layout_number :: "string \<Rightarrow> int \<Rightarrow> string" where
  "layout_number digits n =
     (let k = int (length digits)
      in if k \<le> n \<and> n \<le> 21 then digits @ replicate (nat (n - k)) (CHR ''0'')
         else if 0 < n \<and> n \<le> 21 then take (nat n) digits @ CHR ''.'' # drop (nat n) digits
         else if - 6 < n \<and> n \<le> 0 then ''0.'' @ replicate (nat (- n)) (CHR ''0'') @ digits
         else take 1 digits @ (if 1 < k then CHR ''.'' # drop 1 digits else []) @
           CHR ''e'' # (if 0 \<le> n - 1 then ''+'' else []) @ int_Itoa (n - 1))"

definition FormatNumber :: "float64 \<Rightarrow> string res" where
  "FormatNumber v =
     (case v of
        Finite f \<Rightarrow>
          if f = 0 then Inr ''0''
          else case FormatFloat_e \<bar>f\<bar> of (digits, ex) \<Rightarrow>
            Inr ((if f < 0 then ''-'' else []) @ layout_number digits (ex + 1))
      | _ \<Rightarrow> Inl (EInvalid ''jcs: NaN and infinity are not representable''))"

section \<open>What the search finds\<close>

lemma candidate_back:
  assumes "round_double f = Some f" "0 < f" "candidate f e k = Some d"
  shows "round_double (of_nat d * 10 powi (e - int k + 1)) = Some f"
proof -
  define s :: rat where "s = 10 powi (e - int k + 1)"
  define q where "q = nat \<lfloor>f / s\<rfloor>"
  have "s \<noteq> 0" by (simp add: s_def)
  then have "f / s - of_nat q = 0 \<Longrightarrow> of_nat q * s = f" by (simp add: field_simps)
  with assms(1,3) have "round_double (of_nat d * s) = Some f"
    unfolding candidate_def Let_def s_def [symmetric] q_def [symmetric] by (auto split: if_splits)
  then show ?thesis by (simp add: s_def)
qed

lemma candidate_exact:
  assumes "0 < f" "f / 10 powi (e - int k + 1) = of_nat q"
  shows "candidate f e k = Some q"
  using assms by (simp add: candidate_def Let_def)

lemma shortest_from_back:
  assumes "round_double f = Some f" "0 < f" "candidate f e j \<noteq> None" "k \<le> j" "j < k + n"
    and "shortest_from n k f e = (d, x)"
  shows "round_double (of_nat d * 10 powi x) = Some f"
  using assms(3-)
proof (induction n arbitrary: k)
  case (Suc n)
  show ?case
  proof (cases "candidate f e k")
    case None
    with Suc.prems have "k \<noteq> j" by auto
    with Suc.IH [of "Suc k"] Suc.prems None show ?thesis by simp
  qed (use candidate_back [OF assms(1,2)] Suc.prems in auto)
qed simp

lemma round_double_pos:
  assumes "round_double f = Some f" "0 < f"
  obtains m e where "0 < m" "- 1074 \<le> e" "f = double_of m e" "\<not> overflows f"
proof (rule round_double_shape [OF assms(1)])
  show "f \<noteq> 0" using assms(2) by simp
qed (use assms(2) that in auto)

lemma two_powi_ten:
  assumes "- int n \<le> e"
  shows "(2 :: rat) powi e * 10 ^ n = of_nat (2 ^ nat (e + int n) * 5 ^ n)"
proof -
  have "(10 :: rat) ^ n = 2 powi int n * 5 ^ n" using power_mult_distrib [of "2 :: rat" 5 n] by simp
  then have "(2 :: rat) powi e * 10 ^ n = (2 powi e * 2 powi int n) * 5 ^ n" by (simp only: mult.assoc)
  also have "2 powi e * 2 powi int n = (2 :: rat) powi (e + int n)" by (simp only: two_powi_add)
  also have "\<dots> = 2 ^ nat (e + int n)" using assms by (simp add: power_int_def)
  finally show ?thesis by (simp only: of_nat_mult of_nat_power of_nat_numeral)
qed

lemma double_log10:
  assumes "round_double f = Some f" "0 < f"
  shows "- 324 \<le> ilog 10 f" "ilog 10 f \<le> 308"
proof -
  from assms obtain m x where m: "0 < m" "- 1074 \<le> x" "f = double_of m x" "\<not> overflows f"
    by (rule round_double_pos)
  note l = ilog_bounds [of 10 f, OF _ assms(2), simplified]
  have "(10 :: rat) powi (- 324) \<le> 2 powi (- 1074)" by simp
  also have "\<dots> \<le> 2 powi x" using m(2) by (rule two_powi_mono)
  also have "\<dots> \<le> f" using m(1,3) by (simp add: double_of_def)
  finally have "10 powi (- 324) < (10 :: rat) powi (ilog 10 f + 1)" using l(2) by linarith
  then have "\<not> ilog 10 f + 1 \<le> - 324" using power_int_increasing [of "ilog 10 f + 1" "- 324" "10 :: rat"] by linarith
  then show "- 324 \<le> ilog 10 f" by simp
  have "f < 2 ^ 1024" using m(4) unfolding overflows_def by linarith
  also have "\<dots> \<le> (10 :: rat) ^ 309" by simp
  also have "\<dots> = 10 powi 309" by simp
  finally have "(10 :: rat) powi ilog 10 f < 10 powi 309" using l(1) by linarith
  then have "\<not> 309 \<le> ilog 10 f" using power_int_increasing [of 309 "ilog 10 f" "10 :: rat"] by linarith
  then show "ilog 10 f \<le> 308" by simp
qed

lemma shortest_found:
  assumes "round_double f = Some f" "0 < f"
  shows "candidate f (ilog 10 f) (nat (ilog 10 f + 1075)) \<noteq> None"
proof -
  from assms obtain m x where m: "0 < m" "- 1074 \<le> x" "f = double_of m x"
    by (rule round_double_pos)
  have k: "int (nat (ilog 10 f + 1075)) = ilog 10 f + 1075" using double_log10 [OF assms] by simp
  have "f / 10 powi (- 1074) = of_nat m * (2 powi x * 10 ^ 1074)"
    using m(3) by (simp only: double_of_def power_int_minus power_int_numeral divide_inverse inverse_inverse_eq mult.assoc)
  also have "\<dots> = of_nat (m * (2 ^ nat (x + 1074) * 5 ^ 1074))"
    using two_powi_ten [of 1074 x] m(2) by (simp only: of_nat_mult of_nat_numeral)
  finally obtain q where "f / 10 powi (- 1074) = rat_of_nat q" by blast
  moreover have "ilog 10 f - int (nat (ilog 10 f + 1075)) + 1 = - 1074" using k by simp
  ultimately show ?thesis using candidate_exact [OF assms(2), of "ilog 10 f" "nat (ilog 10 f + 1075)" q]
    by (simp only: option.distinct not_False_eq_True)
qed

lemma shortest_back:
  assumes "round_double f = Some f" "0 < f" "shortest_from 1400 1 f (ilog 10 f) = (d, x)"
  shows "round_double (of_nat d * 10 powi x) = Some f"
  using double_log10 [OF assms(1,2)]
  by (intro shortest_from_back [OF assms(1,2) shortest_found [OF assms(1,2)] _ _ assms(3)]) auto

section \<open>Digits and their value\<close>

lemma dec_nat_simps [simp]: "dec_nat [] = 0" "dec_nat [c] = byte c - 48"
  by (simp_all add: dec_nat_def)

lemma dec_nat_snoc: "dec_nat (ds @ [c]) = 10 * dec_nat ds + (byte c - 48)"
  by (simp add: dec_nat_def)

lemma dec_nat_append: "dec_nat (xs @ ys) = dec_nat xs * 10 ^ length ys + dec_nat ys"
proof (induction ys rule: rev_induct)
  case (snoc y ys)
  have "dec_nat (xs @ ys @ [y]) = 10 * dec_nat (xs @ ys) + (byte y - 48)" using dec_nat_snoc [of "xs @ ys" y] by simp
  with snoc show ?case by (simp add: dec_nat_snoc)
qed simp

lemma dec_nat_zeros [simp]: "dec_nat (replicate z (CHR ''0'')) = 0"
  by (induction z) (simp_all add: replicate_append_same [symmetric] dec_nat_snoc)

lemma dec_nat_decimal [simp]: "dec_nat (decimal n) = n"
proof (induction n rule: decimal.induct)
  case (1 n)
  then show ?case by (cases "n < 10") (simp_all add: decimal_small decimal_rec dec_nat_append)
qed

lemma decimal_is_digit [simp]: "list_all is_digit (decimal n)"
  using decimal_digits by (auto simp: list_all_iff is_digit_def)

lemma strip0_split: "ds = strip0 ds @ replicate (length ds - length (strip0 ds)) (CHR ''0'')"
proof (induction ds rule: rev_induct)
  case (snoc c ds)
  show ?case
  proof (cases "c = CHR ''0''")
    case True
    then have s: "strip0 (ds @ [c]) = strip0 ds" by (simp add: strip0_def)
    have "length (strip0 ds) \<le> length ds" by (simp add: strip0_def length_dropWhile_le [of _ "rev ds", simplified])
    with snoc True s show ?thesis by (simp add: Suc_diff_le replicate_append_same flip: append_assoc) (metis append_assoc replicate_append_same)
  qed (simp add: strip0_def)
qed (simp add: strip0_def)

lemma strip0_value: "dec_nat ds = dec_nat (strip0 ds) * 10 ^ (length ds - length (strip0 ds))"
  using arg_cong [OF strip0_split [of ds], of dec_nat] by (simp add: dec_nat_append)

lemma strip0_digits: "list_all is_digit ds \<Longrightarrow> list_all is_digit (strip0 ds)"
  using set_dropWhileD [of _ "\<lambda>c. c = CHR ''0''" "rev ds"] by (auto simp: strip0_def list_all_iff)

lemma strip0_length: "length (strip0 ds) \<le> length ds"
  using length_dropWhile_le [of _ "rev ds"] by (simp add: strip0_def)

text \<open>The digits and the exponent of the first have the value the search found.\<close>

lemma FormatFloat_e_back:
  assumes "round_double f = Some f" "0 < f" "FormatFloat_e f = (ds, x)"
  shows "round_double (of_nat (dec_nat ds) * 10 powi (x + 1 - int (length ds))) = Some f"
    and "list_all is_digit ds" and "ds \<noteq> []" and "hd ds \<noteq> CHR ''0''"
proof -
  obtain d y where s: "shortest_from 1400 1 f (ilog 10 f) = (d, y)" by fastforce
  from assms(3) s have ds: "ds = strip0 (decimal d)" and x: "x = y + int (length (decimal d)) - 1"
    by (auto simp: FormatFloat_e_def)
  note bk = shortest_back [OF assms(1,2) s]
  have "round_double 0 = Some 0" by (simp add: round_double_def)
  with bk assms(2) have d: "d \<noteq> 0" by (cases d) simp_all
  have v: "of_nat d = rat_of_nat (dec_nat ds) * 10 powi int (length (decimal d) - length ds)"
    using arg_cong [OF strip0_value [of "decimal d"], of rat_of_nat] unfolding ds dec_nat_decimal of_nat_mult by simp
  have l: "length ds \<le> length (decimal d)" unfolding ds by (rule strip0_length)
  have "x + 1 - int (length ds) = int (length (decimal d) - length ds) + y" using l x by simp
  then have "of_nat (dec_nat ds) * 10 powi (x + 1 - int (length ds)) = of_nat d * (10 :: rat) powi y"
    unfolding v by (simp add: power_int_add)
  with bk show "round_double (of_nat (dec_nat ds) * 10 powi (x + 1 - int (length ds))) = Some f" by simp
  show "list_all is_digit ds" unfolding ds by (intro strip0_digits) simp
  show ne: "ds \<noteq> []" using v d by auto
  have "decimal d = ds @ replicate (length (decimal d) - length ds) (CHR ''0'')"
    using strip0_split [of "decimal d"] unfolding ds .
  then have "hd (decimal d) = hd ds" using ne by (metis hd_append2)
  then show "hd ds \<noteq> CHR ''0''" using decimal_hd [of d] d by simp
qed

lemma takeWhile_digits [simp]:
  "list_all is_digit ds \<Longrightarrow> takeWhile is_digit (ds @ s) = ds @ takeWhile is_digit s"
  "list_all is_digit ds \<Longrightarrow> dropWhile is_digit (ds @ s) = dropWhile is_digit s"
  by (induction ds) simp_all

lemma takeWhile_all_digits [simp]:
  "list_all is_digit ds \<Longrightarrow> takeWhile is_digit ds = ds" "list_all is_digit ds \<Longrightarrow> dropWhile is_digit ds = []"
  by (induction ds) simp_all

lemma not_digit [simp]: "\<not> is_digit (CHR ''.'')" "\<not> is_digit (CHR ''e'')" "\<not> is_digit (CHR ''E'')" "\<not> is_digit (CHR ''-'')"
    "\<not> is_digit (CHR ''+'')" "is_digit (CHR ''0'')"
  by (simp_all add: is_digit_def)

lemma digits_zeros [simp]: "list_all is_digit (replicate z (CHR ''0''))"
  by (simp add: list_all_iff)

lemma magnitude_int: "list_all is_digit ds \<Longrightarrow> magnitude ds = of_nat (dec_nat ds)"
  by (simp add: magnitude_def exponent_of_def)

lemma magnitude_frac:
  "list_all is_digit ds \<Longrightarrow> list_all is_digit fs \<Longrightarrow>
   magnitude (ds @ CHR ''.'' # fs) = of_nat (dec_nat (ds @ fs)) * 10 powi (- int (length fs))"
  by (simp add: magnitude_def exponent_of_def Let_def)

lemma magnitude_exp:
  assumes "list_all is_digit ds" "list_all is_digit fs"
  shows "magnitude (ds @ CHR ''e'' # s) = of_nat (dec_nat ds) * 10 powi exponent_of (CHR ''e'' # s)"
    and "magnitude (ds @ CHR ''.'' # fs @ CHR ''e'' # s) =
      of_nat (dec_nat (ds @ fs)) * 10 powi (exponent_of (CHR ''e'' # s) - int (length fs))"
  using assms by (simp_all add: magnitude_def)

lemma exponent_Itoa: "exponent_of (CHR ''e'' # (if 0 \<le> i then ''+'' else []) @ int_Itoa i) = i"
  by (simp add: exponent_of_def int_Itoa_def)

lemma dec_nat_leading: "dec_nat (''0'' @ ds) = dec_nat ds" "dec_nat (CHR ''0'' # ds) = dec_nat ds" "dec_nat (replicate z (CHR ''0'') @ ds) = dec_nat ds"
  using dec_nat_append [of "''0''" ds] by (simp_all add: dec_nat_append)

text \<open>Each of the four layouts writes the value of the digits at the exponent.\<close>

lemma layout_value:
  assumes "list_all is_digit ds" "ds \<noteq> []"
  shows "magnitude (layout_number ds n) = of_nat (dec_nat ds) * 10 powi (n - int (length ds))"
proof -
  let ?k = "int (length ds)"
  have td: "list_all is_digit (take m ds)" "list_all is_digit (drop m ds)" for m
    using assms(1) by (auto simp: list_all_iff dest: in_set_takeD in_set_dropD)
  consider (int) "?k \<le> n" "n \<le> 21" | (frac) "\<not> ?k \<le> n" "0 < n" "n \<le> 21" | (small) "- 6 < n" "n \<le> 0"
    | (exp) "\<not> (?k \<le> n \<and> n \<le> 21)" "\<not> (0 < n \<and> n \<le> 21)" "\<not> (- 6 < n \<and> n \<le> 0)" by linarith
  then show ?thesis
  proof cases
    case int
    then have "magnitude (layout_number ds n) = of_nat (dec_nat ds * 10 ^ nat (n - ?k))"
      using assms(1) by (simp add: layout_number_def Let_def magnitude_int dec_nat_append)
    with int show ?thesis by (simp add: power_int_def)
  next
    case frac
    then have "layout_number ds n = take (nat n) ds @ CHR ''.'' # drop (nat n) ds"
      by (simp add: layout_number_def Let_def)
    with frac show ?thesis using magnitude_frac [OF td(1) td(2), of "nat n" "nat n"] by simp
  next
    case small
    moreover have "0 < length ds" using assms(2) by simp
    with small have "\<not> ?k \<le> n" by linarith
    ultimately have "layout_number ds n = ''0'' @ CHR ''.'' # (replicate (nat (- n)) (CHR ''0'') @ ds)"
      by (simp add: layout_number_def Let_def)
    with small assms(1) magnitude_frac [of "''0''" "replicate (nat (- n)) (CHR ''0'') @ ds"] show ?thesis
      by (simp add: dec_nat_leading)
  next
    case exp
    let ?e = "(if 0 \<le> n - 1 then ''+'' else []) @ int_Itoa (n - 1)"
    from exp have l: "layout_number ds n = take 1 ds @ (if 1 < ?k then CHR ''.'' # drop 1 ds else []) @ CHR ''e'' # ?e"
      unfolding layout_number_def Let_def by (simp only: if_False)
    show ?thesis
    proof (cases "1 < ?k")
      case True
      then have "layout_number ds n = take 1 ds @ CHR ''.'' # drop 1 ds @ CHR ''e'' # ?e" unfolding l by simp
      then have "magnitude (layout_number ds n) = of_nat (dec_nat ds) * 10 powi (n - 1 - int (length (drop 1 ds)))"
        using magnitude_exp(2) [OF td(1) td(2), of 1 1 ?e] unfolding exponent_Itoa by simp
      then show ?thesis using True by simp
    next
      case False
      with assms(2) have "take 1 ds = ds" "?k = 1" by (cases ds, auto)+
      with False have "layout_number ds n = ds @ CHR ''e'' # ?e" unfolding l by simp
      with magnitude_exp(1) [OF assms(1), of ds ?e] assms(1) \<open>?k = 1\<close> show ?thesis unfolding exponent_Itoa by simp
    qed
  qed
qed

lemma layout_plain:
  assumes "list_all is_digit ds" "ds \<noteq> []"
  shows "layout_number ds n \<noteq> []" "hd (layout_number ds n) \<noteq> CHR ''-''"
proof -
  have h: "hd ds \<noteq> CHR ''-''" using assms by (cases ds) (auto simp: is_digit_def)
  obtain d ds' where ds: "ds = d # ds'" using assms(2) by (cases ds) auto
  show "layout_number ds n \<noteq> []" "hd (layout_number ds n) \<noteq> CHR ''-''"
    using h by (auto simp: layout_number_def Let_def ds take_Cons' nat_0_iff)
qed

lemma FormatNumber_back:
  assumes "round_double f = Some f"
  obtains lit where "FormatNumber (Finite f) = Inr lit" "ParseFloat lit = Inr f"
proof (cases "f = 0")
  case True
  have "lit_value ''0'' = 0" by (simp add: lit_value_def magnitude_def is_digit_def exponent_of_def)
  with True that [of "''0''"] show ?thesis by (simp add: FormatNumber_def ParseFloat_def round_double_def)
next
  case False
  obtain ds x where d: "FormatFloat_e \<bar>f\<bar> = (ds, x)" by fastforce
  have a: "round_double \<bar>f\<bar> = Some \<bar>f\<bar>" using assms round_double_minus [of f] by (cases "f < 0") simp_all
  note b = FormatFloat_e_back [OF a _ d]
  let ?l = "layout_number ds (x + 1)"
  have v: "round_double (magnitude ?l) = Some \<bar>f\<bar>" using b False by (simp add: layout_value)
  have p: "?l \<noteq> []" "hd ?l \<noteq> CHR ''-''" using layout_plain b False by simp_all
  let ?s = "(if f < 0 then ''-'' else []) @ ?l"
  have "round_double (lit_value ?s) = Some f"
    using v p round_double_minus [of "magnitude ?l"] by (cases ?l) (auto simp: lit_value_def)
  with False d show ?thesis by (intro that [of ?s]) (simp_all add: FormatNumber_def ParseFloat_def)
qed

section \<open>Short integers are written as they stand\<close>

text \<open>A positive number is digits that end in no zero, and zeros.\<close>

lemma nat_zeros:
  assumes "0 < (n :: nat)"
  obtains d z where "n = d * 10 ^ z" "\<not> 10 dvd d"
  using assms
proof (induction n arbitrary: thesis rule: less_induct)
  case (less n)
  show ?case
  proof (cases "10 dvd n")
    case True
    then obtain m where m: "n = 10 * m" ..
    with less.prems(2) have "m < n" "0 < m" by auto
    then obtain d z where "m = d * 10 ^ z" "\<not> 10 dvd d" using less.IH by blast
    with m less.prems(1) [of d "Suc z"] show ?thesis by simp
  next
    case False
    with less.prems(1) [of n 0] show ?thesis by simp
  qed
qed

lemma decimal_no_strip:
  assumes "\<not> 10 dvd d"
  shows "strip0 (decimal d) = decimal d"
proof -
  have "char_of (48 + d mod 10) \<noteq> CHR ''0''"
  proof
    assume "char_of (48 + d mod 10) = CHR ''0''"
    then have "byte (char_of (48 + d mod 10)) = byte (CHR ''0'')" by simp
    then show False using assms by (simp add: dvd_eq_mod_eq_0)
  qed
  moreover have "decimal d = butlast (decimal d) @ [char_of (48 + d mod 10)]"
    by (cases "d < 10") (simp_all add: decimal_small decimal_rec)
  ultimately show ?thesis unfolding strip0_def by (metis (mono_tags, lifting) dropWhile.simps(2) rev.simps(2) rev_rev_ident rev_swap)
qed

lemma candidate_int_none:
  assumes n: "0 < n" "n < 10 ^ 15" and e: "int k \<le> e" and nd: "\<not> 10 ^ nat (e - int k + 1) dvd n" and e15: "e < 15"
  shows "candidate (of_nat n) e k = None"
proof -
  define j where "j = nat (e - int k + 1)"
  have s: "10 powi (e - int k + 1) = rat_of_nat (10 ^ j)" using e by (simp add: j_def power_int_def)
  define q where "q = n div 10 ^ j"
  have q: "nat \<lfloor>rat_of_nat n / rat_of_nat (10 ^ j)\<rfloor> = q" unfolding q_def by (metis floor_divide_of_nat_eq nat_int)
  have j: "j \<le> 15" using e15 by (simp add: j_def)
  have no: "round_double (rat_of_nat (m * 10 ^ j)) \<noteq> Some (of_nat n)" if "m \<le> Suc q" for m
  proof -
    have "m * 10 ^ j \<le> q * 10 ^ j + 10 ^ j" using mult_le_mono1 [OF that, of "10 ^ j"] by simp
    moreover have "q * 10 ^ j \<le> n" by (simp add: q_def)
    moreover have "(10 :: nat) ^ j \<le> 10 ^ 15" using j by (intro power_increasing) simp_all
    moreover have "n + 10 ^ 15 < (2 :: nat) ^ 53" using n(2) by simp
    ultimately have "m * 10 ^ j < 2 ^ 53" by linarith
    then have "round_double (rat_of_nat (m * 10 ^ j)) = Some (of_nat (m * 10 ^ j))" by (rule round_double_nat)
    moreover have "m * 10 ^ j \<noteq> n" using nd by (auto simp: j_def)
    ultimately show ?thesis by (simp only: option.inject of_nat_eq_iff not_False_eq_True)
  qed
  have "rat_of_nat n / rat_of_nat (10 ^ j) - of_nat q \<noteq> 0"
  proof
    assume "rat_of_nat n / rat_of_nat (10 ^ j) - of_nat q = 0"
    then have "rat_of_nat n = of_nat (q * 10 ^ j)" by (simp add: field_simps)
    then have "n = q * 10 ^ j" by (simp only: of_nat_eq_iff)
    then show False using nd by (simp add: j_def)
  qed
  with no [of q, unfolded of_nat_mult] no [of "Suc q", unfolded of_nat_mult] show ?thesis
    unfolding candidate_def Let_def s q by (simp only: if_False le_refl le_SucI simp_thms)
qed

lemma ilog_decimal:
  assumes "0 < n"
  shows "ilog 10 (of_nat n) = int (length (decimal n)) - 1"
proof (rule ilog_unique)
  have l: "0 < length (decimal n)" by simp
  then have e: "int (length (decimal n)) - 1 = int (length (decimal n) - 1)" by (cases "length (decimal n)") simp_all
  from decimal_length [OF assms] have d: "10 ^ (length (decimal n) - 1) \<le> n" "n < 10 ^ length (decimal n)" by simp_all
  from d(1) have "rat_of_nat (10 ^ (length (decimal n) - 1)) \<le> of_nat n" by (simp only: of_nat_le_iff)
  then show "rat_of_nat 10 powi (int (length (decimal n)) - 1) \<le> of_nat n" unfolding e by simp
  from d(2) have "rat_of_nat n < of_nat (10 ^ length (decimal n))" by (simp only: of_nat_less_iff)
  then show "rat_of_nat n < rat_of_nat 10 powi (int (length (decimal n)) - 1 + 1)" by simp
qed simp

lemma decimal_short:
  assumes "0 < n" "n < 10 ^ 15"
  shows "length (decimal n) \<le> 15"
proof (rule ccontr)
  assume "\<not> length (decimal n) \<le> 15"
  then have "(10 :: nat) ^ 15 \<le> 10 ^ (length (decimal n) - 1)" by (intro power_increasing) simp_all
  with decimal_length [OF assms(1)] assms(2) show False by linarith
qed

lemma shortest_int:
  assumes n: "0 < n" "n < 10 ^ 15" and d: "n = d * 10 ^ z" "\<not> 10 dvd d" and m: "length (decimal d) < k + m" "k \<le> length (decimal d)" "0 < k"
  shows "shortest_from m k (of_nat n) (ilog 10 (of_nat n)) = (d, int z)"
  using m
proof (induction m arbitrary: k)
  case (Suc m)
  have d0: "0 < d" using n(1) d(1) by (cases d) auto
  have len: "length (decimal n) = length (decimal d) + z" unfolding d(1) by (simp add: decimal_append_zeros [OF d0])
  have e: "ilog 10 (of_nat n) = int (length (decimal d) + z) - 1" using ilog_decimal [OF n(1)] len by simp
  show ?case
  proof (cases "k = length (decimal d)")
    case True
    then have "ilog 10 (of_nat n) - int k + 1 = int z" using e by simp
    moreover from this have "candidate (of_nat n) (ilog 10 (of_nat n)) k = Some d"
      using n(1) by (intro candidate_exact) (simp_all add: d(1))
    ultimately show ?thesis by simp
  next
    case False
    with Suc.prems have k: "k < length (decimal d)" by simp
    have "\<not> 10 ^ nat (ilog 10 (of_nat n) - int k + 1) dvd n"
    proof
      assume a: "10 ^ nat (ilog 10 (of_nat n) - int k + 1) dvd n"
      have "Suc z \<le> nat (ilog 10 (of_nat n) - int k + 1)" using e k by simp
      then have "(10 :: nat) ^ Suc z dvd 10 ^ nat (ilog 10 (of_nat n) - int k + 1)" by (rule le_imp_power_dvd)
      then have "10 * 10 ^ z dvd d * 10 ^ z" using a d(1) dvd_trans by fastforce
      then show False using d(2) by simp
    qed
    moreover have "length (decimal n) \<le> 15" by (rule decimal_short [OF n])
    ultimately have "candidate (of_nat n) (ilog 10 (of_nat n)) k = None"
      using e k len by (intro candidate_int_none [OF n]) simp_all
    with Suc.IH [of "Suc k"] k Suc.prems show ?thesis by simp
  qed
qed simp

lemma FormatNumber_nat:
  assumes "0 < n" "n < 10 ^ 15"
  shows "FormatNumber (Finite (of_nat n)) = Inr (decimal n)" "FormatNumber (Finite (- of_nat n)) = Inr (CHR ''-'' # decimal n)"
proof -
  from assms(1) obtain d z where d: "n = d * 10 ^ z" "\<not> 10 dvd d" by (rule nat_zeros)
  have d0: "0 < d" using assms(1) d(1) by (cases d) auto
  have D: "decimal n = decimal d @ replicate z (CHR ''0'')" unfolding d(1) by (rule decimal_append_zeros [OF d0])
  have l: "length (decimal n) \<le> 15" by (rule decimal_short [OF assms])
  have "0 < length (decimal d)" by simp
  then have "shortest_from 1400 1 (of_nat n) (ilog 10 (of_nat n)) = (d, int z)"
    using l D by (intro shortest_int [OF assms d]) (simp_all add: Suc_le_eq)
  then have "FormatFloat_e (of_nat n) = (decimal d, int (length (decimal n)) - 1)"
    using decimal_no_strip [OF d(2)] D by (simp add: FormatFloat_e_def)
  moreover have "layout_number (decimal d) (int (length (decimal n))) = decimal n"
    using l D by (simp add: layout_number_def Let_def)
  ultimately show "FormatNumber (Finite (of_nat n)) = Inr (decimal n)" "FormatNumber (Finite (- of_nat n)) = Inr (CHR ''-'' # decimal n)"
    using assms(1) by (simp_all add: FormatNumber_def)
qed

end
