(* ===== verification/Key_Sort.thy ===== *)
theory Key_Sort
  imports Runes "HOL-Library.Multiset"
begin

text \<open>
  The sorting of members by name in \<open>internal/jcs/fast.go\<close>: an insertion sort in place for a few
  elements, a merge above 32, over any comparison of keys.  The locale states what a comparison of keys
  promises, a strict linear order on the keys in use; it is interpreted on the order by UTF-16
  code units and on \<open>lessKey\<close>, both over valid text.
\<close>

section \<open>The algorithms\<close>

text \<open>
  The inner loop of the insertion sort: the element moves left past the greater ones.  The list is
  the sorted part of the array, from right to left.
\<close>

fun sift_left :: "('k \<Rightarrow> 'k \<Rightarrow> bool) \<Rightarrow> ('a \<Rightarrow> 'k) \<Rightarrow> 'a \<Rightarrow> 'a list \<Rightarrow> 'a list" where
  "sift_left lt key x [] = [x]"
| "sift_left lt key x (y # ys) = (if lt (key x) (key y) then y # sift_left lt key x ys else x # y # ys)"

definition insertion_sort :: "('k \<Rightarrow> 'k \<Rightarrow> bool) \<Rightarrow> ('a \<Rightarrow> 'k) \<Rightarrow> 'a list \<Rightarrow> 'a list" where
  "insertion_sort lt key m = rev (foldl (\<lambda>part x. sift_left lt key x part) [] m)"

text \<open>The merge of the two halves: the right one first only where it is less.\<close>

fun merge_halves :: "('k \<Rightarrow> 'k \<Rightarrow> bool) \<Rightarrow> ('a \<Rightarrow> 'k) \<Rightarrow> 'a list \<Rightarrow> 'a list \<Rightarrow> 'a list" where
  "merge_halves lt key (a # as) (b # bs) =
     (if lt (key b) (key a) then b # merge_halves lt key (a # as) bs else a # merge_halves lt key as (b # bs))"
| "merge_halves lt key as [] = as"
| "merge_halves lt key [] bs = bs"

function mergeSort :: "('k \<Rightarrow> 'k \<Rightarrow> bool) \<Rightarrow> ('a \<Rightarrow> 'k) \<Rightarrow> 'a list \<Rightarrow> 'a list" where
  "mergeSort lt key m =
     (if length m \<le> 32 then insertion_sort lt key m
      else let mid = length m div 2
           in merge_halves lt key (mergeSort lt key (take mid m)) (mergeSort lt key (drop mid m)))"
  by pat_completeness auto
termination
  by (relation "measure (\<lambda>(lt, key, m). length m)") auto

declare mergeSort.simps [simp del]

definition sortMembers_by :: "('k \<Rightarrow> 'k \<Rightarrow> bool) \<Rightarrow> ('a \<Rightarrow> 'k) \<Rightarrow> 'a list \<Rightarrow> 'a list" where
  "sortMembers_by lt key m = (if 32 < length m then mergeSort lt key m else insertion_sort lt key m)"

section \<open>They rearrange\<close>

lemma mset_sift_left [simp]: "mset (sift_left lt key x ys) = add_mset x (mset ys)"
  by (induction ys) auto

lemma mset_insertion_fold: "mset (foldl (\<lambda>part x. sift_left lt key x part) p m) = mset p + mset m"
  by (induction m arbitrary: p) auto

lemma mset_insertion_sort [simp]: "mset (insertion_sort lt key m) = mset m"
  by (simp add: insertion_sort_def mset_insertion_fold)

lemma mset_merge_halves [simp]: "mset (merge_halves lt key as bs) = mset as + mset bs"
  by (induction lt key as bs rule: merge_halves.induct) auto

lemma mset_mergeSort [simp]: "mset (mergeSort lt key m) = mset m"
proof (induction lt key m rule: mergeSort.induct)
  case (1 lt key m)
  then show ?case by (subst mergeSort.simps) (simp add: Let_def flip: mset_append)
qed

lemma mset_sortMembers_by [simp]: "mset (sortMembers_by lt key m) = mset m"
  by (simp add: sortMembers_by_def)

lemma set_sortMembers_by [simp]: "set (sortMembers_by lt key m) = set m"
  by (rule mset_eq_setD) simp

section \<open>They sort\<close>

locale key_order =
  fixes lt :: "'k \<Rightarrow> 'k \<Rightarrow> bool" and valid :: "'k \<Rightarrow> bool"
  assumes less_irrefl: "valid a \<Longrightarrow> \<not> lt a a"
    and less_trans: "valid a \<Longrightarrow> valid b \<Longrightarrow> valid c \<Longrightarrow> lt a b \<Longrightarrow> lt b c \<Longrightarrow> lt a c"
    and less_total: "valid a \<Longrightarrow> valid b \<Longrightarrow> a \<noteq> b \<Longrightarrow> lt a b \<or> lt b a"
begin

abbreviation upto_eq :: "('a \<Rightarrow> 'k) \<Rightarrow> 'a \<Rightarrow> 'a \<Rightarrow> bool" where
  "upto_eq key x y \<equiv> \<not> lt (key y) (key x)"

lemma not_less_trans:
  assumes "valid a" "valid b" "valid c" "\<not> lt b a" "\<not> lt c b"
  shows "\<not> lt c a"
proof (cases "a = b \<or> b = c")
  case False
  with less_total [of a b] less_total [of b c] assms have "lt a b" "lt b c" by auto
  then have "lt a c" using less_trans [of a b c] assms by blast
  then show ?thesis using less_trans [of a c a] less_irrefl assms by blast
qed (use assms in auto)

lemma sift_left_sorted:
  assumes "sorted_wrt (\<lambda>x y. upto_eq key y x) ys" "valid (key x)" "list_all (\<lambda>x. valid (key x)) ys"
  shows "sorted_wrt (\<lambda>x y. upto_eq key y x) (sift_left lt key x ys)"
  using assms
proof (induction ys)
  case (Cons y ys)
  have s: "set (sift_left lt key x ys) = insert x (set ys)" by (metis mset_sift_left set_mset_add_mset_insert set_mset_mset)
  show ?case
  proof (cases "lt (key x) (key y)")
    case True
    have "\<not> lt (key y) (key x)" using less_trans [of "key x" "key y" "key x"] less_irrefl True Cons.prems by auto
    with Cons True s show ?thesis by auto
  next
    case False
    have "\<not> lt (key x) (key z)" if "z \<in> set ys" for z
      using not_less_trans [of "key z" "key y" "key x"] that False Cons.prems by (auto simp: list_all_iff)
    with False Cons.prems show ?thesis by auto
  qed
qed simp

lemma insertion_sort_sorted:
  assumes "list_all (\<lambda>x. valid (key x)) m"
  shows "sorted_wrt (upto_eq key) (insertion_sort lt key m)"
proof -
  have "sorted_wrt (\<lambda>x y. upto_eq key y x) (foldl (\<lambda>part x. sift_left lt key x part) p m)"
    if "sorted_wrt (\<lambda>x y. upto_eq key y x) p" "list_all (\<lambda>x. valid (key x)) p" for p
    using that assms
  proof (induction m arbitrary: p)
    case (Cons x m)
    have "set (sift_left lt key x p) = insert x (set p)" by (metis mset_sift_left set_mset_add_mset_insert set_mset_mset)
    then have "list_all (\<lambda>x. valid (key x)) (sift_left lt key x p)" using Cons.prems by (auto simp: list_all_iff)
    with Cons sift_left_sorted [of key p x] show ?case by auto
  qed simp
  then show ?thesis by (simp add: insertion_sort_def sorted_wrt_rev)
qed

lemma merge_halves_sorted:
  assumes "sorted_wrt (upto_eq key) as" "sorted_wrt (upto_eq key) bs" "list_all (\<lambda>x. valid (key x)) as" "list_all (\<lambda>x. valid (key x)) bs"
  shows "sorted_wrt (upto_eq key) (merge_halves lt key as bs)"
  using assms
proof (induction "length as + length bs" arbitrary: as bs rule: less_induct)
  case less
  show ?case
  proof (cases "as = [] \<or> bs = []")
    case True
    with less.prems show ?thesis by (cases as; cases bs) auto
  next
    case False
    then obtain a as' b bs' where ab: "as = a # as'" "bs = b # bs'" by (meson neq_Nil_conv)
    have s: "set (merge_halves lt key xs ys) = set xs \<union> set ys" for xs ys
      by (metis mset_merge_halves set_mset_mset set_mset_union)
    show ?thesis
    proof (cases "lt (key b) (key a)")
      case True
      have "\<not> lt (key a) (key b)" using less_trans [of "key a" "key b" "key a"] less_irrefl True less.prems ab by auto
      then have "\<not> lt (key z) (key b)" if "z \<in> set as" for z
        using not_less_trans [of "key b" "key a" "key z"] that less.prems ab by (auto simp: list_all_iff)
      moreover have "sorted_wrt (upto_eq key) (merge_halves lt key as bs')"
        using less.prems ab by (intro less.hyps) auto
      ultimately show ?thesis using True less.prems ab s [of as bs'] by auto
    next
      case False
      then have "\<not> lt (key z) (key a)" if "z \<in> set bs" for z
        using not_less_trans [of "key a" "key b" "key z"] that less.prems ab by (auto simp: list_all_iff)
      moreover have "sorted_wrt (upto_eq key) (merge_halves lt key as' bs)"
        using less.prems ab by (intro less.hyps) auto
      ultimately show ?thesis using False less.prems ab s [of as' bs] by auto
    qed
  qed
qed

lemma mergeSort_sorted: "list_all (\<lambda>x. valid (key x)) m \<Longrightarrow> sorted_wrt (upto_eq key) (mergeSort lt key m)"
proof (induction "length m" arbitrary: m rule: less_induct)
  case less
  show ?case
  proof (cases "length m \<le> 32")
    case True
    with insertion_sort_sorted [OF less.prems] show ?thesis by (simp add: mergeSort.simps)
  next
    case False
    let ?l = "take (length m div 2) m" and ?r = "drop (length m div 2) m"
    have v: "list_all (\<lambda>x. valid (key x)) ?l" "list_all (\<lambda>x. valid (key x)) ?r"
      using less.prems by (auto simp: list_all_iff dest: in_set_takeD in_set_dropD)
    have s: "list_all (\<lambda>x. valid (key x)) (mergeSort lt key x)" if "list_all (\<lambda>x. valid (key x)) x" for x
      using that mset_eq_setD [OF mset_mergeSort [of lt key x]] by (simp add: list_all_iff)
    have "sorted_wrt (upto_eq key) (merge_halves lt key (mergeSort lt key ?l) (mergeSort lt key ?r))"
      using False v s by (intro merge_halves_sorted less.hyps) auto
    then show ?thesis using False by (subst mergeSort.simps) (simp add: Let_def)
  qed
qed

lemma sortMembers_sorted: "list_all (\<lambda>x. valid (key x)) m \<Longrightarrow> sorted_wrt (upto_eq key) (sortMembers_by lt key m)"
  by (simp add: sortMembers_by_def mergeSort_sorted insertion_sort_sorted)

text \<open>Sorted with no two neighbours of one key is strictly sorted, and so is what was in order.\<close>

lemma sorted_strict:
  assumes "sorted_wrt (upto_eq key) m" "list_all (\<lambda>x. valid (key x)) m" "successively (\<lambda>x y. key x \<noteq> key y) m"
  shows "sorted_wrt (\<lambda>x y. lt (key x) (key y)) m"
  using assms
proof (induction m rule: induct_list012)
  case (3 x y zs)
  have xy: "lt (key x) (key y)" using 3 less_total [of "key x" "key y"] by auto
  moreover have "sorted_wrt (\<lambda>x y. lt (key x) (key y)) (y # zs)" using 3 by auto
  moreover from this have "lt (key x) (key z)" if "z \<in> set zs" for z
    using that xy 3 less_trans [of "key x" "key y" "key z"] by (auto simp: list_all_iff)
  ultimately show ?case by auto
qed simp_all

lemma successively_strict:
  assumes "list_all (\<lambda>x. valid (key x)) m" "successively (\<lambda>x y. lt (key x) (key y)) m"
  shows "sorted_wrt (\<lambda>x y. lt (key x) (key y)) m"
  using assms
proof (induction m rule: induct_list012)
  case (3 x y zs)
  then have "sorted_wrt (\<lambda>x y. lt (key x) (key y)) (y # zs)" by auto
  moreover from this have "lt (key x) (key z)" if "z \<in> set zs" for z
    using that 3 less_trans [of "key x" "key y" "key z"] by (auto simp: list_all_iff)
  ultimately show ?case using 3 by auto
qed simp_all

lemma strict_distinct:
  "list_all (\<lambda>x. valid (key x)) m \<Longrightarrow> sorted_wrt (\<lambda>x y. lt (key x) (key y)) m \<Longrightarrow> distinct (map key m)"
proof (induction m)
  case (Cons x m)
  then have "key x \<noteq> key y" if "y \<in> set m" for y using that less_irrefl [of "key x"] by auto
  with Cons show ?case by auto
qed simp

text \<open>There is one strictly sorted arrangement.\<close>

lemma strict_unique:
  assumes "mset xs = mset ys" "list_all (\<lambda>x. valid (key x)) xs"
    and "sorted_wrt (\<lambda>x y. lt (key x) (key y)) xs" "sorted_wrt (\<lambda>x y. lt (key x) (key y)) ys"
  shows "xs = ys"
  using assms
proof (induction xs arbitrary: ys)
  case (Cons x xs)
  then obtain y ys' where y: "ys = y # ys'" by (cases ys) auto
  have s: "set (x # xs) = set (y # ys')" using Cons.prems(1) y mset_eq_setD by blast
  have "x = y"
  proof (rule ccontr)
    assume n: "x \<noteq> y"
    then have "y \<in> set xs" "x \<in> set ys'" using s by auto
    then have "lt (key x) (key y)" "lt (key y) (key x)" using Cons.prems(3,4) y by auto
    moreover have "valid (key y)" "valid (key x)" using \<open>y \<in> set xs\<close> Cons.prems(2) by (auto simp: list_all_iff)
    ultimately show False using less_trans [of "key x" "key y" "key x"] less_irrefl by blast
  qed
  with Cons y show ?case by auto
qed simp

end

interpretation utf16: key_order LessUTF16 utf8_Valid
  by unfold_locales (auto intro: LessUTF16_trans dest: LessUTF16_total)

interpretation by_key: key_order lessKey utf8_Valid
  by unfold_locales (auto simp: lessKey_UTF16 intro: LessUTF16_trans dest: LessUTF16_total)

end
