(* ===== verification/Canonical.thy ===== *)
theory Canonical
  imports Numbers Key_Sort "HOL-Library.AList"
begin

text \<open>
  The JSON Canonicalization Scheme as \<open>internal/jcs\<close> implements it, twice.  \<open>transformFast\<close>
  (\<open>fast.go\<close>) walks the bytes of the document and copies what is canonical already; it keeps the members
  of an object as spans of its output and reorders them by name.  \<open>transformDecoded\<close> (\<open>jcs.go\<close>) decodes the
  document into values and writes them back.  \<open>Transform\<close> tries the first and falls back to the second.

  A position in the input is the rest of the input from there.  The decoder is Go's \<open>encoding/json\<close>: its
  grammar, its limit of 10000 levels, its replacement of what is not valid text, the last of repeated
  members kept, and numbers kept as literals (\<open>UseNumber\<close>).  The recursion takes fuel, one unit per
  call; of two calls in a row at least one consumes a byte, so that one more than twice the length of the
  document is enough.
\<close>

abbreviation quote :: char where "quote \<equiv> CHR 0x22"
abbreviation bslash :: char where "bslash \<equiv> CHR 0x5C"

definition is_ws :: "char \<Rightarrow> bool" where
  "is_ws c \<longleftrightarrow> byte c = 32 \<or> byte c = 9 \<or> byte c = 10 \<or> byte c = 13"

definition skipWS :: "string \<Rightarrow> string" where
  "skipWS s = dropWhile is_ws s"

section \<open>Escapes\<close>

definition hex_digit :: "char \<Rightarrow> nat option" where
  "hex_digit c =
     (if 48 \<le> byte c \<and> byte c \<le> 57 then Some (byte c - 48)
      else if 97 \<le> byte c \<and> byte c \<le> 102 then Some (byte c - 97 + 10)
      else if 65 \<le> byte c \<and> byte c \<le> 70 then Some (byte c - 65 + 10)
      else None)"

text \<open>The four hexadecimal digits at the head of the rest; their value is below \<open>2 ^ 16\<close>, so the shifts lose nothing.\<close>

definition hex4 :: "string \<Rightarrow> nat option" where
  "hex4 b =
     (case b of
        c1 # c2 # c3 # c4 # _ \<Rightarrow>
          (case (hex_digit c1, hex_digit c2, hex_digit c3, hex_digit c4) of
             (Some v1, Some v2, Some v3, Some v4) \<Rightarrow> Some (((v1 * 16 + v2) * 16 + v3) * 16 + v4)
           | _ \<Rightarrow> None)
      | _ \<Rightarrow> None)"

text \<open>The character a two-character escape stands for.\<close>

definition unescape :: "char \<Rightarrow> char option" where
  "unescape e =
     (if e = quote \<or> e = bslash \<or> e = CHR ''/'' then Some e
      else if e = CHR ''b'' then Some (CHR 0x08)
      else if e = CHR ''f'' then Some (CHR 0x0C)
      else if e = CHR ''n'' then Some (CHR 0x0A)
      else if e = CHR ''r'' then Some (CHR 0x0D)
      else if e = CHR ''t'' then Some (CHR 0x09)
      else None)"

definition hexDigits :: "nat \<Rightarrow> char" where
  "hexDigits n = (if n < 10 then char_of (48 + n) else char_of (87 + n))"

text \<open>A character below 128 as a canonical string writes it.\<close>

definition escape_char :: "char \<Rightarrow> string" where
  "escape_char c =
     (if c = CHR 0x08 then [bslash, CHR ''b'']
      else if c = CHR 0x09 then [bslash, CHR ''t'']
      else if c = CHR 0x0A then [bslash, CHR ''n'']
      else if c = CHR 0x0C then [bslash, CHR ''f'']
      else if c = CHR 0x0D then [bslash, CHR ''r'']
      else if c = quote then [bslash, quote]
      else if c = bslash then [bslash, bslash]
      else if byte c < 32 then bslash # ''u00'' @ [hexDigits (byte c div 16), hexDigits (byte c mod 16)]
      else [c])"

definition appendString :: "string \<Rightarrow> string" where
  "appendString s = quote # concat (map escape_char s) @ [quote]"

text \<open>\<open>writeString\<close> ranges over the runes; \<open>%04x\<close> of a control character has two zeros first.\<close>

definition writeString :: "string \<Rightarrow> string" where
  "writeString s =
     quote # concat (map (\<lambda>r. if r < 128 then escape_char (char_of r) else AppendRune r) (runes s)) @ [quote]"

section \<open>The byte-level path\<close>

subsection \<open>Numbers\<close>

definition digit_run :: "string \<Rightarrow> string \<times> string" where
  "digit_run s = (takeWhile is_digit s, dropWhile is_digit s)"

text \<open>The literal at the head of the rest, whether it is a plain integer, and what follows.\<close>

definition number_int :: "string \<Rightarrow> (string \<times> string) option" where
  "number_int s =
     (case s of
        [] \<Rightarrow> None
      | c # cs \<Rightarrow> if c = CHR ''0'' then Some ([c], cs) else if is_digit c then Some (digit_run s) else None)"

definition number_frac :: "string \<Rightarrow> (string \<times> string) option" where
  "number_frac s =
     (case s of
        c # cs \<Rightarrow>
          if c = CHR ''.'' then (case digit_run cs of (ds, r) \<Rightarrow> if ds = [] then None else Some (c # ds, r))
          else Some ([], s)
      | [] \<Rightarrow> Some ([], s))"

definition number_exp :: "string \<Rightarrow> (string \<times> string) option" where
  "number_exp s =
     (case s of
        c # cs \<Rightarrow>
          if c = CHR ''e'' \<or> c = CHR ''E'' then
            (let sg = takeWhile (\<lambda>d. d = CHR ''+'' \<or> d = CHR ''-'') (take 1 cs)
             in case digit_run (drop (length sg) cs) of (ds, r) \<Rightarrow> if ds = [] then None else Some (c # sg @ ds, r))
          else Some ([], s)
      | [] \<Rightarrow> Some ([], s))"

definition numberEnd :: "string \<Rightarrow> (string \<times> bool \<times> string) option" where
  "numberEnd s =
     (let (sg, s1) = (case s of c # cs \<Rightarrow> if c = CHR ''-'' then ([c], cs) else ([], s) | [] \<Rightarrow> ([], s))
      in case number_int s1 of
           None \<Rightarrow> None
         | Some (ip, s2) \<Rightarrow>
             (case number_frac s2 of
                None \<Rightarrow> None
              | Some (fp, s3) \<Rightarrow>
                  (case number_exp s3 of
                     None \<Rightarrow> None
                   | Some (ep, s4) \<Rightarrow> Some (sg @ ip @ fp @ ep, fp = [] \<and> ep = [], s4))))"

definition fast_number :: "string \<Rightarrow> string \<Rightarrow> (string \<times> string) option" where
  "fast_number out s =
     (case numberEnd s of
        None \<Rightarrow> None
      | Some (lit, integer, r) \<Rightarrow>
          let digits = (if hd lit = CHR ''-'' then length lit - 1 else length lit)
          in if integer \<and> digits \<le> 15 \<and> \<not> (hd lit = CHR ''-'' \<and> lit ! 1 = CHR ''0'') then Some (out @ lit, r)
             else case ParseFloat lit of
                 Inl _ \<Rightarrow> None
               | Inr f \<Rightarrow> (case FormatNumber (Finite f) of Inl _ \<Rightarrow> None | Inr t \<Rightarrow> Some (out @ t, r)))"

subsection \<open>Strings\<close>

text \<open>The input from after the quote; the result is the value and what follows the closing quote.\<close>

function strEscaped :: "string \<Rightarrow> string \<Rightarrow> (string \<times> string) option" where
  "strEscaped [] out = None"
| "strEscaped (c # cs) out =
     (if c = quote then Some (out, cs)
      else if byte c < 32 then None
      else if c \<noteq> bslash then strEscaped cs (out @ [c])
      else case cs of
          [] \<Rightarrow> None
        | e # ds \<Rightarrow>
            (case unescape e of
               Some x \<Rightarrow> strEscaped ds (out @ [x])
             | None \<Rightarrow>
                 if e \<noteq> CHR ''u'' then None
                 else case hex4 ds of
                     None \<Rightarrow> None
                   | Some r \<Rightarrow>
                       if IsSurrogate r then
                         if 0xDC00 \<le> r \<or> length ds < 10 \<or> ds ! 4 \<noteq> bslash \<or> ds ! 5 \<noteq> CHR ''u'' then None
                         else (case hex4 (drop 6 ds) of
                                 None \<Rightarrow> None
                               | Some lo \<Rightarrow>
                                   if lo < 0xDC00 \<or> 0xDFFF < lo then None
                                   else strEscaped (drop 10 ds) (out @ AppendRune (DecodePair r lo)))
                       else strEscaped (drop 4 ds) (out @ AppendRune r)))"
  by pat_completeness auto
termination
  by (relation "measure (\<lambda>(s, out). length s)") auto

fun str_loop :: "string \<Rightarrow> string \<Rightarrow> string \<Rightarrow> (string \<times> string) option" where
  "str_loop start [] done = None"
| "str_loop start (c # cs) done =
     (if c = quote then Some (done, cs)
      else if c = bslash then strEscaped start []
      else if byte c < 32 then None
      else str_loop start cs (done @ [c]))"

definition fast_str :: "string \<Rightarrow> (string \<times> string) option" where
  "fast_str s = str_loop s s []"

subsection \<open>Values\<close>

definition fast_maxDepth :: nat where
  "fast_maxDepth = 1000"

definition fast_lit :: "string \<Rightarrow> string \<Rightarrow> string \<Rightarrow> (string \<times> string) option" where
  "fast_lit word out s = (if take (length word) s = word then Some (out @ word, drop (length word) s) else None)"

record member_span =
  m_key :: string
  m_start :: nat
  m_end :: nat

definition sortMembers :: "member_span list \<Rightarrow> member_span list" where
  "sortMembers m = sortMembers_by lessKey m_key m"

definition byte_slice :: "string \<Rightarrow> nat \<Rightarrow> nat \<Rightarrow> string" where
  "byte_slice s i j = take (j - i) (drop i s)"

fun join_comma :: "string list \<Rightarrow> string" where
  "join_comma [] = []"
| "join_comma [x] = x"
| "join_comma (x # y # xs) = x @ CHR '','' # join_comma (y # xs)"

text \<open>The end of \<open>object\<close>: the members reordered where they were not in order, and the closing brace.\<close>

definition object_end :: "nat \<Rightarrow> string \<Rightarrow> member_span list \<Rightarrow> bool \<Rightarrow> string option" where
  "object_end base out members in_order =
     (if in_order then Some (out @ ''}'')
      else let ms = sortMembers members
           in if \<not> successively (\<lambda>a b. m_key a \<noteq> m_key b) ms then None
              else let body = drop (base + 1) out
                   in Some (take (base + 1) out @
                        join_comma (map (\<lambda>m. byte_slice body (m_start m - base - 1) (m_end m - base - 1)) ms) @ ''}''))"

fun fast_value :: "nat \<Rightarrow> nat \<Rightarrow> string \<Rightarrow> string \<Rightarrow> (string \<times> string) option"
and fast_members :: "nat \<Rightarrow> nat \<Rightarrow> nat \<Rightarrow> string \<Rightarrow> string \<Rightarrow> member_span list \<Rightarrow> bool \<Rightarrow> (string \<times> string) option"
and fast_elems :: "nat \<Rightarrow> nat \<Rightarrow> string \<Rightarrow> string \<Rightarrow> (string \<times> string) option" where
  "fast_value 0 depth out s = None"
| "fast_value (Suc n) depth out s =
     (case s of
        [] \<Rightarrow> None
      | c # cs \<Rightarrow>
          if c = CHR ''{'' then
            if fast_maxDepth \<le> depth then None
            else (case skipWS cs of
                    d # r \<Rightarrow>
                      if d = CHR ''}'' then Some (out @ ''{}'', r)
                      else fast_members n (depth + 1) (length out) (out @ ''{'') (d # r) [] True
                  | [] \<Rightarrow> None)
          else if c = CHR ''['' then
            if fast_maxDepth \<le> depth then None
            else (case skipWS cs of
                    d # r \<Rightarrow>
                      if d = CHR '']'' then Some (out @ ''[]'', r) else fast_elems n (depth + 1) (out @ ''['') (d # r)
                  | [] \<Rightarrow> None)
          else if c = quote then (case fast_str cs of None \<Rightarrow> None | Some (v, r) \<Rightarrow> Some (out @ appendString v, r))
          else if c = CHR ''-'' \<or> is_digit c then fast_number out s
          else if c = CHR ''t'' then fast_lit ''true'' out s
          else if c = CHR ''f'' then fast_lit ''false'' out s
          else if c = CHR ''n'' then fast_lit ''null'' out s
          else None)"
| "fast_members 0 depth base out s members in_order = None"
| "fast_members (Suc n) depth base out s members in_order =
     (case s of
        [] \<Rightarrow> None
      | c # cs \<Rightarrow>
          if c \<noteq> quote then None
          else case fast_str cs of
              None \<Rightarrow> None
            | Some (key, r1) \<Rightarrow>
                (case skipWS r1 of
                   [] \<Rightarrow> None
                 | d # r2 \<Rightarrow>
                     if d \<noteq> CHR '':'' then None
                     else let out1 = (if members \<noteq> [] then out @ '','' else out)
                          in case fast_value n depth (out1 @ appendString key @ '':'') (skipWS r2) of
                              None \<Rightarrow> None
                            | Some (out2, r3) \<Rightarrow>
                                if members \<noteq> [] \<and> m_key (last members) = key then None
                                else let ms = members @ [\<lparr>m_key = key, m_start = length out1, m_end = length out2\<rparr>];
                                         in_order' = (in_order \<and> (members \<noteq> [] \<longrightarrow> lessKey (m_key (last members)) key))
                                     in case skipWS r3 of
                                         [] \<Rightarrow> None
                                       | x # r4 \<Rightarrow>
                                           if x = CHR '','' then fast_members n depth base out2 (skipWS r4) ms in_order'
                                           else if x = CHR ''}'' then
                                             (case object_end base out2 ms in_order' of None \<Rightarrow> None | Some o3 \<Rightarrow> Some (o3, r4))
                                           else None))"
| "fast_elems 0 depth out s = None"
| "fast_elems (Suc n) depth out s =
     (case fast_value n depth out s of
        None \<Rightarrow> None
      | Some (out1, r) \<Rightarrow>
          (case skipWS r of
             [] \<Rightarrow> None
           | x # r1 \<Rightarrow>
               if x = CHR '','' then fast_elems n depth (out1 @ '','') (skipWS r1)
               else if x = CHR '']'' then Some (out1 @ '']'', r1)
               else None))"

definition transformFast :: "string \<Rightarrow> string option" where
  "transformFast data =
     (if \<not> utf8_Valid data then None
      else case fast_value (Suc (2 * length data)) 0 [] (skipWS data) of
          None \<Rightarrow> None
        | Some (out, r) \<Rightarrow> if skipWS r \<noteq> [] then None else Some out)"

section \<open>The decoder of the standard library\<close>

datatype jval = JNull | JBool bool | JNumber string | JString string | JArray "jval list" | JObject "(string \<times> jval) list"

text \<open>The states of the scanner inside a number; a state in which the literal may end takes any other byte as its end.\<close>

datatype num_state = NumNeg | Num1 | Num0 | NumDot | NumDot0 | NumE | NumESign | NumE0

definition num_step :: "num_state \<Rightarrow> char \<Rightarrow> num_state option" where
  "num_step st c =
     (case st of
        NumNeg \<Rightarrow> if c = CHR ''0'' then Some Num0 else if is_digit c then Some Num1 else None
      | Num1 \<Rightarrow> if is_digit c then Some Num1 else if c = CHR ''.'' then Some NumDot else if c = CHR ''e'' \<or> c = CHR ''E'' then Some NumE else None
      | Num0 \<Rightarrow> if c = CHR ''.'' then Some NumDot else if c = CHR ''e'' \<or> c = CHR ''E'' then Some NumE else None
      | NumDot \<Rightarrow> if is_digit c then Some NumDot0 else None
      | NumDot0 \<Rightarrow> if is_digit c then Some NumDot0 else if c = CHR ''e'' \<or> c = CHR ''E'' then Some NumE else None
      | NumE \<Rightarrow> if c = CHR ''+'' \<or> c = CHR ''-'' then Some NumESign else if is_digit c then Some NumE0 else None
      | NumESign \<Rightarrow> if is_digit c then Some NumE0 else None
      | NumE0 \<Rightarrow> if is_digit c then Some NumE0 else None)"

definition num_ends :: "num_state \<Rightarrow> bool" where
  "num_ends st \<longleftrightarrow> st \<in> {Num1, Num0, NumDot0, NumE0}"

fun scan_number :: "num_state \<Rightarrow> string \<Rightarrow> (string \<times> string) option" where
  "scan_number st [] = (if num_ends st then Some ([], []) else None)"
| "scan_number st (c # cs) =
     (case num_step st c of
        Some st' \<Rightarrow> map_option (\<lambda>(l, r). (c # l, r)) (scan_number st' cs)
      | None \<Rightarrow> if num_ends st then Some ([], c # cs) else None)"

definition decode_number :: "string \<Rightarrow> (string \<times> string) option" where
  "decode_number s =
     (case s of
        c # cs \<Rightarrow>
          if c = CHR ''-'' then map_option (\<lambda>(l, r). (c # l, r)) (scan_number NumNeg cs) else scan_number NumNeg s
      | [] \<Rightarrow> None)"

text \<open>The bytes of a string literal between its quotes, as the scanner accepts them.\<close>

fun scan_string :: "string \<Rightarrow> (string \<times> string) option" where
  "scan_string [] = None"
| "scan_string [c] = (if c = quote then Some ([], []) else None)"
| "scan_string (c # e # cs) =
     (if c = quote then Some ([], e # cs)
      else if byte c < 32 then None
      else if c \<noteq> bslash then map_option (\<lambda>(b, r). (c # b, r)) (scan_string (e # cs))
      else if unescape e \<noteq> None then map_option (\<lambda>(b, r). (c # e # b, r)) (scan_string cs)
      else if e = CHR ''u'' \<and> hex4 cs \<noteq> None then
        map_option (\<lambda>(b, r). (c # e # take 4 cs @ b, r)) (scan_string (drop 4 cs))
      else None)"

definition getu4 :: "string \<Rightarrow> nat option" where
  "getu4 s = (case s of c # e # cs \<Rightarrow> if c = bslash \<and> e = CHR ''u'' then hex4 cs else None | _ \<Rightarrow> None)"

text \<open>The value of the bytes between the quotes.\<close>

function unquote :: "string \<Rightarrow> string" where
  "unquote [] = []"
| "unquote (c # cs) =
     (if c = bslash then
        (case cs of
           [] \<Rightarrow> []
         | e # ds \<Rightarrow>
             (case unescape e of
                Some x \<Rightarrow> x # unquote ds
              | None \<Rightarrow>
                  (case hex4 ds of
                     None \<Rightarrow> []
                   | Some r \<Rightarrow>
                       let r' = drop 4 ds
                       in if IsSurrogate r then
                            (case getu4 r' of
                               None \<Rightarrow> AppendRune RuneError @ unquote r'
                             | Some lo \<Rightarrow>
                                 if DecodePair r lo = RuneError then AppendRune RuneError @ unquote r'
                                 else AppendRune (DecodePair r lo) @ unquote (drop 6 r'))
                          else AppendRune r @ unquote r')))
      else if byte c < 128 then c # unquote cs
      else case decodeRune (c # cs) of
          Some (r, t) \<Rightarrow> AppendRune r @ unquote t
        | None \<Rightarrow> AppendRune RuneError @ unquote cs)"
  by pat_completeness auto
termination
  by (relation "measure length") (auto dest: decodeRune_shorter)

definition decode_string :: "string \<Rightarrow> (string \<times> string) option" where
  "decode_string s = map_option (\<lambda>(b, r). (unquote b, r)) (scan_string s)"

definition decode_maxDepth :: nat where
  "decode_maxDepth = 10000"

definition decode_lit :: "string \<Rightarrow> jval \<Rightarrow> string \<Rightarrow> (jval \<times> string) option" where
  "decode_lit word v s = (if take (length word) s = word then Some (v, drop (length word) s) else None)"

text \<open>A Go map as an association list with one pair per key; a later member replaces an earlier one.\<close>

definition to_map :: "(string \<times> jval) list \<Rightarrow> (string \<times> jval) list" where
  "to_map kvs = fold (\<lambda>(k, v) m. AList.update k v m) kvs []"

fun decode_value :: "nat \<Rightarrow> nat \<Rightarrow> string \<Rightarrow> (jval \<times> string) option"
and decode_members :: "nat \<Rightarrow> nat \<Rightarrow> string \<Rightarrow> ((string \<times> jval) list \<times> string) option"
and decode_elems :: "nat \<Rightarrow> nat \<Rightarrow> string \<Rightarrow> (jval list \<times> string) option" where
  "decode_value 0 depth s = None"
| "decode_value (Suc n) depth s =
     (case s of
        [] \<Rightarrow> None
      | c # cs \<Rightarrow>
          if c = CHR ''{'' then
            if decode_maxDepth \<le> depth then None
            else (case skipWS cs of
                    d # r \<Rightarrow>
                      if d = CHR ''}'' then Some (JObject [], r)
                      else map_option (\<lambda>(kvs, r'). (JObject (to_map kvs), r')) (decode_members n (depth + 1) (d # r))
                  | [] \<Rightarrow> None)
          else if c = CHR ''['' then
            if decode_maxDepth \<le> depth then None
            else (case skipWS cs of
                    d # r \<Rightarrow>
                      if d = CHR '']'' then Some (JArray [], r)
                      else map_option (\<lambda>(vs, r'). (JArray vs, r')) (decode_elems n (depth + 1) (d # r))
                  | [] \<Rightarrow> None)
          else if c = quote then map_option (\<lambda>(v, r). (JString v, r)) (decode_string cs)
          else if c = CHR ''-'' \<or> is_digit c then map_option (\<lambda>(l, r). (JNumber l, r)) (decode_number s)
          else if c = CHR ''t'' then decode_lit ''true'' (JBool True) s
          else if c = CHR ''f'' then decode_lit ''false'' (JBool False) s
          else if c = CHR ''n'' then decode_lit ''null'' JNull s
          else None)"
| "decode_members 0 depth s = None"
| "decode_members (Suc n) depth s =
     (case s of
        [] \<Rightarrow> None
      | c # cs \<Rightarrow>
          if c \<noteq> quote then None
          else case decode_string cs of
              None \<Rightarrow> None
            | Some (key, r1) \<Rightarrow>
                (case skipWS r1 of
                   [] \<Rightarrow> None
                 | d # r2 \<Rightarrow>
                     if d \<noteq> CHR '':'' then None
                     else case decode_value n depth (skipWS r2) of
                         None \<Rightarrow> None
                       | Some (v, r3) \<Rightarrow>
                           (case skipWS r3 of
                              [] \<Rightarrow> None
                            | x # r4 \<Rightarrow>
                                if x = CHR '','' then map_option (\<lambda>(kvs, r). ((key, v) # kvs, r)) (decode_members n depth (skipWS r4))
                                else if x = CHR ''}'' then Some ([(key, v)], r4)
                                else None)))"
| "decode_elems 0 depth s = None"
| "decode_elems (Suc n) depth s =
     (case decode_value n depth s of
        None \<Rightarrow> None
      | Some (v, r) \<Rightarrow>
          (case skipWS r of
             [] \<Rightarrow> None
           | x # r1 \<Rightarrow>
               if x = CHR '','' then map_option (\<lambda>(vs, r2). (v # vs, r2)) (decode_elems n depth (skipWS r1))
               else if x = CHR '']'' then Some ([v], r1)
               else None))"

section \<open>The decoded path\<close>

text \<open>
  \<open>write\<close>: the members by UTF-16 order, each name and its value; the first value that cannot be written
  is the error.  \<open>sort.Slice\<close> is any sort: on distinct names all give one order.
\<close>

fun all_res :: "'a res list \<Rightarrow> 'a list res" where
  "all_res [] = Inr []"
| "all_res (x # xs) = bind_res x (\<lambda>y. bind_res (all_res xs) (\<lambda>ys. Inr (y # ys)))"

primrec json_write :: "jval \<Rightarrow> string res" where
  "json_write JNull = Inr ''null''"
| "json_write (JBool b) = Inr (if b then ''true'' else ''false'')"
| "json_write (JNumber x) = bind_res (ParseFloat x) (\<lambda>f. FormatNumber (Finite f))"
| "json_write (JString s) = Inr (writeString s)"
| "json_write (JArray vs) = bind_res (all_res (map json_write vs)) (\<lambda>ts. Inr (CHR ''['' # join_comma ts @ '']''))"
| "json_write (JObject kvs) =
     bind_res (all_res (map (\<lambda>(k, t). bind_res t (\<lambda>w. Inr (writeString k @ CHR '':'' # w)))
       (insertion_sort LessUTF16 fst (map (map_prod id json_write) kvs))))
       (\<lambda>ts. Inr (CHR ''{'' # join_comma ts @ ''}''))"

text \<open>\<open>dec.More()\<close> at the top level: a byte follows that closes no array or object.\<close>

definition dec_More :: "string \<Rightarrow> bool" where
  "dec_More r = (case skipWS r of [] \<Rightarrow> False | c # _ \<Rightarrow> c \<noteq> CHR '']'' \<and> c \<noteq> CHR ''}'')"

definition transformDecoded :: "string \<Rightarrow> string res" where
  "transformDecoded data =
     (case decode_value (Suc (2 * length data)) 0 (skipWS data) of
        None \<Rightarrow> Inl (EInvalid ''jcs: decode'')
      | Some (v, r) \<Rightarrow> if dec_More r then Inl (EInvalid ''jcs: trailing data after the document'') else json_write v)"

definition Transform :: "string \<Rightarrow> string res" where
  "Transform data = (case transformFast data of Some out \<Rightarrow> Inr out | None \<Rightarrow> transformDecoded data)"

end
