(* ===== verification/Canonical_Agree.thy ===== *)
theory Canonical_Agree
  imports Canonical
begin

text \<open>
  The byte-level path of the canonical form agrees with the decoder: what \<open>transformFast\<close> answers is what
  \<open>transformDecoded\<close> answers.  The lemmas go from the parts, strings, numbers and the order of members, to
  values, by induction on the fuel, which both recursions spend alike.
\<close>


section \<open>Strings\<close>

lemma escape_high: "128 \<le> byte c \<Longrightarrow> escape_char c = [c]"
  by (auto simp: escape_char_def)

lemma escape_AppendRune: "scalar r \<Longrightarrow> 128 \<le> r \<Longrightarrow> concat (map escape_char (AppendRune r)) = AppendRune r"
proof -
  have "concat (map escape_char p) = p" if "\<And>c. c \<in> set p \<Longrightarrow> 128 \<le> byte c" for p
    using that by (induction p) (simp_all add: escape_high)
  then show "scalar r \<Longrightarrow> 128 \<le> r \<Longrightarrow> concat (map escape_char (AppendRune r)) = AppendRune r"
    using AppendRune_high by blast
qed

lemma writeString_appendString: "utf8_Valid s \<Longrightarrow> writeString s = appendString s"
proof (induction s rule: Valid_induct)
  case (Rune r s)
  then have e: "concat (map (\<lambda>r. if r < 128 then escape_char (char_of r) else AppendRune r) (runes s)) = concat (map escape_char s)"
    by (simp add: writeString_def appendString_def)
  from Rune(1) show ?case by (cases "r < 128") (simp_all add: writeString_def appendString_def e escape_AppendRune)
qed (simp add: writeString_def appendString_def)

lemma hex_digit_ascii: "hex_digit c = Some v \<Longrightarrow> byte c < 128 \<and> v < 16"
  by (auto simp: hex_digit_def split: if_splits)

lemma hex4_Some:
  assumes "hex4 ds = Some r"
  obtains c1 c2 c3 c4 t where "ds = c1 # c2 # c3 # c4 # t" "byte c1 < 128" "byte c2 < 128" "byte c3 < 128" "byte c4 < 128" "r < 0x10000"
  using assms
  by (auto simp: hex4_def split: list.splits option.splits dest!: hex_digit_ascii)

lemma hex4_take: "hex4 ds = Some r \<Longrightarrow> hex4 (take 4 ds @ b) = Some r"
  by (auto simp: hex4_def numeral_eq_Suc split: list.splits)

lemma hex4_Valid:
  assumes "hex4 ds = Some r"
  shows "utf8_Valid ds = utf8_Valid (drop 4 ds)" "ds = take 4 ds @ drop 4 ds" "length (take 4 ds) = 4"
  using assms by (auto elim!: hex4_Some)

text \<open>A run of bytes that are neither a quote, a backslash nor a control character.\<close>

definition plain_byte :: "char \<Rightarrow> bool" where
  "plain_byte c \<longleftrightarrow> c \<noteq> quote \<and> c \<noteq> bslash \<and> 32 \<le> byte c"

lemma plain_high: "128 \<le> byte c \<Longrightarrow> plain_byte c"
  by (auto simp: plain_byte_def)

lemma strEscaped_plain: "list_all plain_byte p \<Longrightarrow> strEscaped (p @ t) out = strEscaped t (out @ p)"
  by (induction p arbitrary: out) (auto simp: plain_byte_def)

lemma scan_string_plain1:
  "plain_byte c \<Longrightarrow> scan_string (c # t) = map_option (\<lambda>(b, r). (c # b, r)) (scan_string t)"
  by (cases t) (auto simp: plain_byte_def)

lemma scan_string_plain:
  "list_all plain_byte p \<Longrightarrow> scan_string (p @ t) = map_option (\<lambda>(b, r). (p @ b, r)) (scan_string t)"
  by (cases "scan_string t"; induction p) (auto simp: scan_string_plain1)

lemma AppendRune_plain: "scalar r \<Longrightarrow> 128 \<le> r \<Longrightarrow> list_all plain_byte (AppendRune r)"
  using AppendRune_high [of r] plain_high by (auto simp: list_all_iff)

lemma unquote_rune:
  assumes "scalar r" "128 \<le> r"
  shows "unquote (AppendRune r @ b) = AppendRune r @ unquote b"
proof -
  obtain c cs where c: "AppendRune r = c # cs" by (metis AppendRune_nonempty neq_Nil_conv)
  then have "128 \<le> byte c" using AppendRune_high [OF assms] by simp
  moreover from this have "c \<noteq> bslash" by auto
  moreover have "decodeRune (c # cs @ b) = Some (r, b)" using decode_AppendRune [OF assms(1), of b] c by simp
  ultimately show ?thesis using c by simp
qed

lemma fast_str_strEscaped: "fast_str s = strEscaped s []"
proof -
  have "str_loop start t p = strEscaped start []" if "strEscaped start [] = strEscaped t p" for start t p
    using that by (induction start t p rule: str_loop.induct) auto
  then show ?thesis by (simp add: fast_str_def)
qed

lemma unescape_Some: "unescape e = Some x \<Longrightarrow> byte e < 128 \<and> byte x < 128"
  by (auto simp: unescape_def split: if_splits)

lemma unescape_u [simp]: "unescape (CHR ''u'') = None"
  by (simp add: unescape_def)

lemma unquote_hex:
  assumes "hex4 ds = Some h" "\<not> IsSurrogate h" "length (take 4 ds) = 4"
  shows "unquote (bslash # CHR ''u'' # take 4 ds @ b) = AppendRune h @ unquote b"
  using assms hex4_take [OF assms(1), of b] by simp

lemma unquote_pair:
  assumes "hex4 ds = Some h" "IsSurrogate h" "length (take 4 ds) = 4" "hex4 es = Some lo" "length (take 4 es) = 4"
    and "DecodePair h lo \<noteq> RuneError"
  shows "unquote (bslash # CHR ''u'' # take 4 ds @ bslash # CHR ''u'' # take 4 es @ b) = AppendRune (DecodePair h lo) @ unquote b"
  using assms hex4_take [OF assms(1), of "bslash # CHR ''u'' # take 4 es @ b"] hex4_take [OF assms(4), of b]
  by (simp add: getu4_def)

lemma strEscaped_agrees:
  assumes "utf8_Valid s" "strEscaped s out = Some (v, r)"
  shows "\<exists>b. scan_string s = Some (b, r) \<and> v = out @ unquote b \<and> utf8_Valid (unquote b) \<and> utf8_Valid r"
  using assms
proof (induction "length s" arbitrary: s out rule: less_induct)
  case less
  from less.prems(1) show ?case
  proof (cases s rule: Valid_cases)
    case Nil
    with less.prems(2) show ?thesis by simp
  next
    case (Rune q t)
    show ?thesis
    proof (cases "128 \<le> q")
      case True
      note p = AppendRune_plain [OF Rune(2) True]
      from less.hyps [of t "out @ AppendRune q"] less.prems(2) Rune obtain b where
        b: "scan_string t = Some (b, r)" "v = (out @ AppendRune q) @ unquote b" "utf8_Valid (unquote b)" "utf8_Valid r"
        by (auto simp: strEscaped_plain [OF p])
      then show ?thesis using Rune True by (auto simp: scan_string_plain [OF p] unquote_rune)
    next
      case False
      then obtain c where s: "s = c # t" "byte c < 128" using Rune by (auto simp: AppendRune_1)
      have t: "utf8_Valid t" by (rule Rune(3))
      show ?thesis
      proof (cases "plain_byte c")
        case True
        from less.hyps [of t "out @ [c]"] less.prems(2) s t True obtain b where
          "scan_string t = Some (b, r)" "v = (out @ [c]) @ unquote b" "utf8_Valid (unquote b)" "utf8_Valid r"
          by (auto simp: plain_byte_def)
        then show ?thesis using s True by (auto simp: scan_string_plain1 plain_byte_def)
      next
        case False
        with less.prems(2) s consider "c = quote" "v = out" "r = t" | e ds where "c = bslash" "t = e # ds"
          by (auto simp: plain_byte_def split: if_splits list.splits)
        then show ?thesis
        proof cases
          case 1
          then show ?thesis using s t by (cases t) auto
        next
          case (2 e ds)
          note esc = less.prems(2) [unfolded s(1) 2, simplified]
          show ?thesis
          proof (cases "unescape e")
            case (Some x)
            with unescape_Some [OF Some] t 2(2) less.hyps [of ds "out @ [x]"] esc s(1) obtain b where
              "scan_string ds = Some (b, r)" "v = (out @ [x]) @ unquote b" "utf8_Valid (unquote b)" "utf8_Valid r" by auto
            then show ?thesis using s 2 Some unescape_Some [OF Some] by simp
          next
            case None
            with esc obtain h where h: "e = CHR ''u''" "hex4 ds = Some h" by (auto split: if_splits option.splits)
            note d = hex4_Valid [OF h(2)]
            have len: "length (drop 4 ds) < length s" "length (drop 10 ds) < length s" by (simp_all add: s(1) 2(2))
            have v4: "utf8_Valid (drop 4 ds)" using t 2(2) h(1) d(1) by simp
            show ?thesis
            proof (cases "IsSurrogate h")
              case False
              have "scalar h" using False h(2) by (auto simp: scalar_def IsSurrogate_def elim!: hex4_Some)
              moreover from less.hyps [OF len(1) v4, of "out @ AppendRune h"] esc h None False obtain b where
                "scan_string (drop 4 ds) = Some (b, r)" "v = (out @ AppendRune h) @ unquote b" "utf8_Valid (unquote b)" "utf8_Valid r"
                by auto
              ultimately show ?thesis using s 2 h None unquote_hex [OF h(2) False d(3)] by (simp del: unquote.simps)
            next
              case True
              with esc h None obtain lo where lo: "h < 0xDC00" "10 \<le> length ds" "ds ! 4 = bslash" "ds ! 5 = CHR ''u''"
                  "hex4 (drop 6 ds) = Some lo" "0xDC00 \<le> lo" "lo \<le> 0xDFFF"
                  "strEscaped (drop 10 ds) (out @ AppendRune (DecodePair h lo)) = Some (v, r)"
                by (auto split: if_splits option.splits)
              have d4: "drop 4 ds = bslash # CHR ''u'' # drop 6 ds"
                using lo(2-4) Cons_nth_drop_Suc [of 4 ds] Cons_nth_drop_Suc [of 5 ds] by simp
              have pair: "DecodePair h lo \<noteq> RuneError" "scalar (DecodePair h lo)"
                using True lo by (auto simp: DecodePair_def IsSurrogate_def RuneError_def scalar_def)
              have "utf8_Valid (drop 10 ds)" using v4 d4 hex4_Valid(1) [OF lo(5)] by simp
              from less.hyps [OF len(2) this lo(8)] obtain b where
                b: "scan_string (drop 10 ds) = Some (b, r)" "v = (out @ AppendRune (DecodePair h lo)) @ unquote b"
                  "utf8_Valid (unquote b)" "utf8_Valid r" by auto
              from b(1) lo(5) have "scan_string (drop 4 ds) = Some (bslash # CHR ''u'' # take 4 (drop 6 ds) @ b, r)"
                unfolding d4 by (simp add: unescape_def)
              with b pair s 2 h None unquote_pair [OF h(2) True d(3) lo(5) hex4_Valid(3) [OF lo(5)] pair(1)] show ?thesis
                by (simp del: unquote.simps)
            qed
          qed
        qed
      qed
    qed
  qed
qed

lemma fast_str_agrees:
  assumes "utf8_Valid s" "fast_str s = Some (v, r)"
  shows "decode_string s = Some (v, r)" "utf8_Valid v" "utf8_Valid r"
  using strEscaped_agrees [OF assms(1), of "[]" v r] assms(2) by (auto simp: fast_str_strEscaped decode_string_def)

section \<open>Numbers\<close>

definition no_digit :: "string \<Rightarrow> bool" where
  "no_digit s \<longleftrightarrow> (case s of [] \<Rightarrow> True | c # _ \<Rightarrow> \<not> is_digit c)"

lemma no_digit_dropWhile [simp]: "no_digit (dropWhile is_digit s)"
  by (induction s) (simp_all add: no_digit_def)

lemma digit_run_split: "digit_run s = (ds, r) \<Longrightarrow> s = ds @ r \<and> list_all is_digit ds \<and> no_digit r"
  by (auto simp: digit_run_def list_all_iff dest: set_takeWhileD)

lemma digit_run_append: "list_all is_digit ds \<Longrightarrow> no_digit r \<Longrightarrow> digit_run (ds @ r) = (ds, r)"
  by (cases r) (simp_all add: digit_run_def no_digit_def)

lemma digit_neq: "is_digit d \<Longrightarrow> d \<noteq> CHR ''.'' \<and> d \<noteq> CHR ''e'' \<and> d \<noteq> CHR ''E'' \<and> d \<noteq> CHR ''+'' \<and> d \<noteq> CHR ''-''"
  by (intro conjI notI) simp_all

lemma num_step_digit:
  assumes "is_digit d"
  shows "num_step Num1 d = Some Num1" "num_step NumDot0 d = Some NumDot0" "num_step NumE0 d = Some NumE0"
    "num_step NumDot d = Some NumDot0" "num_step NumE d = Some NumE0" "num_step NumESign d = Some NumE0"
  using digit_neq [OF assms] assms by (simp_all add: num_step_def)

lemma num_step_e:
  assumes "c = CHR ''e'' \<or> c = CHR ''E''"
  shows "num_step Num1 c = Some NumE" "num_step Num0 c = Some NumE" "num_step NumDot0 c = Some NumE"
  using assms by (elim disjE; simp add: num_step_def)+

lemma num_step_other:
  assumes "c \<noteq> CHR ''e'' \<and> c \<noteq> CHR ''E''"
  shows "c \<noteq> CHR ''.'' \<Longrightarrow> num_step Num0 c = None" "c \<noteq> CHR ''.'' \<Longrightarrow> \<not> is_digit c \<Longrightarrow> num_step Num1 c = None"
    "\<not> is_digit c \<Longrightarrow> num_step NumDot0 c = None"
  using assms by (simp_all add: num_step_def)

lemma num_ends_simps [simp]: "num_ends Num1" "num_ends Num0" "num_ends NumDot0" "num_ends NumE0" "\<not> num_ends NumNeg"
  by (simp_all add: num_ends_def)

lemma scan_digits:
  assumes "list_all is_digit ds" "st \<in> {Num1, NumDot0, NumE0}"
  shows "scan_number st (ds @ t) = map_option (\<lambda>(l, r). (ds @ l, r)) (scan_number st t)"
  using assms(1)
proof (induction ds)
  case (Cons d ds)
  then have "num_step st d = Some st" using assms(2) by (auto simp: num_step_digit)
  with Cons show ?case by (cases "scan_number st t") auto
qed (simp add: case_prod_Pair option.map_id)

text \<open>A nonempty run of digits from a state that wants one.\<close>

lemma scan_digits_first:
  assumes "list_all is_digit ds" "ds \<noteq> []" "(st, st') \<in> {(NumDot, NumDot0), (NumE, NumE0), (NumESign, NumE0)}"
  shows "scan_number st (ds @ t) = map_option (\<lambda>(l, r). (ds @ l, r)) (scan_number st' t)"
proof -
  obtain d es where d: "ds = d # es" using assms(2) by (cases ds) auto
  with assms have "num_step st d = Some st'" by (auto simp: num_step_digit)
  moreover have "scan_number st' (es @ t) = map_option (\<lambda>(l, r). (es @ l, r)) (scan_number st' t)"
    using assms d by (intro scan_digits) auto
  ultimately show ?thesis using d by (cases "scan_number st' t") auto
qed

lemma scan_E0_end: "no_digit r \<Longrightarrow> scan_number NumE0 r = Some ([], r)"
  by (cases r) (simp_all add: no_digit_def num_step_def)

lemma scan_exp:
  assumes "number_exp s = Some (ep, r)" "st \<in> {Num1, Num0, NumDot0}"
    and "st \<noteq> Num0 \<longrightarrow> no_digit s" "st \<noteq> NumDot0 \<longrightarrow> (\<forall>t. s \<noteq> CHR ''.'' # t)"
  shows "scan_number st s = Some (ep, r)"
proof (cases s)
  case Nil
  with assms show ?thesis by (auto simp: number_exp_def)
next
  case (Cons c cs)
  show ?thesis
  proof (cases "c = CHR ''e'' \<or> c = CHR ''E''")
    case False
    with assms(1) Cons have "ep = []" "r = s" by (simp_all add: number_exp_def)
    moreover have "num_step st c = None"
      using assms(2-4) Cons False num_step_other [of c] by (elim insertE emptyE) (simp_all add: no_digit_def)
    moreover have "num_ends st" using assms(2) by auto
    ultimately show ?thesis using Cons by simp
  next
    case True
    have e: "num_step st c = Some NumE" using num_step_e [OF True] assms(2) by auto
    define sg where "sg = takeWhile (\<lambda>d. d = CHR ''+'' \<or> d = CHR ''-'') (take 1 cs)"
    from assms(1) [unfolded Cons] True obtain ds where ds: "digit_run (drop (length sg) cs) = (ds, r)" "ds \<noteq> []" "ep = c # sg @ ds"
      unfolding number_exp_def list.case Let_def sg_def [symmetric] by (auto split: prod.splits if_splits)
    note d = digit_run_split [OF ds(1)]
    have "scan_number NumE cs = Some (sg @ ds, r)"
    proof (cases "sg = []")
      case True
      then have "cs = ds @ r" using d by simp
      with scan_digits_first [of ds NumE NumE0 r] d ds(2) scan_E0_end [of r] True show ?thesis by simp
    next
      case False
      then obtain p es where p: "cs = p # es" "p = CHR ''+'' \<or> p = CHR ''-''" "sg = [p]"
        by (cases cs) (auto simp: sg_def split: if_splits)
      then have "es = ds @ r" "num_step NumE p = Some NumESign" using d by (auto simp: num_step_def)
      with scan_digits_first [of ds NumESign NumE0 r] d ds(2) scan_E0_end [of r] p show ?thesis by simp
    qed
    with e Cons ds(3) show ?thesis by simp
  qed
qed

lemma scan_frac:
  assumes "number_frac s = Some (fp, s3)" "number_exp s3 = Some (ep, r)" "st \<in> {Num1, Num0}" "st \<noteq> Num0 \<longrightarrow> no_digit s"
  shows "scan_number st s = Some (fp @ ep, r)"
proof (cases "\<exists>t. s = CHR ''.'' # t")
  case True
  then obtain t where s: "s = CHR ''.'' # t" ..
  with assms(1) obtain ds where ds: "digit_run t = (ds, s3)" "ds \<noteq> []" "fp = CHR ''.'' # ds"
    by (auto simp: number_frac_def split: prod.splits if_splits)
  note d = digit_run_split [OF ds(1)]
  have "scan_number NumDot0 s3 = Some (ep, r)" using assms(2) d by (intro scan_exp) auto
  moreover have "num_step st (CHR ''.'') = Some NumDot" using assms(3) by (auto simp: num_step_def)
  ultimately show ?thesis using s ds(2,3) d scan_digits_first [of ds NumDot NumDot0 s3] by simp
next
  case False
  with assms(1) have "fp = []" "s3 = s" by (auto simp: number_frac_def split: list.splits if_splits)
  with scan_exp [OF assms(2), of st] assms(3,4) False show ?thesis by auto
qed

lemma numberEnd_agrees:
  assumes "numberEnd s = Some (lit, integer, r)"
  shows "decode_number s = Some (lit, r)"
proof -
  obtain sg s1 where sg: "(case s of c # cs \<Rightarrow> if c = CHR ''-'' then ([c], cs) else ([], s) | [] \<Rightarrow> ([], s)) = (sg, s1)" by fastforce
  with assms obtain ip s2 fp s3 ep where n: "number_int s1 = Some (ip, s2)" "number_frac s2 = Some (fp, s3)" "number_exp s3 = Some (ep, r)"
      "lit = sg @ ip @ fp @ ep"
    by (auto simp: numberEnd_def split: option.splits prod.splits)
  have "scan_number NumNeg s1 = Some (ip @ fp @ ep, r)"
  proof (cases "\<exists>t. s1 = CHR ''0'' # t")
    case True
    then obtain t where "s1 = CHR ''0'' # t" ..
    with n scan_frac [OF n(2,3), of Num0] show ?thesis by (auto simp: number_int_def num_step_def)
  next
    case False
    with n(1) obtain c cs where c: "s1 = c # cs" "is_digit c" "digit_run s1 = (ip, s2)"
      by (auto simp: number_int_def split: list.splits if_splits)
    note d = digit_run_split [OF c(3)]
    with c obtain ip' where ip: "ip = c # ip'" "cs = ip' @ s2" by (cases ip) (auto simp: no_digit_def)
    have "num_step NumNeg c = Some Num1" using c False by (auto simp: num_step_def)
    moreover have "scan_number Num1 s2 = Some (fp @ ep, r)" using d by (intro scan_frac [OF n(2,3)]) auto
    ultimately show ?thesis using c ip d scan_digits [of ip' Num1 s2] by simp
  qed
  moreover from this have "s \<noteq> []" using sg by auto
  ultimately show ?thesis using sg n(4) by (auto simp: decode_number_def split: list.splits if_splits)
qed

lemma num_step_ascii: "num_step st c = Some st' \<Longrightarrow> byte c < 128"
  by (cases st) (auto simp: num_step_def is_digit_def split: if_splits)

lemma Valid_ascii_append: "list_all (\<lambda>c. byte c < 128) p \<Longrightarrow> utf8_Valid (p @ s) = utf8_Valid s"
  by (induction p) simp_all

lemma scan_number_split: "scan_number st s = Some (l, r) \<Longrightarrow> s = l @ r \<and> list_all (\<lambda>c. byte c < 128) l"
  by (induction st s arbitrary: l rule: scan_number.induct) (auto split: if_splits option.splits dest: num_step_ascii)

lemma decode_number_split:
  assumes "decode_number s = Some (l, r)"
  shows "s = l @ r" "list_all (\<lambda>c. byte c < 128) l" "utf8_Valid s = utf8_Valid r"
proof -
  show s: "s = l @ r" "list_all (\<lambda>c. byte c < 128) l"
    using assms scan_number_split by (auto simp: decode_number_def simp del: scan_number.simps split: list.splits if_splits)
  with Valid_ascii_append [OF s(2), of r] show "utf8_Valid s = utf8_Valid r" by simp
qed

lemma byte_zero: "byte c = 48 \<Longrightarrow> c = CHR ''0''"
  by (rule injD [of "of_char :: char \<Rightarrow> nat"]) (simp_all add: inj_def)

lemma decimal_dec_nat:
  assumes "list_all is_digit ds" "ds \<noteq> []" "hd ds \<noteq> CHR ''0''"
  shows "decimal (dec_nat ds) = ds \<and> 0 < dec_nat ds"
  using assms
proof (induction ds rule: rev_induct)
  case (snoc c ds)
  have c: "48 \<le> byte c" "byte c \<le> 57" using snoc.prems(1) by (auto simp: is_digit_def)
  then have cc: "char_of (48 + (byte c - 48)) = c" by simp
  show ?case
  proof (cases "ds = []")
    case True
    with snoc.prems(3) byte_zero [of c] have "byte c \<noteq> 48" by (metis append_Nil list.sel(1))
    with c cc True show ?thesis by (simp add: decimal_small)
  next
    case False
    with snoc have IH: "decimal (dec_nat ds) = ds" "0 < dec_nat ds" by auto
    have "10 \<le> dec_nat (ds @ [c])" using IH(2) by (simp add: dec_nat_snoc)
    moreover obtain k where k: "byte c - 48 = k" "k < 10" using c by simp
    then have "dec_nat (ds @ [c]) div 10 = dec_nat ds" "dec_nat (ds @ [c]) mod 10 = byte c - 48"
      by (simp_all add: dec_nat_snoc)
    ultimately show ?thesis using IH cc decimal_rec [of "dec_nat (ds @ [c])"] by simp
  qed
qed simp

lemma number_int_shape:
  assumes "number_int s = Some (ip, r)"
  obtains "ip = ''0''" | "list_all is_digit ip" "ip \<noteq> []" "hd ip \<noteq> CHR ''0''"
proof (cases "\<exists>t. s = CHR ''0'' # t")
  case True
  with assms that(1) show ?thesis by (auto simp: number_int_def)
next
  case False
  with assms obtain c cs where c: "s = c # cs" "is_digit c" "digit_run s = (ip, r)"
    by (auto simp: number_int_def split: list.splits if_splits)
  then have "ip = c # takeWhile is_digit cs" by (auto simp: digit_run_def)
  with c False digit_run_split [OF c(3)] that(2) show ?thesis by auto
qed

lemma short_integer_kept:
  assumes "list_all is_digit ip" "ip \<noteq> []" "hd ip \<noteq> CHR ''0''" "length ip \<le> 15" "sg = [] \<or> sg = ''-''"
  shows "json_write (JNumber (sg @ ip)) = Inr (sg @ ip)"
proof -
  define n where "n = dec_nat ip"
  from decimal_dec_nat [OF assms(1-3)] have ip: "decimal n = ip" "0 < n" by (simp_all add: n_def)
  have "n < 10 ^ length ip" using decimal_length [OF ip(2)] ip(1) by simp
  also have "(10 :: nat) ^ length ip \<le> 10 ^ 15" using assms(4) by (intro power_increasing) simp_all
  finally have n15: "n < 10 ^ 15" .
  then have r: "round_double (of_nat n) = Some (of_nat n)" by (intro round_double_nat) simp
  have m: "magnitude ip = of_nat n" using magnitude_int [OF assms(1)] by (simp add: n_def)
  have h: "hd ip \<noteq> CHR ''-''" using assms(1,2) by (cases ip) (auto simp: is_digit_def)
  show ?thesis
  proof (cases "sg = []")
    case True
    have "lit_value ip = of_nat n" using m h assms(2) by (cases ip) (simp_all add: lit_value_def)
    with True r FormatNumber_nat(1) [OF ip(2) n15] ip(1) show ?thesis by (simp add: ParseFloat_def)
  next
    case False
    with assms(5) have sg: "sg = ''-''" by simp
    have "lit_value (sg @ ip) = - of_nat n" using m sg by (simp add: lit_value_def)
    with sg r round_double_minus [of "of_nat n"] FormatNumber_nat(2) [OF ip(2) n15] ip(1) show ?thesis
      by (simp add: ParseFloat_def)
  qed
qed

lemma fast_number_agrees:
  assumes "fast_number out s = Some (out', r)"
  shows "\<exists>lit w. decode_number s = Some (lit, r) \<and> json_write (JNumber lit) = Inr w \<and> out' = out @ w"
proof -
  obtain lit integer r' where e': "numberEnd s = Some (lit, integer, r')"
    using assms by (cases "numberEnd s") (auto simp: fast_number_def)
  have "r' = r" using assms unfolding fast_number_def e' option.case prod.case Let_def by (auto split: sum.splits if_split_asm)
  with e' have e: "numberEnd s = Some (lit, integer, r)" by simp
  note d = numberEnd_agrees [OF e]
  define short where "short \<longleftrightarrow> integer \<and> (if hd lit = CHR ''-'' then length lit - 1 else length lit) \<le> 15 \<and>
    \<not> (hd lit = CHR ''-'' \<and> lit ! 1 = CHR ''0'')"
  show ?thesis
  proof (cases short)
    case False
    then show ?thesis using assms d unfolding fast_number_def e option.case prod.case Let_def short_def [symmetric]
      by (auto split: sum.splits)
  next
    case True
    then have o: "out' = out @ lit"
      using assms unfolding fast_number_def e option.case prod.case Let_def short_def [symmetric] by simp
    obtain sg s1 where sg: "(case s of c # cs \<Rightarrow> if c = CHR ''-'' then ([c], cs) else ([], s) | [] \<Rightarrow> ([], s)) = (sg, s1)" by fastforce
    with e True obtain ip s2 where n: "number_int s1 = Some (ip, s2)" "lit = sg @ ip"
      by (auto simp: numberEnd_def short_def split: option.splits prod.splits)
    have sg2: "sg = [] \<or> sg = ''-''" using sg by (auto split: list.splits if_splits)
    have "json_write (JNumber lit) = Inr lit"
    proof (rule number_int_shape [OF n(1)])
      assume ip: "ip = ''0''"
      with sg2 True n(2) have l: "lit = ''0''" by (auto simp: short_def)
      have "lit_value ''0'' = 0" by (simp add: lit_value_def magnitude_def is_digit_def exponent_of_def)
      then show ?thesis unfolding l by (simp add: ParseFloat_def FormatNumber_def round_double_def)
    next
      assume ip: "list_all is_digit ip" "ip \<noteq> []" "hd ip \<noteq> CHR ''0''"
      have "hd ip \<noteq> CHR ''-''" using ip by (cases ip) (auto simp: is_digit_def)
      with True n(2) sg2 ip(2) have "length ip \<le> 15" by (auto simp: short_def)
      then show ?thesis unfolding n(2) by (intro short_integer_kept [OF ip _ sg2])
    qed
    with d o show ?thesis by blast
  qed
qed

section \<open>Members\<close>

abbreviation member_text :: "string \<times> string \<Rightarrow> string" where
  "member_text kw \<equiv> appendString (fst kw) @ CHR '':'' # snd kw"

text \<open>The spans of the members are their names and values.\<close>

definition spans_ok :: "nat \<Rightarrow> string \<Rightarrow> member_span list \<Rightarrow> (string \<times> string) list \<Rightarrow> bool" where
  "spans_ok base out ms kws \<longleftrightarrow>
     list_all2 (\<lambda>m kw. m_key m = fst kw \<and> byte_slice out (m_start m) (m_end m) = member_text kw \<and> base < m_start m \<and>
       m_start m \<le> m_end m \<and> m_end m \<le> length out) ms kws"

lemma byte_slice_append: "j \<le> length out \<Longrightarrow> byte_slice (out @ x) i j = byte_slice out i j"
  by (simp add: byte_slice_def)

lemma byte_slice_drop: "b \<le> i \<Longrightarrow> byte_slice (drop b out) (i - b) (j - b) = byte_slice out i j"
  by (cases "b \<le> j") (simp_all add: byte_slice_def)

lemma spans_ok_append:
  assumes "spans_ok base out ms kws" "m_key m = k" "base < length out'" "out' = out @ x"
    "m_start m = length out'" "m_end m = length (out' @ member_text (k, w))"
  shows "spans_ok base (out' @ member_text (k, w)) (ms @ [m]) (kws @ [(k, w)])"
proof -
  note x = assms(4)
  have "list_all2 (\<lambda>m kw. m_key m = fst kw \<and> byte_slice (out' @ member_text (k, w)) (m_start m) (m_end m) = member_text kw \<and> base < m_start m \<and>
       m_start m \<le> m_end m \<and> m_end m \<le> length (out' @ member_text (k, w))) ms kws"
    using assms(1) unfolding spans_ok_def x by (rule list_all2_mono) (auto simp: byte_slice_append append_assoc [symmetric] simp del: append_assoc)
  moreover have "byte_slice (out' @ member_text (k, w)) (m_start m) (m_end m) = member_text (k, w)"
    using assms(5,6) by (simp add: byte_slice_def)
  ultimately show ?thesis using assms by (simp add: spans_ok_def list_all2_appendI)
qed

lemma join_comma_snoc: "xs \<noteq> [] \<Longrightarrow> join_comma (xs @ [x]) = join_comma xs @ CHR '','' # x"
  by (induction xs rule: join_comma.induct) simp_all

text \<open>The end of an object leaves the members in strict order.\<close>

lemma object_end_sorted:
  assumes "object_end base out ms io = Some out'" "spans_ok base out ms kws" "list_all (utf8_Valid \<circ> fst) kws"
    and "io \<longleftrightarrow> successively (\<lambda>a b. lessKey (m_key a) (m_key b)) ms"
    and "out = pre @ CHR ''{'' # join_comma (map member_text kws)" "length pre = base"
  shows "\<exists>kws'. mset kws' = mset kws \<and> sorted_wrt (\<lambda>a b. lessKey (fst a) (fst b)) kws' \<and>
    out' = pre @ CHR ''{'' # join_comma (map member_text kws') @ ''}''"
proof -
  have keys: "map m_key ms = map fst kws" using assms(2) unfolding spans_ok_def
    by (induction rule: list_all2_induct) auto
  have valid: "list_all (\<lambda>m. utf8_Valid (m_key m)) ms"
    using assms(3) arg_cong [OF keys, of "list_all utf8_Valid"] by (simp add: list.pred_map comp_def)
  show ?thesis
  proof (cases io)
    case True
    have "sorted_wrt (\<lambda>a b. lessKey (m_key a) (m_key b)) ms"
      using by_key.successively_strict [OF valid] assms(4) True by simp
    then have "sorted_wrt (\<lambda>a b. lessKey a b) (map m_key ms)" by (simp add: sorted_wrt_map)
    then have "sorted_wrt (\<lambda>a b. lessKey (fst a) (fst b)) kws" unfolding keys by (simp add: sorted_wrt_map)
    moreover have "out' = out @ ''}''" using assms(1) True by (simp add: object_end_def)
    ultimately show ?thesis using assms(5) by auto
  next
    case False
    let ?s = "sortMembers ms"
    from assms(1) False have adj: "successively (\<lambda>a b. m_key a \<noteq> m_key b) ?s"
      and o: "out' = take (base + 1) out @ join_comma (map (\<lambda>m. byte_slice (drop (base + 1) out) (m_start m - base - 1) (m_end m - base - 1)) ?s) @ ''}''"
      by (auto simp: object_end_def Let_def split: if_splits)
    have ms: "mset ?s = mset ms" by (simp add: sortMembers_def)
    from list_all2_reorder_left_invariance [OF assms(2) [unfolded spans_ok_def] ms] obtain kws' where
      kw: "list_all2 (\<lambda>m kw. m_key m = fst kw \<and> byte_slice out (m_start m) (m_end m) = member_text kw \<and> base < m_start m \<and>
       m_start m \<le> m_end m \<and> m_end m \<le> length out) ?s kws'" "mset kws' = mset kws" by blast
    have vs: "list_all (\<lambda>m. utf8_Valid (m_key m)) ?s" using valid mset_eq_setD [OF ms] by (simp add: list_all_iff)
    have st: "sorted_wrt (\<lambda>a b. lessKey (m_key a) (m_key b)) ?s"
      using by_key.sorted_strict [OF _ vs adj] by_key.sortMembers_sorted [OF valid] by (simp add: sortMembers_def)
    have keys': "map m_key ?s = map fst kws'" using kw(1) by (induction rule: list_all2_induct) auto
    from st have "sorted_wrt (\<lambda>a b. lessKey a b) (map m_key ?s)" by (simp add: sorted_wrt_map)
    then have "sorted_wrt (\<lambda>a b. lessKey (fst a) (fst b)) kws'" unfolding keys' by (simp add: sorted_wrt_map)
    moreover have "map (\<lambda>m. byte_slice (drop (base + 1) out) (m_start m - base - 1) (m_end m - base - 1)) ?s = map member_text kws'"
      using kw(1) by (induction rule: list_all2_induct) (use byte_slice_drop [of "base + 1"] in auto)
    moreover have "take (base + 1) out = pre @ ''{''" using assms(5,6) by simp
    ultimately show ?thesis using o kw(2) by auto
  qed
qed

section \<open>What the decoder writes\<close>

lemma update_fresh: "k \<notin> fst ` set m \<Longrightarrow> AList.update k v m = m @ [(k, v)]"
  by (induction m) auto

lemma to_map_distinct: "distinct (map fst kvs) \<Longrightarrow> to_map kvs = kvs"
proof -
  have "fold (\<lambda>(k, v) m. AList.update k v m) kvs m = m @ kvs" if "distinct (map fst (m @ kvs))" for m
    using that
  proof (induction kvs arbitrary: m)
    case (Cons kv kvs)
    obtain k v where kv: "kv = (k, v)" by fastforce
    with Cons.prems have "AList.update k v m = m @ [(k, v)]" by (intro update_fresh) auto
    with Cons kv show ?case by simp
  qed simp
  from this [of "[]"] show "distinct (map fst kvs) \<Longrightarrow> to_map kvs = kvs" by (simp add: to_map_def)
qed

lemma sift_left_map: "sift_left lt fst (map_prod id f x) (map (map_prod id f) ys) = map (map_prod id f) (sift_left lt fst x ys)"
  by (induction ys) auto

lemma insertion_sort_map: "insertion_sort lt fst (map (map_prod id f) xs) = map (map_prod id f) (insertion_sort lt fst xs)"
proof -
  have "foldl (\<lambda>part x. sift_left lt fst x part) (map (map_prod id f) p) (map (map_prod id f) xs) =
    map (map_prod id f) (foldl (\<lambda>part x. sift_left lt fst x part) p xs)" for p
    by (induction xs arbitrary: p) (simp_all add: sift_left_map)
  from this [of "[]"] show ?thesis by (simp add: insertion_sort_def rev_map)
qed

lemma all_res_Inr: "all_res (map (\<lambda>x. Inr (f x)) xs) = Inr (map f xs)"
  by (induction xs) simp_all

lemma all_res_list_all2: "list_all2 (\<lambda>v w. g v = Inr w) vs ws \<Longrightarrow> all_res (map g vs) = Inr ws"
  by (induction rule: list_all2_induct) simp_all

lemma distinct_successively: "distinct (map key xs) \<Longrightarrow> successively (\<lambda>x y. key x \<noteq> key y) xs"
  by (induction xs rule: induct_list012) auto

lemma sort_names:
  assumes "mset kws' = mset kws" "list_all (utf8_Valid \<circ> fst) kws" "sorted_wrt (\<lambda>a b. LessUTF16 (fst a) (fst b)) kws'"
  shows "insertion_sort LessUTF16 fst kws = kws'" "distinct (map fst kws)"
proof -
  have v: "list_all (\<lambda>x. utf8_Valid (fst x)) kws" using assms(2) by (simp add: comp_def)
  have v': "list_all (\<lambda>x. utf8_Valid (fst x)) kws'" using v mset_eq_setD [OF assms(1)] by (simp add: list_all_iff)
  have "distinct (map fst kws')" by (rule utf16.strict_distinct [OF v' assms(3)])
  then show d: "distinct (map fst kws)" using mset_eq_imp_distinct_iff [of "map fst kws'" "map fst kws"] assms(1) by simp
  have vi: "list_all (\<lambda>x. utf8_Valid (fst x)) (insertion_sort LessUTF16 fst kws)"
    using v mset_eq_setD [OF mset_insertion_sort [of LessUTF16 fst kws]] by (simp add: list_all_iff)
  have "distinct (map fst (insertion_sort LessUTF16 fst kws))"
    using d mset_eq_imp_distinct_iff [of "map fst (insertion_sort LessUTF16 fst kws)" "map fst kws"] by simp
  then have "sorted_wrt (\<lambda>a b. LessUTF16 (fst a) (fst b)) (insertion_sort LessUTF16 fst kws)"
    by (intro utf16.sorted_strict [OF utf16.insertion_sort_sorted [OF v] vi] distinct_successively)
  then show "insertion_sort LessUTF16 fst kws = kws'"
    using assms(1) by (intro utf16.strict_unique [OF _ vi _ assms(3)]) simp_all
qed

lemma write_object:
  assumes "list_all2 (\<lambda>kv kw. fst kv = fst kw \<and> json_write (snd kv) = Inr (snd kw)) kvs kws" "list_all (utf8_Valid \<circ> fst) kws"
    and "mset kws' = mset kws" "sorted_wrt (\<lambda>a b. lessKey (fst a) (fst b)) kws'"
  shows "json_write (JObject (to_map kvs)) = Inr (CHR ''{'' # join_comma (map member_text kws') @ ''}'')"
proof -
  have v: "utf8_Valid (fst x)" if "x \<in> set kws'" for x using that assms(2) mset_eq_setD [OF assms(3)] by (simp add: list_all_iff)
  have "sorted_wrt (\<lambda>a b. LessUTF16 (fst a) (fst b)) kws'"
    using assms(4) v by (auto simp: lessKey_UTF16 elim!: sorted_wrt_mono_rel [rotated])
  note s = sort_names [OF assms(3,2) this]
  have k: "map fst kvs = map fst kws" "map (map_prod id json_write) kvs = map (map_prod id Inr) kws"
    using assms(1) by (induction rule: list_all2_induct) auto
  have "map (\<lambda>(k, t). bind_res t (\<lambda>w. Inr (writeString k @ CHR '':'' # w))) (insertion_sort LessUTF16 fst (map (map_prod id json_write) kvs)) =
    map (\<lambda>kw. Inr (member_text kw)) kws'"
    using v unfolding k(2) insertion_sort_map s(1) by (auto simp: writeString_appendString)
  with k(1) s(2) show ?thesis by (simp add: to_map_distinct all_res_Inr)
qed

section \<open>Values\<close>

lemma Valid_skipWS: "utf8_Valid s \<Longrightarrow> utf8_Valid (skipWS s)"
  by (induction s) (auto simp: skipWS_def is_ws_def)

lemma Valid_skipWS_Cons: "skipWS s = c # t \<Longrightarrow> utf8_Valid s \<Longrightarrow> byte c < 128 \<Longrightarrow> utf8_Valid t"
  using Valid_skipWS [of s] by simp

lemma Valid_lit: "take (length word) s = word \<Longrightarrow> list_all (\<lambda>c. byte c < 128) word \<Longrightarrow> utf8_Valid s = utf8_Valid (drop (length word) s)"
  using Valid_ascii_append [of word "drop (length word) s"] append_take_drop_id [of "length word" s] by simp

text \<open>What the three functions of the byte-level path and of the decoder have in common, at one amount of fuel.\<close>

definition values_agree :: "nat \<Rightarrow> bool" where
  "values_agree n \<longleftrightarrow>
     (\<forall>depth out s out' r. utf8_Valid s \<longrightarrow> fast_value n depth out s = Some (out', r) \<longrightarrow>
        (\<exists>v w. decode_value n depth s = Some (v, r) \<and> json_write v = Inr w \<and> out' = out @ w \<and> utf8_Valid r))"

definition elems_agree :: "nat \<Rightarrow> bool" where
  "elems_agree n \<longleftrightarrow>
     (\<forall>depth out s out' r. utf8_Valid s \<longrightarrow> fast_elems n depth out s = Some (out', r) \<longrightarrow>
        (\<exists>vs ws. decode_elems n depth s = Some (vs, r) \<and> list_all2 (\<lambda>v w. json_write v = Inr w) vs ws \<and> ws \<noteq> [] \<and>
           out' = out @ join_comma ws @ '']'' \<and> utf8_Valid r))"

definition members_agree :: "nat \<Rightarrow> bool" where
  "members_agree n \<longleftrightarrow>
     (\<forall>depth pre kws ms io s out' r. utf8_Valid s \<longrightarrow> list_all (utf8_Valid \<circ> fst) kws \<longrightarrow>
        spans_ok (length pre) (pre @ CHR ''{'' # join_comma (map member_text kws)) ms kws \<longrightarrow>
        (io \<longleftrightarrow> successively (\<lambda>a b. lessKey (m_key a) (m_key b)) ms) \<longrightarrow>
        fast_members n depth (length pre) (pre @ CHR ''{'' # join_comma (map member_text kws)) s ms io = Some (out', r) \<longrightarrow>
        (\<exists>kvs kws2 kws'. decode_members n depth s = Some (kvs, r) \<and>
           list_all2 (\<lambda>kv kw. fst kv = fst kw \<and> json_write (snd kv) = Inr (snd kw)) kvs kws2 \<and> list_all (utf8_Valid \<circ> fst) kws2 \<and>
           mset kws' = mset (kws @ kws2) \<and> sorted_wrt (\<lambda>a b. lessKey (fst a) (fst b)) kws' \<and>
           out' = pre @ CHR ''{'' # join_comma (map member_text kws') @ ''}'' \<and> utf8_Valid r))"

lemma members_agreeD:
  assumes "members_agree n" "utf8_Valid s" "list_all (utf8_Valid \<circ> fst) kws"
    and "spans_ok (length pre) (pre @ CHR ''{'' # join_comma (map member_text kws)) ms kws"
    and "io \<longleftrightarrow> successively (\<lambda>a b. lessKey (m_key a) (m_key b)) ms"
    and "fast_members n depth (length pre) (pre @ CHR ''{'' # join_comma (map member_text kws)) s ms io = Some (out', r)"
  obtains kvs kws2 kws' where "decode_members n depth s = Some (kvs, r)"
    "list_all2 (\<lambda>kv kw. fst kv = fst kw \<and> json_write (snd kv) = Inr (snd kw)) kvs kws2" "list_all (utf8_Valid \<circ> fst) kws2"
    "mset kws' = mset (kws @ kws2)" "sorted_wrt (\<lambda>a b. lessKey (fst a) (fst b)) kws'"
    "out' = pre @ CHR ''{'' # join_comma (map member_text kws') @ ''}''" "utf8_Valid r"
  using assms(1) [unfolded members_agree_def, rule_format, OF assms(2-)] by blast

lemma fast_lit_agrees:
  assumes "fast_lit word out s = Some (out', r)" "utf8_Valid s" "list_all (\<lambda>c. byte c < 128) word" "json_write v = Inr word"
  shows "\<exists>v' w. decode_lit word v s = Some (v', r) \<and> json_write v' = Inr w \<and> out' = out @ w \<and> utf8_Valid r"
  using assms Valid_lit [of word s] by (auto simp: fast_lit_def decode_lit_def split: if_splits)

lemma elems_step:
  assumes "values_agree n" "elems_agree n"
  shows "elems_agree (Suc n)"
  unfolding elems_agree_def
proof (intro allI impI)
  fix depth out s out' r
  assume s: "utf8_Valid s" and f: "fast_elems (Suc n) depth out s = Some (out', r)"
  from f obtain o1 r1 x r2 where e: "fast_value n depth out s = Some (o1, r1)" "skipWS r1 = x # r2" "x = CHR '','' \<or> x = CHR '']''"
    by (auto split: option.splits list.splits if_splits)
  from assms(1) s e(1) obtain v w where v: "decode_value n depth s = Some (v, r1)" "json_write v = Inr w" "o1 = out @ w" "utf8_Valid r1"
    by (metis values_agree_def)
  have r2: "utf8_Valid r2" using Valid_skipWS_Cons [OF e(2) v(4)] e(3) by auto
  show "\<exists>vs ws. decode_elems (Suc n) depth s = Some (vs, r) \<and> list_all2 (\<lambda>v w. json_write v = Inr w) vs ws \<and> ws \<noteq> [] \<and>
    out' = out @ join_comma ws @ '']'' \<and> utf8_Valid r"
  proof (cases "x = CHR '',''")
    case True
    then have f2: "fast_elems n depth (out @ w @ '','') (skipWS r2) = Some (out', r)" using f e v(3) by simp
    from assms(2) Valid_skipWS [OF r2] f2 obtain vs ws where
      "decode_elems n depth (skipWS r2) = Some (vs, r)" "list_all2 (\<lambda>v w. json_write v = Inr w) vs ws" "ws \<noteq> []"
      "out' = (out @ w @ '','') @ join_comma ws @ '']''" "utf8_Valid r" by (metis elems_agree_def)
    with v e True show ?thesis by (intro exI [of _ "v # vs"] exI [of _ "w # ws"]) (cases ws, auto)
  next
    case False
    with e(3) have "x = CHR '']''" by simp
    then show ?thesis using f e v r2 by (intro exI [of _ "[v]"] exI [of _ "[w]"]) auto
  qed
qed

lemma values_step:
  assumes "members_agree n" "elems_agree n"
  shows "values_agree (Suc n)"
  unfolding values_agree_def
proof (intro allI impI)
  fix depth out s out' r
  assume s: "utf8_Valid s" and f: "fast_value (Suc n) depth out s = Some (out', r)"
  then obtain c cs where c: "s = c # cs" by (cases s) auto
  let ?goal = "\<exists>v w. decode_value (Suc n) depth s = Some (v, r) \<and> json_write v = Inr w \<and> out' = out @ w \<and> utf8_Valid r"
  have depth: "depth < 10000" if "\<not> fast_maxDepth \<le> depth" using that by (simp add: fast_maxDepth_def)
  have "c = CHR ''{'' \<or> c = CHR ''['' \<or> c = quote \<or> (c = CHR ''-'' \<or> is_digit c) \<or> c = CHR ''t'' \<or> c = CHR ''f'' \<or> c = CHR ''n''"
    by (rule ccontr) (use f c in simp)
  then consider (obj) "c = CHR ''{''" | (arr) "c = CHR ''[''" | (str) "c = quote" | (num) "c = CHR ''-'' \<or> is_digit c"
    | (t) "c = CHR ''t''" | (f) "c = CHR ''f''" | (n) "c = CHR ''n''" by argo
  then show ?goal
  proof cases
    case obj
    with f c have d: "\<not> fast_maxDepth \<le> depth" by auto
    with f c obj obtain x r1 where w: "skipWS cs = x # r1" by (cases "skipWS cs") auto
    have vs: "utf8_Valid (x # r1)" using Valid_skipWS [of cs] s c obj w by simp
    show ?thesis
    proof (cases "x = CHR ''}''")
      case True
      with f c obj d w vs depth show ?thesis
        by (intro exI [of _ "JObject []"] exI [of _ "''{}''"]) (simp add: decode_maxDepth_def insertion_sort_def)
    next
      case False
      have fm: "fast_members n (depth + 1) (length out) (out @ CHR ''{'' # join_comma (map member_text [])) (x # r1) [] True = Some (out', r)"
        using f c obj d w False by simp
      have sp: "spans_ok (length out) (out @ CHR ''{'' # join_comma (map member_text [])) [] []" by (simp add: spans_ok_def)
      obtain kvs kws2 kws' where k: "decode_members n (depth + 1) (x # r1) = Some (kvs, r)"
          "list_all2 (\<lambda>kv kw. fst kv = fst kw \<and> json_write (snd kv) = Inr (snd kw)) kvs kws2" "list_all (utf8_Valid \<circ> fst) kws2"
          "mset kws' = mset ([] @ kws2)" "sorted_wrt (\<lambda>a b. lessKey (fst a) (fst b)) kws'"
          "out' = out @ CHR ''{'' # join_comma (map member_text kws') @ ''}''" "utf8_Valid r"
        by (rule members_agreeD [OF assms(1) vs _ sp _ fm]) simp_all
      with write_object [OF k(2,3) _ k(5)] f c obj d w False depth show ?thesis
        by (intro exI [of _ "JObject (to_map kvs)"] exI [of _ "CHR ''{'' # join_comma (map member_text kws') @ ''}''"])
          (simp add: decode_maxDepth_def)
    qed
  next
    case arr
    with f c have d: "\<not> fast_maxDepth \<le> depth" by auto
    with f c arr obtain x r1 where w: "skipWS cs = x # r1" by (cases "skipWS cs") auto
    have vs: "utf8_Valid (x # r1)" using Valid_skipWS [of cs] s c arr w by simp
    show ?thesis
    proof (cases "x = CHR '']''")
      case True
      with f c arr d w vs depth show ?thesis
        by (intro exI [of _ "JArray []"] exI [of _ "''[]''"]) (simp add: decode_maxDepth_def)
    next
      case False
      have "fast_elems n (depth + 1) (out @ ''['') (x # r1) = Some (out', r)" using f c arr d w False by simp
      with assms(2) vs obtain es ws where k: "decode_elems n (depth + 1) (x # r1) = Some (es, r)"
          "list_all2 (\<lambda>v w. json_write v = Inr w) es ws" "out' = (out @ ''['') @ join_comma ws @ '']''" "utf8_Valid r"
        by (metis elems_agree_def)
      with all_res_list_all2 [OF k(2)] f c arr d w False depth show ?thesis
        by (intro exI [of _ "JArray es"] exI [of _ "CHR ''['' # join_comma ws @ '']''"]) (simp add: decode_maxDepth_def)
    qed
  next
    case str
    with f c obtain v where v: "fast_str cs = Some (v, r)" "out' = out @ appendString v" by (auto split: option.splits)
    have "utf8_Valid cs" using s c str by simp
    note a = fast_str_agrees [OF this v(1)]
    with v c str writeString_appendString [OF a(2)] show ?thesis by (intro exI [of _ "JString v"] exI [of _ "appendString v"]) simp
  next
    case num
    then have nc: "c \<noteq> CHR ''{''" "c \<noteq> CHR ''[''" "c \<noteq> quote" by (auto simp: is_digit_def)
    with num f c have "fast_number out s = Some (out', r)" by simp
    from fast_number_agrees [OF this] obtain lit w where l: "decode_number s = Some (lit, r)" "json_write (JNumber lit) = Inr w" "out' = out @ w"
      by blast
    with num nc c decode_number_split(3) [OF l(1)] s show ?thesis by (intro exI [of _ "JNumber lit"] exI [of _ w]) simp
  next
    case t
    then have "fast_lit ''true'' out s = Some (out', r)" using f c by (simp add: is_digit_def)
    with fast_lit_agrees [OF this s, of "JBool True"] t c show ?thesis by (simp add: is_digit_def)
  next
    case f
    then have "fast_lit ''false'' out s = Some (out', r)" using \<open>fast_value (Suc n) depth out s = Some (out', r)\<close> c by (simp add: is_digit_def)
    with fast_lit_agrees [OF this s, of "JBool False"] f c show ?thesis by (simp add: is_digit_def)
  next
    case n
    then have "fast_lit ''null'' out s = Some (out', r)" using f c by (simp add: is_digit_def)
    with fast_lit_agrees [OF this s, of "JNull"] n c show ?thesis by (simp add: is_digit_def)
  qed
qed

lemma fast_members_cases:
  assumes "fast_members (Suc n) depth base out s ms io = Some (out', r)"
  obtains cs key r1 r2 out1 out2 r3 x r4 m io' where "s = quote # cs" "fast_str cs = Some (key, r1)" "skipWS r1 = CHR '':'' # r2"
    "out1 = (if ms \<noteq> [] then out @ '','' else out)" "fast_value n depth (out1 @ appendString key @ '':'') (skipWS r2) = Some (out2, r3)"
    "skipWS r3 = x # r4" "x = CHR '','' \<or> x = CHR ''}''" "m = \<lparr>m_key = key, m_start = length out1, m_end = length out2\<rparr>"
    "io' = (io \<and> (ms \<noteq> [] \<longrightarrow> lessKey (m_key (last ms)) key))"
    "x = CHR '','' \<longrightarrow> fast_members n depth base out2 (skipWS r4) (ms @ [m]) io' = Some (out', r)"
    "x = CHR ''}'' \<longrightarrow> object_end base out2 (ms @ [m]) io' = Some out' \<and> r = r4"
proof -
  obtain cs where s: "s = quote # cs" using assms by (cases s) (auto split: if_splits)
  obtain key r1 where k: "fast_str cs = Some (key, r1)" using assms s by (cases "fast_str cs") auto
  obtain r2 where r2: "skipWS r1 = CHR '':'' # r2" using assms s k by (auto split: list.splits if_splits)
  define out1 where "out1 = (if ms \<noteq> [] then out @ '','' else out)"
  note f = assms [unfolded s k r2 fast_members.simps list.case option.case prod.case Let_def out1_def [symmetric], simplified]
  obtain out2 r3 where v: "fast_value n depth (out1 @ appendString key @ '':'') (skipWS r2) = Some (out2, r3)"
    using f by (auto split: option.splits)
  obtain x r4 where r4: "skipWS r3 = x # r4" using f v by (cases "skipWS r3") (auto split: if_splits)
  show ?thesis
    by (rule that [OF s k r2 out1_def v r4 _ refl refl]) (use f v r4 in \<open>auto split: if_splits option.splits\<close>)
qed

lemma members_step:
  assumes "values_agree n" "members_agree n"
  shows "members_agree (Suc n)"
  unfolding members_agree_def
proof (intro allI impI)
  fix depth pre kws ms io s out' r
  let ?out = "pre @ CHR ''{'' # join_comma (map member_text kws)"
  assume s: "utf8_Valid s" and kv: "list_all (utf8_Valid \<circ> fst) kws" and sp: "spans_ok (length pre) ?out ms kws"
    and io: "io \<longleftrightarrow> successively (\<lambda>a b. lessKey (m_key a) (m_key b)) ms"
    and f: "fast_members (Suc n) depth (length pre) ?out s ms io = Some (out', r)"
  from f obtain cs key r1 r2 out1 out2 r3 x r4 m io' where c: "s = quote # cs" "fast_str cs = Some (key, r1)" "skipWS r1 = CHR '':'' # r2"
    "out1 = (if ms \<noteq> [] then ?out @ '','' else ?out)" "fast_value n depth (out1 @ appendString key @ '':'') (skipWS r2) = Some (out2, r3)"
    "skipWS r3 = x # r4" "x = CHR '','' \<or> x = CHR ''}''" "m = \<lparr>m_key = key, m_start = length out1, m_end = length out2\<rparr>"
    "io' = (io \<and> (ms \<noteq> [] \<longrightarrow> lessKey (m_key (last ms)) key))"
    and comma: "x = CHR '','' \<longrightarrow> fast_members n depth (length pre) out2 (skipWS r4) (ms @ [m]) io' = Some (out', r)"
    and brace: "x = CHR ''}'' \<longrightarrow> object_end (length pre) out2 (ms @ [m]) io' = Some out' \<and> r = r4"
    by (rule fast_members_cases)
  have cs: "utf8_Valid cs" using s c(1) by simp
  note str = fast_str_agrees [OF cs c(2)]
  have r2: "utf8_Valid (skipWS r2)" using Valid_skipWS_Cons [OF c(3) str(3)] by (simp add: Valid_skipWS)
  from assms(1) r2 c(5) obtain v w where v: "decode_value n depth (skipWS r2) = Some (v, r3)" "json_write v = Inr w"
      "out2 = (out1 @ appendString key @ '':'') @ w" "utf8_Valid r3" unfolding values_agree_def by blast
  have r4: "utf8_Valid r4" using Valid_skipWS_Cons [OF c(6) v(4)] c(7) by auto
  let ?kws = "kws @ [(key, w)]"
  have e: "ms = [] \<longleftrightarrow> kws = []" using sp by (auto simp: spans_ok_def)
  have out2: "out2 = pre @ CHR ''{'' # join_comma (map member_text ?kws)"
    using v(3) c(4) e by (cases "kws = []") (simp_all add: join_comma_snoc)
  have sp2: "spans_ok (length pre) (pre @ CHR ''{'' # join_comma (map member_text ?kws)) (ms @ [m]) ?kws"
  proof -
    have o2: "out2 = out1 @ member_text (key, w)" using v(3) by simp
    have "spans_ok (length pre) (out1 @ member_text (key, w)) (ms @ [m]) ?kws"
      by (rule spans_ok_append [OF sp, where x = "if ms \<noteq> [] then '','' else []"]) (use c(4,8) o2 in auto)
    then show ?thesis using o2 out2 by simp
  qed
  have io2: "io' \<longleftrightarrow> successively (\<lambda>a b. lessKey (m_key a) (m_key b)) (ms @ [m])"
    using io c(8,9) by (auto simp: successively_append_iff)
  have kv2: "list_all (utf8_Valid \<circ> fst) ?kws" using kv str(2) by simp
  show "\<exists>kvs kws2 kws'. decode_members (Suc n) depth s = Some (kvs, r) \<and>
     list_all2 (\<lambda>kv kw. fst kv = fst kw \<and> json_write (snd kv) = Inr (snd kw)) kvs kws2 \<and> list_all (utf8_Valid \<circ> fst) kws2 \<and>
     mset kws' = mset (kws @ kws2) \<and> sorted_wrt (\<lambda>a b. lessKey (fst a) (fst b)) kws' \<and>
     out' = pre @ CHR ''{'' # join_comma (map member_text kws') @ ''}'' \<and> utf8_Valid r"
  proof (cases "x = CHR '',''")
    case True
    note fm = comma [THEN mp, OF True, unfolded out2]
    obtain kvs kws2 kws' where k: "decode_members n depth (skipWS r4) = Some (kvs, r)"
        "list_all2 (\<lambda>kv kw. fst kv = fst kw \<and> json_write (snd kv) = Inr (snd kw)) kvs kws2" "list_all (utf8_Valid \<circ> fst) kws2"
        "mset kws' = mset (?kws @ kws2)" "sorted_wrt (\<lambda>a b. lessKey (fst a) (fst b)) kws'"
        "out' = pre @ CHR ''{'' # join_comma (map member_text kws') @ ''}''" "utf8_Valid r"
      by (rule members_agreeD [OF assms(2) Valid_skipWS [OF r4] kv2 sp2 io2 fm])
    show ?thesis
      by (intro exI [of _ "(key, v) # kvs"] exI [of _ "(key, w) # kws2"] exI [of _ kws'])
        (use k c(1,3,6) str v True in \<open>simp add: ac_simps\<close>)
  next
    case False
    with c(7) have x: "x = CHR ''}''" by simp
    from object_end_sorted [OF _ sp2 kv2 io2 refl refl] brace [THEN mp, OF x] out2 obtain kws' where
      k: "mset kws' = mset ?kws" "sorted_wrt (\<lambda>a b. lessKey (fst a) (fst b)) kws'"
        "out' = pre @ CHR ''{'' # join_comma (map member_text kws') @ ''}''" by blast
    show ?thesis
      by (intro exI [of _ "[(key, v)]"] exI [of _ "[(key, w)]"] exI [of _ kws'])
        (use k c(1,3,6) str v x brace [THEN mp, OF x] r4 in simp)
  qed
qed

lemma all_agree: "values_agree n \<and> elems_agree n \<and> members_agree n"
proof (induction n)
  case 0
  show ?case by (simp add: values_agree_def elems_agree_def members_agree_def)
qed (simp add: values_step elems_step members_step)

lemma skipWS_idem [simp]: "skipWS (skipWS s) = skipWS s"
  by (simp add: skipWS_def)

text \<open>The byte-level path answers what the decoder does.\<close>

lemma transformFast_agrees:
  assumes "transformFast data = Some out"
  shows "transformDecoded data = Inr out"
proof -
  from assms obtain r where v: "utf8_Valid data" and f: "fast_value (Suc (2 * length data)) 0 [] (skipWS data) = Some (out, r)" and r: "skipWS r = []"
    by (auto simp: transformFast_def simp del: fast_value.simps split: if_splits option.splits)
  from all_agree Valid_skipWS [OF v] f obtain x where "decode_value (Suc (2 * length data)) 0 (skipWS data) = Some (x, r)" "json_write x = Inr out"
    unfolding values_agree_def by (metis append_Nil)
  with r show ?thesis by (simp add: transformDecoded_def dec_More_def del: decode_value.simps)
qed

end
