(* ===== verification/Canonical_Back.thy ===== *)
theory Canonical_Back
  imports Canonical_Agree
begin

text \<open>
  Reading a canonical form gives back the value that was written, so that the canonical form of a
  canonical form is itself.  The first part shows that the fuel of the recursions is enough: no
  result depends on it once it exceeds the length of the input.
\<close>

section \<open>Fuel\<close>

lemma skipWS_length: "length (skipWS s) \<le> length s"
  by (simp add: skipWS_def length_dropWhile_le)

lemma scan_string_shorter: "scan_string s = Some (b, r) \<Longrightarrow> length r < length s"
  by (induction s arbitrary: b rule: scan_string.induct) (fastforce split: if_splits)+

lemma decode_string_shorter: "decode_string s = Some (v, r) \<Longrightarrow> length r < length s"
  by (auto simp: decode_string_def dest: scan_string_shorter)

lemma scan_number_Neg: "scan_number NumNeg s = Some (l, r) \<Longrightarrow> l \<noteq> []"
  by (cases s) (auto split: option.splits)

lemma decode_number_shorter:
  assumes "decode_number s = Some (l, r)"
  shows "length r < length s"
proof -
  have "l \<noteq> []" using assms by (auto simp: decode_number_def simp del: scan_number.simps split: list.splits if_splits dest: scan_number_Neg)
  then show ?thesis using decode_number_split(1) [OF assms] by simp
qed

lemma skipWS_Cons_shorter: "skipWS s = c # t \<Longrightarrow> length t < length s"
  using skipWS_length [of s] by simp

lemma decode_lit_split: "decode_lit word v s = Some (v', r) \<Longrightarrow> v' = v \<and> s = word @ r"
  using append_take_drop_id [of "length word" s] by (auto simp: decode_lit_def simp del: append_take_drop_id split: if_splits)

lemma decode_value_cases:
  assumes "decode_value (Suc n) d s = Some (v, r)"
  obtains (obj0) cs where "s = CHR ''{'' # cs" "d < decode_maxDepth" "skipWS cs = CHR ''}'' # r" "v = JObject []"
  | (obj) cs x r1 kvs where "s = CHR ''{'' # cs" "d < decode_maxDepth" "skipWS cs = x # r1" "x \<noteq> CHR ''}''"
      "decode_members n (d + 1) (x # r1) = Some (kvs, r)" "v = JObject (to_map kvs)"
  | (arr0) cs where "s = CHR ''['' # cs" "d < decode_maxDepth" "skipWS cs = CHR '']'' # r" "v = JArray []"
  | (arr) cs x r1 vs where "s = CHR ''['' # cs" "d < decode_maxDepth" "skipWS cs = x # r1" "x \<noteq> CHR '']''"
      "decode_elems n (d + 1) (x # r1) = Some (vs, r)" "v = JArray vs"
  | (str) cs b where "s = quote # cs" "decode_string cs = Some (b, r)" "v = JString b"
  | (num) c cs l where "s = c # cs" "c = CHR ''-'' \<or> is_digit c" "decode_number s = Some (l, r)" "v = JNumber l"
  | (lit) word where "(word, v) \<in> {(''true'', JBool True), (''false'', JBool False), (''null'', JNull)}" "s = word @ r"
proof -
  obtain c cs where s: "s = c # cs" using assms by (cases s) auto
  have "c = CHR ''{'' \<or> c = CHR ''['' \<or> c = quote \<or> (c = CHR ''-'' \<or> is_digit c) \<or> c = CHR ''t'' \<or> c = CHR ''f'' \<or> c = CHR ''n''"
    by (rule ccontr) (use assms s in simp)
  then consider "c = CHR ''{''" | "c = CHR ''[''" | "c = quote" | "c = CHR ''-'' \<or> is_digit c" | "c = CHR ''t''" | "c = CHR ''f''" | "c = CHR ''n''"
    by argo
  then show ?thesis
  proof cases
    case 1
    note f = assms [unfolded s 1, simplified]
    then obtain x r1 where w: "skipWS cs = x # r1" by (cases "skipWS cs") (auto split: if_splits)
    show ?thesis
      by (cases "x = CHR ''}''") (use f s 1 w obj0 [of cs] obj [of cs x r1] in \<open>auto split: if_splits\<close>)
  next
    case 2
    note f = assms [unfolded s 2, simplified]
    then obtain x r1 where w: "skipWS cs = x # r1" by (cases "skipWS cs") (auto split: if_splits)
    show ?thesis
      by (cases "x = CHR '']''") (use f s 2 w arr0 [of cs] arr [of cs x r1] in \<open>auto split: if_splits\<close>)
  next
    case 3
    with assms s str [of cs] show ?thesis by auto
  next
    case 4
    then have nc: "c \<noteq> CHR ''{''" "c \<noteq> CHR ''[''" "c \<noteq> quote" by (auto simp: is_digit_def)
    with assms s 4 num [of c cs] show ?thesis by auto
  next
    case 5
    with assms s have "decode_lit ''true'' (JBool True) s = Some (v, r)" by (simp add: is_digit_def)
    from decode_lit_split [OF this] show ?thesis by (intro lit [of "''true''"]) auto
  next
    case 6
    with assms s have "decode_lit ''false'' (JBool False) s = Some (v, r)" by (simp add: is_digit_def)
    from decode_lit_split [OF this] show ?thesis by (intro lit [of "''false''"]) auto
  next
    case 7
    with assms s have "decode_lit ''null'' JNull s = Some (v, r)" by (simp add: is_digit_def)
    from decode_lit_split [OF this] show ?thesis by (intro lit [of "''null''"]) auto
  qed
qed

lemma decode_members_cases:
  assumes "decode_members (Suc n) d s = Some (kvs, r)"
  obtains cs key r1 r2 v r3 x r4 kvs' where "s = quote # cs" "decode_string cs = Some (key, r1)" "skipWS r1 = CHR '':'' # r2"
    "decode_value n d (skipWS r2) = Some (v, r3)" "skipWS r3 = x # r4" "kvs = (key, v) # kvs'"
    "x = CHR '','' \<and> decode_members n d (skipWS r4) = Some (kvs', r) \<or> x = CHR ''}'' \<and> kvs' = [] \<and> r = r4"
proof -
  obtain cs where s: "s = quote # cs" using assms by (cases s) (auto split: if_splits)
  obtain key r1 where k: "decode_string cs = Some (key, r1)" using assms s by (cases "decode_string cs") auto
  obtain r2 where r2: "skipWS r1 = CHR '':'' # r2" using assms s k by (auto split: list.splits if_splits)
  note f = assms [unfolded s k r2 decode_members.simps list.case option.case prod.case, simplified]
  obtain v r3 where v: "decode_value n d (skipWS r2) = Some (v, r3)" using f by (auto split: option.splits)
  obtain x r4 where r4: "skipWS r3 = x # r4" using f v by (cases "skipWS r3") auto
  show ?thesis
    by (rule that [OF s k r2 v r4, of "tl kvs"]) (use f v r4 in \<open>auto split: if_splits\<close>)
qed

lemma decode_elems_cases:
  assumes "decode_elems (Suc n) d s = Some (vs, r)"
  obtains v r3 x r4 vs' where "decode_value n d s = Some (v, r3)" "skipWS r3 = x # r4" "vs = v # vs'"
    "x = CHR '','' \<and> decode_elems n d (skipWS r4) = Some (vs', r) \<or> x = CHR '']'' \<and> vs' = [] \<and> r = r4"
proof -
  obtain v r3 where v: "decode_value n d s = Some (v, r3)" using assms by (auto split: option.splits)
  obtain x r4 where r4: "skipWS r3 = x # r4" using assms v by (cases "skipWS r3") auto
  show ?thesis
    by (rule that [OF v r4, of "tl vs"]) (use assms v r4 in \<open>auto split: if_splits\<close>)
qed

lemma decode_shorter_all:
  "(\<forall>d s v r. decode_value n d s = Some (v, r) \<longrightarrow> length r < length s) \<and>
   (\<forall>d s kvs r. decode_members n d s = Some (kvs, r) \<longrightarrow> length r < length s) \<and>
   (\<forall>d s vs r. decode_elems n d s = Some (vs, r) \<longrightarrow> length r < length s)"
proof (induction n)
  case (Suc n)
  have v: "length r < length s" if "decode_value (Suc n) d s = Some (v, r)" for d s v r
    using that
  proof (cases rule: decode_value_cases)
    case (obj cs x r1 kvs)
    with Suc skipWS_length [of cs] show ?thesis by fastforce
  next
    case (arr cs x r1 vs)
    with Suc skipWS_length [of cs] show ?thesis by fastforce
  next
    case (lit word)
    then show ?thesis by auto
  qed (use skipWS_Cons_shorter decode_string_shorter decode_number_shorter in force)+
  have m: "length r < length s" if "decode_members (Suc n) d s = Some (kvs, r)" for d s kvs r
  proof -
    from that obtain cs key r1 r2 v r3 x r4 kvs' where c: "s = quote # cs" "decode_string cs = Some (key, r1)" "skipWS r1 = CHR '':'' # r2"
      "decode_value n d (skipWS r2) = Some (v, r3)" "skipWS r3 = x # r4" "kvs = (key, v) # kvs'"
      "x = CHR '','' \<and> decode_members n d (skipWS r4) = Some (kvs', r) \<or> x = CHR ''}'' \<and> kvs' = [] \<and> r = r4"
      by (rule decode_members_cases)
    from Suc c(4) have "length r3 < length (skipWS r2)" by blast
    moreover from Suc c(7) have "length r < length (skipWS r4) \<or> r = r4" by blast
    then have "length r \<le> length r4" using skipWS_length [of r4] by auto
    ultimately show ?thesis
      using c(1) decode_string_shorter [OF c(2)] skipWS_Cons_shorter [OF c(3)] skipWS_Cons_shorter [OF c(5)] skipWS_length [of r2]
      by simp
  qed
  have e: "length r < length s" if "decode_elems (Suc n) d s = Some (vs, r)" for d s vs r
  proof -
    from that obtain v r3 x r4 vs' where c: "decode_value n d s = Some (v, r3)" "skipWS r3 = x # r4" "vs = v # vs'"
      "x = CHR '','' \<and> decode_elems n d (skipWS r4) = Some (vs', r) \<or> x = CHR '']'' \<and> vs' = [] \<and> r = r4"
      by (rule decode_elems_cases)
    from Suc c(1) have "length r3 < length s" by blast
    moreover from Suc c(4) have "length r < length (skipWS r4) \<or> r = r4" by blast
    then have "length r \<le> length r4" using skipWS_length [of r4] by auto
    ultimately show ?thesis using skipWS_Cons_shorter [OF c(2)] by simp
  qed
  show ?case using v m e by blast
qed simp

lemmas decode_shorter =
  decode_shorter_all [THEN conjunct1, rule_format]
  decode_shorter_all [THEN conjunct2, THEN conjunct1, rule_format]
  decode_shorter_all [THEN conjunct2, THEN conjunct2, rule_format]

text \<open>Fuel above twice the length of the input gives every result that any fuel gives.\<close>

lemma decode_fuel_all:
  "(\<forall>n d s v r. decode_value m d s = Some (v, r) \<longrightarrow> 2 * length s < n \<longrightarrow> decode_value n d s = Some (v, r)) \<and>
   (\<forall>n d s kvs r. decode_members m d s = Some (kvs, r) \<longrightarrow> 2 * length s < n \<longrightarrow> decode_members n d s = Some (kvs, r)) \<and>
   (\<forall>n d s vs r. decode_elems m d s = Some (vs, r) \<longrightarrow> Suc (2 * length s) < n \<longrightarrow> decode_elems n d s = Some (vs, r))"
proof (induction m)
  case (Suc m)
  have v: "decode_value n d s = Some (v, r)" if a: "decode_value (Suc m) d s = Some (v, r)" and n: "2 * length s < n" for n d s v r
  proof -
    obtain k where k: "n = Suc k" "2 * length s \<le> k" using n by (cases n) auto
    from a show ?thesis
    proof (cases rule: decode_value_cases)
      case (obj cs x r1 kvs)
      with k skipWS_length [of cs] have "2 * length (x # r1) < k" by simp
      with Suc obj have "decode_members k (d + 1) (x # r1) = Some (kvs, r)" by blast
      with obj k show ?thesis by simp
    next
      case (arr cs x r1 vs)
      with k skipWS_length [of cs] have "Suc (2 * length (x # r1)) < k" by simp
      with Suc arr have "decode_elems k (d + 1) (x # r1) = Some (vs, r)" by blast
      with arr k show ?thesis by simp
    next
      case (lit word)
      with k show ?thesis by (auto simp: decode_lit_def is_digit_def)
    next
      case (num c cs l)
      then have "c \<noteq> CHR ''{''" "c \<noteq> CHR ''[''" "c \<noteq> quote" by (auto simp: is_digit_def)
      with num k show ?thesis by auto
    qed (use k in simp_all)
  qed
  have mem: "decode_members n d s = Some (kvs, r)" if a: "decode_members (Suc m) d s = Some (kvs, r)" and n: "2 * length s < n" for n d s kvs r
  proof -
    obtain k where k: "n = Suc k" "2 * length s \<le> k" using n by (cases n) auto
    from a obtain cs key r1 r2 v r3 x r4 kvs' where c: "s = quote # cs" "decode_string cs = Some (key, r1)" "skipWS r1 = CHR '':'' # r2"
      "decode_value m d (skipWS r2) = Some (v, r3)" "skipWS r3 = x # r4" "kvs = (key, v) # kvs'"
      "x = CHR '','' \<and> decode_members m d (skipWS r4) = Some (kvs', r) \<or> x = CHR ''}'' \<and> kvs' = [] \<and> r = r4"
      by (rule decode_members_cases)
    note l = decode_string_shorter [OF c(2)] skipWS_Cons_shorter [OF c(3)] skipWS_Cons_shorter [OF c(5)] skipWS_length [of r2] skipWS_length [of r4]
      decode_shorter(1) [OF c(4)]
    have "2 * length (skipWS r2) < k" using k(2) c(1) l by simp
    with Suc c(4) have v: "decode_value k d (skipWS r2) = Some (v, r3)" by blast
    have "2 * length (skipWS r4) < k" using k(2) c(1) l by simp
    with Suc have "decode_members m d (skipWS r4) = Some (kvs', r) \<Longrightarrow> decode_members k d (skipWS r4) = Some (kvs', r)" by blast
    with c v k(1) show ?thesis by auto
  qed
  have el: "decode_elems n d s = Some (vs, r)" if a: "decode_elems (Suc m) d s = Some (vs, r)" and n: "Suc (2 * length s) < n" for n d s vs r
  proof -
    obtain k where k: "n = Suc k" "Suc (2 * length s) \<le> k" using n by (cases n) auto
    from a obtain v r3 x r4 vs' where c: "decode_value m d s = Some (v, r3)" "skipWS r3 = x # r4" "vs = v # vs'"
      "x = CHR '','' \<and> decode_elems m d (skipWS r4) = Some (vs', r) \<or> x = CHR '']'' \<and> vs' = [] \<and> r = r4"
      by (rule decode_elems_cases)
    note l = skipWS_Cons_shorter [OF c(2)] skipWS_length [of r4] decode_shorter(1) [OF c(1)]
    have "2 * length s < k" using k(2) by simp
    with Suc c(1) have v: "decode_value k d s = Some (v, r3)" by blast
    have "Suc (2 * length (skipWS r4)) < k" using k(2) l by simp
    with Suc have "decode_elems m d (skipWS r4) = Some (vs', r) \<Longrightarrow> decode_elems k d (skipWS r4) = Some (vs', r)" by blast
    with c v k(1) show ?thesis by auto
  qed
  show ?case using v mem el by blast
qed simp

lemmas decode_fuel = decode_fuel_all [THEN conjunct1, rule_format]

section \<open>Strings read back\<close>

lemma hexDigits_back: "n < 16 \<Longrightarrow> hex_digit (hexDigits n) = Some n"
  by (auto simp: hexDigits_def hex_digit_def)

lemma hex4_control: "n < 32 \<Longrightarrow> hex4 (CHR ''0'' # CHR ''0'' # hexDigits (n div 16) # hexDigits (n mod 16) # t) = Some n"
  using hexDigits_back [of "n div 16"] hexDigits_back [of "n mod 16"] by (simp add: hex4_def hex_digit_def [of "CHR ''0''"])

lemma escape_cases:
  assumes "byte c < 128"
  obtains (two) e where "escape_char c = [bslash, e]" "unescape e = Some c"
  | (control) "byte c < 32" "escape_char c = bslash # CHR ''u'' # CHR ''0'' # CHR ''0'' # [hexDigits (byte c div 16), hexDigits (byte c mod 16)]"
  | (plain) "plain_byte c" "escape_char c = [c]"
proof -
  consider "c = CHR 0x08" | "c = CHR 0x09" | "c = CHR 0x0A" | "c = CHR 0x0C" | "c = CHR 0x0D" | "c = quote" | "c = bslash"
    | "c \<notin> {CHR 0x08, CHR 0x09, CHR 0x0A, CHR 0x0C, CHR 0x0D, quote, bslash}" by blast
  then show ?thesis
  proof cases
    case 8
    then show ?thesis
      by (cases "byte c < 32") (use control plain 8 in \<open>simp_all add: escape_char_def plain_byte_def\<close>)
  qed (use two in \<open>simp_all add: escape_char_def unescape_def\<close>)
qed

lemma escape_back:
  assumes "byte c < 128"
  shows "scan_string (escape_char c @ t) = map_option (\<lambda>(b, r). (escape_char c @ b, r)) (scan_string t)"
    and "unquote (escape_char c @ b) = c # unquote b"
proof -
  show "scan_string (escape_char c @ t) = map_option (\<lambda>(b, r). (escape_char c @ b, r)) (scan_string t)"
    using assms
  proof (cases rule: escape_cases)
    case control
    then show ?thesis using hex4_control [of "byte c" t] by simp
  qed (simp_all add: scan_string_plain1)
  show "unquote (escape_char c @ b) = c # unquote b"
    using assms
  proof (cases rule: escape_cases)
    case control
    then have "\<not> IsSurrogate (byte c)" by (simp add: IsSurrogate_def)
    with control show ?thesis using hex4_control [of "byte c" b] by simp
  qed (use assms in \<open>simp_all add: plain_byte_def\<close>)
qed

lemma string_back:
  assumes "utf8_Valid s"
  shows "scan_string (concat (map escape_char s) @ quote # r) = Some (concat (map escape_char s), r)"
    and "unquote (concat (map escape_char s)) = s"
proof -
  show "scan_string (concat (map escape_char s) @ quote # r) = Some (concat (map escape_char s), r)"
    using assms
  proof (induction s rule: Valid_induct)
    case Nil
    show ?case by (cases r) simp_all
  next
    case (Rune q s)
    show ?case
    proof (cases "q < 128")
      case True
      with Rune show ?thesis by (simp add: escape_back(1))
    next
      case False
      then have "128 \<le> q" by simp
      with Rune scan_string_plain [OF AppendRune_plain [OF Rune(1)]] show ?thesis by (simp add: escape_AppendRune)
    qed
  qed
  show "unquote (concat (map escape_char s)) = s"
    using assms
  proof (induction s rule: Valid_induct)
    case (Rune q s)
    show ?case
    proof (cases "q < 128")
      case True
      with Rune show ?thesis by (simp add: escape_back(2))
    next
      case False
      then have "128 \<le> q" by simp
      with Rune show ?thesis by (simp add: escape_AppendRune unquote_rune)
    qed
  qed simp
qed

lemma decode_string_back: "utf8_Valid s \<Longrightarrow> decode_string (concat (map escape_char s) @ quote # r) = Some (s, r)"
  by (simp add: decode_string_def string_back)

lemma Valid_any_rune: "utf8_Valid (AppendRune r @ s) = utf8_Valid s"
proof (cases "scalar r")
  case False
  have "scalar RuneError" by (simp add: scalar_def RuneError_def)
  moreover have "AppendRune r = AppendRune RuneError" using False \<open>scalar RuneError\<close> by (simp add: AppendRune_def)
  ultimately show ?thesis by simp
qed simp

lemma unquote_Valid: "utf8_Valid (unquote b)"
proof (induction b rule: length_induct)
  case (1 b)
  note IH = 1 [rule_format]
  show ?case
  proof (cases b)
    case (Cons c cs)
    consider (esc) "c = bslash" | (ascii) "c \<noteq> bslash" "byte c < 128" | (high) "c \<noteq> bslash" "\<not> byte c < 128" by argo
    then show ?thesis
    proof cases
      case esc
      show ?thesis
      proof (cases cs)
        case (Cons e ds)
        show ?thesis
        proof (cases "unescape e")
          case None
          have "utf8_Valid (unquote (drop k ds))" for k using \<open>b = c # cs\<close> Cons by (intro IH) simp
          then show ?thesis using esc \<open>b = c # cs\<close> Cons None
            by (simp add: Let_def Valid_any_rune split: option.splits)
        next
          case (Some x)
          have "utf8_Valid (unquote ds)" using \<open>b = c # cs\<close> Cons by (intro IH) simp
          with unescape_Some [OF Some] show ?thesis using esc \<open>b = c # cs\<close> Cons Some by simp
        qed
      qed (use esc \<open>b = c # cs\<close> in simp)
    next
      case ascii
      with Cons IH [of cs] show ?thesis by simp
    next
      case high
      show ?thesis
      proof (cases "decodeRune (c # cs)")
        case None
        with Cons high IH [of cs] show ?thesis by (simp add: Valid_any_rune)
      next
        case (Some p)
        then obtain r t where p: "decodeRune (c # cs) = Some (r, t)" by (cases p) simp
        with decodeRune_shorter [OF p] Cons high IH [of t] show ?thesis by (simp add: Valid_any_rune)
      qed
    qed
  qed simp
qed

section \<open>Numbers read back\<close>

definition value_end :: "string \<Rightarrow> bool" where
  "value_end r \<longleftrightarrow> r = [] \<or> hd r = CHR '','' \<or> hd r = CHR '']'' \<or> hd r = CHR ''}''"

lemma value_end_cases:
  assumes "value_end r"
  obtains "r = []" | t where "r = CHR '','' # t" | t where "r = CHR '']'' # t" | t where "r = CHR ''}'' # t"
  using assms by (cases r) (auto simp: value_end_def)

lemma value_end_digit: "value_end r \<Longrightarrow> no_digit r"
  by (erule value_end_cases) (simp_all add: no_digit_def is_digit_def)

text \<open>The parts of a number literal.\<close>

definition exp_part :: "string \<Rightarrow> bool" where
  "exp_part ep \<longleftrightarrow> ep = [] \<or> (\<exists>sg ds. ep = CHR ''e'' # sg # ds \<and> (sg = CHR ''+'' \<or> sg = CHR ''-'') \<and> list_all is_digit ds \<and> ds \<noteq> [])"

definition frac_part :: "string \<Rightarrow> bool" where
  "frac_part fp \<longleftrightarrow> fp = [] \<or> (\<exists>ds. fp = CHR ''.'' # ds \<and> list_all is_digit ds \<and> ds \<noteq> [])"

definition int_part :: "string \<Rightarrow> bool" where
  "int_part ip \<longleftrightarrow> ip = ''0'' \<or> list_all is_digit ip \<and> ip \<noteq> [] \<and> hd ip \<noteq> CHR ''0''"

lemma number_exp_back: "exp_part ep \<Longrightarrow> value_end r \<Longrightarrow> number_exp (ep @ r) = Some (ep, r)"
proof -
  assume e: "exp_part ep" and r: "value_end r"
  show ?thesis
  proof (cases "ep = []")
    case True
    with r show ?thesis by (elim value_end_cases) (simp_all add: number_exp_def)
  next
    case False
    with e obtain sg ds where ep: "ep = CHR ''e'' # sg # ds" "sg = CHR ''+'' \<or> sg = CHR ''-''" "list_all is_digit ds" "ds \<noteq> []"
      by (auto simp: exp_part_def)
    note d = digit_run_append [OF ep(3) value_end_digit [OF r]]
    from ep(2) show ?thesis by (elim disjE) (simp_all add: ep number_exp_def d)
  qed
qed

lemma exp_part_start: "exp_part ep \<Longrightarrow> value_end r \<Longrightarrow> no_digit (ep @ r) \<and> (\<forall>t. ep @ r \<noteq> CHR ''.'' # t)"
  by (auto simp: exp_part_def no_digit_def is_digit_def value_end_def split: list.splits)

lemma number_frac_back: "frac_part fp \<Longrightarrow> exp_part ep \<Longrightarrow> value_end r \<Longrightarrow> number_frac (fp @ ep @ r) = Some (fp, ep @ r)"
proof -
  assume f: "frac_part fp" and e: "exp_part ep" and r: "value_end r"
  note x = exp_part_start [OF e r]
  show ?thesis
  proof (cases "fp = []")
    case True
    with x show ?thesis by (cases "ep @ r") (auto simp: number_frac_def)
  next
    case False
    with f obtain ds where fp: "fp = CHR ''.'' # ds" "list_all is_digit ds" "ds \<noteq> []" by (auto simp: frac_part_def)
    with x digit_run_append [OF fp(2), of "ep @ r"] show ?thesis by (simp add: number_frac_def)
  qed
qed

lemma frac_part_start: "frac_part fp \<Longrightarrow> exp_part ep \<Longrightarrow> value_end r \<Longrightarrow> no_digit (fp @ ep @ r)"
  using exp_part_start by (auto simp: frac_part_def no_digit_def)

lemma decode_number_back:
  assumes "sg = [] \<or> sg = ''-''" "int_part ip" "frac_part fp" "exp_part ep" "value_end r"
  shows "decode_number (sg @ ip @ fp @ ep @ r) = Some (sg @ ip @ fp @ ep, r)"
proof -
  have i: "number_int (ip @ fp @ ep @ r) = Some (ip, fp @ ep @ r)"
  proof (cases "ip = ''0''")
    case True
    then show ?thesis by (simp add: number_int_def)
  next
    case False
    with assms(2) have ip: "list_all is_digit ip" "ip \<noteq> []" "hd ip \<noteq> CHR ''0''" by (auto simp: int_part_def)
    with digit_run_append [OF ip(1) frac_part_start [OF assms(3-5)]] show ?thesis by (cases ip) (auto simp: number_int_def)
  qed
  have h: "ip @ t \<noteq> [] \<and> hd (ip @ t) \<noteq> CHR ''-''" for t
    using assms(2) by (cases ip) (auto simp: int_part_def is_digit_def)
  have "numberEnd (sg @ ip @ fp @ ep @ r) = Some (sg @ ip @ fp @ ep, fp = [] \<and> ep = [], r)"
    using assms(1) i h [of "fp @ ep @ r"] number_frac_back [OF assms(3-5)] number_exp_back [OF assms(4,5)]
    by (cases "ip @ fp @ ep @ r") (auto simp: numberEnd_def)
  from numberEnd_agrees [OF this] show ?thesis .
qed

lemma int_Itoa_sign: "\<exists>sg ds. (if 0 \<le> i then ''+'' else []) @ int_Itoa i = sg # ds \<and> (sg = CHR ''+'' \<or> sg = CHR ''-'') \<and> list_all is_digit ds \<and> ds \<noteq> []"
  by (auto simp: int_Itoa_def)

lemma layout_parts:
  assumes "list_all is_digit ds" "ds \<noteq> []" "hd ds \<noteq> CHR ''0''"
  obtains ip fp ep where "layout_number ds n = ip @ fp @ ep" "int_part ip" "frac_part fp" "exp_part ep"
proof -
  let ?k = "int (length ds)"
  have td: "list_all is_digit (take m ds)" "list_all is_digit (drop m ds)" for m
    using assms(1) by (auto simp: list_all_iff dest: in_set_takeD in_set_dropD)
  have k0: "0 < length ds" using assms(2) by simp
  have hd: "take m ds \<noteq> [] \<and> hd (take m ds) \<noteq> CHR ''0''" if "0 < m" for m using that assms(2,3) by (cases ds; cases m) auto
  consider (int) "?k \<le> n" "n \<le> 21" | (frac) "\<not> ?k \<le> n" "0 < n" "n \<le> 21" | (small) "- 6 < n" "n \<le> 0"
    | (exp) "\<not> (?k \<le> n \<and> n \<le> 21)" "\<not> (0 < n \<and> n \<le> 21)" "\<not> (- 6 < n \<and> n \<le> 0)" by linarith
  then show ?thesis
  proof cases
    case int
    show ?thesis
      by (rule that [of "ds @ replicate (nat (n - ?k)) (CHR ''0'')" "[]" "[]"])
        (use int assms in \<open>auto simp: layout_number_def Let_def int_part_def frac_part_def exp_part_def\<close>)
  next
    case frac
    then have "drop (nat n) ds \<noteq> []" by auto
    with frac hd [of "nat n"] td show ?thesis
      by (intro that [of "take (nat n) ds" "CHR ''.'' # drop (nat n) ds" "[]"])
        (auto simp: layout_number_def Let_def int_part_def frac_part_def exp_part_def)
  next
    case small
    with k0 have "\<not> ?k \<le> n" by linarith
    with small assms show ?thesis
      by (intro that [of "''0''" "CHR ''.'' # replicate (nat (- n)) (CHR ''0'') @ ds" "[]"])
        (auto simp: layout_number_def Let_def int_part_def frac_part_def exp_part_def)
  next
    case exp
    let ?e = "(if 0 \<le> n - 1 then ''+'' else []) @ int_Itoa (n - 1)"
    from exp have l: "layout_number ds n = take 1 ds @ (if 1 < ?k then CHR ''.'' # drop 1 ds else []) @ CHR ''e'' # ?e"
      unfolding layout_number_def Let_def by (simp only: if_False)
    have "exp_part (CHR ''e'' # ?e)" using int_Itoa_sign [of "n - 1"] unfolding exp_part_def by blast
    moreover have "frac_part (if 1 < ?k then CHR ''.'' # drop 1 ds else [])" using td(2) [of 1] by (auto simp: frac_part_def)
    moreover have "int_part (take 1 ds)" using td(1) hd [of 1] by (simp add: int_part_def)
    ultimately show ?thesis by (intro that [OF l])
  qed
qed

lemma written_number_back:
  assumes "FormatNumber (Finite f) = Inr w" "round_double f = Some f" "value_end r"
  shows "decode_number (w @ r) = Some (w, r)" "w \<noteq> []" "hd w = CHR ''-'' \<or> is_digit (hd w)"
proof -
  obtain sg ip fp ep where w: "w = sg @ ip @ fp @ ep" "sg = [] \<or> sg = ''-''" "int_part ip" "frac_part fp" "exp_part ep"
  proof (cases "f = 0")
    case True
    with assms(1) that [of "[]" "''0''" "[]" "[]"] show ?thesis
      by (simp add: FormatNumber_def int_part_def frac_part_def exp_part_def)
  next
    case False
    obtain ds x where d: "FormatFloat_e \<bar>f\<bar> = (ds, x)" by fastforce
    have a: "round_double \<bar>f\<bar> = Some \<bar>f\<bar>" using assms(2) round_double_minus [of f] by (cases "f < 0") simp_all
    note b = FormatFloat_e_back [OF a _ d]
    obtain ip fp ep where "layout_number ds (x + 1) = ip @ fp @ ep" "int_part ip" "frac_part fp" "exp_part ep"
      using layout_parts b False by (metis zero_less_abs_iff)
    with assms(1) False d that [of "if f < 0 then ''-'' else []" ip fp ep] show ?thesis
      by (auto simp: FormatNumber_def split: if_splits)
  qed
  from decode_number_back [OF w(2-5) assms(3)] show "decode_number (w @ r) = Some (w, r)" unfolding w(1) by simp
  show "w \<noteq> []" "hd w = CHR ''-'' \<or> is_digit (hd w)"
    using w(2,3) unfolding w(1) by (cases ip; auto simp: int_part_def)+
qed

section \<open>What the decoder returns\<close>

text \<open>Values the decoder can return at a depth: valid text, one member per name, and no deeper than its limit.\<close>

fun json_ok :: "nat \<Rightarrow> jval \<Rightarrow> bool" where
  "json_ok d (JString s) = utf8_Valid s"
| "json_ok d (JArray vs) = (d < decode_maxDepth \<and> (\<forall>v \<in> set vs. json_ok (d + 1) v))"
| "json_ok d (JObject kvs) =
     (d < decode_maxDepth \<and> distinct (map fst kvs) \<and> (\<forall>kv \<in> set kvs. utf8_Valid (fst kv) \<and> json_ok (d + 1) (snd kv)))"
| "json_ok d JNull = True"
| "json_ok d (JBool b) = True"
| "json_ok d (JNumber x) = True"

lemma set_update_sub: "set (AList.update k v m) \<subseteq> insert (k, v) (set m)"
  by (induction m) auto

lemma to_map_ok: "distinct (map fst (to_map kvs)) \<and> set (to_map kvs) \<subseteq> set kvs"
proof -
  have "distinct (map fst m) \<Longrightarrow> distinct (map fst (fold (\<lambda>(k, v) m. AList.update k v m) kvs m)) \<and>
    set (fold (\<lambda>(k, v) m. AList.update k v m) kvs m) \<subseteq> set m \<union> set kvs" for m
  proof (induction kvs arbitrary: m)
    case (Cons kv kvs)
    from Cons.IH [of "AList.update (fst kv) (snd kv) m"] Cons.prems distinct_update [of m] set_update_sub [of "fst kv" "snd kv" m]
    show ?case by (auto simp: case_prod_beta)
  qed simp
  from this [of "[]"] show ?thesis by (simp add: to_map_def)
qed

lemma decode_string_Valid: "decode_string s = Some (v, r) \<Longrightarrow> utf8_Valid v"
  by (auto simp: decode_string_def unquote_Valid)

lemma decode_ok_all:
  "(\<forall>d s v r. decode_value n d s = Some (v, r) \<longrightarrow> json_ok d v) \<and>
   (\<forall>d s kvs r. decode_members n d s = Some (kvs, r) \<longrightarrow> (\<forall>kv \<in> set kvs. utf8_Valid (fst kv) \<and> json_ok d (snd kv))) \<and>
   (\<forall>d s vs r. decode_elems n d s = Some (vs, r) \<longrightarrow> (\<forall>v \<in> set vs. json_ok d v))"
proof (induction n)
  case (Suc n)
  note IHv = Suc [THEN conjunct1, rule_format] and IHm = Suc [THEN conjunct2, THEN conjunct1, rule_format]
    and IHe = Suc [THEN conjunct2, THEN conjunct2, rule_format]
  have v: "json_ok d v" if "decode_value (Suc n) d s = Some (v, r)" for d s v r
    using that
  proof (cases rule: decode_value_cases)
    case (obj cs x r1 kvs)
    with to_map_ok [of kvs] IHm [OF obj(5)] show ?thesis by auto
  next
    case (arr cs x r1 vs)
    with IHe [OF arr(5)] show ?thesis by auto
  qed (auto dest: decode_string_Valid)
  have m: "\<forall>kv \<in> set kvs. utf8_Valid (fst kv) \<and> json_ok d (snd kv)" if "decode_members (Suc n) d s = Some (kvs, r)" for d s kvs r
    using that by (rule decode_members_cases) (auto dest: decode_string_Valid IHv IHm)
  have e: "\<forall>v \<in> set vs. json_ok d v" if "decode_elems (Suc n) d s = Some (vs, r)" for d s vs r
    using that by (rule decode_elems_cases) (auto dest: IHv IHe)
  show ?case using v m e by blast
qed simp

lemmas decode_ok = decode_ok_all [THEN conjunct1, rule_format]

section \<open>A canonical form read back\<close>

text \<open>A text that starts a value, and that the decoder reads, wherever a value may end, as a value with this canonical form.\<close>

definition starts_value :: "string \<Rightarrow> bool" where
  "starts_value w \<longleftrightarrow> w \<noteq> [] \<and> \<not> is_ws (hd w) \<and> hd w \<noteq> CHR '']'' \<and> hd w \<noteq> CHR ''}''"

definition reads_back :: "nat \<Rightarrow> string \<Rightarrow> bool" where
  "reads_back d w \<longleftrightarrow> starts_value w \<and>
     (\<forall>rest. value_end rest \<longrightarrow> (\<exists>n v. decode_value n d (w @ rest) = Some (v, rest) \<and> json_write v = Inr w))"

lemma reads_backD:
  assumes "reads_back d w" "value_end rest"
  obtains n v where "decode_value n d (w @ rest) = Some (v, rest)" "json_write v = Inr w"
  using assms by (auto simp: reads_back_def)

lemma value_end_simps [simp]: "value_end []" "value_end (CHR '','' # t)" "value_end (CHR '']'' # t)" "value_end (CHR ''}'' # t)"
  by (simp_all add: value_end_def)

lemma starts_skipWS: "starts_value w \<Longrightarrow> skipWS (w @ t) = w @ t"
  by (cases w) (simp_all add: starts_value_def skipWS_def)

lemma skipWS_id [simp]: "\<not> is_ws c \<Longrightarrow> skipWS (c # t) = c # t"
  by (simp add: skipWS_def)

lemma elems_back:
  assumes "list_all (reads_back d) ws" "ws \<noteq> []"
  shows "\<exists>n vs. decode_elems n d (join_comma ws @ CHR '']'' # rest) = Some (vs, rest) \<and> list_all2 (\<lambda>v w. json_write v = Inr w) vs ws"
  using assms
proof (induction ws rule: join_comma.induct)
  case (2 w)
  then obtain n v where v: "decode_value n d (w @ CHR '']'' # rest) = Some (v, CHR '']'' # rest)" "json_write v = Inr w"
    using reads_backD [of d w "CHR '']'' # rest"] by auto
  then have "decode_elems (Suc n) d (w @ CHR '']'' # rest) = Some ([v], rest)" by (simp add: is_ws_def)
  with v(2) show ?case by (intro exI [of _ "Suc n"] exI [of _ "[v]"]) simp
next
  case (3 w w' ws)
  let ?t = "join_comma (w' # ws) @ CHR '']'' # rest"
  from 3 obtain m vs where t: "decode_elems m d ?t = Some (vs, rest)" "list_all2 (\<lambda>v w. json_write v = Inr w) vs (w' # ws)" by auto
  from 3 obtain n v where v: "decode_value n d (w @ CHR '','' # ?t) = Some (v, CHR '','' # ?t)" "json_write v = Inr w"
    using reads_backD [of d w "CHR '','' # ?t"] by auto
  have st: "starts_value w'" using 3(2) by (simp add: reads_back_def)
  have j: "\<exists>u. join_comma (w' # ws) = w' @ u" by (cases ws) auto
  then have sk: "skipWS ?t = ?t" using starts_skipWS [OF st] by fastforce
  let ?k = "Suc (Suc (2 * length (w @ CHR '','' # ?t)))"
  have "decode_value ?k d (w @ CHR '','' # ?t) = Some (v, CHR '','' # ?t)" by (rule decode_fuel [OF v(1)]) simp
  moreover have "decode_elems ?k d ?t = Some (vs, rest)"
    by (rule decode_fuel_all [THEN conjunct2, THEN conjunct2, rule_format, OF t(1)]) simp
  ultimately have "decode_elems (Suc ?k) d (w @ CHR '','' # ?t) = Some (v # vs, rest)"
    using sk by (simp add: is_ws_def del: decode_value.simps)
  with v(2) t(2) show ?case by (intro exI [of _ "Suc ?k"] exI [of _ "v # vs"]) simp
qed simp

lemma member_text_decode: "utf8_Valid k \<Longrightarrow> decode_string (tl (member_text (k, w)) @ t) = Some (k, CHR '':'' # w @ t)"
  using decode_string_back [of k "CHR '':'' # w @ t"] by (simp add: appendString_def)

lemma members_back:
  assumes "list_all (\<lambda>kw. utf8_Valid (fst kw) \<and> reads_back d (snd kw)) kws" "kws \<noteq> []"
  shows "\<exists>n kvs. decode_members n d (join_comma (map member_text kws) @ CHR ''}'' # rest) = Some (kvs, rest) \<and>
    list_all2 (\<lambda>kv kw. fst kv = fst kw \<and> json_write (snd kv) = Inr (snd kw)) kvs kws"
  using assms
proof (induction kws rule: induct_list012)
  case (2 kw)
  obtain k w where kw: "kw = (k, w)" by fastforce
  with 2 obtain n v where v: "decode_value n d (w @ CHR ''}'' # rest) = Some (v, CHR ''}'' # rest)" "json_write v = Inr w"
    using reads_backD [of d w "CHR ''}'' # rest"] by auto
  have st: "starts_value w" "utf8_Valid k" using 2 kw by (auto simp: reads_back_def)
  have "decode_members (Suc n) d (member_text (k, w) @ CHR ''}'' # rest) = Some ([(k, v)], rest)"
    using member_text_decode [OF st(2), of w "CHR ''}'' # rest"] starts_skipWS [OF st(1)] v by (simp add: is_ws_def appendString_def)
  with v(2) kw show ?case by (intro exI [of _ "Suc n"] exI [of _ "[(k, v)]"]) simp
next
  case (3 kw kw' kws)
  obtain k w where kw: "kw = (k, w)" by fastforce
  let ?t = "join_comma (map member_text (kw' # kws)) @ CHR ''}'' # rest"
  from 3 obtain m kvs where t: "decode_members m d ?t = Some (kvs, rest)"
      "list_all2 (\<lambda>kv kw. fst kv = fst kw \<and> json_write (snd kv) = Inr (snd kw)) kvs (kw' # kws)" by auto
  from 3 kw obtain n v where v: "decode_value n d (w @ CHR '','' # ?t) = Some (v, CHR '','' # ?t)" "json_write v = Inr w"
    using reads_backD [of d w "CHR '','' # ?t"] by auto
  have st: "starts_value w" "utf8_Valid k" using 3(3) kw by (auto simp: reads_back_def)
  have sk: "skipWS ?t = ?t" by (cases kws) (simp_all add: appendString_def is_ws_def)
  let ?s = "member_text (k, w) @ CHR '','' # ?t"
  let ?k = "Suc (2 * length ?s)"
  have "decode_value ?k d (w @ CHR '','' # ?t) = Some (v, CHR '','' # ?t)" by (rule decode_fuel [OF v(1)]) simp
  moreover have "decode_members ?k d ?t = Some (kvs, rest)"
    by (rule decode_fuel_all [THEN conjunct2, THEN conjunct1, rule_format, OF t(1)]) simp
  moreover have "?s = quote # tl ?s" by (simp add: appendString_def)
  ultimately have "decode_members (Suc ?k) d ?s = Some ((k, v) # kvs, rest)"
    using sk member_text_decode [OF st(2), of w "CHR '','' # ?t"] starts_skipWS [OF st(1)]
    by (simp add: is_ws_def appendString_def del: decode_value.simps)
  with v(2) t(2) kw show ?case by (intro exI [of _ "Suc ?k"] exI [of _ "(k, v) # kvs"]) simp
qed simp

lemma all_res_Inr_iff: "all_res xs = Inr ys \<longleftrightarrow> list_all2 (\<lambda>x y. x = Inr y) xs ys"
  by (induction xs arbitrary: ys) (auto simp: bind_res_Inr list_all2_Cons1)

lemma write_elems:
  assumes "json_write (JArray vs) = Inr w"
  obtains ws where "list_all2 (\<lambda>v w. json_write v = Inr w) vs ws" "w = CHR ''['' # join_comma ws @ '']''"
  using assms by (auto simp: bind_res_Inr all_res_Inr_iff list_all2_map1)

lemma write_members:
  assumes "json_write (JObject kvs) = Inr w" "distinct (map fst kvs)" "list_all (utf8_Valid \<circ> fst) kvs"
  obtains skvs kws where "mset skvs = mset kvs" "list_all2 (\<lambda>kv kw. fst kv = fst kw \<and> json_write (snd kv) = Inr (snd kw)) skvs kws"
    "sorted_wrt (\<lambda>a b. lessKey (fst a) (fst b)) kws" "w = CHR ''{'' # join_comma (map member_text kws) @ ''}''"
proof -
  define skvs where "skvs = insertion_sort LessUTF16 fst kvs"
  have ms: "mset skvs = mset kvs" by (simp add: skvs_def)
  have v: "list_all (\<lambda>x. utf8_Valid (fst x)) kvs" "list_all (\<lambda>x. utf8_Valid (fst x)) skvs"
    using assms(3) mset_eq_setD [OF ms] by (simp_all add: list_all_iff)
  have d: "distinct (map fst skvs)" using assms(2) mset_eq_imp_distinct_iff [of "map fst skvs" "map fst kvs"] ms by simp
  have so: "sorted_wrt (\<lambda>a b. LessUTF16 (fst a) (fst b)) skvs"
    using utf16.insertion_sort_sorted [OF v(1)] v(2) d unfolding skvs_def by (intro utf16.sorted_strict distinct_successively)
  obtain ts where ts: "list_all2 (\<lambda>kv t. bind_res (json_write (snd kv)) (\<lambda>w. Inr (writeString (fst kv) @ CHR '':'' # w)) = Inr t) skvs ts"
      "w = CHR ''{'' # join_comma ts @ ''}''"
    using assms(1) by (auto simp: insertion_sort_map bind_res_Inr all_res_Inr_iff list_all2_map1 skvs_def case_prod_beta)
  have "\<exists>kws. list_all2 (\<lambda>kv kw. fst kv = fst kw \<and> json_write (snd kv) = Inr (snd kw)) skvs kws \<and> ts = map member_text kws"
    using ts(1) v(2)
  proof (induction rule: list_all2_induct)
    case (Cons kv skvs t ts)
    then obtain kws where k: "list_all2 (\<lambda>kv kw. fst kv = fst kw \<and> json_write (snd kv) = Inr (snd kw)) skvs kws" "ts = map member_text kws"
      by auto
    from Cons obtain u where "json_write (snd kv) = Inr u" "t = writeString (fst kv) @ CHR '':'' # u" by (auto simp: bind_res_Inr)
    with k Cons.prems show ?case by (intro exI [of _ "(fst kv, u) # kws"]) (simp add: writeString_appendString)
  qed simp
  then obtain kws where k: "list_all2 (\<lambda>kv kw. fst kv = fst kw \<and> json_write (snd kv) = Inr (snd kw)) skvs kws" "ts = map member_text kws"
    by blast
  have "map fst kws = map fst skvs" using k(1) by (induction rule: list_all2_induct) auto
  moreover have "sorted_wrt LessUTF16 (map fst skvs)" using so by (simp add: sorted_wrt_map)
  ultimately have "sorted_wrt LessUTF16 (map fst kws)" "\<forall>x \<in> set (map fst kws). utf8_Valid x" using v(2) by (simp_all add: list_all_iff)
  then have "sorted_wrt lessKey (map fst kws)" using lessKey_UTF16 by (intro sorted_wrt_mono_rel [of _ LessUTF16 lessKey]) blast+
  then show ?thesis using that [OF ms k(1)] ts(2) k(2) by (simp add: sorted_wrt_map)
qed

lemma starts_simps [simp]:
  "starts_value (c # t) \<longleftrightarrow> \<not> is_ws c \<and> c \<noteq> CHR '']'' \<and> c \<noteq> CHR ''}''"
  by (simp add: starts_value_def)

lemma array_back:
  assumes "d < decode_maxDepth" "list_all (reads_back (d + 1)) ws"
  shows "reads_back d (CHR ''['' # join_comma ws @ '']'')"
  unfolding reads_back_def
proof (intro conjI allI impI)
  fix rest
  show "\<exists>n v. decode_value n d ((CHR ''['' # join_comma ws @ '']'') @ rest) = Some (v, rest) \<and> json_write v = Inr (CHR ''['' # join_comma ws @ '']'')"
  proof (cases ws)
    case Nil
    then show ?thesis using assms(1) by (intro exI [of _ "Suc 0"] exI [of _ "JArray []"]) (simp add: is_ws_def)
  next
    case (Cons w ws')
    with elems_back [OF assms(2), of rest] obtain n vs where
      v: "decode_elems n (d + 1) (join_comma ws @ CHR '']'' # rest) = Some (vs, rest)" "list_all2 (\<lambda>v w. json_write v = Inr w) vs ws" by auto
    obtain c t where c: "w = c # t" "\<not> is_ws c" "c \<noteq> CHR '']''" using assms(2) Cons by (cases w) (auto simp: reads_back_def starts_value_def)
    obtain u where j: "join_comma ws = c # u" using c(1) Cons by (cases ws') auto
    have "decode_value (Suc n) d ((CHR ''['' # join_comma ws @ '']'') @ rest) = Some (JArray vs, rest)"
      using v(1) assms(1) c by (simp add: j)
    then show ?thesis using all_res_list_all2 [OF v(2)] by (intro exI [of _ "Suc n"] exI [of _ "JArray vs"]) simp
  qed
qed (simp add: is_ws_def)

lemma object_back:
  assumes "d < decode_maxDepth" "list_all (\<lambda>kw. utf8_Valid (fst kw) \<and> reads_back (d + 1) (snd kw)) kws"
    and "sorted_wrt (\<lambda>a b. lessKey (fst a) (fst b)) kws"
  shows "reads_back d (CHR ''{'' # join_comma (map member_text kws) @ ''}'')"
  unfolding reads_back_def
proof (intro conjI allI impI)
  fix rest
  let ?w = "CHR ''{'' # join_comma (map member_text kws) @ ''}''"
  show "\<exists>n v. decode_value n d (?w @ rest) = Some (v, rest) \<and> json_write v = Inr ?w"
  proof (cases kws)
    case Nil
    then show ?thesis using assms(1) by (intro exI [of _ "Suc 0"] exI [of _ "JObject []"]) (simp add: is_ws_def insertion_sort_def)
  next
    case (Cons kw kws')
    with members_back [OF assms(2), of rest] obtain n kvs where
      v: "decode_members n (d + 1) (join_comma (map member_text kws) @ CHR ''}'' # rest) = Some (kvs, rest)"
        "list_all2 (\<lambda>kv kw. fst kv = fst kw \<and> json_write (snd kv) = Inr (snd kw)) kvs kws" by auto
    obtain u where j: "join_comma (map member_text kws) = quote # u" using Cons by (cases kws') (auto simp: appendString_def)
    have "list_all (utf8_Valid \<circ> fst) kws" using assms(2) by (simp add: list_all_iff)
    note wr = write_object [OF v(2) this refl assms(3)]
    have "decode_value (Suc n) d (?w @ rest) = Some (JObject (to_map kvs), rest)"
      using v(1) assms(1) by (simp add: j is_ws_def)
    with wr show ?thesis by (intro exI [of _ "Suc n"] exI [of _ "JObject (to_map kvs)"]) simp
  qed
qed (simp add: is_ws_def)

lemma number_back:
  assumes "json_write (JNumber x) = Inr w"
  shows "reads_back d w"
proof -
  obtain f where f: "ParseFloat x = Inr f" "FormatNumber (Finite f) = Inr w" using assms by (auto simp: bind_res_Inr)
  then have r: "round_double f = Some f" by (auto simp: ParseFloat_def split: option.splits dest: round_double_idem)
  note b = written_number_back [OF f(2) r]
  have h: "w \<noteq> []" "hd w = CHR ''-'' \<or> is_digit (hd w)" using b(2,3) [of "[]"] by simp_all
  have jw: "json_write (JNumber w) = Inr w"
    using FormatNumber_back [OF r] f(2) by (metis bind_res_simps(2) json_write.simps(3) sum.inject(2))
  have nc: "hd w \<noteq> CHR ''{''" "hd w \<noteq> CHR ''[''" "hd w \<noteq> quote" "\<not> is_ws (hd w)" "hd w \<noteq> CHR '']''" "hd w \<noteq> CHR ''}''"
    using h(2) by (auto simp: is_digit_def is_ws_def)
  have "decode_value (Suc 0) d (w @ rest) = Some (JNumber w, rest)" if "value_end rest" for rest
    using b(1) [OF that] h nc by (cases w) auto
  with jw h nc show ?thesis unfolding reads_back_def starts_value_def by blast
qed

lemma written_back: "json_ok d v \<Longrightarrow> json_write v = Inr w \<Longrightarrow> reads_back d w"
proof (induction d v arbitrary: w rule: json_ok.induct)
  case (1 d s)
  have "decode_value (Suc 0) d (appendString s @ rest) = Some (JString s, rest)" for rest
    using 1 decode_string_back [of s rest] by (simp add: appendString_def)
  moreover have "starts_value (appendString s)" by (simp add: appendString_def is_ws_def)
  moreover have "w = appendString s" "json_write (JString s) = Inr w" using 1 writeString_appendString [of s] by simp_all
  ultimately show ?case unfolding reads_back_def by blast
next
  case (2 d vs)
  from 2(3) obtain ws where ws: "list_all2 (\<lambda>v w. json_write v = Inr w) vs ws" "w = CHR ''['' # join_comma ws @ '']''"
    by (rule write_elems)
  have "reads_back (d + 1) (ws ! i)" if "i < length ws" for i
    using that 2(1) [of "vs ! i" "ws ! i"] 2(2) list_all2_nthD2 [OF ws(1) that] list_all2_lengthD [OF ws(1)] by simp
  then have "list_all (reads_back (d + 1)) ws" by (simp add: list_all_length)
  then show ?case using array_back 2(2) ws(2) by simp
next
  case (3 d kvs)
  have a: "distinct (map fst kvs)" "list_all (utf8_Valid \<circ> fst) kvs" using 3(2) by (simp_all add: list_all_iff)
  obtain skvs kws where s: "mset skvs = mset kvs" "list_all2 (\<lambda>kv kw. fst kv = fst kw \<and> json_write (snd kv) = Inr (snd kw)) skvs kws"
    "sorted_wrt (\<lambda>a b. lessKey (fst a) (fst b)) kws" "w = CHR ''{'' # join_comma (map member_text kws) @ ''}''"
    by (rule write_members [OF 3(3) a])
  have st: "set skvs = set kvs" by (rule mset_eq_setD [OF s(1)])
  have "utf8_Valid (fst kw) \<and> reads_back (d + 1) (snd kw)" if "kw \<in> set kws" for kw
  proof -
    obtain i where i: "i < length kws" "kw = kws ! i" using \<open>kw \<in> set kws\<close> by (auto simp: in_set_conv_nth)
    with s(2) have k: "fst (skvs ! i) = fst kw" "json_write (snd (skvs ! i)) = Inr (snd kw)" "skvs ! i \<in> set kvs"
      unfolding st [symmetric] by (auto simp: list_all2_conv_all_nth)
    with 3(1) [OF k(3) _ k(2)] 3(2) show ?thesis by auto
  qed
  then show ?case using object_back [of d kws] s(3,4) 3(2) by (simp add: list_all_iff)
next
  case (4 d)
  then show ?case unfolding reads_back_def
    by (auto simp: is_ws_def decode_lit_def is_digit_def intro!: exI [of _ "Suc 0"] exI [of _ JNull])
next
  case (5 d b)
  then show ?case unfolding reads_back_def
    by (auto simp: is_ws_def decode_lit_def is_digit_def intro!: exI [of _ "Suc 0"] exI [of _ "JBool b"] split: if_splits)
next
  case (6 d x)
  show ?case by (rule number_back [OF 6(2)])
qed

text \<open>The canonical form is a fixed point.\<close>

lemma transformDecoded_idem:
  assumes "transformDecoded data = Inr out"
  shows "transformDecoded out = Inr out"
proof -
  from assms obtain v r where v: "decode_value (Suc (2 * length data)) 0 (skipWS data) = Some (v, r)" "json_write v = Inr out"
    by (auto simp: transformDecoded_def simp del: decode_value.simps split: option.splits if_splits)
  have b: "reads_back 0 out" by (rule written_back [OF decode_ok [OF v(1)] v(2)])
  then obtain n v' where n: "decode_value n 0 out = Some (v', [])" "json_write v' = Inr out" using reads_backD [OF b, of "[]"] by auto
  have "skipWS out = out" using b starts_skipWS [of out "[]"] by (simp add: reads_back_def)
  with decode_fuel [OF n(1), of "Suc (2 * length out)"] n(2) show ?thesis
    by (simp add: transformDecoded_def dec_More_def skipWS_def del: decode_value.simps)
qed

lemma Transform_decoded: "Transform data = transformDecoded data"
  using transformFast_agrees by (auto simp: Transform_def split: option.splits)

end
