(* ===== verification/Ijson.thy ===== *)
theory Ijson
  imports Canonical_Back
begin

text \<open>
  The test of I-JSON in \<open>internal/ijson\<close>, again twice.  \<open>checkTokens\<close> (\<open>ijson.go\<close>) reads the document token by
  token and keeps a stack of frames, one per open array or object; \<open>checkFast\<close> (\<open>fast.go\<close>) walks the bytes
  and answers only yes.  \<open>Check\<close> asks the second first.  \<open>CheckNumber\<close> is the rule for one number.

  The token reader is Go's \<open>json.Decoder.Token\<close>, with its state and its stack of states; a position in the
  input is the rest of the input.  \<open>SetString\<close> is \<open>big.Rat\<close>'s: the exact value of the literal, and no value
  where the exponent is out of the range of 64 bits or the scale of a number other than zero exceeds a million.
  \<open>skipWS\<close> and \<open>hex4\<close> are those of \<open>internal/jcs\<close>, which this package repeats.
\<close>

section \<open>The rule for a number\<close>

text \<open>The exponent of a literal without its sign, and the number of its fractional digits.\<close>

definition scale_of :: "string \<Rightarrow> int \<times> int" where
  "scale_of s =
     (let s' = dropWhile is_digit s;
          fp = (case s' of [] \<Rightarrow> [] | c # t \<Rightarrow> if c = CHR ''.'' then takeWhile is_digit t else []);
          s'' = (case s' of [] \<Rightarrow> [] | c # t \<Rightarrow> if c = CHR ''.'' then dropWhile is_digit t else s')
      in (exponent_of s'', int (length fp)))"

definition rat_maxScale :: int where
  "rat_maxScale = 1000000"

definition unsigned :: "string \<Rightarrow> string" where
  "unsigned lit = (case lit of c # t \<Rightarrow> if c = CHR ''-'' then t else lit | [] \<Rightarrow> [])"

definition SetString :: "string \<Rightarrow> rat option" where
  "SetString lit =
     (case scale_of (unsigned lit) of (e, k) \<Rightarrow>
        if e < - (2 ^ 63) \<or> 2 ^ 63 \<le> e then None
        else if lit_value lit \<noteq> 0 \<and> rat_maxScale < \<bar>e - k\<bar> then None
        else Some (lit_value lit))"

definition IsInt :: "rat \<Rightarrow> bool" where
  "IsInt r \<longleftrightarrow> snd (quotient_of r) = 1"

definition CheckNumber :: "string \<Rightarrow> unit res" where
  "CheckNumber lit =
     (case SetString lit of
        None \<Rightarrow> Inl (EInvalid ''ijson: number'')
      | Some r \<Rightarrow>
          (case round_double r of
             None \<Rightarrow> Inl (EInvalid ''ijson: number is not finite in binary64'')
           | Some f \<Rightarrow>
               if IsInt r \<and> f \<noteq> r then
                 if (case FormatNumber (Finite f) of Inr c \<Rightarrow> SetString c = Some r | Inl _ \<Rightarrow> False) then Inr ()
                 else Inl (EInvalid ''ijson: whole number is not exactly representable'')
               else Inr ()))"

section \<open>Surrogate escapes\<close>

text \<open>The loop of \<open>checkSurrogates\<close>; the flag is \<open>inString\<close>.\<close>

function surrogates :: "bool \<Rightarrow> string \<Rightarrow> unit res" where
  "surrogates inString [] = Inr ()"
| "surrogates inString (c # cs) =
     (if \<not> inString then surrogates (c = quote) cs
      else if c = quote then surrogates False cs
      else if c \<noteq> bslash then surrogates True cs
      else case cs of
          [] \<Rightarrow> Inr ()
        | e # ds \<Rightarrow>
            if e \<noteq> CHR ''u'' then surrogates True ds
            else case hex4 ds of
                None \<Rightarrow> surrogates True ds
              | Some hi \<Rightarrow>
                  let rest = drop 4 ds
                  in if 0xDC00 \<le> hi \<and> hi \<le> 0xDFFF then Inl (EInvalid ''ijson: lone low surrogate'')
                     else if 0xD800 \<le> hi \<and> hi \<le> 0xDBFF then
                       (case getu4 rest of
                          Some lo \<Rightarrow>
                            if 0xDC00 \<le> lo \<and> lo \<le> 0xDFFF then surrogates True (drop 6 rest)
                            else Inl (EInvalid ''ijson: lone high surrogate'')
                        | None \<Rightarrow> Inl (EInvalid ''ijson: lone high surrogate''))
                     else surrogates True rest)"
  by pat_completeness auto
termination
  by (relation "measure (\<lambda>(b, s). length s)") auto

definition checkSurrogates :: "string \<Rightarrow> unit res" where
  "checkSurrogates data = surrogates False data"

section \<open>The tokens of the standard library's decoder\<close>

datatype tok_state =
  TopValue | ArrayStart | ArrayValue | ArrayComma | ObjectStart | ObjectKey | ObjectColon | ObjectValue | ObjectComma

datatype token = Delim char | TString string | TNumber string | TOther

definition tokenValueAllowed :: "tok_state \<Rightarrow> bool" where
  "tokenValueAllowed st \<longleftrightarrow> st \<in> {TopValue, ArrayStart, ArrayValue, ObjectValue}"

definition tokenValueEnd :: "tok_state \<Rightarrow> tok_state" where
  "tokenValueEnd st =
     (if st = ArrayStart \<or> st = ArrayValue then ArrayComma else if st = ObjectValue then ObjectComma else st)"

record decoder =
  d_rest :: string
  d_state :: tok_state
  d_stack :: "tok_state list"

abbreviation at_state :: "string \<Rightarrow> tok_state \<Rightarrow> tok_state list \<Rightarrow> decoder" where
  "at_state s st stk \<equiv> \<lparr>d_rest = s, d_state = st, d_stack = stk\<rparr>"

text \<open>A value that is not an array or an object, at the head of the rest.\<close>

definition scalar_token :: "string \<Rightarrow> (token \<times> string) option" where
  "scalar_token s =
     (case s of
        [] \<Rightarrow> None
      | c # cs \<Rightarrow>
          if c = quote then map_option (\<lambda>(v, r). (TString v, r)) (decode_string cs)
          else if c = CHR ''-'' \<or> is_digit c then map_option (\<lambda>(l, r). (TNumber l, r)) (decode_number s)
          else if c = CHR ''t'' then map_option (\<lambda>(_, r). (TOther, r)) (decode_lit ''true'' (JBool True) s)
          else if c = CHR ''f'' then map_option (\<lambda>(_, r). (TOther, r)) (decode_lit ''false'' (JBool False) s)
          else if c = CHR ''n'' then map_option (\<lambda>(_, r). (TOther, r)) (decode_lit ''null'' JNull s)
          else None)"

text \<open>The next token; \<open>None\<close> is the end of the input.  A colon or a comma in its place is skipped.\<close>

function dec_Token :: "string \<Rightarrow> tok_state \<Rightarrow> tok_state list \<Rightarrow> (token \<times> decoder) option res" where
  "dec_Token s st stk =
     (case skipWS s of
        [] \<Rightarrow> Inr None
      | c # cs \<Rightarrow>
          if c = CHR ''['' then
            if tokenValueAllowed st then Inr (Some (Delim c, at_state cs ArrayStart (st # stk))) else Inl (EInvalid ''token'')
          else if c = CHR '']'' then
            if st = ArrayStart \<or> st = ArrayComma
            then Inr (Some (Delim c, at_state cs (tokenValueEnd (hd stk)) (tl stk))) else Inl (EInvalid ''token'')
          else if c = CHR ''{'' then
            if tokenValueAllowed st then Inr (Some (Delim c, at_state cs ObjectStart (st # stk))) else Inl (EInvalid ''token'')
          else if c = CHR ''}'' then
            if st = ObjectStart \<or> st = ObjectComma
            then Inr (Some (Delim c, at_state cs (tokenValueEnd (hd stk)) (tl stk))) else Inl (EInvalid ''token'')
          else if c = CHR '':'' then
            if st = ObjectColon then dec_Token cs ObjectValue stk else Inl (EInvalid ''token'')
          else if c = CHR '','' then
            if st = ArrayComma then dec_Token cs ArrayValue stk
            else if st = ObjectComma then dec_Token cs ObjectKey stk
            else Inl (EInvalid ''token'')
          else if c = quote \<and> (st = ObjectStart \<or> st = ObjectKey) then
            (case decode_string cs of
               None \<Rightarrow> Inl (EInvalid ''token'')
             | Some (x, r) \<Rightarrow> Inr (Some (TString x, at_state r ObjectColon stk)))
          else if \<not> tokenValueAllowed st then Inl (EInvalid ''token'')
          else case scalar_token (c # cs) of
              None \<Rightarrow> Inl (EInvalid ''token'')
            | Some (tok, r) \<Rightarrow> Inr (Some (tok, at_state r (tokenValueEnd st) stk)))"
  by pat_completeness auto
termination
  by (relation "measure (\<lambda>(s, st, stk). length s)") (auto dest: skipWS_Cons_shorter)

declare dec_Token.simps [simp del]

lemma scalar_token_shorter: "scalar_token s = Some (t, r) \<Longrightarrow> length r < length s"
  by (auto simp: scalar_token_def decode_lit_def split: list.splits if_splits dest: decode_string_shorter decode_number_shorter)

definition leaves_less :: "nat \<Rightarrow> (token \<times> decoder) option res \<Rightarrow> bool" where
  "leaves_less n x \<longleftrightarrow> (\<forall>t d. x = Inr (Some (t, d)) \<longrightarrow> length (d_rest d) < n)"

lemma leaves_less_intros:
  "leaves_less n (Inl e)" "leaves_less n (Inr None)" "length r < n \<Longrightarrow> leaves_less n (Inr (Some (t, at_state r st stk)))"
  "leaves_less n x \<Longrightarrow> leaves_less n y \<Longrightarrow> leaves_less n (if b then x else y)"
  "leaves_less m x \<Longrightarrow> m \<le> n \<Longrightarrow> leaves_less n x"
  by (auto simp: leaves_less_def)

lemma dec_Token_leaves: "leaves_less (length s) (dec_Token s st stk)"
proof (induction "length s" arbitrary: s st stk rule: less_induct)
  case less
  show ?case
  proof (cases "skipWS s")
    case (Cons c cs)
    have l: "length cs < length s" by (rule skipWS_Cons_shorter [OF Cons])
    have rec: "leaves_less (length s) (dec_Token cs st' stk')" for st' stk'
      by (rule leaves_less_intros(5) [OF less.hyps]) (use l in simp_all)
    have str: "leaves_less (length s) (case decode_string cs of None \<Rightarrow> Inl e | Some (x, r) \<Rightarrow> Inr (Some (TString x, at_state r ObjectColon stk)))" for e
      using l by (auto simp: leaves_less_def split: option.splits dest: decode_string_shorter)
    have "length r < length s" if "scalar_token (c # cs) = Some (tok, r)" for tok r
      using scalar_token_shorter [OF that] skipWS_length [of s] Cons by simp
    then have sca: "leaves_less (length s) (case scalar_token (c # cs) of None \<Rightarrow> Inl e
        | Some (tok, r) \<Rightarrow> Inr (Some (tok, at_state r (tokenValueEnd st) stk)))" for e
      by (auto simp: leaves_less_def split: option.splits)
    show ?thesis unfolding dec_Token.simps [of s] Cons list.case
      by (intro leaves_less_intros(1-4) rec str sca l)
  qed (simp add: dec_Token.simps leaves_less_intros)
qed

lemma dec_Token_shorter: "dec_Token s st stk = Inr (Some (t, d)) \<Longrightarrow> length (d_rest d) < length s"
  using dec_Token_leaves [of s st stk] by (simp add: leaves_less_def)

section \<open>The test by tokens\<close>

record frame =
  f_object :: bool
  f_keys :: "string set"
  f_expectKey :: bool

abbreviation object_frame :: "string set \<Rightarrow> bool \<Rightarrow> frame" where
  "object_frame ks ex \<equiv> \<lparr>f_object = True, f_keys = ks, f_expectKey = ex\<rparr>"

abbreviation array_frame :: frame where
  "array_frame \<equiv> \<lparr>f_object = False, f_keys = {}, f_expectKey = False\<rparr>"

definition valueDone :: "frame list \<Rightarrow> frame list" where
  "valueDone stack = (case stack of t # ts \<Rightarrow> if f_object t then t\<lparr>f_expectKey := True\<rparr> # ts else stack | [] \<Rightarrow> [])"

text \<open>The loop.  A closing token with no frame open would be an index out of range in the code.\<close>

function token_loop :: "string \<Rightarrow> tok_state \<Rightarrow> tok_state list \<Rightarrow> frame list \<Rightarrow> unit res" where
  "token_loop s st stk stack =
     (case dec_Token s st stk of
        Inl e \<Rightarrow> Inl e
      | Inr None \<Rightarrow> Inr ()
      | Inr (Some (tok, d)) \<Rightarrow>
          (case tok of
             Delim c \<Rightarrow>
               if c = CHR ''{'' then token_loop (d_rest d) (d_state d) (d_stack d) (object_frame {} True # stack)
               else if c = CHR ''['' then token_loop (d_rest d) (d_state d) (d_stack d) (array_frame # stack)
               else if stack = [] then Inl (EInvalid ''panic: byte_slice bounds out of range'')
               else token_loop (d_rest d) (d_state d) (d_stack d) (valueDone (tl stack))
           | TString t \<Rightarrow>
               if stack \<noteq> [] \<and> f_object (hd stack) \<and> f_expectKey (hd stack) then
                 if t \<in> f_keys (hd stack) then Inl (EInvalid ''ijson: member repeated'')
                 else token_loop (d_rest d) (d_state d) (d_stack d)
                        ((hd stack)\<lparr>f_keys := insert t (f_keys (hd stack)), f_expectKey := False\<rparr> # tl stack)
               else token_loop (d_rest d) (d_state d) (d_stack d) (valueDone stack)
           | TNumber l \<Rightarrow>
               (case CheckNumber l of
                  Inl e \<Rightarrow> Inl e
                | Inr _ \<Rightarrow> token_loop (d_rest d) (d_state d) (d_stack d) (valueDone stack))
           | TOther \<Rightarrow> token_loop (d_rest d) (d_state d) (d_stack d) (valueDone stack)))"
  by pat_completeness auto
termination
  by (relation "measure (\<lambda>(s, st, stk, stack). length s)") (auto dest: dec_Token_shorter)

declare token_loop.simps [simp del]

definition checkTokens :: "string \<Rightarrow> unit res" where
  "checkTokens data =
     (if \<not> utf8_Valid data then Inl (EInvalid ''ijson: invalid UTF-8'')
      else then_res (checkSurrogates data) (token_loop data TopValue [] []))"

section \<open>The byte-level test\<close>

definition maxDepth :: nat where
  "maxDepth = 1000"

definition fastLit :: "string \<Rightarrow> string \<Rightarrow> string option" where
  "fastLit word s = (if take (length word) s = word then Some (drop (length word) s) else None)"

text \<open>The bytes of the string from after its quote, whether it holds an escape, and what follows it.\<close>

function fastString :: "string \<Rightarrow> bool \<Rightarrow> string \<Rightarrow> (string \<times> bool \<times> string) option" where
  "fastString [] escaped raw = None"
| "fastString (c # cs) escaped raw =
     (if c = quote then Some (raw, escaped, cs)
      else if byte c < 32 then None
      else if c = bslash then
        (case cs of
           [] \<Rightarrow> None
         | e # ds \<Rightarrow>
             if unescape e \<noteq> None then fastString ds True (raw @ [c, e])
             else if e = CHR ''u'' then
               (case hex4 ds of
                  None \<Rightarrow> None
                | Some v \<Rightarrow> if 0xD800 \<le> v \<and> v \<le> 0xDFFF then None else fastString (drop 4 ds) True (raw @ c # e # take 4 ds))
             else None)
      else fastString cs escaped (raw @ [c]))"
  by pat_completeness auto
termination
  by (relation "measure (\<lambda>(s, e, raw). length s)") auto

definition fastNumber :: "string \<Rightarrow> string option" where
  "fastNumber s =
     (let (sg, s1) = (case s of c # cs \<Rightarrow> if c = CHR ''-'' then ([c], cs) else ([], s) | [] \<Rightarrow> ([], s))
      in case number_int s1 of
           None \<Rightarrow> None
         | Some (ip, s2) \<Rightarrow>
             (case number_frac s2 of
                None \<Rightarrow> None
              | Some (fp, s3) \<Rightarrow>
                  (case number_exp s3 of
                     None \<Rightarrow> None
                   | Some (ep, s4) \<Rightarrow>
                       let plain = (length ip \<le> 15 \<and> (fp \<noteq> [] \<longrightarrow> list_ex (\<lambda>c. c \<noteq> CHR ''0'') (tl fp)) \<and> ep = [])
                       in if \<not> plain \<and> CheckNumber (sg @ ip @ fp @ ep) \<noteq> Inr () then None else Some s4)))"

text \<open>The names of an object so far: a list of at most 16, then a set.\<close>

definition add_key :: "string list \<Rightarrow> string set option \<Rightarrow> string \<Rightarrow> (string list \<times> string set option) option" where
  "add_key keys seen key =
     (if seen = None \<and> length keys < 16 then if key \<in> set keys then None else Some (keys @ [key], None)
      else let sn = (case seen of None \<Rightarrow> set keys | Some sn \<Rightarrow> sn)
           in if key \<in> sn then None else Some (keys, Some (insert key sn)))"

fun fastValue :: "nat \<Rightarrow> nat \<Rightarrow> string \<Rightarrow> string option"
and fastObject :: "nat \<Rightarrow> nat \<Rightarrow> string \<Rightarrow> string list \<Rightarrow> string set option \<Rightarrow> string option"
and fastArray :: "nat \<Rightarrow> nat \<Rightarrow> string \<Rightarrow> string option" where
  "fastValue 0 depth s = None"
| "fastValue (Suc n) depth s =
     (case s of
        [] \<Rightarrow> None
      | c # cs \<Rightarrow>
          if c = CHR ''{'' then
            if maxDepth \<le> depth then None
            else (case skipWS cs of
                    d # r \<Rightarrow> if d = CHR ''}'' then Some r else fastObject n (depth + 1) (d # r) [] None
                  | [] \<Rightarrow> None)
          else if c = CHR ''['' then
            if maxDepth \<le> depth then None
            else (case skipWS cs of
                    d # r \<Rightarrow> if d = CHR '']'' then Some r else fastArray n (depth + 1) (d # r)
                  | [] \<Rightarrow> None)
          else if c = quote then map_option (\<lambda>(raw, escaped, r). r) (fastString cs False [])
          else if c = CHR ''-'' \<or> is_digit c then fastNumber s
          else if c = CHR ''t'' then fastLit ''true'' s
          else if c = CHR ''f'' then fastLit ''false'' s
          else if c = CHR ''n'' then fastLit ''null'' s
          else None)"
| "fastObject 0 depth s keys seen = None"
| "fastObject (Suc n) depth s keys seen =
     (case s of
        [] \<Rightarrow> None
      | c # cs \<Rightarrow>
          if c \<noteq> quote then None
          else case fastString cs False [] of
              None \<Rightarrow> None
            | Some (key, escaped, r1) \<Rightarrow>
                if escaped then None
                else case add_key keys seen key of
                    None \<Rightarrow> None
                  | Some (keys', seen') \<Rightarrow>
                      (case skipWS r1 of
                         [] \<Rightarrow> None
                       | d # r2 \<Rightarrow>
                           if d \<noteq> CHR '':'' then None
                           else case fastValue n depth (skipWS r2) of
                               None \<Rightarrow> None
                             | Some r3 \<Rightarrow>
                                 (case skipWS r3 of
                                    [] \<Rightarrow> None
                                  | x # r4 \<Rightarrow>
                                      if x = CHR '','' then fastObject n depth (skipWS r4) keys' seen'
                                      else if x = CHR ''}'' then Some r4
                                      else None)))"
| "fastArray 0 depth s = None"
| "fastArray (Suc n) depth s =
     (case fastValue n depth s of
        None \<Rightarrow> None
      | Some r \<Rightarrow>
          (case skipWS r of
             [] \<Rightarrow> None
           | x # r1 \<Rightarrow>
               if x = CHR '','' then fastArray n depth (skipWS r1)
               else if x = CHR '']'' then Some r1
               else None))"

definition checkFast :: "string \<Rightarrow> bool" where
  "checkFast data =
     (utf8_Valid data \<and> (case fastValue (Suc (2 * length data)) 0 (skipWS data) of None \<Rightarrow> False | Some r \<Rightarrow> skipWS r = []))"

definition Check :: "string \<Rightarrow> unit res" where
  "Check data = (if checkFast data then Inr () else checkTokens data)"

end
