(* ===== verification/Ijson_Numbers.thy ===== *)
theory Ijson_Numbers
  imports Ijson
begin

text \<open>
  The rule for a number: what the canonical form writes for a double passes it, and so do the numbers that
  the byte-level test passes outright.  The digits of a double number at most 1402 and its exponent is within
  4000, so that the limits of \<open>big.Rat\<close> are far away.
\<close>

section \<open>The scale of a canonical number\<close>

lemma candidate_bound:
  assumes "0 < f" "f < 10 powi (e + 1)" "candidate f e k = Some d"
  shows "d \<le> 10 ^ k"
proof -
  define s :: rat where "s = 10 powi (e - int k + 1)"
  define q where "q = nat \<lfloor>f / s\<rfloor>"
  have s: "0 < s" by (simp add: s_def)
  have "(10 :: rat) powi (e + 1) = 10 ^ k * s" by (simp add: s_def power_int_add [symmetric] power_int_of_nat [symmetric] del: power_int_of_nat)
  with assms(2) s have "f / s < of_nat (10 ^ k)" by (simp add: divide_less_eq)
  moreover have "0 \<le> f / s" using assms(1) s by simp
  ultimately have "of_nat q < rat_of_nat (10 ^ k)" unfolding q_def by (simp only: of_nat_nat floor_le_iff zero_le_floor) linarith
  then have "Suc q \<le> 10 ^ k" by (simp only: of_nat_less_iff Suc_le_eq)
  with assms(3) show ?thesis
    unfolding candidate_def Let_def s_def [symmetric] q_def [symmetric] by (auto split: if_splits)
qed

lemma shortest_from_bound:
  assumes "0 < f" "f < 10 powi (e + 1)" "shortest_from n k f e = (d, x)"
  shows "d \<le> 10 ^ (k + n) \<and> min 0 (e - int (k + n)) \<le> x \<and> x \<le> max 0 (e + 1)"
  using assms(3)
proof (induction n arbitrary: k)
  case (Suc n)
  show ?case
  proof (cases "candidate f e k")
    case None
    with Suc.IH [of "Suc k"] Suc.prems show ?thesis by simp
  next
    case (Some c)
    have "c \<le> 10 ^ k" by (rule candidate_bound [OF assms(1,2) Some])
    also have "(10 :: nat) ^ k \<le> 10 ^ (k + Suc n)" by (rule power_increasing) simp_all
    finally have "c \<le> 10 ^ (k + Suc n)" .
    with Suc.prems Some show ?thesis by auto
  qed
qed simp

lemma decimal_length_le: "d \<le> 10 ^ m \<Longrightarrow> length (decimal d) \<le> Suc m"
proof -
  assume d: "d \<le> 10 ^ m"
  show ?thesis
  proof (cases "d = 0")
    case False
    with decimal_length [of d] d have "(10 :: nat) ^ (length (decimal d) - 1) \<le> 10 ^ m" by linarith
    then have "length (decimal d) - 1 \<le> m" by (rule power_le_imp_le_exp [rotated]) simp
    then show ?thesis by simp
  qed (simp add: decimal_small)
qed

lemma FormatFloat_e_bound:
  assumes "round_double f = Some f" "0 < f" "FormatFloat_e f = (ds, x)"
  shows "length ds \<le> 1402 \<and> \<bar>x\<bar> \<le> 4000"
proof -
  obtain d y where s: "shortest_from 1400 1 f (ilog 10 f) = (d, y)" by fastforce
  from assms(3) s have ds: "ds = strip0 (decimal d)" and x: "x = y + int (length (decimal d)) - 1"
    by (auto simp: FormatFloat_e_def)
  have "f < 10 powi (ilog 10 f + 1)" using ilog_bounds(2) [of 10 f] assms(2) by simp
  note b = shortest_from_bound [OF assms(2) this s] double_log10 [OF assms(1,2)]
  have l: "length (decimal d) \<le> Suc (1 + 1400)" by (rule decimal_length_le [OF b(1) [THEN conjunct1]])
  have "length ds \<le> length (decimal d)" unfolding ds by (rule strip0_length)
  moreover have "- 2000 \<le> y" "y \<le> 400" using b(1) [THEN conjunct2] b(2,3) by auto
  ultimately show ?thesis using l x by simp
qed

lemma scale_digits: "list_all is_digit ds \<Longrightarrow> scale_of (ds @ s) = scale_of s"
  by (simp add: scale_of_def)

lemma scale_simps:
  "scale_of [] = (0, 0)"
  "list_all is_digit fs \<Longrightarrow> scale_of (CHR ''.'' # fs) = (0, int (length fs))"
  "scale_of (CHR ''e'' # s) = (exponent_of (CHR ''e'' # s), 0)"
  "list_all is_digit fs \<Longrightarrow> scale_of (CHR ''.'' # fs @ CHR ''e'' # s) = (exponent_of (CHR ''e'' # s), int (length fs))"
  by (simp_all add: scale_of_def exponent_of_def [of "[]"])

lemma layout_scale:
  assumes "list_all is_digit ds" "ds \<noteq> []" "scale_of (layout_number ds n) = (e, k)"
  shows "\<bar>e\<bar> \<le> \<bar>n\<bar> + 1 \<and> \<bar>e - k\<bar> \<le> \<bar>n\<bar> + int (length ds)"
proof -
  let ?k = "int (length ds)"
  have td: "list_all is_digit (take m ds)" "list_all is_digit (drop m ds)" for m
    using assms(1) by (auto simp: list_all_iff dest: in_set_takeD in_set_dropD)
  consider (int) "?k \<le> n" "n \<le> 21" | (frac) "\<not> ?k \<le> n" "0 < n" "n \<le> 21" | (small) "- 6 < n" "n \<le> 0"
    | (exp) "\<not> (?k \<le> n \<and> n \<le> 21)" "\<not> (0 < n \<and> n \<le> 21)" "\<not> (- 6 < n \<and> n \<le> 0)" by linarith
  then show ?thesis
  proof cases
    case int
    then have "layout_number ds n = (ds @ replicate (nat (n - ?k)) (CHR ''0'')) @ []" by (simp add: layout_number_def Let_def)
    with assms(1,3) show ?thesis using scale_digits [of "ds @ replicate (nat (n - ?k)) (CHR ''0'')" "[]"] by (simp add: scale_simps)
  next
    case frac
    then have "layout_number ds n = take (nat n) ds @ CHR ''.'' # drop (nat n) ds" by (simp add: layout_number_def Let_def)
    with assms(3) frac td show ?thesis by (auto simp: scale_digits scale_simps)
  next
    case small
    moreover have "0 < length ds" using assms(2) by simp
    with small have "\<not> ?k \<le> n" by linarith
    ultimately have "layout_number ds n = ''0'' @ CHR ''.'' # (replicate (nat (- n)) (CHR ''0'') @ ds)"
      by (simp add: layout_number_def Let_def)
    with assms(1,3) small scale_digits [of "''0''"] scale_simps(2) [of "replicate (nat (- n)) (CHR ''0'') @ ds"] show ?thesis by auto
  next
    case exp
    let ?e = "(if 0 \<le> n - 1 then ''+'' else []) @ int_Itoa (n - 1)"
    from exp have "layout_number ds n = take 1 ds @ (if 1 < ?k then CHR ''.'' # drop 1 ds else []) @ CHR ''e'' # ?e"
      unfolding layout_number_def Let_def by (simp only: if_False)
    then have "scale_of (layout_number ds n) = (n - 1, if 1 < ?k then int (length (drop 1 ds)) else 0)"
      using scale_digits [OF td(1) [of 1]] scale_simps(3) [of ?e] scale_simps(4) [OF td(2) [of 1], of ?e]
      unfolding exponent_Itoa by (cases "1 < ?k") simp_all
    with assms(2,3) show ?thesis by (cases ds) auto
  qed
qed

lemma SetString_written:
  assumes "round_double f = Some f" "FormatNumber (Finite f) = Inr w"
  shows "SetString w = Some (lit_value w)"
proof (cases "f = 0")
  case True
  with assms(2) have "w = ''0''" by (simp add: FormatNumber_def)
  then show ?thesis by (simp add: SetString_def unsigned_def scale_of_def exponent_of_def rat_maxScale_def)
next
  case False
  obtain ds x where d: "FormatFloat_e \<bar>f\<bar> = (ds, x)" by fastforce
  have a: "round_double \<bar>f\<bar> = Some \<bar>f\<bar>" "0 < \<bar>f\<bar>" using assms(1) False round_double_minus [of f] by (cases "f < 0"; simp)+
  note b = FormatFloat_e_back [OF a d] FormatFloat_e_bound [OF a d]
  obtain e k where ek: "scale_of (layout_number ds (x + 1)) = (e, k)" by fastforce
  note s = layout_scale [OF b(2,3) ek]
  have u: "unsigned w = layout_number ds (x + 1)"
    using assms(2) False d layout_plain [OF b(2,3), of "x + 1"]
    by (auto simp: FormatNumber_def unsigned_def split: if_splits list.splits)
  have "\<bar>e\<bar> \<le> 5000" "\<bar>e - k\<bar> \<le> 10000" using s b(5) by linarith+
  then show ?thesis unfolding SetString_def u ek by (auto simp: rat_maxScale_def)
qed

text \<open>What the canonical form writes for a double passes the test.\<close>

lemma CheckNumber_written:
  assumes "round_double f = Some f" "FormatNumber (Finite f) = Inr w"
  shows "CheckNumber w = Inr ()"
proof -
  note s = SetString_written [OF assms]
  have "ParseFloat w = Inr f" using FormatNumber_back [OF assms(1)] assms(2) by (metis sum.inject(2))
  then have "round_double (lit_value w) = Some f" by (auto simp: ParseFloat_def split: option.splits)
  with s assms(2) show ?thesis by (simp add: CheckNumber_def)
qed

section \<open>The numbers the byte-level test passes outright\<close>

lemma round_double_small:
  assumes "\<bar>x\<bar> < 2 ^ 50"
  obtains f where "round_double x = Some f"
proof (cases "x = 0")
  case False
  define e where "e = max (- 1074) (ilog 2 \<bar>x\<bar> - 52)"
  define y where "y = \<bar>x\<bar> / 2 powi e"
  have "(2 :: rat) powi ilog 2 \<bar>x\<bar> \<le> \<bar>x\<bar>" using ilog_bounds(1) [of 2 "\<bar>x\<bar>"] False by simp
  with assms have "(2 :: rat) powi ilog 2 \<bar>x\<bar> < 2 powi 50" by simp
  then have "\<not> 50 \<le> ilog 2 \<bar>x\<bar>" using two_powi_mono [of 50 "ilog 2 \<bar>x\<bar>"] by linarith
  then have "e \<le> 0" by (simp add: e_def)
  then have e: "0 < (2 :: rat) powi e" "(2 :: rat) powi e \<le> 1" using two_powi_mono [of e 0] by simp_all
  have "round_even y \<le> \<lfloor>y\<rfloor> + 1" by (rule round_even_bound) linarith
  then have "of_int (round_even y) \<le> y + 1" by linarith
  then have "of_int (round_even y) * 2 powi e \<le> (y + 1) * 2 powi e" using e(1) by (intro mult_right_mono) simp_all
  also have "\<dots> = \<bar>x\<bar> + 2 powi e" using e(1) by (simp add: y_def distrib_right)
  also have "\<dots> < 2 ^ 51" using assms e(2) by simp
  also have "(2 :: rat) ^ 51 < 2 ^ 1024" by (rule power_strict_increasing) simp_all
  finally have "\<not> overflows (of_int (round_even y) * 2 powi e)" by (simp add: overflows_def del: power_numeral)
  with False that show ?thesis unfolding round_double_def Let_def e_def [symmetric] y_def [symmetric] by simp
qed (use that in \<open>simp add: round_double_def\<close>)

lemma dec_nat_bound: "list_all is_digit ds \<Longrightarrow> dec_nat ds < 10 ^ length ds"
proof (induction ds rule: rev_induct)
  case (snoc c ds)
  then have "dec_nat ds < 10 ^ length ds" "byte c - 48 < 10" by (auto simp: is_digit_def)
  then show ?case by (simp add: dec_nat_snoc)
qed simp

lemma dec_nat_short:
  assumes "list_all is_digit ds" "length ds \<le> 15"
  shows "dec_nat ds < 10 ^ 15"
  by (rule less_le_trans [OF dec_nat_bound [OF assms(1)]]) (use assms(2) in \<open>intro power_increasing, simp_all\<close>)

lemma dec_nat_pos: "list_all is_digit ds \<Longrightarrow> list_ex (\<lambda>c. c \<noteq> CHR ''0'') ds \<Longrightarrow> 0 < dec_nat ds"
proof (induction ds rule: rev_induct)
  case (snoc c ds)
  show ?case
  proof (cases "list_ex (\<lambda>c. c \<noteq> CHR ''0'') ds")
    case False
    with snoc.prems have "c \<noteq> CHR ''0''" "is_digit c" by auto
    then have "48 < byte c" using byte_zero [of c] by (cases "byte c = 48") (auto simp: is_digit_def)
    then show ?thesis by (simp add: dec_nat_snoc)
  qed (use snoc in \<open>simp add: dec_nat_snoc\<close>)
qed simp

lemma IsInt_iff: "IsInt r \<longleftrightarrow> (\<exists>k. r = of_int k)"
proof
  assume "IsInt r"
  then obtain p where "quotient_of r = (p, 1)" by (cases "quotient_of r") (simp add: IsInt_def)
  from quotient_of_div [OF this] show "\<exists>k. r = of_int k" by auto
qed (auto simp: IsInt_def)

lemma lit_value_signed:
  assumes "sg = [] \<or> sg = ''-''" "u \<noteq> []" "hd u \<noteq> CHR ''-''"
  shows "lit_value (sg @ u) = (if sg = [] then magnitude u else - magnitude u)" "unsigned (sg @ u) = u"
  using assms by (cases u; auto simp: lit_value_def unsigned_def)+

lemma fraction_not_whole:
  assumes "0 < b" "b < 10 ^ k"
  shows "\<not> IsInt (of_nat (a * 10 ^ k + b) * 10 powi (- int k))" "\<not> IsInt (- (of_nat (a * 10 ^ k + b) * 10 powi (- int k)))"
proof -
  define P where "P = (10 :: nat) ^ k"
  have P: "0 < P" by (simp add: P_def)
  have w: "(10 :: rat) powi (- int k) = inverse (of_nat P)" by (simp add: P_def power_int_minus)
  have no: "of_nat (a * P + b) * inverse (of_nat P) \<noteq> rat_of_int i" for i
  proof
    assume "of_nat (a * P + b) * inverse (of_nat P) = rat_of_int i"
    then have "rat_of_int (int (a * P + b)) = rat_of_int (i * int P)" using P by (simp add: field_simps)
    then have "int (a * P + b) = i * int P" by (simp only: of_int_eq_iff)
    then have "int P dvd int (a * P + b)" by simp
    then have "P dvd b" by (simp add: dvd_add_right_iff)
    with assms show False unfolding P_def [symmetric] by (auto dest: dvd_imp_le)
  qed
  show "\<not> IsInt (of_nat (a * 10 ^ k + b) * 10 powi (- int k))" unfolding IsInt_iff w P_def [symmetric] using no by blast
  show "\<not> IsInt (- (of_nat (a * 10 ^ k + b) * 10 powi (- int k)))" unfolding IsInt_iff w P_def [symmetric]
    using no by (metis minus_equation_iff of_int_minus)
qed

lemma plain_integer_ok:
  assumes "sg = [] \<or> sg = ''-''" "list_all is_digit ip" "ip \<noteq> []" "length ip \<le> 15"
  shows "CheckNumber (sg @ ip) = Inr ()"
proof -
  have h: "hd ip \<noteq> CHR ''-''" using assms(2,3) by (cases ip) (auto simp: is_digit_def)
  note v = lit_value_signed [OF assms(1,3) h]
  let ?n = "rat_of_nat (dec_nat ip)"
  have "dec_nat ip < 10 ^ 15" by (rule dec_nat_short [OF assms(2,4)])
  then have "dec_nat ip < 2 ^ 53" by simp
  from round_double_nat [OF this] have r: "round_double ?n = Some ?n" "round_double (- ?n) = Some (- ?n)"
    using round_double_minus [of ?n] by simp_all
  have "scale_of ip = (0, 0)" using scale_digits [OF assms(2), of "[]"] by (simp add: scale_simps)
  then have "SetString (sg @ ip) = Some (if sg = [] then ?n else - ?n)"
    using v assms(2) by (simp add: SetString_def magnitude_int rat_maxScale_def)
  with r show ?thesis by (simp add: CheckNumber_def)
qed

lemma plain_fraction_ok:
  assumes "sg = [] \<or> sg = ''-''" "list_all is_digit ip" "ip \<noteq> []" "length ip \<le> 15"
    and "list_all is_digit fs" "list_ex (\<lambda>c. c \<noteq> CHR ''0'') fs" "int (length fs) \<le> rat_maxScale"
  shows "CheckNumber (sg @ ip @ CHR ''.'' # fs) = Inr ()"
proof -
  let ?u = "ip @ CHR ''.'' # fs" and ?k = "length fs"
  have h: "hd ?u \<noteq> CHR ''-''" using assms(2,3) by (cases ip) (auto simp: is_digit_def)
  note v = lit_value_signed [OF assms(1) _ h]
  define m where "m = rat_of_nat (dec_nat ip * 10 ^ ?k + dec_nat fs) * 10 powi (- int ?k)"
  have m: "magnitude ?u = m" using magnitude_frac [OF assms(2,5)] by (simp add: m_def dec_nat_append)
  have b: "0 < dec_nat fs" "dec_nat fs < 10 ^ ?k" using dec_nat_pos [OF assms(5,6)] dec_nat_bound [OF assms(5)] by simp_all
  have "dec_nat ip * 10 ^ ?k + dec_nat fs < Suc (dec_nat ip) * 10 ^ ?k" using b(2) by simp
  also have "\<dots> \<le> 10 ^ 15 * 10 ^ ?k" by (rule mult_le_mono1) (use dec_nat_short [OF assms(2,4)] in simp)
  finally have "rat_of_nat (dec_nat ip * 10 ^ ?k + dec_nat fs) < rat_of_nat (10 ^ 15 * 10 ^ ?k)" by (simp only: of_nat_less_iff)
  then have "m < 10 ^ 15" by (simp add: m_def power_int_minus field_simps)
  moreover have "0 \<le> m" by (simp add: m_def)
  ultimately have "\<bar>m\<bar> < 2 ^ 50" by simp
  then obtain f where f: "round_double m = Some f" by (rule round_double_small)
  have "scale_of ?u = (0, int ?k)" using assms(2,5) by (simp add: scale_digits scale_simps)
  then have s: "SetString (sg @ ?u) = Some (if sg = [] then m else - m)"
    using v m assms(7) by (simp add: SetString_def)
  have "\<not> IsInt m" "\<not> IsInt (- m)" using fraction_not_whole [OF b] unfolding m_def by blast+
  with s f round_double_minus [of m] show ?thesis by (simp add: CheckNumber_def)
qed

end
