(* ===== verification/Ijson_Agree.thy ===== *)
theory Ijson_Agree
  imports Ijson_Numbers
begin

text \<open>
  The byte-level test answers yes only where the token loop does.  Both are followed along the document: a
  value that starts at \<open>s\<close> and leaves \<open>r\<close> takes the token loop, from any state in which a value may start, to
  \<open>r\<close> with the value ended, and leaves the scan for lone surrogates where it was (\<open>value_run\<close>); the arrays,
  objects, strings and numbers of either side compose such runs.  The canonical form composes them too, so that
  it passes the test.
\<close>

section \<open>Runs of the token loop\<close>

lemma dec_Token_ws: "dec_Token (skipWS s) st stk = dec_Token s st stk"
  by (simp add: dec_Token.simps [of s] dec_Token.simps [of "skipWS s"])

lemma loop_cong: "dec_Token s st stk = dec_Token s' st' stk' \<Longrightarrow> token_loop s st stk fs = token_loop s' st' stk' fs"
  by (simp add: token_loop.simps [of s] token_loop.simps [of s'])

lemma loop_ws: "token_loop (skipWS s) st stk fs = token_loop s st stk fs"
  by (rule loop_cong [OF dec_Token_ws])

lemma loop_colon: "skipWS s = CHR '':'' # r \<Longrightarrow> token_loop s ObjectColon stk fs = token_loop r ObjectValue stk fs"
  by (rule loop_cong) (simp add: dec_Token.simps [of s])

lemma loop_comma:
  "skipWS s = CHR '','' # r \<Longrightarrow> token_loop s ArrayComma stk fs = token_loop r ArrayValue stk fs"
  "skipWS s = CHR '','' # r \<Longrightarrow> token_loop s ObjectComma stk fs = token_loop r ObjectKey stk fs"
  by (rule loop_cong; simp add: dec_Token.simps [of s])+

lemma loop_open:
  "skipWS s = CHR ''['' # r \<Longrightarrow> tokenValueAllowed st \<Longrightarrow> token_loop s st stk fs = token_loop r ArrayStart (st # stk) (array_frame # fs)"
  "skipWS s = CHR ''{'' # r \<Longrightarrow> tokenValueAllowed st \<Longrightarrow> token_loop s st stk fs = token_loop r ObjectStart (st # stk) (object_frame {} True # fs)"
  by (simp_all add: token_loop.simps [of s] dec_Token.simps [of s])

lemma loop_close:
  "skipWS s = CHR '']'' # r \<Longrightarrow> stt = ArrayStart \<or> stt = ArrayComma \<Longrightarrow>
    token_loop s stt (st # stk) (f # fs) = token_loop r (tokenValueEnd st) stk (valueDone fs)"
  "skipWS s = CHR ''}'' # r \<Longrightarrow> stt = ObjectStart \<or> stt = ObjectComma \<Longrightarrow>
    token_loop s stt (st # stk) (f # fs) = token_loop r (tokenValueEnd st) stk (valueDone fs)"
  by (simp_all add: token_loop.simps [of s] dec_Token.simps [of s])

lemma loop_key:
  assumes "decode_string cs = Some (k, r)" "stt = ObjectStart \<or> stt = ObjectKey" "k \<notin> ks"
  shows "token_loop (quote # cs) stt stk (object_frame ks True # fs) = token_loop r ObjectColon stk (object_frame (insert k ks) False # fs)"
  using assms by (simp add: token_loop.simps [of "quote # cs"] dec_Token.simps [of "quote # cs"] is_ws_def)

text \<open>The frame that goes with a state in which a value may start.\<close>

definition fits :: "tok_state \<Rightarrow> frame list \<Rightarrow> bool" where
  "fits st fs \<longleftrightarrow> tokenValueAllowed st \<and>
     (if st = ObjectValue then \<exists>ks gs. fs = object_frame ks False # gs else fs = [] \<or> \<not> f_object (hd fs))"

lemma surrogates_skip: "list_all (\<lambda>c. c \<noteq> quote) p \<Longrightarrow> surrogates False (p @ s) = surrogates False s"
  by (induction p) simp_all

lemma surrogates_ws [simp]: "surrogates False (skipWS s) = surrogates False s"
proof -
  have "list_all (\<lambda>c. c \<noteq> quote) (takeWhile is_ws s)" by (auto simp: list_all_iff is_ws_def dest: set_takeWhileD)
  from surrogates_skip [OF this, of "dropWhile is_ws s"] show ?thesis by (simp add: skipWS_def)
qed

lemma surrogates_Cons: "skipWS s = c # r \<Longrightarrow> c \<noteq> quote \<Longrightarrow> surrogates False s = surrogates False r"
  using surrogates_ws [of s] by simp

text \<open>A value is read from \<open>s\<close>, and \<open>r\<close> is left; likewise the elements of an array and the members of an object.\<close>

definition value_run :: "string \<Rightarrow> string \<Rightarrow> bool" where
  "value_run s r \<longleftrightarrow> surrogates False s = surrogates False r \<and>
     (\<forall>st stk fs. fits st fs \<longrightarrow> token_loop s st stk fs = token_loop r (tokenValueEnd st) stk (valueDone fs))"

definition elems_run :: "string \<Rightarrow> string \<Rightarrow> bool" where
  "elems_run s r \<longleftrightarrow> surrogates False s = surrogates False r \<and>
     (\<forall>st stk fs stt. fits st fs \<longrightarrow> stt = ArrayStart \<or> stt = ArrayValue \<longrightarrow>
        token_loop s stt (st # stk) (array_frame # fs) = token_loop r (tokenValueEnd st) stk (valueDone fs))"

definition members_run :: "string set \<Rightarrow> string \<Rightarrow> string \<Rightarrow> bool" where
  "members_run ks s r \<longleftrightarrow> surrogates False s = surrogates False r \<and>
     (\<forall>st stk fs stt. fits st fs \<longrightarrow> stt = ObjectStart \<or> stt = ObjectKey \<longrightarrow>
        token_loop s stt (st # stk) (object_frame ks True # fs) = token_loop r (tokenValueEnd st) stk (valueDone fs))"

lemma value_run_in:
  assumes "value_run s r"
  shows "stt = ArrayStart \<or> stt = ArrayValue \<Longrightarrow> token_loop s stt stk (array_frame # fs) = token_loop r ArrayComma stk (array_frame # fs)"
    and "token_loop s ObjectValue stk (object_frame ks False # fs) = token_loop r ObjectComma stk (object_frame ks True # fs)"
  using assms by (auto simp: value_run_def fits_def tokenValueAllowed_def tokenValueEnd_def valueDone_def)

lemma array_run:
  assumes "skipWS cs = CHR '']'' # r \<or> elems_run (skipWS cs) r"
  shows "value_run (CHR ''['' # cs) r"
  using assms
proof
  assume c: "skipWS cs = CHR '']'' # r"
  show ?thesis unfolding value_run_def
  proof (intro conjI allI impI)
    fix st stk fs assume "fits st fs"
    then show "token_loop (CHR ''['' # cs) st stk fs = token_loop r (tokenValueEnd st) stk (valueDone fs)"
      using loop_open(1) [of "CHR ''['' # cs" cs st] loop_close(1) [OF c, of ArrayStart] by (simp add: fits_def is_ws_def)
  qed (use surrogates_Cons [OF c] in simp)
next
  assume e: "elems_run (skipWS cs) r"
  show ?thesis unfolding value_run_def
  proof (intro conjI allI impI)
    fix st stk fs assume f: "fits st fs"
    with e have "token_loop (skipWS cs) ArrayStart (st # stk) (array_frame # fs) = token_loop r (tokenValueEnd st) stk (valueDone fs)"
      by (simp add: elems_run_def)
    with f show "token_loop (CHR ''['' # cs) st stk fs = token_loop r (tokenValueEnd st) stk (valueDone fs)"
      using loop_open(1) [of "CHR ''['' # cs" cs st] by (simp add: fits_def is_ws_def loop_ws)
  qed (use e in \<open>simp add: elems_run_def\<close>)
qed

lemma elem_run:
  assumes "value_run s r1" "skipWS r1 = CHR '']'' # r \<or> skipWS r1 = CHR '','' # r2 \<and> elems_run (skipWS r2) r"
  shows "elems_run s r"
  unfolding elems_run_def
proof (intro conjI allI impI)
  have "surrogates False r1 = surrogates False r"
    using assms(2) surrogates_Cons [of r1] by (auto simp: elems_run_def)
  then show "surrogates False s = surrogates False r" using assms(1) by (simp add: value_run_def)
  fix st stk fs stt assume f: "fits st fs" and stt: "stt = ArrayStart \<or> stt = ArrayValue"
  note v = value_run_in(1) [OF assms(1) stt, of "st # stk" fs]
  from assms(2) show "token_loop s stt (st # stk) (array_frame # fs) = token_loop r (tokenValueEnd st) stk (valueDone fs)"
  proof
    assume "skipWS r1 = CHR '']'' # r"
    then show ?thesis using v loop_close(1) [of r1 r ArrayComma] by simp
  next
    assume c: "skipWS r1 = CHR '','' # r2 \<and> elems_run (skipWS r2) r"
    then have "token_loop (skipWS r2) ArrayValue (st # stk) (array_frame # fs) = token_loop r (tokenValueEnd st) stk (valueDone fs)"
      using f by (simp add: elems_run_def)
    then show ?thesis using v c loop_comma(1) [of r1 r2] by (simp add: loop_ws)
  qed
qed

lemma object_run:
  assumes "skipWS cs = CHR ''}'' # r \<or> members_run {} (skipWS cs) r"
  shows "value_run (CHR ''{'' # cs) r"
  using assms
proof
  assume c: "skipWS cs = CHR ''}'' # r"
  show ?thesis unfolding value_run_def
  proof (intro conjI allI impI)
    fix st stk fs assume "fits st fs"
    then show "token_loop (CHR ''{'' # cs) st stk fs = token_loop r (tokenValueEnd st) stk (valueDone fs)"
      using loop_open(2) [of "CHR ''{'' # cs" cs st] loop_close(2) [OF c, of ObjectStart] by (simp add: fits_def is_ws_def)
  qed (use surrogates_Cons [OF c] in simp)
next
  assume e: "members_run {} (skipWS cs) r"
  show ?thesis unfolding value_run_def
  proof (intro conjI allI impI)
    fix st stk fs assume f: "fits st fs"
    with e have "token_loop (skipWS cs) ObjectStart (st # stk) (object_frame {} True # fs) = token_loop r (tokenValueEnd st) stk (valueDone fs)"
      by (simp add: members_run_def)
    with f show "token_loop (CHR ''{'' # cs) st stk fs = token_loop r (tokenValueEnd st) stk (valueDone fs)"
      using loop_open(2) [of "CHR ''{'' # cs" cs st] by (simp add: fits_def is_ws_def loop_ws)
  qed (use e in \<open>simp add: members_run_def\<close>)
qed

text \<open>The string after a quote: what the decoder reads, and no lone surrogate.\<close>

definition string_run :: "string \<Rightarrow> string \<Rightarrow> string \<Rightarrow> bool" where
  "string_run cs v r \<longleftrightarrow> decode_string cs = Some (v, r) \<and> surrogates True cs = surrogates False r"

lemma member_run:
  assumes "string_run cs k r0" "skipWS r0 = CHR '':'' # r1" "value_run (skipWS r1) r2" "k \<notin> ks"
    and "skipWS r2 = CHR ''}'' # r \<or> skipWS r2 = CHR '','' # r3 \<and> members_run (insert k ks) (skipWS r3) r"
  shows "members_run ks (quote # cs) r"
  unfolding members_run_def
proof (intro conjI allI impI)
  have "surrogates False r2 = surrogates False r"
    using assms(5) surrogates_Cons [of r2] by (auto simp: members_run_def)
  moreover have "surrogates False r1 = surrogates False r2" using assms(3) by (simp add: value_run_def)
  moreover have "surrogates False r0 = surrogates False r1" by (rule surrogates_Cons [OF assms(2)]) simp
  ultimately show "surrogates False (quote # cs) = surrogates False r" using assms(1) by (simp add: string_run_def)
  fix st stk fs stt assume f: "fits st fs" and stt: "stt = ObjectStart \<or> stt = ObjectKey"
  have "decode_string cs = Some (k, r0)" using assms(1) by (simp add: string_run_def)
  then have v: "token_loop (quote # cs) stt (st # stk) (object_frame ks True # fs) = token_loop r2 ObjectComma (st # stk) (object_frame (insert k ks) True # fs)"
    using loop_key [OF _ stt assms(4)] loop_colon [OF assms(2)] value_run_in(2) [OF assms(3)] by (simp add: loop_ws)
  from assms(5) show "token_loop (quote # cs) stt (st # stk) (object_frame ks True # fs) = token_loop r (tokenValueEnd st) stk (valueDone fs)"
  proof
    assume "skipWS r2 = CHR ''}'' # r"
    then show ?thesis using v loop_close(2) [of r2 r ObjectComma] by simp
  next
    assume c: "skipWS r2 = CHR '','' # r3 \<and> members_run (insert k ks) (skipWS r3) r"
    then have "token_loop (skipWS r3) ObjectKey (st # stk) (object_frame (insert k ks) True # fs) = token_loop r (tokenValueEnd st) stk (valueDone fs)"
      using f by (simp add: members_run_def)
    then show ?thesis using v c loop_comma(2) [of r2 r3] by (simp add: loop_ws)
  qed
qed

lemma scalar_run:
  assumes "s = c # cs" "\<not> is_ws c" "c \<notin> {CHR ''['', CHR '']'', CHR ''{'', CHR ''}'', CHR '':'', CHR '',''}"
    and "scalar_token s = Some (tok, r)" "surrogates False s = surrogates False r"
    and "case tok of Delim _ \<Rightarrow> False | TNumber l \<Rightarrow> CheckNumber l = Inr () | _ \<Rightarrow> True"
  shows "value_run s r"
  unfolding value_run_def
proof (intro conjI allI impI)
  fix st stk fs assume f: "fits st fs"
  then have st: "tokenValueAllowed st" "st \<noteq> ObjectStart" "st \<noteq> ObjectKey" by (auto simp: fits_def tokenValueAllowed_def)
  have k: "\<not> (fs \<noteq> [] \<and> f_object (hd fs) \<and> f_expectKey (hd fs))" using f by (auto simp: fits_def split: if_splits)
  have t: "dec_Token s st stk = Inr (Some (tok, at_state r (tokenValueEnd st) stk))"
    using assms(1-4) st by (simp add: dec_Token.simps [of "c # cs"])
  then show "token_loop s st stk fs = token_loop r (tokenValueEnd st) stk (valueDone fs)"
    using assms(6) k by (cases tok) (auto simp: token_loop.simps [of s])
qed (rule assms(5))

lemma string_value_run:
  assumes "string_run cs v r"
  shows "value_run (quote # cs) r"
  by (rule scalar_run [of _ quote cs "TString v"]) (use assms in \<open>simp_all add: string_run_def scalar_token_def is_ws_def\<close>)

lemma num_step_quote: "num_step st c = Some st' \<Longrightarrow> c \<noteq> quote"
  by (cases st) (auto simp: num_step_def is_digit_def)

lemma scan_number_quote: "scan_number st s = Some (l, r) \<Longrightarrow> list_all (\<lambda>c. c \<noteq> quote) l"
  by (induction st s arbitrary: l rule: scan_number.induct) (auto split: if_splits option.splits dest: num_step_quote)

lemma decode_number_quote: "decode_number s = Some (l, r) \<Longrightarrow> list_all (\<lambda>c. c \<noteq> quote) l"
  by (auto simp: decode_number_def simp del: scan_number.simps split: list.splits if_splits dest: scan_number_quote)

lemma number_run:
  assumes "decode_number s = Some (l, r)" "CheckNumber l = Inr ()"
  shows "value_run s r"
proof -
  obtain c cs where s: "s = c # cs" using assms(1) by (cases s) (auto simp: decode_number_def)
  have c: "c = CHR ''-'' \<or> is_digit c"
    using assms(1) s by (auto simp: decode_number_def num_step_def split: if_splits option.splits)
  have n: "c \<noteq> quote" "c \<notin> {CHR ''['', CHR '']'', CHR ''{'', CHR ''}'', CHR '':'', CHR '',''}" "\<not> is_ws c"
    using c by (auto simp: is_digit_def is_ws_def)
  have "scalar_token s = Some (TNumber l, r)" using assms(1) s c n(1) by (simp add: scalar_token_def)
  moreover have "surrogates False s = surrogates False r"
    using surrogates_skip [OF decode_number_quote [OF assms(1)], of r] decode_number_split(1) [OF assms(1)] by simp
  ultimately show ?thesis using scalar_run [OF s n(3,2)] assms(2) by simp
qed

lemma lit_run:
  assumes "word \<in> {''true'', ''false'', ''null''}"
  shows "value_run (word @ r) r"
proof -
  have "surrogates False (word @ r) = surrogates False r" by (rule surrogates_skip) (use assms in auto)
  moreover have "scalar_token (word @ r) = Some (TOther, r)"
    using assms by (elim insertE emptyE) (simp_all add: scalar_token_def decode_lit_def is_digit_def)
  ultimately show ?thesis
    using assms scalar_run [of "word @ r" "hd word" "tl word @ r" TOther r] by (elim insertE emptyE) (simp_all add: is_ws_def)
qed

lemma runs_pass:
  assumes "utf8_Valid data" "value_run (skipWS data) r" "skipWS r = []"
  shows "checkTokens data = Inr ()"
proof -
  have "fits TopValue []" by (simp add: fits_def tokenValueAllowed_def)
  with assms(2) have l: "token_loop (skipWS data) TopValue [] [] = token_loop r (tokenValueEnd TopValue) [] (valueDone [])"
      and s: "surrogates False (skipWS data) = surrogates False r"
    by (auto simp: value_run_def)
  have "token_loop r st [] fs = Inr ()" for st fs using assms(3) by (simp add: token_loop.simps [of r] dec_Token.simps [of r])
  moreover have "surrogates False r = Inr ()" using surrogates_ws [of r] assms(3) by simp
  ultimately show ?thesis using l s assms(1) by (simp add: checkTokens_def checkSurrogates_def loop_ws)
qed

section \<open>The byte-level test agrees\<close>

lemma surrogate_range: "(0xD800 \<le> v \<and> v \<le> 0xDFFF) = IsSurrogate v"
  by (auto simp: IsSurrogate_def)

lemma surrogates_u:
  assumes "hex4 ds = Some h" "\<not> IsSurrogate h"
  shows "surrogates True (bslash # CHR ''u'' # ds) = surrogates True (drop 4 ds)"
  using assms by (auto simp: IsSurrogate_def Let_def)

lemma unescape_not_u: "unescape e = Some x \<Longrightarrow> e \<noteq> CHR ''u''"
  by auto

lemma fastString_cases:
  assumes "fastString cs esc raw = Some (raw', esc', r)"
  obtains (close) "cs = quote # r" "raw' = raw" "esc' = esc"
  | (plain) c ds where "cs = c # ds" "c \<noteq> quote" "c \<noteq> bslash" "\<not> byte c < 32" "fastString ds esc (raw @ [c]) = Some (raw', esc', r)"
  | (two) e ds x where "cs = bslash # e # ds" "unescape e = Some x" "fastString ds True (raw @ [bslash, e]) = Some (raw', esc', r)"
  | (four) ds h where "cs = bslash # CHR ''u'' # ds" "hex4 ds = Some h" "\<not> IsSurrogate h"
      "fastString (drop 4 ds) True (raw @ bslash # CHR ''u'' # take 4 ds) = Some (raw', esc', r)"
proof -
  obtain c ds where cs: "cs = c # ds" using assms by (cases cs) auto
  consider "c = quote" | "c \<noteq> quote" "c \<noteq> bslash" | "c = bslash" by argo
  then show ?thesis
  proof cases
    case 1
    with assms cs close show ?thesis by auto
  next
    case 2
    with assms cs plain show ?thesis by (auto split: if_splits)
  next
    case 3
    with assms cs obtain e es where ds: "ds = e # es" by (cases ds) auto
    show ?thesis
    proof (cases "unescape e")
      case None
      with assms cs ds 3 have "e = CHR ''u''" by (auto split: if_splits)
      with assms cs ds 3 None four [of es] show ?thesis by (auto simp: surrogate_range split: option.splits if_splits)
    next
      case (Some x)
      with assms cs ds 3 two [of e es x] show ?thesis by auto
    qed
  qed
qed

lemma fastString_surrogates: "fastString cs esc raw = Some (raw', esc', r) \<Longrightarrow> surrogates True cs = surrogates False r"
proof (induction "length cs" arbitrary: cs esc raw rule: less_induct)
  case less
  from less.prems show ?case
  proof (cases rule: fastString_cases)
    case (plain c ds)
    with less.hyps [of ds] show ?thesis by simp
  next
    case (two e ds x)
    with less.hyps [of ds] unescape_not_u [of e x] show ?thesis by simp
  next
    case (four ds h)
    with less.hyps [of "drop 4 ds"] surrogates_u [OF four(2,3)] show ?thesis by (simp del: surrogates.simps)
  qed simp
qed

lemma fastString_reads: "fastString cs esc raw = Some (raw', esc', r) \<Longrightarrow> \<exists>v. strEscaped cs out = Some (v, r)"
proof (induction "length cs" arbitrary: cs esc raw out rule: less_induct)
  case less
  from less.prems show ?case
  proof (cases rule: fastString_cases)
    case (plain c ds)
    with less.hyps [of ds] show ?thesis by simp
  next
    case (two e ds x)
    with less.hyps [of ds] show ?thesis by simp
  next
    case (four ds h)
    with less.hyps [of "drop 4 ds"] show ?thesis by simp
  qed simp
qed

lemma fastString_escaped: "fastString cs True raw = Some (raw', esc', r) \<Longrightarrow> esc'"
proof (induction "length cs" arbitrary: cs raw rule: less_induct)
  case less
  from less.prems show ?case
  proof (cases rule: fastString_cases)
    case (plain c ds)
    then show ?thesis by (intro less.hyps [OF _ plain(5)]) simp
  next
    case (two e ds x)
    then show ?thesis by (intro less.hyps [OF _ two(3)]) simp
  next
    case (four ds h)
    then show ?thesis by (intro less.hyps [OF _ four(4)]) simp
  qed simp
qed

lemma fastString_raw: "fastString cs False raw = Some (raw', False, r) \<Longrightarrow> strEscaped cs raw = Some (raw', r)"
proof (induction cs arbitrary: raw)
  case (Cons c cs)
  from Cons.prems show ?case
  proof (cases rule: fastString_cases)
    case (plain d ds)
    with Cons.IH show ?thesis by simp
  next
    case (two e ds x)
    then show ?thesis using fastString_escaped by blast
  next
    case (four ds h)
    then show ?thesis using fastString_escaped by blast
  qed simp
qed simp

lemma strEscaped_shorter:
  assumes "utf8_Valid cs" "strEscaped cs [] = Some (v, r)"
  shows "string_run cs v r = (surrogates True cs = surrogates False r)" "utf8_Valid r" "length r < length cs"
proof -
  note a = fast_str_agrees [OF assms(1), of v r, unfolded fast_str_strEscaped, OF assms(2)]
  show "string_run cs v r = (surrogates True cs = surrogates False r)" "utf8_Valid r" "length r < length cs"
    using a decode_string_shorter [OF a(1)] by (simp_all add: string_run_def)
qed

lemma fastString_run:
  assumes "utf8_Valid cs" "fastString cs False [] = Some (raw, esc, r)"
  obtains v where "string_run cs v r" "\<not> esc \<Longrightarrow> v = raw" "utf8_Valid r" "length r < length cs"
proof -
  obtain v where v: "strEscaped cs [] = Some (v, r)" using fastString_reads [OF assms(2)] by blast
  note s = strEscaped_shorter [OF assms(1) v]
  have "v = raw" if "\<not> esc" using fastString_raw [of cs "[]" raw r] assms(2) that v by simp
  with that s fastString_surrogates [OF assms(2)] show ?thesis by blast
qed

lemma fastNumber_run:
  assumes "fastNumber s = Some r" "int (length s) \<le> rat_maxScale"
  obtains l where "decode_number s = Some (l, r)" "CheckNumber l = Inr ()"
proof -
  obtain sg s1 where sg: "(case s of c # cs \<Rightarrow> if c = CHR ''-'' then ([c], cs) else ([], s) | [] \<Rightarrow> ([], s)) = (sg, s1)" by fastforce
  with assms obtain ip s2 fp s3 ep where n: "number_int s1 = Some (ip, s2)" "number_frac s2 = Some (fp, s3)" "number_exp s3 = Some (ep, r)"
      "length ip \<le> 15 \<and> (fp \<noteq> [] \<longrightarrow> list_ex (\<lambda>c. c \<noteq> CHR ''0'') (tl fp)) \<and> ep = [] \<or> CheckNumber (sg @ ip @ fp @ ep) = Inr ()"
    by (auto simp: fastNumber_def Let_def split: option.splits prod.splits if_splits)
  have e: "numberEnd s = Some (sg @ ip @ fp @ ep, fp = [] \<and> ep = [], r)" using sg n by (simp add: numberEnd_def)
  note d = numberEnd_agrees [OF e]
  have "CheckNumber (sg @ ip @ fp @ ep) = Inr ()"
  proof (cases "CheckNumber (sg @ ip @ fp @ ep) = Inr ()")
    case False
    with n(4) have p: "length ip \<le> 15" "fp \<noteq> [] \<longrightarrow> list_ex (\<lambda>c. c \<noteq> CHR ''0'') (tl fp)" "ep = []" by blast+
    have i: "list_all is_digit ip" "ip \<noteq> []" by (rule number_int_shape [OF n(1)]; simp)+
    have s: "sg = [] \<or> sg = ''-''" using sg by (auto split: list.splits if_splits)
    show ?thesis
    proof (cases "fp = []")
      case True
      with plain_integer_ok [OF s i p(1)] p(3) show ?thesis by simp
    next
      case f: False
      with n(2) obtain ds where f2: "fp = CHR ''.'' # ds" "list_all is_digit ds"
        by (auto simp: number_frac_def split: list.splits if_splits prod.splits dest: digit_run_split)
      have "length ds \<le> length s" using decode_number_split(1) [OF d] f2(1) by simp
      with plain_fraction_ok [OF s i p(1) f2(2)] f p f2(1) assms(2) show ?thesis by simp
    qed
  qed
  with d that show ?thesis by blast
qed

lemma add_key_new:
  assumes "add_key keys seen key = Some (keys', seen')" "ks = (case seen of None \<Rightarrow> set keys | Some sn \<Rightarrow> sn)"
  shows "key \<notin> ks" "insert key ks = (case seen' of None \<Rightarrow> set keys' | Some sn \<Rightarrow> sn)"
  using assms by (auto simp: add_key_def Let_def split: if_splits option.splits)

definition short :: "string \<Rightarrow> bool" where
  "short s \<longleftrightarrow> int (length s) \<le> rat_maxScale"

lemma short_mono: "short s \<Longrightarrow> length r \<le> length s \<Longrightarrow> short r"
  by (simp add: short_def)

definition passed_run :: "(string \<Rightarrow> string \<Rightarrow> bool) \<Rightarrow> string \<Rightarrow> string \<Rightarrow> bool" where
  "passed_run run s r \<longleftrightarrow> run s r \<and> utf8_Valid r \<and> length r < length s"

lemma skipWS_Cons_Valid: "skipWS s = c # t \<Longrightarrow> utf8_Valid s \<Longrightarrow> short s \<Longrightarrow> utf8_Valid (c # t) \<and> short (c # t)"
  using Valid_skipWS [of s] skipWS_length [of s] by (auto simp: short_def)

lemma skipWS_ready: "skipWS s = c # t \<Longrightarrow> utf8_Valid s \<Longrightarrow> short s \<Longrightarrow> byte c < 128 \<Longrightarrow> utf8_Valid (skipWS t) \<and> short (skipWS t)"
  using Valid_skipWS_Cons [of s c t] skipWS_length [of s] skipWS_length [of t] by (auto simp: short_def intro: Valid_skipWS)

definition value_pass :: "nat \<Rightarrow> bool" where
  "value_pass n \<longleftrightarrow> (\<forall>d s r. utf8_Valid s \<longrightarrow> short s \<longrightarrow> fastValue n d s = Some r \<longrightarrow> passed_run value_run s r)"

definition array_pass :: "nat \<Rightarrow> bool" where
  "array_pass n \<longleftrightarrow> (\<forall>d s r. utf8_Valid s \<longrightarrow> short s \<longrightarrow> fastArray n d s = Some r \<longrightarrow> passed_run elems_run s r)"

definition object_pass :: "nat \<Rightarrow> bool" where
  "object_pass n \<longleftrightarrow> (\<forall>d s r keys seen. utf8_Valid s \<longrightarrow> short s \<longrightarrow> fastObject n d s keys seen = Some r \<longrightarrow>
     passed_run (members_run (case seen of None \<Rightarrow> set keys | Some sn \<Rightarrow> sn)) s r)"

lemma array_step:
  assumes "value_pass n" "array_pass n"
  shows "array_pass (Suc n)"
  unfolding array_pass_def
proof (intro allI impI)
  fix d s r assume s: "utf8_Valid s" "short s" and f: "fastArray (Suc n) d s = Some r"
  from f obtain r1 x r2 where e: "fastValue n d s = Some r1" "skipWS r1 = x # r2"
      "x = CHR '']'' \<and> r = r2 \<or> x = CHR '','' \<and> fastArray n d (skipWS r2) = Some r"
    by (auto split: option.splits list.splits if_splits)
  have v: "value_run s r1" "utf8_Valid r1" "length r1 < length s"
    using assms(1) s e(1) unfolding value_pass_def passed_run_def by blast+
  have r1: "short r1" using short_mono [OF s(2)] v(3) by simp
  have l: "length r2 < length r1" by (rule skipWS_Cons_shorter [OF e(2)])
  have x: "byte x < 128" using e(3) by auto
  note k = skipWS_ready [OF e(2) v(2) r1 x]
  from e(3) show "passed_run elems_run s r"
  proof
    assume "x = CHR '']'' \<and> r = r2"
    then show ?thesis using elem_run [OF v(1), of r] e(2) Valid_skipWS_Cons [OF e(2) v(2) x] v(3) l by (simp add: passed_run_def)
  next
    assume c: "x = CHR '','' \<and> fastArray n d (skipWS r2) = Some r"
    then have "elems_run (skipWS r2) r" "utf8_Valid r" "length r < length (skipWS r2)"
      using assms(2) k unfolding array_pass_def passed_run_def by blast+
    then show ?thesis using elem_run [OF v(1), of r r2] e(2) c v(3) l skipWS_length [of r2] by (simp add: passed_run_def)
  qed
qed

lemma object_step:
  assumes "value_pass n" "object_pass n"
  shows "object_pass (Suc n)"
  unfolding object_pass_def
proof (intro allI impI)
  fix d s r keys seen assume s: "utf8_Valid s" "short s" and f: "fastObject (Suc n) d s keys seen = Some r"
  obtain cs where cs: "s = quote # cs" using f by (cases s) (auto split: if_splits)
  obtain key r0 keys' seen' where k: "fastString cs False [] = Some (key, False, r0)" "add_key keys seen key = Some (keys', seen')"
    using f cs by (auto split: option.splits if_splits)
  obtain r1 where r1: "skipWS r0 = CHR '':'' # r1" using f cs k by (auto split: list.splits if_splits)
  note g = f [unfolded cs k r1 fastObject.simps list.case option.case prod.case, simplified]
  obtain r2 where r2: "fastValue n d (skipWS r1) = Some r2" using g k by (auto split: option.splits)
  obtain x r3 where e: "skipWS r2 = x # r3" "x = CHR ''}'' \<and> r = r3 \<or> x = CHR '','' \<and> fastObject n d (skipWS r3) keys' seen' = Some r"
    using g k r2 by (cases "skipWS r2") (auto split: if_splits)
  define ks where "ks = (case seen of None \<Rightarrow> set keys | Some sn \<Rightarrow> sn)"
  note new = add_key_new [OF k(2) ks_def]
  have vcs: "utf8_Valid cs" using s(1) cs by simp
  obtain v where v: "string_run cs v r0" "v = key" "utf8_Valid r0" "length r0 < length cs"
    by (rule fastString_run [OF vcs k(1)]) auto
  have st0: "string_run cs key r0" using v by simp
  have sh0: "short r0" using short_mono [OF s(2)] v(4) cs by simp
  note k1 = skipWS_ready [OF r1 v(3) sh0]
  have w: "value_run (skipWS r1) r2" "utf8_Valid r2" "length r2 < length (skipWS r1)"
    using assms(1) k1 r2 unfolding value_pass_def passed_run_def by fastforce+
  have l: "length r2 < length r0" "length r3 < length r2"
    using w(3) skipWS_length [of r1] skipWS_Cons_shorter [OF r1] skipWS_Cons_shorter [OF e(1)] by auto
  have sh2: "short r2" using short_mono [OF sh0] l(1) by simp
  have x: "byte x < 128" using e(2) by auto
  note k3 = skipWS_ready [OF e(1) w(2) sh2 x]
  from e(2) have "passed_run (members_run ks) s r"
  proof
    assume "x = CHR ''}'' \<and> r = r3"
    then show ?thesis using member_run [OF st0 r1 w(1) new(1), of r] e(1) Valid_skipWS_Cons [OF e(1) w(2) x] v(4) l cs by (simp add: passed_run_def)
  next
    assume c: "x = CHR '','' \<and> fastObject n d (skipWS r3) keys' seen' = Some r"
    then have "members_run (insert key ks) (skipWS r3) r" "utf8_Valid r" "length r < length (skipWS r3)"
      using assms(2) k3 unfolding object_pass_def passed_run_def new(2) by blast+
    then show ?thesis using member_run [OF st0 r1 w(1) new(1), of r r3] e(1) c v(4) l skipWS_length [of r3] cs by (simp add: passed_run_def)
  qed
  then show "passed_run (members_run (case seen of None \<Rightarrow> set keys | Some sn \<Rightarrow> sn)) s r" by (simp add: ks_def)
qed

lemma lit_pass:
  assumes "fastLit word s = Some r" "word \<in> {''true'', ''false'', ''null''}" "utf8_Valid s"
  shows "passed_run value_run s r"
proof -
  have s: "s = word @ r" using assms(1) append_take_drop_id [of "length word" s]
    by (auto simp: fastLit_def simp del: append_take_drop_id split: if_splits)
  have "list_all (\<lambda>c. byte c < 128) word" using assms(2) by auto
  with assms(3) s have "utf8_Valid r" using Valid_ascii_append by blast
  moreover have "word \<noteq> []" using assms(2) by auto
  ultimately show ?thesis using lit_run [OF assms(2)] s by (simp add: passed_run_def)
qed

lemma value_step:
  assumes "array_pass n" "object_pass n"
  shows "value_pass (Suc n)"
  unfolding value_pass_def
proof (intro allI impI)
  fix d s r assume s: "utf8_Valid s" "short s" and f: "fastValue (Suc n) d s = Some r"
  then obtain c cs where c: "s = c # cs" by (cases s) auto
  have "c = CHR ''{'' \<or> c = CHR ''['' \<or> c = quote \<or> (c = CHR ''-'' \<or> is_digit c) \<or> c = CHR ''t'' \<or> c = CHR ''f'' \<or> c = CHR ''n''"
    by (rule ccontr) (use f c in simp)
  then consider (obj) "c = CHR ''{''" | (arr) "c = CHR ''[''" | (str) "c = quote" | (num) "c = CHR ''-'' \<or> is_digit c"
    | (t) "c = CHR ''t''" | (f) "c = CHR ''f''" | (n) "c = CHR ''n''" by argo
  then show "passed_run value_run s r"
  proof cases
    case obj
    with f c obtain x r1 where w: "skipWS cs = x # r1" by (cases "skipWS cs") (auto split: if_splits)
    have cs: "utf8_Valid cs" "short cs" using s c obj by (simp_all add: short_def)
    note k = skipWS_Cons_Valid [OF w cs]
    have l: "length (x # r1) < length s" using skipWS_length [of cs] w c by simp
    show ?thesis
    proof (cases "x = CHR ''}''")
      case True
      with f c obj w have "r = r1" by (auto split: if_splits)
      with True w k l object_run [of cs r] c obj show ?thesis by (simp add: passed_run_def)
    next
      case False
      with f c obj w have "fastObject n (d + 1) (x # r1) [] None = Some r" by (auto split: if_splits)
      with assms(2) k have "passed_run (members_run (case None of None \<Rightarrow> set [] | Some sn \<Rightarrow> sn)) (x # r1) r" unfolding object_pass_def by blast
      then have "members_run {} (skipWS cs) r" "utf8_Valid r" "length r < length (x # r1)" by (simp_all add: passed_run_def w)
      with l object_run [of cs r] c obj show ?thesis by (simp add: passed_run_def)
    qed
  next
    case arr
    with f c obtain x r1 where w: "skipWS cs = x # r1" by (cases "skipWS cs") (auto split: if_splits)
    have cs: "utf8_Valid cs" "short cs" using s c arr by (simp_all add: short_def)
    note k = skipWS_Cons_Valid [OF w cs]
    have l: "length (x # r1) < length s" using skipWS_length [of cs] w c by simp
    show ?thesis
    proof (cases "x = CHR '']''")
      case True
      with f c arr w have "r = r1" by (auto split: if_splits)
      with True w k l array_run [of cs r] c arr show ?thesis by (simp add: passed_run_def)
    next
      case False
      with f c arr w have "fastArray n (d + 1) (x # r1) = Some r" by (auto split: if_splits)
      with assms(1) k have "elems_run (skipWS cs) r" "utf8_Valid r" "length r < length (x # r1)"
        unfolding array_pass_def passed_run_def w by blast+
      with l array_run [of cs r] c arr show ?thesis by (simp add: passed_run_def)
    qed
  next
    case str
    with f c obtain raw esc where g: "fastString cs False [] = Some (raw, esc, r)" by auto
    have "utf8_Valid cs" using s(1) c str by simp
    from fastString_run [OF this g] obtain v where "string_run cs v r" "utf8_Valid r" "length r < length cs" by blast
    then show ?thesis using string_value_run [of cs v r] c str by (simp add: passed_run_def)
  next
    case num
    then have nc: "c \<noteq> CHR ''{''" "c \<noteq> CHR ''[''" "c \<noteq> quote" by (auto simp: is_digit_def)
    with num f c have g: "fastNumber s = Some r" by simp
    obtain l where l: "decode_number s = Some (l, r)" "CheckNumber l = Inr ()"
      using fastNumber_run [OF g] s(2) unfolding short_def by blast
    then show ?thesis using number_run [OF l] decode_number_split(3) [OF l(1)] decode_number_shorter [OF l(1)] s(1) by (simp add: passed_run_def)
  next
    case t
    then have "fastLit ''true'' s = Some r" using f c by (simp add: is_digit_def)
    from lit_pass [OF this _ s(1)] show ?thesis by simp
  next
    case f
    then have "fastLit ''false'' s = Some r" using \<open>fastValue (Suc n) d s = Some r\<close> c by (simp add: is_digit_def)
    from lit_pass [OF this _ s(1)] show ?thesis by simp
  next
    case n
    then have "fastLit ''null'' s = Some r" using f c by (simp add: is_digit_def)
    from lit_pass [OF this _ s(1)] show ?thesis by simp
  qed
qed

lemma all_pass: "value_pass n \<and> array_pass n \<and> object_pass n"
proof (induction n)
  case 0
  show ?case by (simp add: value_pass_def array_pass_def object_pass_def)
qed (simp add: value_step array_step object_step)

lemma checkFast_agrees:
  assumes "length data \<le> 1000000" "checkFast data"
  shows "checkTokens data = Inr ()"
proof -
  from assms(2) obtain r where r: "utf8_Valid data" "fastValue (Suc (2 * length data)) 0 (skipWS data) = Some r" "skipWS r = []"
    by (auto simp: checkFast_def simp del: fastValue.simps split: option.splits)
  have "short (skipWS data)" using assms(1) skipWS_length [of data] by (simp add: short_def rat_maxScale_def)
  with all_pass r(2) Valid_skipWS [OF r(1)] have "value_run (skipWS data) r" unfolding value_pass_def passed_run_def by blast
  from runs_pass [OF r(1) this r(3)] show ?thesis .
qed

end
