(* ===== verification/Ijson_Canonical.thy ===== *)
theory Ijson_Canonical
  imports Ijson_Agree
begin

text \<open>
  The canonical form of a document passes the test of I-JSON: its names are distinct, its strings hold no
  surrogate escape, and its numbers are what the canonical form writes for doubles.  The end has the one kind of
  document on which the two tests differ.
\<close>

section \<open>The canonical form passes\<close>

lemma surrogates_escape_char: "surrogates True (escape_char c @ t) = surrogates True t"
proof (cases "byte c < 128")
  case True
  then show ?thesis
  proof (cases rule: escape_cases)
    case (two e)
    then show ?thesis using unescape_not_u [of e c] by simp
  next
    case control
    from control(1) have "\<not> IsSurrogate (byte c)" by (simp add: IsSurrogate_def)
    with control surrogates_u [OF hex4_control [of "byte c" t]] show ?thesis by (simp del: surrogates.simps)
  next
    case plain
    then show ?thesis by (simp add: plain_byte_def)
  qed
next
  case False
  then have "c \<noteq> quote" "c \<noteq> bslash" by auto
  with False show ?thesis by (simp add: escape_high)
qed

lemma surrogates_escape: "surrogates True (concat (map escape_char s) @ t) = surrogates True t"
  by (induction s) (simp_all add: surrogates_escape_char)

lemma written_string_run: "utf8_Valid s \<Longrightarrow> string_run (concat (map escape_char s) @ quote # r) s r"
  by (simp add: string_run_def decode_string_back surrogates_escape)

lemma hexDigits_ascii: "n < 16 \<Longrightarrow> byte (hexDigits n) < 128"
  by (auto simp: hexDigits_def)

lemma escape_ascii:
  assumes "byte c < 128"
  shows "list_all (\<lambda>c. byte c < 128) (escape_char c)"
  using assms
proof (cases rule: escape_cases)
  case (two e)
  then show ?thesis using unescape_Some [of e c] by simp
next
  case control
  then show ?thesis using hexDigits_ascii [of "byte c div 16"] hexDigits_ascii [of "byte c mod 16"] by simp
qed (use assms in simp)

lemma Valid_escape: "utf8_Valid s \<Longrightarrow> utf8_Valid (concat (map escape_char s))"
proof (induction s rule: Valid_induct)
  case (Rune r s)
  show ?case
  proof (cases "r < 128")
    case True
    then show ?thesis using Rune(3) Valid_ascii_append [OF escape_ascii [of "char_of r"]] by simp
  next
    case False
    then show ?thesis using Rune by (simp add: escape_AppendRune)
  qed
qed simp

lemma Valid_appendString: "utf8_Valid s \<Longrightarrow> utf8_Valid (appendString s)"
  using Valid_append [OF Valid_escape [of s]] by (simp add: appendString_def)

definition passes :: "string \<Rightarrow> bool" where
  "passes w \<longleftrightarrow> starts_value w \<and> utf8_Valid w \<and> (\<forall>rest. value_end rest \<longrightarrow> value_run (w @ rest) rest)"

lemma passesD: "passes w \<Longrightarrow> value_end rest \<Longrightarrow> value_run (w @ rest) rest" "passes w \<Longrightarrow> skipWS (w @ t) = w @ t" "passes w \<Longrightarrow> utf8_Valid w"
  by (simp_all add: passes_def starts_skipWS)

lemma Valid_join: "list_all utf8_Valid ws \<Longrightarrow> utf8_Valid (join_comma ws)"
  by (induction ws rule: join_comma.induct) (simp_all add: Valid_append)

lemma written_elems_run: "list_all passes ws \<Longrightarrow> ws \<noteq> [] \<Longrightarrow> elems_run (join_comma ws @ CHR '']'' # rest) rest"
proof (induction ws rule: join_comma.induct)
  case (2 w)
  then have "value_run (w @ CHR '']'' # rest) (CHR '']'' # rest)" by (simp add: passesD)
  from elem_run [OF this, of rest] show ?case by (simp add: is_ws_def)
next
  case (3 w w' ws)
  let ?t = "join_comma (w' # ws) @ CHR '']'' # rest"
  have "value_run (w @ CHR '','' # ?t) (CHR '','' # ?t)" using 3(2) by (simp add: passesD)
  moreover have "elems_run ?t rest" using 3 by simp
  moreover obtain u where "?t = w' @ u" by (cases ws) auto
  then have "skipWS ?t = ?t" using 3(2) by (simp add: passesD)
  ultimately show ?case using elem_run [of "w @ CHR '','' # ?t" "CHR '','' # ?t" rest ?t] by (simp add: is_ws_def)
qed simp

lemma written_members_run:
  assumes "list_all (\<lambda>kw. utf8_Valid (fst kw) \<and> passes (snd kw)) kws" "kws \<noteq> []" "distinct (map fst kws)" "fst ` set kws \<inter> ks = {}"
  shows "members_run ks (join_comma (map member_text kws) @ CHR ''}'' # rest) rest"
  using assms
proof (induction kws arbitrary: ks rule: induct_list012)
  case (2 kw)
  obtain k w where kw: "kw = (k, w)" by fastforce
  have p: "utf8_Valid k" "passes w" "k \<notin> ks" using 2 kw by auto
  have v: "value_run (skipWS (w @ CHR ''}'' # rest)) (CHR ''}'' # rest)" using p by (simp add: passesD)
  have s: "skipWS (CHR '':'' # w @ CHR ''}'' # rest) = CHR '':'' # w @ CHR ''}'' # rest" by (simp add: is_ws_def)
  from member_run [OF written_string_run [OF p(1)] s v p(3), of rest] kw show ?case by (simp add: is_ws_def appendString_def)
next
  case (3 kw kw' kws)
  obtain k w where kw: "kw = (k, w)" by fastforce
  let ?t = "join_comma (map member_text (kw' # kws)) @ CHR ''}'' # rest"
  have p: "utf8_Valid k" "passes w" "k \<notin> ks" using 3(3,6) kw by auto
  have v: "value_run (skipWS (w @ CHR '','' # ?t)) (CHR '','' # ?t)" using p by (simp add: passesD)
  have s: "skipWS (CHR '':'' # w @ CHR '','' # ?t) = CHR '':'' # w @ CHR '','' # ?t" by (simp add: is_ws_def)
  have m: "members_run (insert k ks) ?t rest" using 3(2) [of "insert k ks"] 3(3-6) kw by auto
  have sk: "skipWS ?t = ?t" by (cases kws) (simp_all add: appendString_def is_ws_def)
  from member_run [OF written_string_run [OF p(1)] s v p(3), of rest ?t] m sk kw show ?case by (simp add: is_ws_def appendString_def)
qed simp

lemma array_passes:
  assumes "list_all passes ws"
  shows "passes (CHR ''['' # join_comma ws @ '']'')"
proof -
  have "list_all utf8_Valid ws" using assms by (auto simp: list_all_iff passes_def)
  then have "utf8_Valid (CHR ''['' # join_comma ws @ '']'')" using Valid_append [OF Valid_join [of ws]] by simp
  moreover have "value_run (CHR ''['' # join_comma ws @ CHR '']'' # rest) rest" for rest
  proof (rule array_run, cases ws)
    case (Cons w ws')
    obtain u where "join_comma ws = w @ u" using Cons by (cases ws') auto
    moreover have "passes w" using assms Cons by simp
    ultimately have "skipWS (join_comma ws @ CHR '']'' # rest) = join_comma ws @ CHR '']'' # rest" by (simp add: passesD)
    with written_elems_run [OF assms, of rest] Cons
    show "skipWS (join_comma ws @ CHR '']'' # rest) = CHR '']'' # rest \<or> elems_run (skipWS (join_comma ws @ CHR '']'' # rest)) rest" by simp
  qed (simp add: is_ws_def)
  ultimately show ?thesis by (simp add: passes_def is_ws_def)
qed

lemma object_passes:
  assumes "list_all (\<lambda>kw. utf8_Valid (fst kw) \<and> passes (snd kw)) kws" "distinct (map fst kws)"
  shows "passes (CHR ''{'' # join_comma (map member_text kws) @ ''}'')"
proof -
  have "utf8_Valid (member_text kw)" if "kw \<in> set kws" for kw
    using assms(1) that Valid_append [OF Valid_appendString [of "fst kw"]] by (auto simp: list_all_iff passes_def)
  then have "list_all utf8_Valid (map member_text kws)" by (auto simp: list_all_iff)
  then have "utf8_Valid (CHR ''{'' # join_comma (map member_text kws) @ ''}'')" using Valid_append [OF Valid_join] by simp
  moreover have "value_run (CHR ''{'' # join_comma (map member_text kws) @ CHR ''}'' # rest) rest" for rest
  proof (rule object_run, cases kws)
    case (Cons kw kws')
    have "skipWS (join_comma (map member_text kws) @ CHR ''}'' # rest) = join_comma (map member_text kws) @ CHR ''}'' # rest"
      using Cons by (cases kws') (simp_all add: appendString_def is_ws_def)
    with written_members_run [OF assms(1) _ assms(2), of "{}" rest] Cons
    show "skipWS (join_comma (map member_text kws) @ CHR ''}'' # rest) = CHR ''}'' # rest \<or>
      members_run {} (skipWS (join_comma (map member_text kws) @ CHR ''}'' # rest)) rest" by simp
  qed (simp add: is_ws_def)
  ultimately show ?thesis by (simp add: passes_def is_ws_def)
qed

lemma number_passes:
  assumes "json_write (JNumber x) = Inr w"
  shows "passes w"
proof -
  obtain f where f: "ParseFloat x = Inr f" "FormatNumber (Finite f) = Inr w" using assms by (auto simp: bind_res_Inr)
  then have r: "round_double f = Some f" by (auto simp: ParseFloat_def split: option.splits dest: round_double_idem)
  note b = written_number_back [OF f(2) r] and c = CheckNumber_written [OF r f(2)]
  have "value_run (w @ rest) rest" if "value_end rest" for rest by (rule number_run [OF b(1) [OF that] c])
  moreover have "starts_value w" using number_back [OF assms, of 0] by (simp add: reads_back_def)
  moreover have "utf8_Valid w" using decode_number_split(3) [of w w "[]"] b(1) [of "[]"] by simp
  ultimately show ?thesis by (simp add: passes_def)
qed

lemma written_passes: "json_ok d v \<Longrightarrow> json_write v = Inr w \<Longrightarrow> passes w"
proof (induction d v arbitrary: w rule: json_ok.induct)
  case (1 d s)
  then have "w = appendString s" "utf8_Valid s" using writeString_appendString [of s] by simp_all
  moreover have "value_run (appendString s @ rest) rest" if "utf8_Valid s" for rest
    using string_value_run [OF written_string_run [OF that, of rest]] by (simp add: appendString_def)
  moreover have "starts_value (appendString s)" by (simp add: appendString_def is_ws_def)
  ultimately show ?case by (simp add: passes_def Valid_appendString)
next
  case (2 d vs)
  from 2(3) obtain ws where ws: "list_all2 (\<lambda>v w. json_write v = Inr w) vs ws" "w = CHR ''['' # join_comma ws @ '']''"
    by (rule write_elems)
  have "passes (ws ! i)" if "i < length ws" for i
    using that 2(1) [of "vs ! i" "ws ! i"] 2(2) list_all2_nthD2 [OF ws(1) that] list_all2_lengthD [OF ws(1)] by simp
  then have "list_all passes ws" by (simp add: list_all_length)
  then show ?case using array_passes ws(2) by simp
next
  case (3 d kvs)
  have a: "distinct (map fst kvs)" "list_all (utf8_Valid \<circ> fst) kvs" using 3(2) by (simp_all add: list_all_iff)
  obtain skvs kws where s: "mset skvs = mset kvs" "list_all2 (\<lambda>kv kw. fst kv = fst kw \<and> json_write (snd kv) = Inr (snd kw)) skvs kws"
    "w = CHR ''{'' # join_comma (map member_text kws) @ ''}''"
    by (rule write_members [OF 3(3) a])
  have st: "set skvs = set kvs" by (rule mset_eq_setD [OF s(1)])
  have "distinct (map fst skvs)" using a(1) mset_eq_imp_distinct_iff [of "map fst skvs" "map fst kvs"] s(1) by simp
  moreover have "map fst kws = map fst skvs" using s(2) by (induction rule: list_all2_induct) auto
  ultimately have d: "distinct (map fst kws)" by simp
  have "utf8_Valid (fst kw) \<and> passes (snd kw)" if "kw \<in> set kws" for kw
  proof -
    obtain i where i: "i < length kws" "kw = kws ! i" using \<open>kw \<in> set kws\<close> by (auto simp: in_set_conv_nth)
    with s(2) have k: "fst (skvs ! i) = fst kw" "json_write (snd (skvs ! i)) = Inr (snd kw)" "skvs ! i \<in> set kvs"
      unfolding st [symmetric] by (auto simp: list_all2_conv_all_nth)
    with 3(1) [OF k(3) _ k(2)] 3(2) show ?thesis by auto
  qed
  then show ?case using object_passes [OF _ d] s(3) by (simp add: list_all_iff)
next
  case (4 d)
  then show ?case using lit_run [of "''null''"] by (auto simp: passes_def is_ws_def)
next
  case (5 d b)
  then show ?case using lit_run [of "''true''"] lit_run [of "''false''"] by (auto simp: passes_def is_ws_def)
next
  case (6 d x)
  show ?case by (rule number_passes [OF 6(2)])
qed

lemma Transform_passes:
  assumes "Transform data = Inr out"
  shows "checkTokens out = Inr ()"
proof -
  from assms obtain v r where v: "decode_value (Suc (2 * length data)) 0 (skipWS data) = Some (v, r)" "json_write v = Inr out"
    by (auto simp: Transform_decoded transformDecoded_def simp del: decode_value.simps split: option.splits if_splits)
  have p: "passes out" by (rule written_passes [OF decode_ok [OF v(1)] v(2)])
  then show ?thesis using runs_pass [of out "[]"] passesD(1) [OF p, of "[]"] passesD(2) [OF p, of "[]"] passesD(3) [OF p] by (simp add: skipWS_def)
qed

text \<open>
  The scale of a fraction counts its digits, so that one of more than a million digits has no value in
  \<open>big.Rat\<close>; the byte-level test passes it by its shape.
\<close>

lemma long_fraction:
  assumes "1000000 \<le> n"
  shows "CheckNumber (CHR ''0'' # CHR ''.'' # replicate n (CHR ''0'') @ ''1'') \<noteq> Inr ()"
    "fastNumber (CHR ''0'' # CHR ''.'' # replicate n (CHR ''0'') @ ''1'') = Some []"
proof -
  let ?f = "replicate n (CHR ''0'') @ ''1''"
  have f: "list_all is_digit ?f" "is_digit (CHR ''1'')" by (simp_all add: is_digit_def)
  have "magnitude (''0'' @ CHR ''.'' # ?f) = of_nat (dec_nat (''0'' @ ?f)) * 10 powi - int (length ?f)"
    by (rule magnitude_frac) (use f in simp_all)
  moreover have "dec_nat (''0'' @ ?f) = 1" by (simp only: dec_nat_leading) (simp add: dec_nat_append)
  ultimately have v: "lit_value (CHR ''0'' # CHR ''.'' # ?f) \<noteq> 0" by (simp add: lit_value_def)
  have "scale_of (CHR ''0'' # CHR ''.'' # ?f) = (0, int (length ?f))"
    using scale_digits [of "''0''" "CHR ''.'' # ?f"] scale_simps(2) [OF f(1)] by simp
  with v assms have "SetString (CHR ''0'' # CHR ''.'' # ?f) = None" by (simp add: SetString_def unsigned_def rat_maxScale_def)
  then show "CheckNumber (CHR ''0'' # CHR ''.'' # ?f) \<noteq> Inr ()" by (simp add: CheckNumber_def)
  have "digit_run ?f = (?f, [])" using digit_run_append [OF f(1), of "[]"] by (simp add: no_digit_def)
  then show "fastNumber (CHR ''0'' # CHR ''.'' # ?f) = Some []"
    by (simp add: fastNumber_def number_int_def number_frac_def number_exp_def)
qed

lemma long_fraction_differs:
  assumes "1000000 \<le> n" "data = CHR ''0'' # CHR ''.'' # replicate n (CHR ''0'') @ ''1''"
  shows "checkFast data" "checkTokens data \<noteq> Inr ()"
proof -
  note f = long_fraction [OF assms(1), folded assms(2)]
  have a: "list_all (\<lambda>c. byte c < 128) data" by (simp add: assms(2) list_all_iff)
  then have v: "utf8_Valid data" using Valid_ascii_append [of data "[]"] by simp
  have sk: "skipWS data = data" by (simp add: assms(2) is_ws_def)
  have "fastValue (Suc k) 0 data = fastNumber data" for k by (simp add: assms(2))
  with f(2) v sk show "checkFast data" by (simp add: checkFast_def skipWS_def del: fastValue.simps)
  have d: "decode_number data = Some (data, [])"
  proof -
    have "frac_part (CHR ''.'' # replicate n (CHR ''0'') @ ''1'')" by (auto simp: frac_part_def is_digit_def)
    from decode_number_back [of "[]" "''0''", OF _ _ this, of "[]" "[]"] show ?thesis
      by (simp add: assms(2) int_part_def exp_part_def)
  qed
  obtain cs where cs: "data = CHR ''0'' # cs" using assms(2) by simp
  then have "scalar_token (CHR ''0'' # cs) = Some (TNumber data, [])" using d by (simp add: scalar_token_def)
  then have "dec_Token data TopValue [] = Inr (Some (TNumber data, at_state [] TopValue []))"
    using sk unfolding cs by (simp add: dec_Token.simps [of "CHR ''0'' # cs"] tokenValueAllowed_def tokenValueEnd_def)
  with f(1) have "token_loop data TopValue [] [] \<noteq> Inr ()" by (simp add: token_loop.simps [of data] split: sum.splits)
  then show "checkTokens data \<noteq> Inr ()" using v by (cases "checkSurrogates data") (simp_all add: checkTokens_def)
qed

end
