(* ===== verification/Json_Properties.thy ===== *)
theory Json_Properties
  imports Ijson_Canonical
begin

text \<open>
  The properties of the canonical form and of the test of I-JSON, over \<open>internal/jcs\<close> and \<open>internal/ijson\<close>
  together: hashes are taken over canonical forms, so that two paths that disagreed would hash one document
  two ways.
\<close>

section \<open>Examples\<close>

text \<open>A small document with its members out of order and its canonical form.\<close>

definition sample :: string where
  "sample = ''{'' @ [quote] @ ''b'' @ [quote] @ '':[-7, true], '' @ [quote] @ ''a'' @ [quote] @ '':null}''"

definition sample_form :: string where
  "sample_form = ''{'' @ [quote] @ ''a'' @ [quote] @ '':null,'' @ [quote] @ ''b'' @ [quote] @ '':[-7,true]}''"

lemma sample_fast: "transformFast sample = Some sample_form"
  by code_simp

lemma sample_Transform: "Transform sample = Inr sample_form"
  by (simp add: Transform_def sample_fast)

lemma sample_form_fast: "checkFast sample_form"
  by code_simp

lemma sample_form_passes: "checkTokens sample_form = Inr ()"
  by (rule Transform_passes [OF sample_Transform])

section \<open>The canonical form\<close>

text \<open>
  C11: the two implementations of the canonical form agree.  Where the byte-level walk of \<open>fast.go\<close>
  answers for a document, with its members reordered by name, the decoding path of \<open>jcs.go\<close> answers with the same
  bytes.  Which of the two \<open>Transform\<close> takes therefore does not matter: on every document, and in every error, it
  returns what the decoding path returns.
\<close>

theorem transform_paths_agree:
  "Transform data = transformDecoded data \<and> (transformFast data = Some out \<longrightarrow> transformDecoded data = Inr out)"
  using Transform_decoded transformFast_agrees by blast

theorem transform_paths_agree_witness:
  "transformFast sample = Some sample_form \<and> transformDecoded sample = Inr sample_form \<and> Transform sample = transformDecoded sample"
  using transform_paths_agree [of sample sample_form] sample_fast by simp

text \<open>
  C15: the canonical form of a canonical form is itself.  Whatever \<open>Transform\<close> writes, it reads back as one
  document whose canonical form is the same bytes: the strings with their escapes, the numbers in their shortest
  digits, the members in their order.  A hash taken over a canonical form is stable under a rewrite.
\<close>

theorem canonical_form_fixed:
  assumes "Transform data = Inr out"
  shows "Transform out = Inr out"
  using transformDecoded_idem [of data out] assms by (simp add: Transform_decoded)

theorem canonical_form_fixed_witness:
  "Transform sample = Inr sample_form \<and> Transform sample_form = Inr sample_form"
  using canonical_form_fixed [OF sample_Transform] sample_Transform by simp

text \<open>
  C39: a double is written and read back without loss.  For every finite double \<open>FormatNumber\<close> writes a literal
  that \<open>ParseFloat\<close> reads as that double, that \<open>big.Rat\<close> holds, and that the rule for numbers admits, as
  its canonical rendering where it is a whole number no double holds.  What is not finite is refused.
\<close>

theorem number_form_reads_back:
  assumes "round_double f = Some f"
  shows "\<exists>lit. FormatNumber (Finite f) = Inr lit \<and> ParseFloat lit = Inr f \<and> SetString lit = Some (lit_value lit) \<and>
    CheckNumber lit = Inr () \<and> (\<exists>e. FormatNumber NaN = Inl e) \<and> (\<exists>e. FormatNumber (Inf neg) = Inl e)"
proof -
  obtain lit where "FormatNumber (Finite f) = Inr lit" "ParseFloat lit = Inr f" using FormatNumber_back [OF assms] by blast
  then show ?thesis using SetString_written [OF assms] CheckNumber_written [OF assms] by (auto simp: FormatNumber_def)
qed

theorem number_form_reads_back_witness:
  "round_double 7 = Some 7 \<and> (\<exists>lit. FormatNumber (Finite 7) = Inr lit \<and> ParseFloat lit = Inr 7)"
proof -
  have "round_double 7 = Some 7" using round_double_nat [of 7] by simp
  with number_form_reads_back [OF this] show ?thesis by blast
qed

section \<open>The test of I-JSON\<close>

text \<open>
  C24: a canonical form passes the test of I-JSON.  Whatever document \<open>Transform\<close> accepts, even one that
  repeats a member name, holds a lone surrogate or a whole number beyond the doubles, \<open>Check\<close> finds nothing wrong
  with the form it writes: a canonical rewrite cannot fail the test.
\<close>

theorem canonical_form_is_IJSON:
  assumes "Transform data = Inr out"
  shows "Check out = Inr ()"
  using Transform_passes [OF assms] by (simp add: Check_def)

theorem canonical_form_is_IJSON_witness:
  "Transform sample = Inr sample_form \<and> Check sample_form = Inr ()"
  using canonical_form_is_IJSON [OF sample_Transform] sample_Transform by simp

text \<open>
  C26: the byte-level test answers yes only for documents the token loop passes, up to a million bytes: valid
  UTF-8, no lone surrogate, no member name repeated at any depth, and numbers the rule admits.  The bound is
  that of \<open>big.Rat\<close> on the digits of a fraction.
\<close>

theorem check_paths_agree:
  assumes "length data \<le> 1000000" "checkFast data"
  shows "checkTokens data = Inr () \<and> Check data = Inr ()"
  using checkFast_agrees [OF assms] by (simp add: Check_def)

theorem check_paths_agree_witness:
  "length sample_form \<le> 1000000 \<and> checkFast sample_form \<and> checkTokens sample_form = Inr ()"
proof -
  have "length sample_form \<le> 1000000" by (simp add: sample_form_def)
  with check_paths_agree [OF this sample_form_fast] sample_form_fast show ?thesis by blast
qed

section \<open>Where the code and its comments differ\<close>

text \<open>
  A closing bracket or brace after the document hides whatever follows it from the decoding path: the decoder
  says that no value is left where the next byte closes an array or an object.
\<close>

lemma trailing_bracket_accepted:
  assumes "Transform data = Inr out"
  shows "Transform (out @ CHR '']'' # rest) = Inr out"
proof -
  from assms obtain v r where v: "decode_value (Suc (2 * length data)) 0 (skipWS data) = Some (v, r)" "json_write v = Inr out"
    by (auto simp: Transform_decoded transformDecoded_def simp del: decode_value.simps split: option.splits if_splits)
  have b: "reads_back 0 out" by (rule written_back [OF decode_ok [OF v(1)] v(2)])
  let ?s = "out @ CHR '']'' # rest"
  obtain n v' where n: "decode_value n 0 ?s = Some (v', CHR '']'' # rest)" "json_write v' = Inr out" by (rule reads_backD [OF b, of "CHR '']'' # rest"]) simp
  have "skipWS ?s = ?s" using b starts_skipWS by (simp add: reads_back_def)
  with decode_fuel [OF n(1), of "Suc (2 * length ?s)"] n(2) show ?thesis
    by (simp add: Transform_decoded transformDecoded_def dec_More_def is_ws_def del: decode_value.simps)
qed

text \<open>A fraction of more than a million digits passes the byte-level test and fails the token loop.\<close>

lemma long_fraction_passes:
  assumes "1000000 \<le> n" "data = CHR ''0'' # CHR ''.'' # replicate n (CHR ''0'') @ ''1''"
  shows "Check data = Inr ()" "checkTokens data \<noteq> Inr ()"
  using long_fraction_differs [OF assms] by (simp_all add: Check_def)

end
