(* ===== verification/Cost.thy ===== *)
theory Cost
  imports Session_Tree
begin

text \<open>
  What a path cost, and the work it delegated (\<open>cost.go\<close>).  \<open>ModelCalls\<close> lists the model calls a path records,
  each at the model in force.  \<open>DelegatedWork\<close> follows the subsession links of the path into other sessions,
  and theirs, until no session gains a leaf: the loop of the code with its maps as one record, the sessions
  registered kept in the order of their registration.  The reader of sessions is an argument, and so is the
  decoding of the data of a custom entry.
\<close>

section \<open>Model calls\<close>

record model_call =
  mc_Entry :: entry
  mc_Model :: string
  mc_Usage :: "json option"
  mc_Calls :: int

text \<open>
  What \<open>json.Unmarshal\<close> finds in the data of a custom entry: its usage and model, or its usage and raw attempts;
  \<open>None\<close> is an error.
\<close>

record payload =
  pl_usage :: "json \<Rightarrow> (json option \<times> string) option"
  pl_attempts :: "json \<Rightarrow> (json option \<times> json) option"

definition response_Calls :: "response_entry \<Rightarrow> int" where
  "response_Calls e = max (rp_Attempts e) 1"

text \<open>\<open>strconv.Atoi\<close> of a text that starts with a digit: digits only, within 64 bits.\<close>

definition positiveInt :: "json \<Rightarrow> int option" where
  "positiveInt raw =
     (if raw = [] \<or> hd raw < CHR ''1'' \<or> CHR ''9'' < hd raw then None
      else case digits_val raw 0 of Some n \<Rightarrow> if n < 2 ^ 63 then Some (int n) else None | None \<Rightarrow> None)"

definition custom_Calls :: "payload \<Rightarrow> custom_entry \<Rightarrow> int" where
  "custom_Calls pl e =
     (case pl_attempts pl (cu_Data e) of
        Some (Some u, attempts) \<Rightarrow> (case positiveInt attempts of Some n \<Rightarrow> n | None \<Rightarrow> 1)
      | _ \<Rightarrow> 0)"

definition modelCallOf :: "payload \<Rightarrow> entry \<Rightarrow> string \<Rightarrow> model_call option" where
  "modelCallOf pl e inForce =
     (case e of
        ResponseEntry v \<Rightarrow>
          Some \<lparr>mc_Entry = e, mc_Model = (if rp_Model v \<noteq> [] then rp_Model v else inForce), mc_Usage = rp_Usage v,
            mc_Calls = response_Calls v\<rparr>
      | CompactionEntry v \<Rightarrow> Some \<lparr>mc_Entry = e, mc_Model = s_Model (cp_Config v), mc_Usage = cp_Usage v, mc_Calls = 1\<rparr>
      | BranchSummaryEntry v \<Rightarrow> Some \<lparr>mc_Entry = e, mc_Model = inForce, mc_Usage = bs_Usage v, mc_Calls = 1\<rparr>
      | CustomEntry v \<Rightarrow>
          (case pl_usage pl (cu_Data v) of
             Some (Some u, m) \<Rightarrow>
               Some \<lparr>mc_Entry = e, mc_Model = (if m \<noteq> [] then m else inForce), mc_Usage = Some u, mc_Calls = custom_Calls pl v\<rparr>
           | _ \<Rightarrow> None)
      | _ \<Rightarrow> None)"

text \<open>The model in force after an entry, and the loop over the path.\<close>

definition in_force :: "entry \<Rightarrow> string \<Rightarrow> string" where
  "in_force e model =
     (case e of
        ConfigEntry v \<Rightarrow> if c_Model v \<noteq> [] then c_Model v else if c_Replace v then [] else model
      | CompactionEntry v \<Rightarrow> s_Model (cp_Config v)
      | _ \<Rightarrow> model)"

fun model_calls_from :: "payload \<Rightarrow> string \<Rightarrow> entry list \<Rightarrow> model_call list" where
  "model_calls_from pl model [] = []"
| "model_calls_from pl model (e # es) =
     (let model' = in_force e model
      in (case modelCallOf pl e model' of Some c \<Rightarrow> [c] | None \<Rightarrow> []) @ model_calls_from pl model' es)"

definition ModelCalls :: "payload \<Rightarrow> entry list \<Rightarrow> model_call list" where
  "ModelCalls pl p = model_calls_from pl [] p"

section \<open>Delegated work\<close>

record delegated_leaf =
  dl_Entry :: eid
  dl_Named :: bool

datatype delegated =
  Delegated (dg_Link: link_entry) (dg_Session: string) (dg_Leaves: "delegated_leaf list")
    (dg_Calls: "model_call list") (dg_Children: "delegated list")

record unread =
  ur_Link :: link_entry
  ur_Session :: string
  ur_Err :: error

text \<open>A session registered: what is known of it, the session that named it first, and how many of its leaves were read.\<close>

record node =
  nd_Link :: link_entry
  nd_Leaves :: "delegated_leaf list"
  nd_session :: session
  nd_parent :: string
  nd_scanned :: nat

record work =
  wk_nodes :: "(string \<times> node) list"
  wk_failed :: "string set"
  wk_missing :: "(string \<times> eid) set"
  wk_unread :: "unread list"

definition subsession_link :: "entry \<Rightarrow> link_entry option" where
  "subsession_link e =
     (case e of
        LinkEntry l \<Rightarrow> if ln_Rel l = RelSubsession \<and> ln_Cancel l = [] \<and> ln_Session l \<noteq> [] then Some l else None
      | _ \<Rightarrow> None)"

text \<open>The links of a path, each with the entries after it.\<close>

fun path_links :: "entry list \<Rightarrow> (link_entry \<times> entry list) list" where
  "path_links [] = []"
| "path_links (e # es) = (case subsession_link e of Some l \<Rightarrow> [(l, es)] | None \<Rightarrow> []) @ path_links es"

definition outputs_of :: "canon \<Rightarrow> entry list list \<Rightarrow> string \<rightharpoonup> item_entry" where
  "outputs_of canon paths =
     foldl (\<lambda>m c. case ca_Output c of Some out \<Rightarrow> m(ca_CallID c \<mapsto> out) | None \<Rightarrow> m) Map.empty (concat (map (Calls canon) paths))"

definition names_session :: "string \<Rightarrow> entry_ref \<Rightarrow> bool" where
  "names_session i r \<longleftrightarrow> r_Session r = i"

definition taken_refs :: "(string \<rightharpoonup> item_entry) \<Rightarrow> link_entry \<Rightarrow> entry list \<Rightarrow> entry_ref list" where
  "taken_refs outputs l later =
     (if ln_CallID l \<noteq> [] then (case outputs (ln_CallID l) of Some out \<Rightarrow> b_Parents (it_base out) | None \<Rightarrow> [])
      else case find (\<lambda>e. list_ex (names_session (ln_Session l)) (b_Parents (base_of e))) later of
          Some e \<Rightarrow> b_Parents (base_of e)
        | None \<Rightarrow> [])"

definition counted_leaf :: "(string \<rightharpoonup> item_entry) \<Rightarrow> link_entry \<Rightarrow> entry list \<Rightarrow> session \<Rightarrow> delegated_leaf" where
  "counted_leaf outputs l later child =
     (case find (names_session (ln_Session l)) (taken_refs outputs l later) of
        Some r \<Rightarrow> \<lparr>dl_Entry = r_Entry r, dl_Named = True\<rparr>
      | None \<Rightarrow> \<lparr>dl_Entry = se_leaf child, dl_Named = False\<rparr>)"

definition set_node :: "string \<Rightarrow> node \<Rightarrow> work \<Rightarrow> work" where
  "set_node i n w = w\<lparr>wk_nodes := map (\<lambda>(j, m). (j, if j = i then n else m)) (wk_nodes w)\<rparr>"

text \<open>The end of an iteration of \<open>scan\<close>: the leaf joins those of the child, or is reported missing, once.
  No two leaves of a child are the same entry, so the first that matches is all that match.\<close>

definition count_leaf :: "link_entry \<Rightarrow> delegated_leaf \<Rightarrow> node \<Rightarrow> work \<Rightarrow> work" where
  "count_leaf l leaf n w =
     (if list_ex (\<lambda>x. dl_Entry x = dl_Entry leaf) (nd_Leaves n) then
        set_node (ln_Session l)
          (n\<lparr>nd_Leaves := map (\<lambda>x. if dl_Entry x = dl_Entry leaf then x\<lparr>dl_Named := dl_Named x \<or> dl_Named leaf\<rparr> else x) (nd_Leaves n)\<rparr>) w
      else if Path (nd_session n) (dl_Entry leaf) = [] then
        if (ln_Session l, dl_Entry leaf) \<in> wk_missing w then w
        else w\<lparr>wk_missing := insert (ln_Session l, dl_Entry leaf) (wk_missing w),
               wk_unread := wk_unread w @ [\<lparr>ur_Link = l, ur_Session = ln_Session l, ur_Err = EChildNotFound\<rparr>]\<rparr>
      else set_node (ln_Session l) (n\<lparr>nd_Leaves := nd_Leaves n @ [leaf]\<rparr>) w)"

type_synonym resolver = "string \<Rightarrow> session option res"

text \<open>One link: the child found or resolved, and its leaf counted.  The second part of the state is \<open>read\<close>.\<close>

definition scan_link :: "resolver \<Rightarrow> (string \<rightharpoonup> item_entry) \<Rightarrow> string \<Rightarrow> work \<times> eid set \<Rightarrow> link_entry \<times> entry list \<Rightarrow> work \<times> eid set" where
  "scan_link resolve outputs from = (\<lambda>(w, read) (l, later).
     if b_ID (ln_base l) \<in> read \<or> ln_Session l \<in> wk_failed w then (w, read)
     else
       (case map_of (wk_nodes w) (ln_Session l) of
          Some n \<Rightarrow> count_leaf l (counted_leaf outputs l later (nd_session n)) n w
        | None \<Rightarrow>
            (case resolve (ln_Session l) of
               Inr (Some child) \<Rightarrow>
                 let n = \<lparr>nd_Link = l, nd_Leaves = [], nd_session = child, nd_parent = from, nd_scanned = 0\<rparr>
                 in count_leaf l (counted_leaf outputs l later child) n (w\<lparr>wk_nodes := wk_nodes w @ [(ln_Session l, n)]\<rparr>)
             | r \<Rightarrow>
                 w\<lparr>wk_failed := insert (ln_Session l) (wk_failed w),
                   wk_unread := wk_unread w @ [\<lparr>ur_Link = l, ur_Session = ln_Session l,
                     ur_Err = (case r of Inl e \<Rightarrow> e | Inr _ \<Rightarrow> if ln_URL l \<noteq> [] then EChildElsewhere else EChildNotFound)\<rparr>]\<rparr>),
        insert (b_ID (ln_base l)) read))"

definition scan_paths :: "canon \<Rightarrow> resolver \<Rightarrow> entry list list \<Rightarrow> string \<Rightarrow> work \<Rightarrow> work" where
  "scan_paths canon resolve paths from w =
     fst (foldl (scan_link resolve (outputs_of canon paths) from) (w, {}) (concat (map path_links paths)))"

definition node_paths :: "node \<Rightarrow> entry list list" where
  "node_paths n = map (\<lambda>leaf. Path (nd_session n) (dl_Entry leaf)) (nd_Leaves n)"

text \<open>
  The loop: the index into the sessions registered, of which there may be more at each turn, and whether the
  pass under way read any.  One unit of fuel per turn; \<open>None\<close> is fuel that did not suffice.
\<close>

fun work_loop :: "canon \<Rightarrow> resolver \<Rightarrow> nat \<Rightarrow> nat \<Rightarrow> bool \<Rightarrow> work \<Rightarrow> work option" where
  "work_loop canon resolve 0 i changed w = None"
| "work_loop canon resolve (Suc fuel) i changed w =
     (if i < length (wk_nodes w) then
        (case wk_nodes w ! i of (j, n) \<Rightarrow>
           if nd_scanned n = length (nd_Leaves n) then work_loop canon resolve fuel (Suc i) changed w
           else work_loop canon resolve fuel (Suc i) True
                  (scan_paths canon resolve (node_paths n) j (set_node j (n\<lparr>nd_scanned := length (nd_Leaves n)\<rparr>) w)))
      else if changed then work_loop canon resolve fuel 0 False w
      else Some w)"

text \<open>The model calls of some paths, each entry once.\<close>

fun count_once :: "eid set \<Rightarrow> model_call list \<Rightarrow> model_call list" where
  "count_once counted [] = []"
| "count_once counted (c # cs) =
     (if b_ID (base_of (mc_Entry c)) \<in> counted then count_once counted cs
      else c # count_once (insert (b_ID (base_of (mc_Entry c))) counted) cs)"

text \<open>\<open>build\<close>: one level of the fuel per level of delegation.\<close>

fun build :: "payload \<Rightarrow> nat \<Rightarrow> (string \<times> node) list \<Rightarrow> string \<Rightarrow> delegated list" where
  "build pl 0 nodes parent = []"
| "build pl (Suc fuel) nodes parent =
     map (\<lambda>(i, n). Delegated (nd_Link n) i (nd_Leaves n) (count_once {} (concat (map (ModelCalls pl) (node_paths n)))) (build pl fuel nodes i))
       (filter (\<lambda>(i, n). nd_parent n = parent \<and> nd_Leaves n \<noteq> []) nodes)"

definition no_work :: work where
  "no_work = \<lparr>wk_nodes = [], wk_failed = {}, wk_missing = {}, wk_unread = []\<rparr>"

definition DelegatedWork :: "canon \<Rightarrow> payload \<Rightarrow> resolver \<Rightarrow> nat \<Rightarrow> entry list \<Rightarrow> (delegated list \<times> unread list) option" where
  "DelegatedWork canon pl resolve fuel p =
     map_option (\<lambda>w. (build pl (Suc (length (wk_nodes w))) (wk_nodes w) [], wk_unread w))
       (work_loop canon resolve fuel 0 False (scan_paths canon resolve [p] [] no_work))"

end
