(* ===== verification/Cost_Work.thy ===== *)
theory Cost_Work
  imports Cost
begin

text \<open>
  The loop of \<open>DelegatedWork\<close>.  A scan keeps the sessions registered, with their order and the session that
  named each first, and handles every link of the paths it reads; a session whose leaves are all read has all its
  links handled, so that the end of the loop is closed under links.  Each turn that reads takes from the leaves
  that can still be read, which bounds the turns.  The forest holds every session with a leaf once.
\<close>

section \<open>What a scan keeps\<close>

definition leaf_ids :: "node \<Rightarrow> eid list" where
  "leaf_ids n = map dl_Entry (nd_Leaves n)"

text \<open>A node with more leaves, perhaps.\<close>

definition same_node :: "node \<Rightarrow> node \<Rightarrow> bool" where
  "same_node n m \<longleftrightarrow> nd_session m = nd_session n \<and> nd_parent m = nd_parent n \<and> (\<exists>more. leaf_ids m = leaf_ids n @ more)"

lemma same_node_refl [simp]: "same_node n n"
  by (simp add: same_node_def)

lemma same_node_trans: "same_node n m \<Longrightarrow> same_node m k \<Longrightarrow> same_node n k"
  by (auto simp: same_node_def)

lemma same_node_leaves: "same_node n m \<Longrightarrow> nd_Leaves n \<noteq> [] \<Longrightarrow> nd_Leaves m \<noteq> []"
  by (auto simp: same_node_def leaf_ids_def)

definition extends :: "work \<Rightarrow> work \<Rightarrow> bool" where
  "extends w w' \<longleftrightarrow> length (wk_nodes w) \<le> length (wk_nodes w') \<and> wk_failed w \<subseteq> wk_failed w' \<and> set (wk_unread w) \<subseteq> set (wk_unread w') \<and>
     (\<forall>k < length (wk_nodes w). fst (wk_nodes w' ! k) = fst (wk_nodes w ! k) \<and>
        same_node (snd (wk_nodes w ! k)) (snd (wk_nodes w' ! k)) \<and>
        nd_scanned (snd (wk_nodes w' ! k)) = nd_scanned (snd (wk_nodes w ! k))) \<and>
     (\<forall>k. length (wk_nodes w) \<le> k \<and> k < length (wk_nodes w') \<longrightarrow> nd_scanned (snd (wk_nodes w' ! k)) = 0)"

lemma extends_refl [simp]: "extends w w"
  by (simp add: extends_def)

lemma extendsD:
  assumes "extends w w'" "k < length (wk_nodes w)"
  shows "k < length (wk_nodes w')" "fst (wk_nodes w' ! k) = fst (wk_nodes w ! k)" "same_node (snd (wk_nodes w ! k)) (snd (wk_nodes w' ! k))"
    "nd_scanned (snd (wk_nodes w' ! k)) = nd_scanned (snd (wk_nodes w ! k))"
  using assms by (auto simp: extends_def)

lemma extends_new: "extends w w' \<Longrightarrow> length (wk_nodes w) \<le> k \<Longrightarrow> k < length (wk_nodes w') \<Longrightarrow> nd_scanned (snd (wk_nodes w' ! k)) = 0"
  by (simp add: extends_def)

lemma extends_trans:
  assumes "extends w w'" "extends w' w''"
  shows "extends w w''"
  unfolding extends_def
proof (intro conjI allI impI)
  fix k
  show "nd_scanned (snd (wk_nodes w'' ! k)) = 0" if "length (wk_nodes w) \<le> k \<and> k < length (wk_nodes w'')"
    using that extends_new [OF assms(1), of k] extends_new [OF assms(2), of k] extendsD(4) [OF assms(2), of k]
    by (cases "k < length (wk_nodes w')") simp_all
  assume k: "k < length (wk_nodes w)"
  note a = extendsD [OF assms(1) k]
  note b = extendsD [OF assms(2) a(1)]
  show "fst (wk_nodes w'' ! k) = fst (wk_nodes w ! k)" "nd_scanned (snd (wk_nodes w'' ! k)) = nd_scanned (snd (wk_nodes w ! k))"
    using a b by simp_all
  show "same_node (snd (wk_nodes w ! k)) (snd (wk_nodes w'' ! k))" by (rule same_node_trans [OF a(3) b(3)])
qed (use assms in \<open>auto simp: extends_def\<close>)

definition node_ok :: "resolver \<Rightarrow> string \<times> node \<Rightarrow> bool" where
  "node_ok resolve = (\<lambda>(i, n). i \<noteq> [] \<and> resolve i = Inr (Some (nd_session n)) \<and> nd_scanned n \<le> length (nd_Leaves n) \<and>
     distinct (leaf_ids n) \<and> (\<forall>e \<in> set (leaf_ids n). Path (nd_session n) e \<noteq> []))"

definition from_ok :: "(string \<times> node) list \<Rightarrow> nat \<Rightarrow> string \<Rightarrow> bool" where
  "from_ok ns k from \<longleftrightarrow> from = [] \<or> (\<exists>j < k. fst (ns ! j) = from \<and> nd_Leaves (snd (ns ! j)) \<noteq> [])"

definition reported :: "work \<Rightarrow> string \<Rightarrow> bool" where
  "reported w i \<longleftrightarrow> i \<in> ur_Session ` set (wk_unread w)"

text \<open>The invariant, but for the report on the session \<open>out\<close>.\<close>

definition work_but :: "resolver \<Rightarrow> string \<Rightarrow> work \<Rightarrow> bool" where
  "work_but resolve out w \<longleftrightarrow> distinct (map fst (wk_nodes w)) \<and> list_all (node_ok resolve) (wk_nodes w) \<and>
     (\<forall>k < length (wk_nodes w). from_ok (wk_nodes w) k (nd_parent (snd (wk_nodes w ! k)))) \<and>
     (\<forall>i \<in> wk_failed w. reported w i) \<and> (\<forall>x \<in> wk_missing w. reported w (fst x)) \<and>
     (\<forall>(i, n) \<in> set (wk_nodes w). nd_Leaves n = [] \<longrightarrow> i = out \<or> reported w i)"

abbreviation work_ok :: "resolver \<Rightarrow> work \<Rightarrow> bool" where
  "work_ok resolve w \<equiv> work_but resolve [] w"

lemma work_ok_but: "work_ok resolve w \<Longrightarrow> work_but resolve out w"
  by (fastforce simp: work_but_def node_ok_def list_all_iff)

lemma from_ok_mono:
  assumes "from_ok (wk_nodes w) k from" "extends w w'" "k \<le> length (wk_nodes w)"
  shows "from_ok (wk_nodes w') k from"
  unfolding from_ok_def
proof (cases "from = []")
  case False
  with assms(1) obtain j where j: "j < k" "fst (wk_nodes w ! j) = from" "nd_Leaves (snd (wk_nodes w ! j)) \<noteq> []" by (auto simp: from_ok_def)
  then have "j < length (wk_nodes w)" using assms(3) by simp
  note e = extendsD [OF assms(2) this]
  with j same_node_leaves [OF e(3) j(3)] show "from = [] \<or> (\<exists>j<k. fst (wk_nodes w' ! j) = from \<and> nd_Leaves (snd (wk_nodes w' ! j)) \<noteq> [])" by auto
qed simp

lemma from_ok_weaken: "from_ok ns k from \<Longrightarrow> k \<le> k' \<Longrightarrow> from_ok ns k' from"
  unfolding from_ok_def using less_le_trans by blast

section \<open>Updates of a node\<close>

lemma map_of_index:
  assumes "map_of ns i = Some n"
  obtains k where "k < length ns" "ns ! k = (i, n)"
  using map_of_SomeD [OF assms] by (auto simp: in_set_conv_nth)

lemma set_node_nth: "k < length (wk_nodes w) \<Longrightarrow> wk_nodes (set_node i n w) ! k = (fst (wk_nodes w ! k), if fst (wk_nodes w ! k) = i then n else snd (wk_nodes w ! k))"
  by (simp add: set_node_def case_prod_beta)

lemma set_node_simps [simp]:
  "wk_failed (set_node i n w) = wk_failed w" "wk_missing (set_node i n w) = wk_missing w" "wk_unread (set_node i n w) = wk_unread w"
  "length (wk_nodes (set_node i n w)) = length (wk_nodes w)" "map fst (wk_nodes (set_node i n w)) = map fst (wk_nodes w)"
  by (simp_all add: set_node_def case_prod_beta comp_def)

lemma reported_simps [simp]: "reported (set_node i n w) j = reported w j" "reported (w\<lparr>wk_nodes := ns\<rparr>) j = reported w j"
  by (simp_all add: reported_def)

lemma node_index:
  assumes "distinct (map fst ns)" "map_of ns i = Some n" "k < length ns" "fst (ns ! k) = i"
  shows "snd (ns ! k) = n"
proof -
  obtain j where j: "j < length ns" "ns ! j = (i, n)" by (rule map_of_index [OF assms(2)])
  from nth_eq_iff_index_eq [OF assms(1), of k j] assms(3,4) j have "k = j" by simp
  with j show ?thesis by simp
qed

lemma set_node_extends:
  assumes "distinct (map fst (wk_nodes w))" "map_of (wk_nodes w) i = Some n" "same_node n m" "nd_scanned m = nd_scanned n"
  shows "extends w (set_node i m w)"
  using assms node_index [OF assms(1,2)] by (auto simp: extends_def set_node_nth)

lemma set_node_but:
  assumes "work_but resolve out w" "map_of (wk_nodes w) i = Some n" "same_node n m" "node_ok resolve (i, m)"
  shows "work_but resolve out (set_node i m w)" and "nd_Leaves m \<noteq> [] \<Longrightarrow> i = out \<Longrightarrow> work_ok resolve (set_node i m w)"
proof -
  have d: "distinct (map fst (wk_nodes w))" using assms(1) by (simp add: work_but_def)
  note idx = node_index [OF d assms(2)]
  have ok: "list_all (node_ok resolve) (wk_nodes (set_node i m w))"
    using assms(1,4) by (auto simp: work_but_def list_all_length set_node_nth)
  have fr: "from_ok (wk_nodes (set_node i m w)) k (nd_parent (snd (wk_nodes (set_node i m w) ! k)))" if k: "k < length (wk_nodes w)" for k
  proof -
    have "from_ok (wk_nodes w) k (nd_parent (snd (wk_nodes w ! k)))" using assms(1) k by (simp add: work_but_def)
    moreover have "nd_parent (snd (wk_nodes (set_node i m w) ! k)) = nd_parent (snd (wk_nodes w ! k))"
      using idx [OF k] assms(3) k by (auto simp: set_node_nth same_node_def)
    moreover have "nd_Leaves (snd (wk_nodes (set_node i m w) ! j)) \<noteq> []" if "j < k" "nd_Leaves (snd (wk_nodes w ! j)) \<noteq> []" for j
      using idx [of j] assms(3) that k same_node_leaves by (auto simp: set_node_nth)
    moreover have "fst (wk_nodes (set_node i m w) ! j) = fst (wk_nodes w ! j)" if "j < k" for j using that k by (simp add: set_node_nth)
    ultimately show ?thesis unfolding from_ok_def by (metis (no_types))
  qed
  have lv: "j = out \<or> reported w j" if "(j, x) \<in> set (wk_nodes (set_node i m w))" "nd_Leaves x = []" for j x
  proof -
    from that(1) obtain k where k: "k < length (wk_nodes w)" "(j, x) = wk_nodes (set_node i m w) ! k" by (auto simp: in_set_conv_nth)
    then have "fst (wk_nodes w ! k) = j" "nd_Leaves (snd (wk_nodes w ! k)) = []"
      using idx [OF k(1)] assms(3) same_node_leaves that(2) by (auto simp: set_node_nth split: if_splits)
    moreover have "wk_nodes w ! k \<in> set (wk_nodes w)" using k(1) by simp
    ultimately show ?thesis using assms(1) by (fastforce simp: work_but_def)
  qed
  show "work_but resolve out (set_node i m w)"
    using assms(1) d ok fr lv by (auto simp: work_but_def)
  assume m: "nd_Leaves m \<noteq> []" "i = out"
  have "reported w j" if "(j, x) \<in> set (wk_nodes (set_node i m w))" "nd_Leaves x = []" for j x
  proof -
    have "j \<noteq> i" using that m(1) by (auto simp: set_node_def split: if_splits)
    with lv [OF that] m(2) show ?thesis by simp
  qed
  then show "work_ok resolve (set_node i m w)"
    using assms(1) d ok fr by (auto simp: work_but_def)
qed

section \<open>One link\<close>

definition handled :: "link_entry \<Rightarrow> work \<Rightarrow> bool" where
  "handled l w \<longleftrightarrow> ln_Session l \<in> wk_failed w \<or> ln_Session l \<in> fst ` set (wk_nodes w)"

lemma handled_mono:
  assumes "handled l w" "extends w w'"
  shows "handled l w'"
proof (cases "ln_Session l \<in> wk_failed w")
  case False
  with assms(1) obtain k where k: "k < length (wk_nodes w)" "fst (wk_nodes w ! k) = ln_Session l"
    by (auto simp: handled_def in_set_conv_nth)
  from extendsD(1,2) [OF assms(2) k(1)] k(2) nth_mem show ?thesis unfolding handled_def by (metis image_eqI)
qed (use assms in \<open>auto simp: handled_def extends_def\<close>)

lemma count_leaf_ok:
  assumes "work_but resolve (ln_Session l) w" "map_of (wk_nodes w) (ln_Session l) = Some n"
  shows "work_ok resolve (count_leaf l leaf n w) \<and> extends w (count_leaf l leaf n w)"
proof -
  let ?i = "ln_Session l"
  have d: "distinct (map fst (wk_nodes w))" and nok: "node_ok resolve (?i, n)"
    using assms map_of_SomeD [OF assms(2)] by (auto simp: work_but_def list_all_iff)
  consider (held) "list_ex (\<lambda>x. dl_Entry x = dl_Entry leaf) (nd_Leaves n)"
    | (missing) "\<not> list_ex (\<lambda>x. dl_Entry x = dl_Entry leaf) (nd_Leaves n)" "Path (nd_session n) (dl_Entry leaf) = []"
    | (new) "\<not> list_ex (\<lambda>x. dl_Entry x = dl_Entry leaf) (nd_Leaves n)" "Path (nd_session n) (dl_Entry leaf) \<noteq> []" by blast
  then show ?thesis
  proof cases
    case held
    let ?m = "n\<lparr>nd_Leaves := map (\<lambda>x. if dl_Entry x = dl_Entry leaf then x\<lparr>dl_Named := dl_Named x \<or> dl_Named leaf\<rparr> else x) (nd_Leaves n)\<rparr>"
    have l: "leaf_ids ?m = leaf_ids n" by (simp add: leaf_ids_def)
    then have s: "same_node n ?m" by (simp add: same_node_def)
    have "node_ok resolve (?i, ?m)" using nok l by (simp add: node_ok_def)
    moreover have "nd_Leaves ?m \<noteq> []" using held by (cases "nd_Leaves n") simp_all
    ultimately show ?thesis using held set_node_but(2) [OF assms s] set_node_extends [OF d assms(2) s] by (simp add: count_leaf_def)
  next
    case missing
    let ?u = "\<lparr>ur_Link = l, ur_Session = ?i, ur_Err = EChildNotFound\<rparr>"
    show ?thesis
    proof (cases "(?i, dl_Entry leaf) \<in> wk_missing w")
      case True
      then have "reported w ?i" using assms(1) by (fastforce simp: work_but_def)
      with True missing assms(1) show ?thesis by (auto simp: count_leaf_def work_but_def)
    next
      case False
      let ?w = "w\<lparr>wk_missing := insert (?i, dl_Entry leaf) (wk_missing w), wk_unread := wk_unread w @ [?u]\<rparr>"
      have "reported ?w j = (j = ?i \<or> reported w j)" for j by (auto simp: reported_def)
      then have "work_ok resolve ?w" using assms(1) by (auto simp: work_but_def)
      moreover have "extends w ?w" by (auto simp: extends_def)
      ultimately show ?thesis using False missing by (simp add: count_leaf_def)
    qed
  next
    case new
    let ?m = "n\<lparr>nd_Leaves := nd_Leaves n @ [leaf]\<rparr>"
    have s: "same_node n ?m" by (simp add: same_node_def leaf_ids_def)
    have "dl_Entry leaf \<notin> set (leaf_ids n)" using new(1) by (auto simp: leaf_ids_def list_ex_iff)
    with nok new(2) have "node_ok resolve (?i, ?m)" by (auto simp: node_ok_def leaf_ids_def)
    then show ?thesis using new set_node_but(2) [OF assms s] set_node_extends [OF d assms(2) s] by (simp add: count_leaf_def)
  qed
qed

lemma register_ok:
  assumes "work_ok resolve w" "from_ok (wk_nodes w) (length (wk_nodes w)) from" "map_of (wk_nodes w) i = None" "i \<noteq> []"
    and "resolve i = Inr (Some child)" "n = \<lparr>nd_Link = l, nd_Leaves = [], nd_session = child, nd_parent = from, nd_scanned = 0\<rparr>"
    and "w1 = w\<lparr>wk_nodes := wk_nodes w @ [(i, n)]\<rparr>"
  shows "work_but resolve i w1" "extends w w1" "map_of (wk_nodes w1) i = Some n"
proof -
  have ni: "i \<notin> fst ` set (wk_nodes w)" using assms(3) by (simp add: map_of_eq_None_iff)
  have nok: "node_ok resolve (i, n)" using assms(4-6) by (simp add: node_ok_def leaf_ids_def)
  show ext: "extends w w1" by (auto simp: extends_def nth_append assms(6,7))
  have "from_ok (wk_nodes w1) k (nd_parent (snd (wk_nodes w1 ! k)))" if "k < Suc (length (wk_nodes w))" for k
  proof (cases "k < length (wk_nodes w)")
    case True
    with assms(1) have "from_ok (wk_nodes w) k (nd_parent (snd (wk_nodes w ! k)))" by (simp add: work_but_def)
    from from_ok_mono [OF this ext] True show ?thesis by (simp add: assms(7) nth_append)
  next
    case False
    with that have "k = length (wk_nodes w)" by simp
    with from_ok_mono [OF assms(2) ext] show ?thesis by (simp add: assms(6,7))
  qed
  then show "work_but resolve i w1" using work_ok_but [OF assms(1), of i] ni nok by (auto simp: work_but_def assms(7))
  show "map_of (wk_nodes w1) i = Some n" using assms(3) by (simp add: assms(7) map_add_Some_iff)
qed

lemma scan_link_ok:
  assumes "work_ok resolve w" "from_ok (wk_nodes w) (length (wk_nodes w)) from" "ln_Session l \<noteq> []"
    and "scan_link resolve outputs from (w, read) (l, later) = (w', read')"
  shows "work_ok resolve w' \<and> extends w w' \<and> read \<subseteq> read' \<and> read' \<subseteq> insert (b_ID (ln_base l)) read \<and>
    (b_ID (ln_base l) \<in> read \<or> handled l w')"
proof (cases "b_ID (ln_base l) \<in> read \<or> ln_Session l \<in> wk_failed w")
  case True
  with assms show ?thesis by (auto simp: scan_link_def handled_def)
next
  case False
  let ?i = "ln_Session l"
  from False assms(4) have rd: "read' = insert (b_ID (ln_base l)) read" by (simp add: scan_link_def)
  have "work_ok resolve w' \<and> extends w w' \<and> handled l w'"
  proof (cases "map_of (wk_nodes w) ?i")
    case (Some n)
    with False assms(4) have "w' = count_leaf l (counted_leaf outputs l later (nd_session n)) n w" by (simp add: scan_link_def)
    with count_leaf_ok [OF work_ok_but [OF assms(1)] Some] have c: "work_ok resolve w' \<and> extends w w'" by simp
    moreover have "handled l w" using map_of_SomeD [OF Some] by (force simp: handled_def)
    ultimately show ?thesis using handled_mono by blast
  next
    case None
    show ?thesis
    proof (cases "\<exists>child. resolve ?i = Inr (Some child)")
      case True
      then obtain child where c: "resolve ?i = Inr (Some child)" ..
      define n where "n = \<lparr>nd_Link = l, nd_Leaves = [], nd_session = child, nd_parent = from, nd_scanned = 0\<rparr>"
      define w1 where "w1 = w\<lparr>wk_nodes := wk_nodes w @ [(?i, n)]\<rparr>"
      note r = register_ok [OF assms(1,2) None assms(3) c n_def w1_def]
      have "w' = count_leaf l (counted_leaf outputs l later child) n w1" using False assms(4) None c by (simp add: scan_link_def n_def w1_def Let_def)
      with count_leaf_ok [OF r(1,3)] have k: "work_ok resolve w'" "extends w1 w'" by simp_all
      moreover have "handled l w1" using map_of_SomeD [OF r(3)] by (force simp: handled_def)
      ultimately show ?thesis using handled_mono extends_trans [OF r(2)] by blast
    next
      case F: False
      obtain u where u: "ur_Session u = ?i" "w' = w\<lparr>wk_failed := insert ?i (wk_failed w), wk_unread := wk_unread w @ [u]\<rparr>"
      proof -
        from F False assms(4) None show ?thesis
          by (cases "resolve ?i") (auto simp: scan_link_def split: option.splits intro!: that)
      qed
      have "reported w' j = (j = ?i \<or> reported w j)" for j using u by (auto simp: reported_def)
      then show ?thesis using assms(1) u(2) by (auto simp: work_but_def extends_def handled_def)
    qed
  qed
  with rd show ?thesis by blast
qed

section \<open>A scan\<close>

lemma scan_fold_ok:
  assumes "work_ok resolve w" "from_ok (wk_nodes w) (length (wk_nodes w)) from" "\<forall>x \<in> set xs. ln_Session (fst x) \<noteq> []"
    and "foldl (scan_link resolve outputs from) (w, read) xs = (w', read')"
  shows "work_ok resolve w' \<and> extends w w' \<and> read \<subseteq> read' \<and>
    (\<forall>i \<in> read'. i \<in> read \<or> (\<exists>x \<in> set xs. b_ID (ln_base (fst x)) = i \<and> handled (fst x) w')) \<and>
    (\<forall>x \<in> set xs. handled (fst x) w' \<or> b_ID (ln_base (fst x)) \<in> read')"
  using assms
proof (induction xs arbitrary: w read)
  case (Cons x xs)
  obtain l later where x: "x = (l, later)" by fastforce
  obtain w1 read1 where s: "scan_link resolve outputs from (w, read) (l, later) = (w1, read1)" by fastforce
  have ls: "ln_Session l \<noteq> []" using Cons.prems(3) x by simp
  note a = scan_link_ok [OF Cons.prems(1,2) ls s]
  have "from_ok (wk_nodes w1) (length (wk_nodes w)) from" using a by (intro from_ok_mono [OF Cons.prems(2)]) simp_all
  then have fr: "from_ok (wk_nodes w1) (length (wk_nodes w1)) from" using a by (auto simp: extends_def elim: from_ok_weaken)
  have "foldl (scan_link resolve outputs from) (w1, read1) xs = (w', read')" using Cons.prems(4) x s by simp
  with Cons.IH [of w1 read1] a fr Cons.prems(3) have b: "work_ok resolve w'" "extends w1 w'" "read1 \<subseteq> read'"
    "\<forall>i \<in> read'. i \<in> read1 \<or> (\<exists>x \<in> set xs. b_ID (ln_base (fst x)) = i \<and> handled (fst x) w')"
    "\<forall>x \<in> set xs. handled (fst x) w' \<or> b_ID (ln_base (fst x)) \<in> read'" by auto
  have h: "b_ID (ln_base l) \<in> read \<or> handled l w'" using a b(2) handled_mono by blast
  show ?case using a b h extends_trans [OF _ b(2)] x by fastforce
qed auto

lemma path_links_sound: "(l, later) \<in> set (path_links p) \<Longrightarrow> LinkEntry l \<in> set p \<and> ln_Session l \<noteq> []"
proof (induction p)
  case (Cons e es)
  then show ?case by (cases e) (auto simp: subsession_link_def split: if_splits)
qed simp

lemma path_links_complete: "e \<in> set p \<Longrightarrow> subsession_link e = Some l \<Longrightarrow> \<exists>later. (l, later) \<in> set (path_links p)"
  by (induction p) auto

lemma subsession_link_entry: "subsession_link e = Some l \<Longrightarrow> e = LinkEntry l \<and> ln_Session l \<noteq> []"
  by (auto simp: subsession_link_def split: entry.splits if_splits)

definition closed :: "work \<Rightarrow> entry list \<Rightarrow> bool" where
  "closed w p \<longleftrightarrow> (\<forall>e \<in> set p. \<forall>l. subsession_link e = Some l \<longrightarrow> handled l w)"

lemma closed_mono: "closed w p \<Longrightarrow> extends w w' \<Longrightarrow> closed w' p"
  unfolding closed_def using handled_mono by blast

text \<open>Entries of the paths with one ID are one entry.\<close>

definition one_each :: "entry list list \<Rightarrow> bool" where
  "one_each paths \<longleftrightarrow> inj_on e_id (\<Union>(set ` set paths))"

lemma scan_paths_ok:
  assumes "work_ok resolve w" "from_ok (wk_nodes w) (length (wk_nodes w)) from" "one_each paths"
    and "w' = scan_paths canon resolve paths from w"
  shows "work_ok resolve w'" "extends w w'" "\<And>p. p \<in> set paths \<Longrightarrow> closed w' p"
proof -
  let ?xs = "concat (map path_links paths)"
  obtain read' where f: "foldl (scan_link resolve (outputs_of canon paths) from) (w, {}) ?xs = (w', read')"
    using assms(4) unfolding scan_paths_def by (metis prod.collapse)
  have "\<forall>x \<in> set ?xs. ln_Session (fst x) \<noteq> []" using path_links_sound by fastforce
  note a = scan_fold_ok [OF assms(1,2) this f]
  then show "work_ok resolve w'" "extends w w'" by simp_all
  fix p assume p: "p \<in> set paths"
  show "closed w' p" unfolding closed_def
  proof (intro ballI allI impI)
    fix e l assume e: "e \<in> set p" "subsession_link e = Some l"
    obtain later where l: "(l, later) \<in> set (path_links p)" using path_links_complete [OF e] by blast
    then have "(l, later) \<in> set ?xs" using p by auto
    with a have "handled l w' \<or> b_ID (ln_base l) \<in> read'" by fastforce
    moreover have "handled l w'" if r: "b_ID (ln_base l) \<in> read'"
    proof -
      obtain l' later' where x: "(l', later') \<in> set ?xs" "b_ID (ln_base l') = b_ID (ln_base l)" "handled l' w'" using a r by fastforce
      then obtain q where q: "q \<in> set paths" "(l', later') \<in> set (path_links q)" by auto
      have "LinkEntry l \<in> \<Union>(set ` set paths)" "LinkEntry l' \<in> \<Union>(set ` set paths)" using path_links_sound l p q by blast+
      moreover have "e_id (LinkEntry l) = e_id (LinkEntry l')" using x(2) by simp
      ultimately have "LinkEntry l = LinkEntry l'" using assms(3) unfolding one_each_def by (meson inj_onD)
      with x(3) show ?thesis by simp
    qed
    ultimately show "handled l w'" by blast
  qed
qed

section \<open>The loop\<close>

definition sessions_wf :: "resolver \<Rightarrow> bool" where
  "sessions_wf resolve \<longleftrightarrow> (\<forall>i s. resolve i = Inr (Some s) \<longrightarrow> session_wf s)"

lemma node_paths_once:
  assumes "node_ok resolve (i, n)" "sessions_wf resolve"
  shows "one_each (node_paths n)" "length (nd_Leaves n) \<le> length (se_entries (nd_session n))"
proof -
  have wf: "session_wf (nd_session n)" using assms by (auto simp: node_ok_def sessions_wf_def)
  have held: "se_byID (nd_session n) e \<noteq> None" if "e \<in> set (leaf_ids n)" for e
    using assms(1) that path_missing [of e "nd_session n"] by (cases "e = []") (auto simp: node_ok_def Path_def)
  have "set (Path (nd_session n) e) \<subseteq> set (se_entries (nd_session n))" if "e \<in> set (leaf_ids n)" for e
    using path_chain(2) [OF wf, of e] held [OF that] by (simp add: Path_def)
  then have sub: "\<Union>(set ` set (node_paths n)) \<subseteq> set (se_entries (nd_session n))"
    by (auto simp: node_paths_def leaf_ids_def)
  have "inj_on e_id (set (se_entries (nd_session n)))" using wf by (simp add: session_wf_def tree_wf_def distinct_map)
  then show "one_each (node_paths n)" unfolding one_each_def using sub by (rule inj_on_subset)
  have "set (leaf_ids n) \<subseteq> set (map e_id (se_entries (nd_session n)))"
  proof
    fix e assume "e \<in> set (leaf_ids n)"
    from held [OF this] wf show "e \<in> set (map e_id (se_entries (nd_session n)))" using index_of_None unfolding session_wf_def by metis
  qed
  then have "card (set (leaf_ids n)) \<le> card (set (map e_id (se_entries (nd_session n))))" by (intro card_mono) simp_all
  moreover have "distinct (leaf_ids n)" using assms(1) by (simp add: node_ok_def)
  then have "card (set (leaf_ids n)) = length (nd_Leaves n)" using distinct_card [of "leaf_ids n"] by (simp add: leaf_ids_def)
  ultimately show "length (nd_Leaves n) \<le> length (se_entries (nd_session n))"
    using card_length [of "map e_id (se_entries (nd_session n))"] by simp
qed

definition loop_ok :: "resolver \<Rightarrow> entry list \<Rightarrow> work \<Rightarrow> bool" where
  "loop_ok resolve p w \<longleftrightarrow> work_ok resolve w \<and> closed w p \<and>
     (\<forall>k < length (wk_nodes w). \<forall>e \<in> set (take (nd_scanned (snd (wk_nodes w ! k))) (leaf_ids (snd (wk_nodes w ! k)))).
        closed w (Path (nd_session (snd (wk_nodes w ! k))) e))"

text \<open>The turn that reads a session: its leaves are all read, and no other session loses any.\<close>

lemma read_turn:
  assumes "loop_ok resolve p w" "sessions_wf resolve" "k < length (wk_nodes w)" "wk_nodes w ! k = (j, n)"
    and "w1 = set_node j (n\<lparr>nd_scanned := length (nd_Leaves n)\<rparr>) w" "w' = scan_paths canon resolve (node_paths n) j w1"
    and "nd_scanned n \<noteq> length (nd_Leaves n)"
  shows "loop_ok resolve p w'" "length (wk_nodes w) \<le> length (wk_nodes w')"
    "\<And>i. i < length (wk_nodes w) \<Longrightarrow> fst (wk_nodes w' ! i) = fst (wk_nodes w ! i) \<and>
       nd_scanned (snd (wk_nodes w' ! i)) = (if i = k then length (nd_Leaves n) else nd_scanned (snd (wk_nodes w ! i)))"
proof -
  let ?m = "n\<lparr>nd_scanned := length (nd_Leaves n)\<rparr>"
  have ok: "work_ok resolve w" using assms(1) by (simp add: loop_ok_def)
  then have d: "distinct (map fst (wk_nodes w))" by (simp add: work_but_def)
  have mo: "map_of (wk_nodes w) j = Some n" using d assms(3,4) nth_mem [OF assms(3)] by (simp add: map_of_is_SomeI)
  have nok: "node_ok resolve (j, n)" using ok assms(3,4) unfolding work_but_def list_all_length by metis
  have s: "same_node n ?m" by (simp add: same_node_def leaf_ids_def)
  have mok: "node_ok resolve (j, ?m)" using nok by (simp add: node_ok_def leaf_ids_def)
  have ok1: "work_ok resolve w1" unfolding assms(5) by (rule set_node_but(1) [OF ok mo s mok])
  have ne: "nd_Leaves n \<noteq> []" using assms(7) nok by (auto simp: node_ok_def)
  have w1k: "fst (wk_nodes w1 ! i) = fst (wk_nodes w ! i)" "snd (wk_nodes w1 ! i) = (if i = k then ?m else snd (wk_nodes w ! i))"
    if "i < length (wk_nodes w)" for i
  proof -
    have "fst (wk_nodes w ! i) = j \<longleftrightarrow> i = k" using nth_eq_iff_index_eq [OF d, of i k] that assms(3,4) by simp
    then show "fst (wk_nodes w1 ! i) = fst (wk_nodes w ! i)" "snd (wk_nodes w1 ! i) = (if i = k then ?m else snd (wk_nodes w ! i))"
      using that by (simp_all add: assms(5) set_node_nth)
  qed
  have "from_ok (wk_nodes w1) (length (wk_nodes w1)) j"
    unfolding from_ok_def using w1k [OF assms(3)] assms(3,4) ne by (auto simp: assms(5) intro!: exI [of _ k])
  note sc = scan_paths_ok [OF ok1 this node_paths_once(1) [OF nok assms(2)] assms(6)]
  have len: "length (wk_nodes w1) = length (wk_nodes w)" by (simp add: assms(5))
  show "length (wk_nodes w) \<le> length (wk_nodes w')" using sc(2) len by (simp add: extends_def)
  show "fst (wk_nodes w' ! i) = fst (wk_nodes w ! i) \<and>
     nd_scanned (snd (wk_nodes w' ! i)) = (if i = k then length (nd_Leaves n) else nd_scanned (snd (wk_nodes w ! i)))"
    if "i < length (wk_nodes w)" for i
    using extendsD(2,4) [OF sc(2), of i] w1k [OF that] that len by simp
  have cl: "closed w' q" if "closed w q" for q
  proof -
    have "handled l w1" if "handled l w" for l
    proof -
      have "fst ` set (wk_nodes w1) = fst ` set (wk_nodes w)" by (metis assms(5) list.set_map set_node_simps(5))
      with that show ?thesis by (simp add: handled_def assms(5))
    qed
    then have "closed w1 q" using that by (simp add: closed_def)
    then show ?thesis using closed_mono sc(2) by blast
  qed
  have rd: "closed w' (Path (nd_session (snd (wk_nodes w' ! i))) e)"
    if i: "i < length (wk_nodes w')" and e: "e \<in> set (take (nd_scanned (snd (wk_nodes w' ! i))) (leaf_ids (snd (wk_nodes w' ! i))))" for i e
  proof (cases "i < length (wk_nodes w1)")
    case True
    note x = extendsD [OF sc(2) True]
    obtain more where more: "leaf_ids (snd (wk_nodes w' ! i)) = leaf_ids (snd (wk_nodes w1 ! i)) @ more"
      and se: "nd_session (snd (wk_nodes w' ! i)) = nd_session (snd (wk_nodes w1 ! i))" using x(3) by (auto simp: same_node_def)
    have "nd_scanned (snd (wk_nodes w1 ! i)) \<le> length (leaf_ids (snd (wk_nodes w1 ! i)))"
      using ok1 True by (auto simp: work_but_def list_all_length node_ok_def leaf_ids_def case_prod_beta)
    with e more x(4) have e1: "e \<in> set (take (nd_scanned (snd (wk_nodes w1 ! i))) (leaf_ids (snd (wk_nodes w1 ! i))))" by simp
    show ?thesis
    proof (cases "i = k")
      case True
      then have "snd (wk_nodes w1 ! i) = ?m" using w1k(2) assms(3) by simp
      with e1 have "e \<in> set (leaf_ids n)" by (auto simp: leaf_ids_def dest: in_set_takeD)
      then have "Path (nd_session n) e \<in> set (node_paths n)" by (auto simp: node_paths_def leaf_ids_def)
      with sc(3) se \<open>snd (wk_nodes w1 ! i) = ?m\<close> show ?thesis by simp
    next
      case False
      then have "snd (wk_nodes w1 ! i) = snd (wk_nodes w ! i)" using w1k(2) True len by simp
      with assms(1) e1 True len have "closed w (Path (nd_session (snd (wk_nodes w ! i))) e)" by (auto simp: loop_ok_def)
      with cl se \<open>snd (wk_nodes w1 ! i) = snd (wk_nodes w ! i)\<close> show ?thesis by simp
    qed
  next
    case False
    with extends_new [OF sc(2), of i] i e show ?thesis by simp
  qed
  show "loop_ok resolve p w'" using sc(1) cl assms(1) rd by (simp add: loop_ok_def)
qed

definition all_read :: "work \<Rightarrow> nat \<Rightarrow> bool" where
  "all_read w k \<longleftrightarrow> nd_scanned (snd (wk_nodes w ! k)) = length (nd_Leaves (snd (wk_nodes w ! k)))"

lemma work_loop_done:
  assumes "work_loop canon resolve fuel i changed w = Some w'" "loop_ok resolve p w" "sessions_wf resolve"
    and "\<not> changed \<Longrightarrow> \<forall>k < i. k < length (wk_nodes w) \<longrightarrow> all_read w k"
  shows "loop_ok resolve p w' \<and> (\<forall>k < length (wk_nodes w'). all_read w' k)"
  using assms(1,2,4)
proof (induction fuel arbitrary: i changed w)
  case (Suc fuel)
  show ?case
  proof (cases "i < length (wk_nodes w)")
    case True
    obtain j n where n: "wk_nodes w ! i = (j, n)" by fastforce
    show ?thesis
    proof (cases "nd_scanned n = length (nd_Leaves n)")
      case r: True
      then have "all_read w i" by (simp add: all_read_def n)
      then show ?thesis using Suc.prems True n r by (intro Suc.IH [of "Suc i" changed w]) (auto simp: less_Suc_eq)
    next
      case r: False
      define u where "u = scan_paths canon resolve (node_paths n) j (set_node j (n\<lparr>nd_scanned := length (nd_Leaves n)\<rparr>) w)"
      have "loop_ok resolve p u" by (rule read_turn(1) [OF Suc.prems(2) assms(3) True n refl u_def r])
      then show ?thesis using Suc.prems(1) True n r by (intro Suc.IH [of "Suc i" True u]) (simp_all add: u_def)
    qed
  next
    case False
    show ?thesis
    proof (cases changed)
      case True
      with False Suc.prems show ?thesis by (intro Suc.IH [of 0 False w]) auto
    next
      case c: False
      with False Suc.prems show ?thesis by auto
    qed
  qed
qed simp

section \<open>The loop ends\<close>

definition readable :: "resolver \<Rightarrow> string set" where
  "readable resolve = {i. \<exists>s. resolve i = Inr (Some s)}"

definition cap :: "resolver \<Rightarrow> string \<Rightarrow> nat" where
  "cap resolve i = (case resolve i of Inr (Some s) \<Rightarrow> length (se_entries s) | _ \<Rightarrow> 0)"

definition read_of :: "work \<Rightarrow> string \<Rightarrow> nat" where
  "read_of w i = (case map_of (wk_nodes w) i of Some n \<Rightarrow> nd_scanned n | None \<Rightarrow> 0)"

text \<open>The leaves that can still be read.\<close>

definition unread_leaves :: "resolver \<Rightarrow> work \<Rightarrow> nat" where
  "unread_leaves resolve w = (\<Sum>i \<in> readable resolve. cap resolve i - read_of w i)"

lemma read_of_nth:
  assumes "distinct (map fst (wk_nodes w))" "k < length (wk_nodes w)"
  shows "read_of w (fst (wk_nodes w ! k)) = nd_scanned (snd (wk_nodes w ! k))"
proof -
  have "map_of (wk_nodes w) (fst (wk_nodes w ! k)) = Some (snd (wk_nodes w ! k))"
    by (rule map_of_is_SomeI [OF assms(1)]) (use nth_mem [OF assms(2)] in simp)
  then show ?thesis by (simp add: read_of_def)
qed

lemma nodes_readable:
  assumes "work_ok resolve w" "finite (readable resolve)"
  shows "length (wk_nodes w) \<le> card (readable resolve)" "k < length (wk_nodes w) \<Longrightarrow> fst (wk_nodes w ! k) \<in> readable resolve"
proof -
  have "fst x \<in> readable resolve" if "x \<in> set (wk_nodes w)" for x
    using assms(1) that by (auto simp: work_but_def list_all_iff node_ok_def readable_def)
  then show "k < length (wk_nodes w) \<Longrightarrow> fst (wk_nodes w ! k) \<in> readable resolve" by simp
  have "set (map fst (wk_nodes w)) \<subseteq> readable resolve" using \<open>\<And>x. x \<in> set (wk_nodes w) \<Longrightarrow> fst x \<in> readable resolve\<close> by auto
  from card_mono [OF assms(2) this] assms(1) show "length (wk_nodes w) \<le> card (readable resolve)"
    using distinct_card [of "map fst (wk_nodes w)"] by (simp add: work_but_def)
qed

lemma turn_decreases:
  assumes "loop_ok resolve p w" "sessions_wf resolve" "finite (readable resolve)" "k < length (wk_nodes w)" "wk_nodes w ! k = (j, n)"
    and "nd_scanned n \<noteq> length (nd_Leaves n)" "w' = scan_paths canon resolve (node_paths n) j (set_node j (n\<lparr>nd_scanned := length (nd_Leaves n)\<rparr>) w)"
  shows "unread_leaves resolve w' < unread_leaves resolve w"
proof -
  note t = read_turn [OF assms(1,2,4,5) refl assms(7,6)]
  have ok: "work_ok resolve w" "work_ok resolve w'" using assms(1) t(1) by (simp_all add: loop_ok_def)
  then have d: "distinct (map fst (wk_nodes w))" "distinct (map fst (wk_nodes w'))" by (simp_all add: work_but_def)
  have nok: "node_ok resolve (j, n)" using ok(1) assms(4,5) unfolding work_but_def list_all_length by metis
  have grow: "read_of w i \<le> read_of w' i \<and> (i = j \<longrightarrow> read_of w' i = length (nd_Leaves n))" for i
  proof (cases "map_of (wk_nodes w) i")
    case None
    then have "i \<noteq> j" using nth_mem [OF assms(4)] assms(5) by (force simp: map_of_eq_None_iff)
    with None show ?thesis by (simp add: read_of_def)
  next
    case (Some m)
    then obtain q where q: "q < length (wk_nodes w)" "wk_nodes w ! q = (i, m)" by (rule map_of_index)
    have "q = k" if "i = j" using nth_eq_iff_index_eq [OF d(1), of q k] q assms(4,5) that by simp
    moreover have "nd_scanned n \<le> length (nd_Leaves n)" using nok by (simp add: node_ok_def)
    moreover have "read_of w i = nd_scanned m" using read_of_nth [OF d(1) q(1)] q(2) by simp
    moreover have "read_of w' i = (if q = k then length (nd_Leaves n) else nd_scanned m)"
      using read_of_nth [OF d(2), of q] t(2) t(3) [of q] q by simp
    ultimately show ?thesis using q(2) assms(5) by auto
  qed
  have j: "j \<in> readable resolve" using nodes_readable(2) [OF ok(1) assms(3,4)] assms(5) by simp
  have "length (nd_Leaves n) \<le> cap resolve j" using node_paths_once(2) [OF nok assms(2)] nok by (simp add: node_ok_def cap_def)
  moreover have "read_of w j = nd_scanned n" using read_of_nth [OF d(1) assms(4)] assms(5) by simp
  moreover have "nd_scanned n < length (nd_Leaves n)" using nok assms(6) by (simp add: node_ok_def)
  ultimately have "cap resolve j - read_of w' j < cap resolve j - read_of w j" using grow [of j] by simp
  moreover have "\<forall>i \<in> readable resolve. cap resolve i - read_of w' i \<le> cap resolve i - read_of w i" using grow by (simp add: diff_le_mono2)
  ultimately show ?thesis unfolding unread_leaves_def using assms(3) j by (intro sum_strict_mono_ex1) auto
qed

definition turns :: "resolver \<Rightarrow> nat \<Rightarrow> bool \<Rightarrow> work \<Rightarrow> nat" where
  "turns resolve i changed w =
     unread_leaves resolve w * (2 * (card (readable resolve) + 2)) + (if changed then card (readable resolve) + 2 else 0) +
     (card (readable resolve) + 1 - i)"

lemma work_loop_ends:
  assumes "loop_ok resolve p w" "sessions_wf resolve" "finite (readable resolve)" "turns resolve i changed w < fuel"
  shows "\<exists>w'. work_loop canon resolve fuel i changed w = Some w'"
  using assms(1,4)
proof (induction fuel arbitrary: i changed w)
  case (Suc fuel)
  have ok: "work_ok resolve w" using Suc.prems(1) by (simp add: loop_ok_def)
  note len = nodes_readable(1) [OF ok assms(3)]
  show ?case
  proof (cases "i < length (wk_nodes w)")
    case True
    obtain j n where n: "wk_nodes w ! i = (j, n)" by fastforce
    show ?thesis
    proof (cases "nd_scanned n = length (nd_Leaves n)")
      case r: True
      have "turns resolve (Suc i) changed w < turns resolve i changed w" using True len by (simp add: turns_def)
      with Suc.IH [of w "Suc i" changed] Suc.prems True n r show ?thesis by simp
    next
      case r: False
      define w' where "w' = scan_paths canon resolve (node_paths n) j (set_node j (n\<lparr>nd_scanned := length (nd_Leaves n)\<rparr>) w)"
      have l: "loop_ok resolve p w'" by (rule read_turn(1) [OF Suc.prems(1) assms(2) True n refl w'_def r])
      have "Suc (unread_leaves resolve w') \<le> unread_leaves resolve w"
        using turn_decreases [OF Suc.prems(1) assms(2,3) True n r w'_def] by simp
      from mult_le_mono1 [OF this, of "2 * (card (readable resolve) + 2)"]
      have "turns resolve (Suc i) True w' < turns resolve i changed w" using True len by (simp add: turns_def)
      with Suc.IH [of w' "Suc i" True] Suc.prems(2) l True n r show ?thesis by (simp add: w'_def)
    qed
  next
    case False
    show ?thesis
    proof (cases changed)
      case True
      have "turns resolve 0 False w < turns resolve i changed w" using True by (simp add: turns_def)
      with Suc.IH [of w 0 False] Suc.prems True False show ?thesis by simp
    qed (use False in simp)
  qed
qed simp

lemma loop_start:
  assumes "inj_on e_id (set p)"
  shows "loop_ok resolve p (scan_paths canon resolve [p] [] no_work)"
proof -
  let ?w = "scan_paths canon resolve [p] [] no_work"
  have "work_ok resolve no_work" "from_ok (wk_nodes no_work) (length (wk_nodes no_work)) []"
    by (simp_all add: work_but_def no_work_def from_ok_def)
  moreover have "one_each [p]" using assms by (simp add: one_each_def)
  ultimately have s: "work_ok resolve ?w" "extends no_work ?w" "closed ?w p" using scan_paths_ok [OF _ _ _ refl] by auto
  have "nd_scanned (snd (wk_nodes ?w ! k)) = 0" if "k < length (wk_nodes ?w)" for k
    using extends_new [OF s(2) _ that] by (simp add: no_work_def)
  with s show ?thesis by (simp add: loop_ok_def)
qed

section \<open>The forest of delegated sessions\<close>

fun sessions_of :: "delegated \<Rightarrow> string list" where
  "sessions_of (Delegated l i lv cs ch) = i # concat (map sessions_of ch)"

definition forest_sessions :: "delegated list \<Rightarrow> string list" where
  "forest_sessions ds = concat (map sessions_of ds)"

text \<open>The nodes below a parent, down to a depth; those with leaves.\<close>

definition below :: "(string \<times> node) list \<Rightarrow> string \<Rightarrow> (string \<times> node) list" where
  "below ns parent = filter (\<lambda>(i, n). nd_parent n = parent \<and> nd_Leaves n \<noteq> []) ns"

lemma forest_build:
  "forest_sessions (build pl (Suc k) ns parent) = concat (map (\<lambda>(i, n). i # forest_sessions (build pl k ns i)) (below ns parent))"
  by (simp add: forest_sessions_def below_def comp_def case_prod_unfold)

definition ordered :: "(string \<times> node) list \<Rightarrow> bool" where
  "ordered ns \<longleftrightarrow> distinct (map fst ns) \<and> [] \<notin> fst ` set ns \<and> (\<forall>k < length ns. from_ok ns k (nd_parent (snd (ns ! k))))"

lemma work_ordered: "work_ok resolve w \<Longrightarrow> ordered (wk_nodes w)"
  by (auto simp: work_but_def ordered_def list_all_iff node_ok_def)

text \<open>The place of a session in the order of registration, from 1; that of the path is 0.\<close>

definition place :: "(string \<times> node) list \<Rightarrow> string \<Rightarrow> nat" where
  "place ns i = (if i = [] then 0 else Suc (LEAST k. k < length ns \<and> fst (ns ! k) = i))"

lemma place_nth:
  assumes "ordered ns" "k < length ns"
  shows "place ns (fst (ns ! k)) = Suc k"
proof -
  have "fst (ns ! k) \<noteq> []" using assms by (metis ordered_def image_eqI nth_mem)
  moreover have "(LEAST j. j < length ns \<and> fst (ns ! j) = fst (ns ! k)) = k"
    using assms nth_eq_iff_index_eq [of "map fst ns"] by (intro Least_equality) (auto simp: ordered_def)
  ultimately show ?thesis by (simp add: place_def)
qed

lemma place_parent:
  assumes "ordered ns" "(i, n) \<in> set ns"
  shows "place ns (nd_parent n) < place ns i"
proof -
  obtain k where k: "k < length ns" "ns ! k = (i, n)" using assms(2) by (auto simp: in_set_conv_nth)
  then have "from_ok ns k (nd_parent n)" using assms(1) by (auto simp: ordered_def)
  moreover have "place ns i = Suc k" using place_nth [OF assms(1) k(1)] k(2) by simp
  moreover have "place ns (nd_parent n) < Suc k" if "j < k" "fst (ns ! j) = nd_parent n" for j
    using place_nth [OF assms(1), of j] that k(1) by simp
  moreover have "place ns [] = 0" by (simp add: place_def)
  ultimately show ?thesis by (auto simp: from_ok_def)
qed

lemma place_le: "ordered ns \<Longrightarrow> i \<in> fst ` set ns \<Longrightarrow> place ns i \<le> length ns"
  using place_nth by (fastforce simp: in_set_conv_nth)

lemma one_node: "ordered ns \<Longrightarrow> (i, n) \<in> set ns \<Longrightarrow> (i, m) \<in> set ns \<Longrightarrow> n = m"
  by (auto simp: ordered_def dest: eq_key_imp_eq_value)

text \<open>The sessions with leaves below a session, by the session that named each first.\<close>

inductive under :: "(string \<times> node) list \<Rightarrow> string \<Rightarrow> string \<Rightarrow> bool" for ns p where
  child: "(i, n) \<in> set ns \<Longrightarrow> nd_Leaves n \<noteq> [] \<Longrightarrow> nd_parent n = p \<Longrightarrow> under ns p i"
| deeper: "(i, n) \<in> set ns \<Longrightarrow> nd_Leaves n \<noteq> [] \<Longrightarrow> under ns p (nd_parent n) \<Longrightarrow> under ns p i"

inductive_cases underE: "under ns p i"

lemma under_parent:
  assumes "under ns p i" "ordered ns" "(i, n) \<in> set ns"
  shows "p = nd_parent n \<or> under ns p (nd_parent n)"
  using assms(1)
proof (rule underE)
  fix m assume "(i, m) \<in> set ns" "nd_parent m = p"
  with one_node [OF assms(2,3)] show ?thesis by blast
next
  fix m assume "(i, m) \<in> set ns" "under ns p (nd_parent m)"
  with one_node [OF assms(2,3)] show ?thesis by blast
qed

lemma below_set: "(i, n) \<in> set (below ns p) \<longleftrightarrow> (i, n) \<in> set ns \<and> nd_parent n = p \<and> nd_Leaves n \<noteq> []"
  by (auto simp: below_def)

lemma under_place: "under ns p i \<Longrightarrow> ordered ns \<Longrightarrow> place ns p < place ns i"
proof (induction rule: under.induct)
  case (deeper i n)
  then show ?case using place_parent [of ns i n] by simp
qed (use place_parent in blast)

lemma under_trans: "under ns q i \<Longrightarrow> under ns p q \<Longrightarrow> under ns p i"
  by (induction rule: under.induct) (auto intro: under.intros)

lemma under_top:
  assumes "under ns p i"
  shows "\<exists>c n. (c, n) \<in> set (below ns p) \<and> (i = c \<or> under ns c i)"
  using assms
proof (induction rule: under.induct)
  case (child i n)
  then show ?case by (auto simp: below_set)
next
  case (deeper i n)
  then show ?case by (metis under.intros)
qed

lemma under_linear:
  assumes "ordered ns" "under ns a i" "b = i \<or> under ns b i"
  shows "a = b \<or> under ns a b \<or> under ns b a"
  using assms(2,3)
proof (induction rule: under.induct)
  case (child i n)
  show ?case
  proof (cases "b = i")
    case True
    with child show ?thesis using under.child by blast
  next
    case False
    with child.prems have "under ns b i" by simp
    from under_parent [OF this assms(1) child(1)] child(3) show ?thesis by auto
  qed
next
  case (deeper i n)
  show ?case
  proof (cases "b = i")
    case True
    with deeper show ?thesis using under.deeper by blast
  next
    case False
    with deeper.prems have "under ns b i" by simp
    from under_parent [OF this assms(1) deeper(1)] have "b = nd_parent n \<or> under ns b (nd_parent n)" .
    with deeper.IH show ?thesis by blast
  qed
qed

lemma siblings_apart:
  assumes "ordered ns" "(a, n) \<in> set (below ns p)" "(b, m) \<in> set (below ns p)" "a = i \<or> under ns a i" "b = i \<or> under ns b i"
  shows "a = b"
proof (rule ccontr)
  assume ab: "a \<noteq> b"
  have no: "\<not> under ns x y" if x: "(x, u) \<in> set (below ns p)" and y: "(y, v) \<in> set (below ns p)" for x y u v
  proof
    assume "under ns x y"
    have "(y, v) \<in> set ns" "nd_parent v = p" using y by (simp_all add: below_set)
    with under_parent [OF \<open>under ns x y\<close> assms(1), of v] have "x = p \<or> under ns x p" by simp
    then have "place ns x \<le> place ns p" using under_place [OF _ assms(1)] by fastforce
    with place_parent [OF assms(1), of x u] x show False by (auto simp: below_set)
  qed
  from assms(4,5) ab under_linear [OF assms(1), of a i b] have "under ns a b \<or> under ns b a" by auto
  with no assms(2,3) show False by blast
qed

lemma forest_under:
  assumes "ordered ns"
  shows "distinct (forest_sessions (build pl k ns p)) \<and> (\<forall>i \<in> set (forest_sessions (build pl k ns p)). under ns p i)"
proof (induction k arbitrary: p)
  case 0
  show ?case by (simp add: forest_sessions_def)
next
  case (Suc k)
  have sub: "under ns p i" if "(c, n) \<in> set (below ns p)" "i = c \<or> i \<in> set (forest_sessions (build pl k ns c))" for c n i
    using that Suc.IH [of c] under_trans [of ns c i p] under.child [of c n ns p] by (auto simp: below_set)
  have bd: "distinct (map fst (below ns p))" using assms distinct_map_filter unfolding below_def ordered_def by blast
  have "distinct (concat (map (\<lambda>(i, n). i # forest_sessions (build pl k ns i)) xs))"
    if "distinct (map fst xs)" "set xs \<subseteq> set (below ns p)" for xs
    using that
  proof (induction xs)
    case (Cons x xs)
    obtain c n where x: "x = (c, n)" by fastforce
    have c: "(c, n) \<in> set (below ns p)" using Cons.prems x by simp
    have nc: "distinct (c # forest_sessions (build pl k ns c))" using Suc.IH [of c] under_place [of ns c c, OF _ assms] by auto
    have apart: "i \<notin> set (concat (map (\<lambda>(i, n). i # forest_sessions (build pl k ns i)) xs))"
      if i: "i = c \<or> i \<in> set (forest_sessions (build pl k ns c))" for i
    proof
      assume "i \<in> set (concat (map (\<lambda>(i, n). i # forest_sessions (build pl k ns i)) xs))"
      then obtain b m where b: "(b, m) \<in> set xs" "i = b \<or> i \<in> set (forest_sessions (build pl k ns b))" by auto
      have "c = i \<or> under ns c i" "b = i \<or> under ns b i" using i b(2) Suc.IH by blast+
      then have "c = b" using siblings_apart [OF assms c, of b m i] b(1) Cons.prems(2) by auto
      with b(1) Cons.prems(1) x show False by force
    qed
    have tl: "distinct (concat (map (\<lambda>(i, n). i # forest_sessions (build pl k ns i)) xs))" using Cons.IH Cons.prems by simp
    have "i \<notin> set (concat (map (\<lambda>(i, n). i # forest_sessions (build pl k ns i)) xs))" if "i \<in> set (c # forest_sessions (build pl k ns c))" for i
      using that by (intro apart) (simp only: list.set insert_iff)
    then have "set (c # forest_sessions (build pl k ns c)) \<inter> set (concat (map (\<lambda>(i, n). i # forest_sessions (build pl k ns i)) xs)) = {}"
      by blast
    with nc tl show ?case unfolding x list.map concat.simps prod.case distinct_append by blast
  qed simp
  from this [OF bd] have d: "distinct (forest_sessions (build pl (Suc k) ns p))" unfolding forest_build by simp
  have "under ns p i" if "i \<in> set (forest_sessions (build pl (Suc k) ns p))" for i
    using that sub unfolding forest_build by auto
  with d show ?case by blast
qed

lemma forest_reaches:
  assumes "ordered ns"
  shows "under ns p i \<Longrightarrow> place ns i - place ns p \<le> k \<Longrightarrow> i \<in> set (forest_sessions (build pl k ns p))"
proof (induction k arbitrary: p)
  case 0
  with under_place [OF 0(1) assms] show ?case by simp
next
  case (Suc k)
  obtain c n where c: "(c, n) \<in> set (below ns p)" "i = c \<or> under ns c i" using under_top [OF Suc.prems(1)] by blast
  have "i = c \<or> i \<in> set (forest_sessions (build pl k ns c))"
  proof (cases "i = c")
    case False
    have "place ns p < place ns c" using c(1) place_parent [OF assms, of c n] by (auto simp: below_set)
    with Suc.prems(2) False c(2) under_place [OF _ assms, of c i] show ?thesis by (intro disjI2 Suc.IH) auto
  qed simp
  with c(1) show ?case unfolding forest_build by force
qed

lemma all_under:
  assumes "ordered ns" "k < length ns" "nd_Leaves (snd (ns ! k)) \<noteq> []"
  shows "under ns [] (fst (ns ! k))"
  using assms(2,3)
proof (induction k rule: less_induct)
  case (less k)
  obtain i n where n: "ns ! k = (i, n)" by fastforce
  then have m: "(i, n) \<in> set ns" using less.prems(1) nth_mem by metis
  have "from_ok ns k (nd_parent n)" using assms(1) less.prems(1) n by (auto simp: ordered_def)
  then consider "nd_parent n = []" | j where "j < k" "fst (ns ! j) = nd_parent n" "nd_Leaves (snd (ns ! j)) \<noteq> []"
    by (auto simp: from_ok_def)
  then show ?case
  proof cases
    case 1
    with m less.prems n show ?thesis by (auto intro: under.child)
  next
    case (2 j)
    with less.IH [of j] less.prems(1) have "under ns [] (nd_parent n)" by simp
    with m less.prems n show ?thesis by (auto intro: under.deeper)
  qed
qed

lemma forest_exact:
  assumes "ordered ns"
  shows "set (forest_sessions (build pl (Suc (length ns)) ns [])) = {i. \<exists>n. (i, n) \<in> set ns \<and> nd_Leaves n \<noteq> []}"
proof (intro equalityI subsetI)
  fix i assume "i \<in> set (forest_sessions (build pl (Suc (length ns)) ns []))"
  then have "under ns [] i" using forest_under [OF assms] by blast
  then show "i \<in> {i. \<exists>n. (i, n) \<in> set ns \<and> nd_Leaves n \<noteq> []}" by (auto elim: underE)
next
  fix i assume "i \<in> {i. \<exists>n. (i, n) \<in> set ns \<and> nd_Leaves n \<noteq> []}"
  then obtain n k where k: "k < length ns" "ns ! k = (i, n)" "nd_Leaves n \<noteq> []" by (auto simp: in_set_conv_nth)
  then have "under ns [] i" using all_under [OF assms, of k] by simp
  moreover have "place ns i = Suc k" using place_nth [OF assms k(1)] k(2) by simp
  ultimately show "i \<in> set (forest_sessions (build pl (Suc (length ns)) ns []))"
    using k(1) by (intro forest_reaches [OF assms]) simp_all
qed

section \<open>What is counted\<close>

abbreviation call_id :: "model_call \<Rightarrow> eid" where
  "call_id c \<equiv> b_ID (base_of (mc_Entry c))"

lemma count_once_ids: "distinct (map call_id (count_once X cs)) \<and> call_id ` set (count_once X cs) = call_id ` set cs - X"
  by (induction X cs rule: count_once.induct) auto

lemma count_once_sub: "set (count_once X cs) \<subseteq> set cs"
  by (induction X cs rule: count_once.induct) auto

fun all_delegated :: "delegated \<Rightarrow> delegated list" where
  "all_delegated (Delegated l i lv cs ch) = Delegated l i lv cs ch # concat (map all_delegated ch)"

lemma all_delegated_node:
  "d \<in> set ds \<Longrightarrow> ds = build pl k ns p \<Longrightarrow> x \<in> set (all_delegated d) \<Longrightarrow>
   \<exists>i n. (i, n) \<in> set ns \<and> nd_Leaves n \<noteq> [] \<and> dg_Session x = i \<and> dg_Leaves x = nd_Leaves n \<and>
     dg_Calls x = count_once {} (concat (map (ModelCalls pl) (node_paths n)))"
proof (induction k arbitrary: p d ds)
  case (Suc k)
  then obtain i n where n: "(i, n) \<in> set ns" "nd_Leaves n \<noteq> []"
      "d = Delegated (nd_Link n) i (nd_Leaves n) (count_once {} (concat (map (ModelCalls pl) (node_paths n)))) (build pl k ns i)"
    by auto
  show ?case
  proof (cases "x = d")
    case True
    with n show ?thesis by auto
  next
    case False
    with Suc.prems(3) n(3) obtain d' where "d' \<in> set (build pl k ns i)" "x \<in> set (all_delegated d')" by auto
    from Suc.IH [OF this(1) refl this(2)] show ?thesis .
  qed
qed simp

lemma DelegatedWork_state:
  assumes "sessions_wf resolve" "inj_on e_id (set p)" "DelegatedWork canon pl resolve fuel p = Some (children, missed)"
  obtains w where "loop_ok resolve p w" "\<forall>k < length (wk_nodes w). all_read w k" "missed = wk_unread w"
    "children = build pl (Suc (length (wk_nodes w))) (wk_nodes w) []"
proof -
  from assms(3) obtain w where w: "work_loop canon resolve fuel 0 False (scan_paths canon resolve [p] [] no_work) = Some w"
      "missed = wk_unread w" "children = build pl (Suc (length (wk_nodes w))) (wk_nodes w) []"
    by (auto simp: DelegatedWork_def simp del: build.simps)
  from work_loop_done [OF w(1) loop_start [OF assms(2)] assms(1)] w that show ?thesis by blast
qed

lemma closed_counted:
  assumes "loop_ok resolve p w" "closed w q" "e \<in> set q" "subsession_link e = Some l"
  shows "ln_Session l \<in> set (forest_sessions (build pl (Suc (length (wk_nodes w))) (wk_nodes w) [])) \<or>
    ln_Session l \<in> ur_Session ` set (wk_unread w)"
proof -
  have ok: "work_ok resolve w" using assms(1) by (simp add: loop_ok_def)
  have "handled l w" using assms(2-4) by (auto simp: closed_def)
  then consider "ln_Session l \<in> wk_failed w" | n where "(ln_Session l, n) \<in> set (wk_nodes w)" by (auto simp: handled_def)
  then show ?thesis
  proof cases
    case 1
    with ok show ?thesis by (auto simp: work_but_def reported_def)
  next
    case (2 n)
    show ?thesis
    proof (cases "nd_Leaves n = []")
      case True
      moreover have "ln_Session l \<noteq> []" using subsession_link_entry [OF assms(4)] by simp
      ultimately have "reported w (ln_Session l)" using ok 2 by (auto simp: work_but_def)
      then show ?thesis by (simp add: reported_def)
    next
      case False
      with 2 have "ln_Session l \<in> {i. \<exists>n. (i, n) \<in> set (wk_nodes w) \<and> nd_Leaves n \<noteq> []}" by blast
      with forest_exact [OF work_ordered [OF ok], of pl] show ?thesis by blast
    qed
  qed
qed

lemma delegated_read:
  assumes "loop_ok resolve p w" "\<forall>k < length (wk_nodes w). all_read w k" "(i, n) \<in> set (wk_nodes w)" "leaf \<in> set (nd_Leaves n)"
  shows "resolve i = Inr (Some (nd_session n))" "Path (nd_session n) (dl_Entry leaf) \<noteq> []" "closed w (Path (nd_session n) (dl_Entry leaf))"
    "distinct (map dl_Entry (nd_Leaves n))"
proof -
  obtain k where k: "k < length (wk_nodes w)" "wk_nodes w ! k = (i, n)" using assms(3) by (auto simp: in_set_conv_nth)
  have "node_ok resolve (i, n)" using assms(1,3) by (auto simp: loop_ok_def work_but_def list_all_iff)
  then show "resolve i = Inr (Some (nd_session n))" "Path (nd_session n) (dl_Entry leaf) \<noteq> []" "distinct (map dl_Entry (nd_Leaves n))"
    using assms(4) by (auto simp: node_ok_def leaf_ids_def)
  have "nd_scanned n = length (leaf_ids n)" using assms(2) [rule_format, OF k(1)] k(2) by (simp add: all_read_def leaf_ids_def)
  moreover have "dl_Entry leaf \<in> set (leaf_ids n)" using assms(4) by (simp add: leaf_ids_def)
  ultimately show "closed w (Path (nd_session n) (dl_Entry leaf))" using assms(1) k by (fastforce simp: loop_ok_def)
qed

end
