(* ===== verification/Cost_Properties.thy ===== *)
theory Cost_Properties
  imports Cost_Work Examples
begin

text \<open>What \<open>DelegatedWork\<close> counts, for any reader of sessions and any path.\<close>

section \<open>Fuel\<close>

text \<open>More fuel changes nothing.\<close>

lemma work_loop_mono:
  "work_loop canon resolve fuel i changed w = Some w' \<Longrightarrow> fuel \<le> m \<Longrightarrow> work_loop canon resolve m i changed w = Some w'"
proof (induction fuel arbitrary: i changed w m)
  case (Suc fuel)
  then obtain k where m: "m = Suc k" "fuel \<le> k" by (cases m) auto
  obtain j n where n: "i < length (wk_nodes w) \<Longrightarrow> wk_nodes w ! i = (j, n)" by fastforce
  show ?case using Suc.IH [OF _ m(2)] Suc.prems(1) n by (auto simp: m(1) split: if_splits)
qed simp

definition enough :: "resolver \<Rightarrow> nat" where
  "enough resolve =
     (\<Sum>i \<in> readable resolve. cap resolve i) * (2 * (card (readable resolve) + 2)) + card (readable resolve) + 2"

lemma DelegatedWork_ends:
  assumes "sessions_wf resolve" "inj_on e_id (set p)" "finite (readable resolve)"
  shows "\<exists>children missed. \<forall>fuel \<ge> enough resolve. DelegatedWork canon pl resolve fuel p = Some (children, missed)"
proof -
  let ?w = "scan_paths canon resolve [p] [] no_work"
  have "unread_leaves resolve ?w \<le> (\<Sum>i \<in> readable resolve. cap resolve i)" unfolding unread_leaves_def by (rule sum_mono) simp
  from mult_le_mono1 [OF this, of "2 * (card (readable resolve) + 2)"] have "turns resolve 0 False ?w < enough resolve"
    by (simp add: turns_def enough_def)
  from work_loop_ends [OF loop_start [OF assms(2)] assms(1,3) this] obtain w where
    "work_loop canon resolve (enough resolve) 0 False ?w = Some w" by blast
  then have "work_loop canon resolve fuel 0 False ?w = Some w" if "enough resolve \<le> fuel" for fuel using work_loop_mono that by blast
  then show ?thesis by (simp add: DelegatedWork_def del: build.simps)
qed

section \<open>An example\<close>

definition ex_link :: link_entry where
  "ex_link = \<lparr>ln_base = new_base\<lparr>b_ID := ''sha256:l''\<rparr>, ln_Rel = RelSubsession, ln_Session = ''child'', ln_CallID = [],
     ln_SpawnID = ''s'', ln_Target = [], ln_URL = [], ln_Task = [], ln_Context = [], ln_Cancel = []\<rparr>"

definition ex_payload :: payload where
  "ex_payload = \<lparr>pl_usage = (\<lambda>data. None), pl_attempts = (\<lambda>data. None)\<rparr>"

definition ex_resolve :: resolver where
  "ex_resolve i = (if i = ''child'' then Inr (Some ex_session) else Inr None)"

lemma ex_resolve_wf: "sessions_wf ex_resolve" "finite (readable ex_resolve)"
proof -
  have "session_wf ex_session" using reachable_inv [OF ex_session_reachable ex_codec_ok] by (simp add: session_inv_def)
  then show "sessions_wf ex_resolve" by (auto simp: sessions_wf_def ex_resolve_def split: if_splits)
  have "readable ex_resolve = {''child''}" by (auto simp: readable_def ex_resolve_def)
  then show "finite (readable ex_resolve)" by simp
qed

lemma ex_link_sub: "subsession_link (LinkEntry ex_link) = Some ex_link"
  by (simp add: subsession_link_def ex_link_def)

section \<open>Delegated work\<close>

text \<open>
  C14: the delegated work of a path is counted, and counted once.  With sessions that are well formed and
  finitely many, \<open>DelegatedWork\<close> returns, and further turns of its loop change nothing.  No session appears twice in
  the forest it returns.  Each session in it is one the reader holds, over one leaf or more that it holds, none twice,
  and its model calls are those on the paths to its leaves, each entry once however many of the paths it is on.
  Nothing is passed over: the session of every subsession link on the path, and on any path counted in the
  forest, is in the forest itself or reported as unread.
\<close>

theorem delegated_work_counted:
  assumes "sessions_wf resolve" "inj_on e_id (set p)" "finite (readable resolve)"
  shows "\<exists>children missed.
    (\<forall>fuel \<ge> enough resolve. DelegatedWork canon pl resolve fuel p = Some (children, missed)) \<and>
    distinct (forest_sessions children) \<and>
    (\<forall>e \<in> set p. \<forall>l. subsession_link e = Some l \<longrightarrow>
       ln_Session l \<in> set (forest_sessions children) \<union> ur_Session ` set missed) \<and>
    (\<forall>d \<in> set (concat (map all_delegated children)). \<exists>s. resolve (dg_Session d) = Inr (Some s) \<and>
       dg_Leaves d \<noteq> [] \<and> distinct (map dl_Entry (dg_Leaves d)) \<and>
       distinct (map call_id (dg_Calls d)) \<and>
       call_id ` set (dg_Calls d) = call_id ` (\<Union>leaf \<in> set (dg_Leaves d). set (ModelCalls pl (Path s (dl_Entry leaf)))) \<and>
       (\<forall>leaf \<in> set (dg_Leaves d). Path s (dl_Entry leaf) \<noteq> [] \<and>
          (\<forall>e \<in> set (Path s (dl_Entry leaf)). \<forall>l. subsession_link e = Some l \<longrightarrow>
             ln_Session l \<in> set (forest_sessions children) \<union> ur_Session ` set missed)))"
proof -
  obtain children missed where f: "\<forall>fuel \<ge> enough resolve. DelegatedWork canon pl resolve fuel p = Some (children, missed)"
    using DelegatedWork_ends [OF assms] by blast
  obtain w where w: "loop_ok resolve p w" "\<forall>k < length (wk_nodes w). all_read w k" "missed = wk_unread w"
    and c: "children = build pl (Suc (length (wk_nodes w))) (wk_nodes w) []"
    by (rule DelegatedWork_state [OF assms(1,2) f [rule_format, OF le_refl]])
  have o: "ordered (wk_nodes w)" using w(1) by (auto simp: loop_ok_def intro: work_ordered)
  note cl = closed_counted [OF w(1), of _ _ _ pl, folded c w(3)]
  have top: "closed w p" using w(1) by (simp add: loop_ok_def)
  have each: "\<exists>s. resolve (dg_Session d) = Inr (Some s) \<and> dg_Leaves d \<noteq> [] \<and> distinct (map dl_Entry (dg_Leaves d)) \<and>
       distinct (map call_id (dg_Calls d)) \<and>
       call_id ` set (dg_Calls d) = call_id ` (\<Union>leaf \<in> set (dg_Leaves d). set (ModelCalls pl (Path s (dl_Entry leaf)))) \<and>
       (\<forall>leaf \<in> set (dg_Leaves d). Path s (dl_Entry leaf) \<noteq> [] \<and>
          (\<forall>e \<in> set (Path s (dl_Entry leaf)). \<forall>l. subsession_link e = Some l \<longrightarrow>
             ln_Session l \<in> set (forest_sessions children) \<union> ur_Session ` set missed))"
    if d: "d \<in> set (concat (map all_delegated children))" for d
  proof -
    from d obtain c' where "c' \<in> set children" "d \<in> set (all_delegated c')" by auto
    from all_delegated_node [OF this(1) c this(2)] obtain n where n: "(dg_Session d, n) \<in> set (wk_nodes w)" "nd_Leaves n \<noteq> []"
        "dg_Leaves d = nd_Leaves n" "dg_Calls d = count_once {} (concat (map (ModelCalls pl) (node_paths n)))" by blast
    note r = delegated_read [OF w(1,2) n(1)]
    obtain x where x: "x \<in> set (nd_Leaves n)" using n(2) by (cases "nd_Leaves n") auto
    have calls: "set (concat (map (ModelCalls pl) (node_paths n))) = (\<Union>leaf \<in> set (nd_Leaves n). set (ModelCalls pl (Path (nd_session n) (dl_Entry leaf))))"
      by (simp add: node_paths_def)
    have k: "distinct (map call_id (dg_Calls d))" "call_id ` set (dg_Calls d) = call_id ` set (concat (map (ModelCalls pl) (node_paths n)))"
      using count_once_ids [of "{}" "concat (map (ModelCalls pl) (node_paths n))"] unfolding n(4) by simp_all
    show ?thesis
      by (rule exI [of _ "nd_session n"]) (use r(1,4) [OF x] r(2) cl [OF r(3)] n(2,3) k calls in auto)
  qed
  have "distinct (forest_sessions children)" using forest_under [OF o] unfolding c by blast
  with f each cl [OF top] show ?thesis by (intro exI [of _ children] exI [of _ missed]) auto
qed

theorem delegated_work_counted_witness:
  "\<exists>children missed. DelegatedWork (k_canon ex_codec) ex_payload ex_resolve (enough ex_resolve) [LinkEntry ex_link] = Some (children, missed) \<and>
     distinct (forest_sessions children) \<and> ''child'' \<in> set (forest_sessions children) \<union> ur_Session ` set missed"
proof -
  have s: "ln_Session ex_link = ''child''" by (simp add: ex_link_def)
  have i: "inj_on e_id (set [LinkEntry ex_link])" by simp
  obtain children missed where "\<forall>fuel \<ge> enough ex_resolve. DelegatedWork (k_canon ex_codec) ex_payload ex_resolve fuel [LinkEntry ex_link] = Some (children, missed)"
      "distinct (forest_sessions children)"
      "\<forall>e \<in> set [LinkEntry ex_link]. \<forall>l. subsession_link e = Some l \<longrightarrow> ln_Session l \<in> set (forest_sessions children) \<union> ur_Session ` set missed"
    using delegated_work_counted [OF ex_resolve_wf(1) i ex_resolve_wf(2), of "k_canon ex_codec" ex_payload]
    by (elim exE conjE) (rule that; assumption)
  with s ex_link_sub show ?thesis by (intro exI [of _ children] exI [of _ missed]) auto
qed

end
