(* ===== verification/Spec2Isabelle.thy ===== *)
theory Spec2Isabelle
  imports File_Properties Store_Properties Client_Properties Json_Properties Cost_Properties
begin

text \<open>
  A verification of \<open>agentsession\<close>, a Go package that keeps the sessions of agents as append-only
  trees of entries in line-delimited JSON files and stores.  A session has a header and entries; every
  entry names its parent, its ID is a hash of its content, and one entry is the leaf, where the next
  one goes.  Records among the entries tell the life of function calls: dispatches, results, decisions.
  Stores keep sessions, hand out followers and refs, and fork, import and continue sessions.

  \<^bold>\<open>The model and the source.\<close>  One theory per part, in the order of dependency:

  \<^item> \<open>Prelude\<close>: results (\<open>'a res\<close>, an \<open>error\<close> or a value), one error constructor per sentinel of the
    package, and the list lemmas shared.
  \<^item> \<open>Entries\<close>, \<open>Headers\<close> (\<open>entry.go\<close>, \<open>lifecycle.go\<close>, \<open>header.go\<close>): the entry types as records under one
    datatype, the builders, format versions, raising and migration.
  \<^item> \<open>Validation\<close>, \<open>Contexts\<close> (\<open>session.go\<close>, \<open>context.go\<close>, \<open>env.go\<close>, \<open>redacted.go\<close>): \<open>validateEntry\<close>, trust,
    the fold of a path into settings and items, and the deltas a writer computes.
  \<^item> \<open>Calls\<close>, \<open>Call_Lookup\<close>, \<open>Records\<close> (\<open>run.go\<close>): the pass that binds records to calls, the shortcuts an
    append takes, runs, queued inputs, \<open>VerifyRecords\<close>, \<open>VerifyLinks\<close> and \<open>VerifyCopies\<close>.
  \<^item> \<open>Sessions\<close> (\<open>session.go\<close>): the session as a record of its maps, and every operation on it:
    \<open>New\<close>, \<open>Prepare\<close>, \<open>Commit\<close>, \<open>Append\<close>, \<open>Branch\<close>, \<open>Fork\<close>, the head as a compare and swap, compaction.
    \<open>Leaf_Rule\<close>: the leaf a reader resolves, \<open>Extend\<close> and the leaf marks.
  \<^item> \<open>Session_Tree\<close>, \<open>Indexes\<close>, \<open>Call_Rules\<close>, \<open>Session_Steps\<close>, \<open>File_Order\<close>: the invariants, the step
    relation of a session and its reachable states.
  \<^item> \<open>Reading\<close>, \<open>Base_Rule\<close>, \<open>Lines\<close>, \<open>Scanning\<close>, \<open>Round_Trip\<close> (\<open>codec.go\<close>, \<open>scan.go\<close>): \<open>Read\<close>, \<open>Write\<close>
    and \<open>Scan\<close> of files, line by line.
  \<^item> \<open>Wake\<close> (\<open>internal/wake\<close>): the broadcast followers wait on and the poll interval.
  \<^item> \<open>Ref_Names\<close>, \<open>Stores\<close>, \<open>Store_Steps\<close>, \<open>Store_Refs\<close>, \<open>Store_Sessions\<close> (\<open>store.go\<close>, \<open>refs.go\<close>,
    \<open>redactedstore.go\<close>, \<open>import.go\<close>, \<open>blob.go\<close>, \<open>internal/origin\<close>): the memory store, every call of it a
    function on the record of its maps, and its runs as a step relation.
  \<^item> \<open>Follow\<close> (\<open>follow.go\<close>, \<open>internal/follow\<close>): followers, one look at a time.
  \<^item> \<open>Continuation\<close> (\<open>continue.go\<close>, \<open>record.go\<close>, \<open>refs.go\<close>, \<open>origin.go\<close>): successors, the config they start
    with, the end of a chain of them, and the dispatches of a call in the sessions a fork came from.
  \<^item> \<open>Cost\<close>, \<open>Cost_Work\<close> (\<open>cost.go\<close>): the model calls of a path, and the walk over subsession links that finds the
    work it delegated, with the invariant of its loop.
  \<^item> \<open>Runes\<close>, \<open>Numbers\<close>, \<open>Key_Sort\<close>, \<open>Canonical\<close> (\<open>internal/jcs\<close>): the canonical form that is hashed, by a walk
    over the bytes and by decoding, over models of UTF-8, UTF-16, binary64 and the decoder of Go.
    \<open>Canonical_Agree\<close> shows that the two agree, \<open>Canonical_Back\<close> that the form reads back.
  \<^item> \<open>Ijson\<close>, \<open>Ijson_Numbers\<close>, \<open>Ijson_Agree\<close>, \<open>Ijson_Canonical\<close> (\<open>internal/ijson\<close>): the test of I-JSON, by a walk
    over the bytes and by tokens, their agreement, and that a canonical form passes.
  \<^item> \<open>Examples\<close>, \<open>File_Examples\<close>, \<open>Store_Examples\<close>: concrete sessions, files and stores; the properties are in
    this theory (C1 to C13), \<open>File_Properties\<close> (C16 to C22), \<open>Store_Properties\<close> (C23 to C34),
    \<open>Client_Properties\<close> (C35 to C40), \<open>Json_Properties\<close> (C11, C15, C24, C26, C39) and \<open>Cost_Properties\<close> (C14).

  \<^bold>\<open>What is outside.\<close>  SHA-256, the canonical form of an entry and the JSON forms of entries are the fields of a \<open>codec\<close>
  (what a session asks) and a \<open>wire\<close> (what the readers and writers ask); the hash of blobs, the
  identity of a header and the decoders a store calls are the fields of \<open>deps\<close>; what a custom entry says of usage is that of a \<open>payload\<close>.  What is relied on is
  named: \<open>codec_ok\<close> (hashes have the format's notation, normalising keeps parents and leaf labels),
  \<open>hash_stable\<close>, \<open>canonical_lines\<close>, \<open>header_back\<close> and \<open>entry_back\<close> (encoders and decoders invert each
  other), \<open>wire_hashes\<close>, \<open>decodes_members\<close> and \<open>copies\<close>; the examples meet them.  Clocks, fresh IDs and the
  caller's context are arguments.  A timestamp is a number, 0 standing for the zero time; a Go map is a
  function or an association list, so orders Go leaves open are the model's.

  \<^bold>\<open>Concurrency.\<close>  Calls that hold a lock throughout are steps; runs are sequences of steps in any order.
  The pick of a fork's origin is made outside the lock: the states met before and after each of its
  rounds are arguments (\<open>lock_rounds\<close>).  A look of a follower takes the store, the entries and the header
  at three moments.  A caller may write through a session the store shares with it (step \<open>caller\<close>).

  \<^bold>\<open>Loops.\<close>  Walks to the root have one more turn than there are entries, and C3 shows that this is enough;
  the walk up forks has the 64 turns and the retry of an origin the 8 rounds of the code; the chain of
  continuations has fuel, and C38 shows that one turn more than the sessions of the store suffices;
  the loop over delegated sessions has fuel, and C14 shows that \<open>enough\<close>, a bound in the sessions that can be read and
  the entries they hold, suffices.  The readers
  of JSON have fuel of one more than twice the length of the document: of two calls in a row at least one consumes
  a byte, and \<open>decode_fuel\<close> shows that no fuel gives the decoder a result that this one does not.  The byte-level
  walks fall back to it where they have none.  The search for the shortest digits of a double takes up to 1400,
  and \<open>shortest_found\<close> shows that it ends sooner.

  \<^bold>\<open>What the properties show.\<close>  C1 to C13: the records of any session built by the operations verify; the
  tree, its indexes and paths; appends never change what is there; outcomes, the head as compare and
  swap and where that fails to hold; the leaf seen by readers, extenders and marks; calls.  C16 to C22:
  files round trip, every file read gives a well-formed session, the two readers agree, torn lines, the
  base rule.  C23 to C34: wakeups, refs as a compare-and-swap map with an exact log under names that
  never clash, sessions of a store, forks, appends, sweeps.  C35 to C40: followers deliver everything
  once, cursors resume, origins are found, chains end, one successor only.  C11, C15, C24,
  C26 and C39, on JSON: both ways to the canonical form give the same bytes, the form is a fixed point and
  passes the test of I-JSON, the byte-level test passes only what the token loop passes, numbers read back.  C14: delegated work is counted, once, or reported.
  Theorems without an identifier show where the code departs from its comments: \<open>LeafMarkBefore_cleared\<close>,
  \<open>trailing_bracket_accepted\<close> and \<open>long_fraction_passes\<close>.

  \<^bold>\<open>Not modelled.\<close>  The JSON encoders and decoders of entries and headers; \<open>normalise.go\<close>; remapping and
  rewriting of sessions (\<open>remap.go\<close>, \<open>rewrite.go\<close>), which work on JSON forms; the file, content-addressed,
  SQLite and remote stores, which are file, database and network I/O around these operations; exports,
  search and the command line.  Of the parts modelled: string renderings, \<open>SessionFor\<close> and
  \<open>ContinueRef\<close>, the search for the original of a redacted session, and the waits between looks.
\<close>

section \<open>Sessions built through the operations\<close>

text \<open>
  C1: the records of every session built by the operations of the package verify as far as the call
  rules go.  Whatever sequence of creations, forks, appends, commits, extensions and moves of the
  head built the session, \<open>VerifyRecords\<close> of any path of it never reports a call ID that is empty or
  repeated, a spawn ID that is repeated, a decision or dispatch off its call, a record of a copied
  call, or an entry misplaced after an answer, a rejection, a result or an output: what is left to
  report is a path that is not there, the links, the origins of copies and drains, the run
  boundaries, and a call completed without its dispatch.
\<close>

theorem appended_records_verify:
  assumes "reachable k s" and "codec_ok k"
  shows "VerifyRecords k s i \<in> insert (Inr ()) (Inl ` {ENoEntry, ESpawnLink, ECalleeLink, EBadFromLink,
    EBadCopiedFrom, EDrainMismatch, EReasonMismatch, ESourceMismatch, ERecordMissing})"
proof (cases "path s i = [] \<or> VerifyRecords k s i = Inr ()")
  case False
  then obtain x where x: "VerifyRecords k s i = Inl x" and p: "path s i \<noteq> []"
    by (cases "VerifyRecords k s i") auto
  from reachable_inv [OF assms] have inv: "session_wf s" "indexes_ok s" "path_ok (k_canon k) s (path s i)"
    by (auto simp: session_inv_def paths_ok_def)
  from p path_missing [of i s] path_chain(3) [OF inv(1), of i] have d: "distinct (map e_id (path s i))" by auto
  from inv(2) have u: "unrepeated (se_entries s)" by (simp add: indexes_ok_def)
  then have "verifySpawnIDs s = Inr () \<or> verifySpawnIDs s = Inl ESpawnLink"
    by (simp add: verifySpawnIDs_def unrepeated_def spawnids_loop_repeated)
  moreover have "verify_call s (path s i) c = Inr () \<or> verify_call s (path s i) c = Inl ERecordMissing"
    if "c \<in> set (Calls (k_canon k) (path s i))" for c
    using inv(3) that verify_call_ok [of c s "path s i"] by (simp add: path_ok_def)
  ultimately have "x \<in> {ESpawnLink, ECalleeLink, EBadFromLink, EBadCopiedFrom, EDrainMismatch,
    EReasonMismatch, ESourceMismatch, ERecordMissing}"
    using VerifyRecords_path [OF x p verifyCallIDs_ok [OF u] verifyTargets_ok [OF _ d]]
      verifyCopied_ok [of "path s i"] inv(3)
    unfolding path_ok_def by blast
  with x show ?thesis by auto
qed (auto simp: VerifyRecords_def Path_def)

theorem appended_records_verify_witness:
  "reachable ex_codec ex_session \<and> codec_ok ex_codec \<and>
   VerifyRecords ex_codec ex_session ''sha256:d'' \<in> insert (Inr ()) (Inl ` {ENoEntry, ESpawnLink,
     ECalleeLink, EBadFromLink, EBadCopiedFrom, EDrainMismatch, EReasonMismatch, ESourceMismatch,
     ERecordMissing})"
  using appended_records_verify [OF ex_session_reachable ex_codec_ok, of "''sha256:d''"]
    ex_session_reachable ex_codec_ok by blast



text \<open>
  C3: the path to an entry is its ancestry, root first: the walk \<open>path\<close> makes ends within the number
  of entries, the path's last entry is the entry asked for, its first hangs from the root, each entry
  is the parent of the next, and no entry is met twice.
\<close>

theorem path_is_ancestry:
  assumes "reachable k s" and "codec_ok k" and "Entry s i = Some e"
  shows "walk (Suc (length (se_entries s))) (se_byID s) i [] = Some (Path s i) \<and>
    Path s i \<noteq> [] \<and> last (Path s i) = e \<and> e_parent (hd (Path s i)) = [] \<and>
    (\<forall>j. Suc j < length (Path s i) \<longrightarrow> e_parent (Path s i ! Suc j) = e_id (Path s i ! j)) \<and>
    distinct (map e_id (Path s i))"
proof -
  from reachable_inv [OF assms(1,2)] have wf: "session_wf s" by (simp add: session_inv_def)
  from assms(3) have i: "se_byID s i = Some e" by (simp add: Entry_def)
  note pc = path_chain [OF wf, of i]
  have ids: "e_id x = j" if "se_byID s j = Some x" for j x
    using that wf by (auto simp: session_wf_def dest: index_of_Some)
  have "i \<noteq> []" using i ids [OF i] wf session_wf_get [OF wf, of "[]" e]
    by (auto simp: Entry_def session_wf_def tree_wf_def list_all_iff)
  moreover have "length (path s i) \<le> length (se_entries s)"
    using pc i card_mono [of "set (se_entries s)" "set (path s i)"] distinct_card [of "path s i"]
      card_length [of "se_entries s"] by (auto simp: distinct_map)
  ultimately show ?thesis
    using walk_chain [OF pc(1), of "Suc (length (se_entries s))" "[]"] chain_links [OF pc(1) ids]
      path_step [OF wf i] pc(3) i
    by (auto simp: Path_def)
qed

theorem path_is_ancestry_witness:
  "reachable ex_codec ex_session \<and> codec_ok ex_codec \<and> Entry ex_session ''sha256:c'' \<noteq> None \<and>
   map e_id (Path ex_session ''sha256:c'') = [''sha256:a'', ''sha256:b'', ''sha256:c''] \<and>
   distinct (map e_id (Path ex_session ''sha256:c''))"
proof -
  from ex_held obtain e where "Entry ex_session ''sha256:c'' = Some e" by (auto simp: held_def Entry_def)
  with path_is_ancestry [OF ex_session_reachable ex_codec_ok this] ex_session_reachable ex_codec_ok ex_session_path
  show ?thesis by (simp add: Path_def)
qed

text \<open>
  C4: history never changes.  However a session goes on from a state, the entries it held keep their
  lines, an ID it held still names the same entry, and the path to it is the same path.
\<close>

theorem history_stays:
  assumes "reachable k s" and "codec_ok k" and "(session_step k)\<^sup>*\<^sup>* s s'" and "Entry s i = Some e"
  shows "prefix (se_entries s) (se_entries s') \<and> Entry s' i = Some e \<and> Path s' i = Path s i"
proof -
  note inv = reachable_inv [OF assms(1,2)]
  from assms(4) have "held s i" by (simp add: held_def Entry_def)
  with path_session_steps [OF assms(3) inv] session_log.get_stays [OF assms(3) inv assms(4)]
    session_log.steps_grow [OF assms(3) inv]
  show ?thesis by (simp add: Path_def)
qed

theorem history_stays_witness:
  "reachable ex_codec ex_half \<and> codec_ok ex_codec \<and> (session_step ex_codec)\<^sup>*\<^sup>* ex_half ex_whole \<and>
   prefix (se_entries ex_half) (se_entries ex_whole) \<and>
   map e_id (se_entries ex_whole) = [''sha256:a'', ''sha256:b'', ''sha256:c'', ''sha256:d''] \<and>
   Path ex_whole ''sha256:b'' = Path ex_half ''sha256:b''"
proof -
  obtain e where "Entry ex_half ''sha256:b'' = Some e" using ex_half_entry by blast
  from history_stays [OF ex_half_reachable ex_codec_ok ex_half_steps this]
    ex_half_reachable ex_codec_ok ex_half_steps ex_whole_ids
  show ?thesis by blast
qed

text \<open>
  C5: what \<open>Commit\<close> reports is what it did.  A refusal changes nothing; \<open>Held\<close> changes nothing and
  the entry was there; otherwise one entry was added at the end, under an ID not held before, and the
  outcome says where the leaf is: on the new entry, which hangs from the old leaf (\<open>Continued\<close>), where
  it was, the entry hanging elsewhere (\<open>Branched\<close>), on the target of the leaf label, where it may rest
  (\<open>LeafMoved\<close>), or where it was, the target being no place to rest (\<open>LeafNotMoved\<close>).
\<close>

theorem Commit_outcome:
  assumes "codec_ok k" and "session_wf s" and "Commit k now s eo = (s', res)"
  shows "case res of
      Inl x \<Rightarrow> s' = s
    | Inr r \<Rightarrow>
        if r_Outcome r = Held then s' = s \<and> Entry s (r_ID r) \<noteq> None
        else \<exists>e. se_entries s' = se_entries s @ [e] \<and> e_id e = r_ID r \<and> Entry s (r_ID r) = None \<and>
          (case r_Outcome r of
             Continued \<Rightarrow> \<not> is_leaf_label e \<and> e_parent e = se_leaf s \<and> se_leaf s' = r_ID r
           | Branched \<Rightarrow> \<not> is_leaf_label e \<and> e_parent e \<noteq> se_leaf s \<and> se_leaf s' = se_leaf s
           | LeafMoved \<Rightarrow> is_leaf_label e \<and> mayRestOn s' (leaf_target e) \<and> se_leaf s' = leaf_target e
           | LeafNotMoved \<Rightarrow> is_leaf_label e \<and> \<not> mayRestOn s' (leaf_target e) \<and> se_leaf s' = se_leaf s
           | Held \<Rightarrow> False)"
  using assms(1,3)
proof (cases rule: Commit_cases)
  case (added e r)
  have "mayRestOn (moveLeafFor t e) i = mayRestOn t i" for t i by (simp add: moveLeafFor_def)
  with added mayRestOn_self [of e s] show ?thesis
    by (auto simp: outcomeFor_def moveLeafFor_def Entry_def admitted_def)
qed (simp_all add: Entry_def)

theorem Commit_outcome_witness:
  "codec_ok ex_codec \<and> session_wf ex_half \<and>
   (\<exists>r. snd (Commit ex_codec 3 ex_half (Some (ex_calls ! 2))) = Inr r \<and> r_Outcome r = Continued) \<and>
   se_leaf (fst (Commit ex_codec 3 ex_half (Some (ex_calls ! 2)))) = ''sha256:c''"
proof -
  have wf: "session_wf ex_half" using reachable_inv [OF ex_half_reachable ex_codec_ok] by (simp add: session_inv_def)
  let ?c = "Commit ex_codec 3 ex_half (Some (ex_calls ! 2))"
  from ex_outcomes(5) obtain r where r: "snd ?c = Inr r" "r_ID r = ''sha256:c''" "r_Outcome r = Continued"
    by (cases "snd ?c") auto
  from r(1) have "?c = (fst ?c, Inr r)" by (metis prod.collapse)
  from Commit_outcome [OF ex_codec_ok wf this] r wf ex_codec_ok show ?thesis by auto
qed

text \<open>
  C6: moving the head is a compare and swap.  When the head has moved from the one expected nothing
  changes and the caller is told; when \<open>commitHead\<close> adds its label, the head was the one expected, it
  is the target now, in memory and to a reader of the file, and the file grew by the one label.  Of
  two writers that both saw the same head, the one that comes second to a move away from it loses.
\<close>

theorem commitHead_cas:
  assumes "codec_ok k" and "session_wf s" and "commitHead k now s expected to = (s', Inr e)"
    and "Entry s (e_id e) = None"
  shows "se_leaf s = expected \<and> se_leaf s' = to \<and> resolveLeaf s' = to \<and>
    se_entries s' = se_entries s @ [e] \<and> is_leaf_label e \<and> leaf_target e = to \<and>
    (to \<noteq> expected \<longrightarrow> (\<exists>x. commitHead k now' s' expected to' = (s', Inl x)))"
proof -
  from assms(4) have new: "se_byID s (e_id e) = None" by (simp add: Entry_def)
  note h = commitHead_ok [OF assms(1-3) new]
  from commitHead_resolves [OF assms(1-3) new] have "se_leaf s' = to" by simp
  with commitHead_moved [of s' expected k now' to'] commitHead_resolves [OF assms(1-3) new] h show ?thesis
    by auto
qed

theorem commitHead_cas_witness:
  "codec_ok ex_codec \<and> session_wf ex_session \<and> se_leaf ex_session = ''sha256:d'' \<and>
   se_leaf (fst ex_back) = ''sha256:a'' \<and> resolveLeaf (fst ex_back) = ''sha256:a'' \<and>
   (\<exists>x. commitHead ex_codec 9 (fst ex_back) ''sha256:d'' ''sha256:b'' = (fst ex_back, Inl x))"
proof -
  have wf: "session_wf ex_session"
    using reachable_inv [OF ex_session_reachable ex_codec_ok] by (simp add: session_inv_def)
  obtain e where e: "ex_back = (fst ex_back, Inr e)" "e_id e = ''sha256:g''" using ex_back_ok by blast
  have "Entry ex_session (e_id e) = None" using e(2) ex_session_fresh by simp
  from commitHead_cas [OF ex_codec_ok wf e(1) [unfolded ex_back_def] this, of 9 "''sha256:b''"] wf ex_codec_ok
  show ?thesis by (simp add: ex_back_def)
qed


section \<open>The leaf a reader resolves\<close>

text \<open>
  C8: a session that follows a file line by line with \<open>Extend\<close> is on the leaf a read of the whole file
  resolves.  The state it keeps between lines stays exact, so that no line makes it read the file
  again; the one exception is a leaf label written before the entry it names.
\<close>

theorem Extend_follows_Read:
  assumes "codec_ok k" and "session_wf s" and "read_inv s"
    and "Extend k now s eo = (s', Inr r)" and "r_Outcome r \<noteq> Held" and "no_forward s (r_ID r)"
  shows "se_leaf s' = resolveLeaf s' \<and> read_inv s'"
  using Extend_resolves [OF assms] by simp

theorem Extend_follows_Read_witness:
  "codec_ok ex_codec \<and> session_wf ex_half \<and> read_inv ex_half \<and> no_forward ex_half ''sha256:c'' \<and>
   se_leaf (fst ex_extend) = resolveLeaf (fst ex_extend) \<and> read_inv (fst ex_extend)"
proof -
  obtain r where r: "ex_extend = (fst ex_extend, Inr r)" "r_ID r = ''sha256:c''" "r_Outcome r \<noteq> Held"
    using ex_extend_ok by blast
  have "no_forward ex_half (r_ID r)" using ex_half_facts(1) r(2) by simp
  from Extend_follows_Read [OF ex_codec_ok ex_half_wf ex_half_read r(1) [unfolded ex_extend_def] r(3) this]
    ex_codec_ok ex_half_wf ex_half_read ex_half_facts(1)
  show ?thesis by (simp add: ex_extend_def)
qed





text \<open>
  The exception is real.  For a null label on the head, which clears the mark in force,
  \<open>LeafMarkBefore\<close> asks for the same mark ahead; the entry clears it, and the reader resolves the
  entry, not the head.
\<close>

theorem LeafMarkBefore_cleared:
  "\<not> Option.is_none (snd (LeafMarkBefore ex_half ex_null)) \<and> addable (fst ex_ahead) ex_null \<and>
   resolveLeaf (fst ex_ahead) = se_leaf ex_half \<and> resolveLeaf (add ex_null (fst ex_ahead)) = e_id ex_null \<and>
   e_id ex_null \<noteq> se_leaf ex_half"
proof (intro conjI)
  show "\<not> Option.is_none (snd (LeafMarkBefore ex_half ex_null))" by code_simp
  show "addable (fst ex_ahead) ex_null" by code_simp
  show "resolveLeaf (fst ex_ahead) = se_leaf ex_half" by code_simp
  show "resolveLeaf (add ex_null (fst ex_ahead)) = e_id ex_null" by code_simp
  show "e_id ex_null \<noteq> se_leaf ex_half" by code_simp
qed

section \<open>Calls\<close>

text \<open>
  C12: the two lookups an append makes read the same call a pass over the whole path would give.
  \<open>targetCall\<close>, which reads only the entries that bear on the call, finds the call whose entry is the
  target with every flag the full pass gives it, and \<open>callFor\<close> the latest call with the ID.
\<close>

theorem lookups_read_full_calls:
  assumes "reachable k s" and "codec_ok k"
  shows "targetCall canon (path s i) cid t =
      (case find (\<lambda>c. ca_EntryID c = t) (Calls canon (path s i)) of
         None \<Rightarrow> Inl EBadTarget | Some c \<Rightarrow> if ca_CallID c \<noteq> cid then Inl EBadTarget else Inr c) \<and>
    callFor canon (path s i) cid = find_last (\<lambda>c. ca_CallID c = cid) (Calls canon (path s i))"
proof -
  from reachable_inv [OF assms] have inv: "session_wf s" "indexes_ok s" "well_named (path s i)"
    by (auto simp: session_inv_def paths_ok_def path_ok_def)
  have p: "distinct (map e_id (path s i)) \<and> set (path s i) \<subseteq> set (se_entries s)"
    using path_chain(2,3) [OF inv(1), of i] path_missing [of i s] by (cases "held s i") (auto simp: held_def)
  then have "distinct (call_ids (path s i))"
    using inv(2) by (auto simp: call_ids_collect indexes_ok_def unrepeated_def distinct_map intro: collect_distinct_part)
  with p inv(3) show ?thesis using targetCall_full callFor_full by blast
qed

theorem lookups_read_full_calls_witness:
  "reachable ex_codec ex_session \<and> codec_ok ex_codec \<and>
   callFor (k_canon ex_codec) (path ex_session ''sha256:d'') ''c1'' =
     find_last (\<lambda>c. ca_CallID c = ''c1'') (Calls (k_canon ex_codec) (path ex_session ''sha256:d''))"
  using lookups_read_full_calls [OF ex_session_reachable ex_codec_ok] ex_session_reachable ex_codec_ok by blast

text \<open>
  C13: the indexes an append reads are the entries: in every session built by the operations the call
  IDs, spawn IDs, copied calls, results and dispatches are those of the entries, in file order, and
  no call ID is empty or repeated and no spawn ID repeated, on any branch.
\<close>

theorem indexes_mirror_entries:
  assumes "reachable k s" and "codec_ok k"
  shows "se_callIDs s = set (collect call_of (se_entries s)) \<and>
    se_spawnIDs s = set (collect spawn_of (se_entries s)) \<and>
    se_copied s = set (collect copied_call_of (se_entries s)) \<and>
    se_results s = set (collect result_of (se_entries s)) \<and>
    Dispatches s t = collect (dispatch_at t) (se_entries s) \<and>
    distinct (collect call_of (se_entries s)) \<and> [] \<notin> set (collect call_of (se_entries s)) \<and>
    distinct (collect spawn_of (se_entries s))"
  using reachable_inv [OF assms]
  by (simp add: session_inv_def indexes_ok_def indexed_def unrepeated_def Dispatches_def)

theorem indexes_mirror_entries_witness:
  "reachable ex_codec ex_session \<and> codec_ok ex_codec \<and>
   se_callIDs ex_session = set (collect call_of (se_entries ex_session)) \<and>
   collect call_of (se_entries ex_session) = [''c1''] \<and>
   Dispatches ex_session ''sha256:a'' = collect (dispatch_at ''sha256:a'') (se_entries ex_session)"
proof -
  have "collect call_of (se_entries ex_session) = [''c1'']" by code_simp
  with indexes_mirror_entries [OF ex_session_reachable ex_codec_ok] ex_session_reachable ex_codec_ok
  show ?thesis by blast
qed

text \<open>
  What the methods of a call say agrees with its state.  On every path of a session built by the
  operations a call is in flight exactly when \<open>State\<close> says so, a rejected call was never dispatched
  (its dispatches, if any, were withdrawn), an answer is the last word on its call, and the first
  dispatch is kept exactly while there is one.
\<close>

theorem call_state_agrees:
  assumes "reachable k s" and "codec_ok k" and "c \<in> set (Calls (k_canon k) (path s i))"
  shows "(State h c = CallInFlight \<longleftrightarrow> InFlight c) \<and> (Rejected c \<longrightarrow> ca_Dispatches c = []) \<and>
    (Answered c \<longrightarrow> latestIs c VerdictAnswer) \<and>
    ca_Dispatch c = (case ca_Dispatches c of [] \<Rightarrow> None | d # ds \<Rightarrow> Some d)"
proof -
  from reachable_inv [OF assms(1,2)] assms(3) have cl: "call_clean c"
    by (auto simp: session_inv_def paths_ok_def path_ok_def)
  have "latestIs c VerdictAnswer \<Longrightarrow> Answered c" by (auto simp: verdict_defs list_ex_iff)
  moreover have "Rejected c \<Longrightarrow> ca_Dispatches c = []" "Answered c \<Longrightarrow> latestIs c VerdictAnswer"
    using cl Calls_ends [OF assms(3)] by (auto simp: call_ends_def call_clean_def)
  moreover have "ca_Dispatch c = (case ca_Dispatches c of [] \<Rightarrow> None | d # ds \<Rightarrow> Some d)"
    using Calls_ok [OF assms(3)] by (simp add: call_ok_def)
  ultimately show ?thesis
    by (auto simp: State_def InFlight_def call_Held_def split: list.splits)
qed

theorem call_state_agrees_witness:
  "reachable ex_codec ex_half \<and> codec_ok ex_codec \<and>
   (\<exists>c. Calls (k_canon ex_codec) (path ex_half ''sha256:b'') = [c] \<and> State ex_header c = CallInFlight \<and> InFlight c)"
proof -
  have "map (State ex_header) (Calls (k_canon ex_codec) (path ex_half ''sha256:b'')) = [CallInFlight]" by code_simp
  then obtain c where c: "Calls (k_canon ex_codec) (path ex_half ''sha256:b'') = [c]" "State ex_header c = CallInFlight"
    by auto
  then have "c \<in> set (Calls (k_canon ex_codec) (path ex_half ''sha256:b''))" by simp
  from call_state_agrees [OF ex_half_reachable ex_codec_ok this] c ex_half_reachable ex_codec_ok show ?thesis by blast
qed

text \<open>
  A withdrawn dispatch leaves the call as it was.  For a call of a session built by the
  operations that may be dispatched, the dispatch and then its withdrawal give back the call with the
  pair recorded: its state, its decisions, its dispatches, the key and the arguments in force are the
  ones before.
\<close>

theorem withdrawal_restores:
  assumes "reachable k s" and "codec_ok k" and "c \<in> set (Calls (k_canon k) (path s i))"
    and "dispatch_rule c = Inr ()" and "dc_Withdrawn w" and "dc_Verdict w = VerdictReject"
  shows "take_decision w (take_dispatch d c) =
      c\<lparr>ca_Withdrawn := ca_Withdrawn c @ [(d, w)], ca_lastIsDispatch := False,
        ca_beforeSince := ca_sinceDecision c, ca_beforeArgs := ca_dispatchedArgs c\<rparr> \<and>
    State h (take_decision w (take_dispatch d c)) = State h c \<and>
    IdempotencyKey (take_decision w (take_dispatch d c)) = IdempotencyKey c \<and>
    DispatchedArgs (take_decision w (take_dispatch d c)) = DispatchedArgs c \<and>
    Args (take_decision w (take_dispatch d c)) = Args c"
proof -
  let ?c = "c\<lparr>ca_Withdrawn := ca_Withdrawn c @ [(d, w)], ca_lastIsDispatch := False,
        ca_beforeSince := ca_sinceDecision c, ca_beforeArgs := ca_dispatchedArgs c\<rparr>"
  from reachable_inv [OF assms(1,2)] assms(3) have cl: "call_clean c"
    by (auto simp: session_inv_def paths_ok_def path_ok_def)
  note ok = Calls_ok [OF assms(3)]
  have "ca_Dispatch c = (if ca_Dispatches c = [] then None else ca_Dispatch c)"
    using ok by (auto simp: call_ok_def)
  moreover have "ca_Dispatch c = None \<Longrightarrow> ca_Dispatches c = []" using ok by (simp add: call_ok_def split: list.splits)
  moreover have "\<not> Answered c" "\<not> Rejected c" "ca_Output c = None" "\<not> Returned c"
    using assms(4) by (auto simp: dispatch_rule_def split: if_splits)
  moreover from this have "\<not> ca_resultAfterLast c" using ok by (auto simp: call_ok_def Returned_def)
  ultimately have "take_decision w (take_dispatch d c) = ?c"
    using cl assms(5,6)
    by (auto simp: take_decision_def withdraws_def take_dispatch_def take_withdrawal_def Let_def clean_defs
        first_of_def)
  then show ?thesis by (simp add: views_withdrawn)
qed

theorem withdrawal_restores_witness:
  "reachable ex_codec ex_half \<and> codec_ok ex_codec \<and>
   (\<exists>c. Calls (k_canon ex_codec) (path ex_half ''sha256:b'') = [c] \<and> dispatch_rule c = Inr () \<and>
     State ex_header (take_decision (NewWithdrawal ''c1'' ''sha256:a'' ''host'' [])
       (take_dispatch (NewDispatch ''c1'' ''sha256:a'') c)) = CallInFlight)"
proof -
  have "map (\<lambda>c. (State ex_header c, isl (dispatch_rule c))) (Calls (k_canon ex_codec) (path ex_half ''sha256:b'')) =
    [(CallInFlight, False)]" by code_simp
  then obtain c where c: "Calls (k_canon ex_codec) (path ex_half ''sha256:b'') = [c]" "State ex_header c = CallInFlight"
      "dispatch_rule c = Inr ()"
    by (auto simp: isl_def) (metis obj_sumE unit.exhaust)
  then have m: "c \<in> set (Calls (k_canon ex_codec) (path ex_half ''sha256:b''))" by simp
  let ?w = "NewWithdrawal ''c1'' ''sha256:a'' ''host'' []" and ?d = "NewDispatch ''c1'' ''sha256:a''"
  have "dc_Withdrawn ?w" "dc_Verdict ?w = VerdictReject" by (simp_all add: NewWithdrawal_def)
  note w = withdrawal_restores [OF ex_half_reachable ex_codec_ok m c(3) this, of ?d ex_header]
  have "State ex_header (take_decision ?w (take_dispatch ?d c)) = CallInFlight"
    using w [THEN conjunct2, THEN conjunct1] c(2) by (rule trans)
  with c(1,3) ex_half_reachable ex_codec_ok show ?thesis by blast
qed

end
